(* ===== verification/Prelude.thy ===== *)
theory Prelude
  imports Main "HOL-Library.Word"
begin

text \<open>
  Shared material of the development: the names of the machine types the C++ code uses,
  the fatal outcomes of the code (a failed \<open>GGML_ASSERT\<close>, a \<open>GGML_ABORT\<close>, a C++
  exception), the collections of rewrite rules that the component theories fill, and
  generic facts about updating and traversing vectors.

  Conventions used everywhere: a \<open>std::vector\<close> is a list, a \<open>std::string\<close> is a
  \<open>string\<close> whose characters are its bytes, \<open>llama_pos\<close> is an \<open>int\<close> (the code
  never relies on its wrap-around: signed overflow is undefined in C++), sizes and
  indices are \<open>nat\<close>. The \<open>assert\<close> macro is compiled out of release builds, so
  it is not a branch of a definition; what it demands appears as a hypothesis.
  \<open>GGML_ASSERT\<close> is active in every build and is a branch.
\<close>

section \<open>Names of the model's types and outcomes\<close>

type_synonym llama_pos = int
type_synonym llama_token = int
type_synonym llama_seq_id = nat

text \<open>How a call can end without returning.\<close>

datatype fault =
    Assert_failed        \<comment> \<open>a \<open>GGML_ASSERT\<close> whose condition is false\<close>
  | Aborted              \<comment> \<open>\<open>GGML_ABORT\<close>\<close>
  | Null_dereference     \<comment> \<open>a null pointer is read\<close>
  | Out_of_bounds        \<comment> \<open>a vector is indexed beyond its end\<close>
  | Dangling             \<comment> \<open>a pointer to a freed object is used or freed\<close>
  | Diverged             \<comment> \<open>a loop that never ends (the model ran out of fuel)\<close>
  | Runtime_error string \<comment> \<open>\<open>std::runtime_error\<close> with its message\<close>

type_synonym 'a outcome = "fault + 'a"

definition LLAMA_MAX_SEQ :: nat where
  "LLAMA_MAX_SEQ = 256"

text \<open>\<open>std::numeric_limits<llama_pos>::max()\<close>.\<close>

definition LLAMA_POS_MAX :: int where
  "LLAMA_POS_MAX = 2147483647"

lemma LLAMA_MAX_SEQ_pos [simp]: "0 < LLAMA_MAX_SEQ"
  by (simp add: LLAMA_MAX_SEQ_def)

lemma LLAMA_POS_MAX_pos [simp]: "0 < LLAMA_POS_MAX"
  by (simp add: LLAMA_POS_MAX_def)

section \<open>Vectors\<close>

text \<open>\<open>std::vector::resize(n, d)\<close>.\<close>

definition vec_resize :: "nat \<Rightarrow> 'a \<Rightarrow> 'a list \<Rightarrow> 'a list" where
  "vec_resize n d xs = take n xs @ replicate (n - length xs) d"

lemma length_vec_resize [simp]: "length (vec_resize n d xs) = n"
  by (simp add: vec_resize_def)

lemma vec_resize_Nil [simp]: "vec_resize n d [] = replicate n d"
  by (simp add: vec_resize_def)

text \<open>How the number of entries with a property changes when one entry is overwritten.\<close>

lemma length_filter_update:
  assumes "i < length xs"
  shows "int (length (filter P (xs[i := y]))) =
    int (length (filter P xs)) - of_bool (P (xs ! i)) + of_bool (P y)"
proof -
  have xs: "xs = take i xs @ xs ! i # drop (Suc i) xs"
    using assms by (rule id_take_nth_drop)
  have upd: "xs[i := y] = take i xs @ y # drop (Suc i) xs"
    using assms by (rule upd_conv_take_nth_drop)
  have "length (filter P xs) = length (filter P (take i xs)) + of_bool (P (xs ! i))
      + length (filter P (drop (Suc i) xs))"
    by (subst xs) simp
  then show ?thesis by (simp add: upd)
qed

lemma length_filter_ge_1:
  "i < length xs \<Longrightarrow> P (xs ! i) \<Longrightarrow> 1 \<le> length (filter P xs)"
  using length_filter_update [of i xs P undefined]
  by (metis (no_types, lifting) One_nat_def Suc_leI filter_empty_conv length_greater_0_conv nth_mem)

text \<open>
  A loop over all indices whose body rewrites only the entry it visits, seen through a
  view of the state as a list, maps the body over that list. The per-cell loops of the
  cache are all of this form; \<open>I\<close> is the invariant the body needs and keeps.
\<close>

lemma fold_pointwise:
  assumes step: "\<And>i s. I s \<Longrightarrow> i < length (view s) \<Longrightarrow>
      I (body i s) \<and> view (body i s) = (view s)[i := f (view s ! i)]"
    and "I s" and "n \<le> length (view s)"
  shows "I (fold body [0..<n] s) \<and>
    view (fold body [0..<n] s) = map f (take n (view s)) @ drop n (view s)"
  using assms(3)
proof (induction n)
  case 0
  then show ?case using assms(2) by simp
next
  case (Suc n)
  let ?t = "fold body [0..<n] s"
  have IH: "I ?t" "view ?t = map f (take n (view s)) @ drop n (view s)"
    using Suc by simp_all
  have n: "n < length (view s)" using Suc.prems by simp
  have len: "length (view ?t) = length (view s)"
    using IH(2) n by simp
  have at: "view ?t ! n = view s ! n"
    using n by (simp add: IH(2) nth_append)
  have "view (body n ?t) = (view ?t)[n := f (view ?t ! n)]" "I (body n ?t)"
    using step [OF IH(1)] n len by simp_all
  moreover have "(view ?t)[n := f (view s ! n)] =
      map f (take (Suc n) (view s)) @ drop (Suc n) (view s)"
    using n by (simp add: IH(2) list_update_append take_Suc_conv_app_nth
        Cons_nth_drop_Suc [symmetric])
  ultimately show ?case by (simp add: at)
qed

lemmas fold_pointwise_all = fold_pointwise [where n = "length (view s)" for view s, simplified]

section \<open>Guarded results\<close>

text \<open>Sequencing of steps that may end in a fault.\<close>

definition bind_outcome :: "'a outcome \<Rightarrow> ('a \<Rightarrow> 'b outcome) \<Rightarrow> 'b outcome" where
  "bind_outcome m f = (case m of Inl e \<Rightarrow> Inl e | Inr x \<Rightarrow> f x)"

lemma bind_outcome_simps [simp]:
  "bind_outcome (Inl e) f = Inl e"
  "bind_outcome (Inr x) f = f x"
  by (simp_all add: bind_outcome_def)

lemma bind_outcome_Inr_iff:
  "bind_outcome m f = Inr y \<longleftrightarrow> (\<exists>x. m = Inr x \<and> f x = Inr y)"
  by (cases m) simp_all

lemma bind_outcome_cong [fundef_cong]: "m = m' \<Longrightarrow> (\<And>x. m' = Inr x \<Longrightarrow> f x = g x) \<Longrightarrow> bind_outcome m f = bind_outcome m' g"
  by (cases m') simp_all

definition guard :: "bool \<Rightarrow> unit outcome" where
  "guard b = (if b then Inr () else Inl Assert_failed)"

lemma guard_simps [simp]:
  "guard True = Inr ()"
  "guard False = Inl Assert_failed"
  "guard b = Inr u \<longleftrightarrow> b"
  by (simp_all add: guard_def)

end
