(* ===== verification/Pos_Map.thy ===== *)
theory Pos_Map
  imports Prelude
begin

text \<open>
  The ordered counters \<open>std::map<llama_pos, int>\<close> with which the KV cells count how often
  a position occurs in a sequence (\<open>seq_pos\<close> in \<open>llama-kv-cells.h\<close>). The map is an
  association list kept sorted by key, so \<open>begin()\<close> and \<open>rbegin()\<close> are its first and
  last entries. The locale \<open>pos_counter\<close> is what the cells rely on; the association
  list is shown to provide it.
\<close>

section \<open>The interface\<close>

locale pos_counter =
  fixes empty :: "'m"
    and inc :: "int \<Rightarrow> 'm \<Rightarrow> 'm"
    and dec :: "int \<Rightarrow> 'm \<Rightarrow> 'm"
    and cnt :: "'m \<Rightarrow> int \<Rightarrow> int"
    and is_empty :: "'m \<Rightarrow> bool"
    and lo :: "'m \<Rightarrow> int"
    and hi :: "'m \<Rightarrow> int"
    and inv :: "'m \<Rightarrow> bool"
  assumes inv_empty: "inv empty"
    and cnt_empty: "cnt empty p = 0"
    and inv_inc: "inv m \<Longrightarrow> inv (inc p m)"
    and cnt_inc: "inv m \<Longrightarrow> cnt (inc p m) q = cnt m q + of_bool (p = q)"
    and inv_dec: "inv m \<Longrightarrow> inv (dec p m)"
    and cnt_dec: "inv m \<Longrightarrow> 0 < cnt m p \<Longrightarrow> cnt (dec p m) q = cnt m q - of_bool (p = q)"
    and cnt_nonneg: "inv m \<Longrightarrow> 0 \<le> cnt m p"
    and is_empty_iff: "inv m \<Longrightarrow> is_empty m \<longleftrightarrow> (\<forall>p. cnt m p = 0)"
    and lo_present: "inv m \<Longrightarrow> \<not> is_empty m \<Longrightarrow> 0 < cnt m (lo m)"
    and lo_least: "inv m \<Longrightarrow> 0 < cnt m p \<Longrightarrow> lo m \<le> p"
    and hi_present: "inv m \<Longrightarrow> \<not> is_empty m \<Longrightarrow> 0 < cnt m (hi m)"
    and hi_greatest: "inv m \<Longrightarrow> 0 < cnt m p \<Longrightarrow> p \<le> hi m"
begin

lemma lo_le_hi: "inv m \<Longrightarrow> \<not> is_empty m \<Longrightarrow> lo m \<le> hi m"
  by (blast intro: lo_least hi_present)

text \<open>Two counters with the same counts have the same bounds.\<close>

lemma bounds_determined:
  assumes "inv m" "inv m'" "cnt m = cnt m'" "\<not> is_empty m"
  shows "lo m = lo m'" "hi m = hi m'"
proof -
  have ne: "\<not> is_empty m'" using assms is_empty_iff by metis
  show "lo m = lo m'"
    using assms ne by (metis antisym lo_least lo_present)
  show "hi m = hi m'"
    using assms ne by (metis antisym hi_greatest hi_present)
qed

end

section \<open>The implementation\<close>

type_synonym pos_map = "(int \<times> int) list"

definition pm_empty :: pos_map where
  "pm_empty = []"

text \<open>\<open>m[p]++\<close>: \<open>operator[]\<close> inserts a zero first when the key is absent.\<close>

fun pm_inc :: "int \<Rightarrow> pos_map \<Rightarrow> pos_map" where
  "pm_inc p [] = [(p, 1)]"
| "pm_inc p ((q, c) # m) =
     (if p < q then (p, 1) # (q, c) # m
      else if p = q then (q, c + 1) # m
      else (q, c) # pm_inc p m)"

text \<open>\<open>if (--it->second == 0) erase(it)\<close>, where \<open>it\<close> is \<open>find(p)\<close>, known to exist.\<close>

fun pm_dec :: "int \<Rightarrow> pos_map \<Rightarrow> pos_map" where
  "pm_dec p [] = []"
| "pm_dec p ((q, c) # m) =
     (if p = q then (if c - 1 = 0 then m else (q, c - 1) # m)
      else (q, c) # pm_dec p m)"

definition pm_count :: "pos_map \<Rightarrow> int \<Rightarrow> int" where
  "pm_count m p = (case map_of m p of None \<Rightarrow> 0 | Some c \<Rightarrow> c)"

definition pm_begin :: "pos_map \<Rightarrow> int" where
  "pm_begin m = fst (hd m)"

definition pm_rbegin :: "pos_map \<Rightarrow> int" where
  "pm_rbegin m = fst (last m)"

definition pm_inv :: "pos_map \<Rightarrow> bool" where
  "pm_inv m \<longleftrightarrow> sorted_wrt (<) (map fst m) \<and> (\<forall>(q, c) \<in> set m. 0 < c)"

lemma pm_inv_Nil [simp]: "pm_inv []"
  by (simp add: pm_inv_def)

lemma pm_inv_Cons [simp]:
  "pm_inv ((q, c) # m) \<longleftrightarrow> 0 < c \<and> (\<forall>r \<in> fst ` set m. q < r) \<and> pm_inv m"
  by (auto simp: pm_inv_def)

lemma pm_count_Nil [simp]: "pm_count [] p = 0"
  by (simp add: pm_count_def)

lemma pm_count_Cons [simp]:
  "pm_count ((q, c) # m) p = (if p = q then c else pm_count m p)"
  by (simp add: pm_count_def)

lemma pm_count_pos_iff: "pm_inv m \<Longrightarrow> 0 < pm_count m p \<longleftrightarrow> p \<in> fst ` set m"
proof (induction m)
  case (Cons a m)
  then show ?case by (cases a) auto
qed simp

lemma pm_count_absent: "p \<notin> fst ` set m \<Longrightarrow> pm_count m p = 0"
  by (induction m) auto

lemma pm_count_below: "\<forall>r \<in> fst ` set m. b < r \<Longrightarrow> q \<le> b \<Longrightarrow> pm_count m q = 0"
  by (rule pm_count_absent) force

lemma fst_set_pm_inc: "fst ` set (pm_inc p m) = insert p (fst ` set m)"
  by (induction p m rule: pm_inc.induct) auto

lemma fst_set_pm_dec: "fst ` set (pm_dec p m) \<subseteq> fst ` set m"
  by (induction p m rule: pm_dec.induct) auto

lemma pm_inv_inc: "pm_inv m \<Longrightarrow> pm_inv (pm_inc p m)"
  by (induction p m rule: pm_inc.induct) (auto simp: fst_set_pm_inc simp del: image_iff)

lemma pm_inv_dec: "pm_inv m \<Longrightarrow> pm_inv (pm_dec p m)"
proof (induction p m rule: pm_dec.induct)
  case (2 p q c m)
  then show ?case
    using fst_set_pm_dec [of p m] by (auto simp del: image_iff ball_simps)
qed simp

lemma pm_count_inc: "pm_inv m \<Longrightarrow> pm_count (pm_inc p m) q = pm_count m q + of_bool (p = q)"
  by (induction p m rule: pm_inc.induct) (auto simp: pm_count_below simp del: ball_simps)

lemma pm_count_dec:
  "pm_inv m \<Longrightarrow> 0 < pm_count m p \<Longrightarrow> pm_count (pm_dec p m) q = pm_count m q - of_bool (p = q)"
  by (induction p m rule: pm_dec.induct) (auto simp: pm_count_below simp del: ball_simps split: if_splits)

lemma pm_count_nonneg: "pm_inv m \<Longrightarrow> 0 \<le> pm_count m p"
  by (induction m) auto

lemma pm_empty_iff: "pm_inv m \<Longrightarrow> m = [] \<longleftrightarrow> (\<forall>p. pm_count m p = 0)"
proof (cases m)
  case (Cons a m')
  assume "pm_inv m"
  then have "0 < pm_count m (fst a)" by (simp add: pm_count_pos_iff Cons)
  then show ?thesis using Cons by (metis less_irrefl list.distinct(1))
qed simp

lemma pm_begin_least: "pm_inv m \<Longrightarrow> 0 < pm_count m p \<Longrightarrow> pm_begin m \<le> p"
  by (cases m rule: list.exhaust; cases "hd m")
    (auto simp: pm_begin_def pm_count_pos_iff)

lemma pm_rbegin_greatest: "pm_inv m \<Longrightarrow> 0 < pm_count m p \<Longrightarrow> p \<le> pm_rbegin m"
proof (induction m)
  case (Cons qc m)
  obtain q c where qc: "qc = (q, c)" by (cases qc)
  show ?case
  proof (cases "p = q")
    case True
    have "q < fst (last m)" if "m \<noteq> []"
      using that Cons.prems(1) last_in_set [of m] by (simp add: qc)
    then show ?thesis by (auto simp: pm_rbegin_def qc True)
  next
    case False
    then have "0 < pm_count m p" using Cons.prems by (simp add: qc)
    then show ?thesis using Cons by (auto simp: pm_rbegin_def qc)
  qed
qed simp

lemma pm_begin_present: "pm_inv m \<Longrightarrow> m \<noteq> [] \<Longrightarrow> 0 < pm_count m (pm_begin m)"
  by (cases m) (auto simp: pm_begin_def)

lemma pm_rbegin_present: "pm_inv m \<Longrightarrow> m \<noteq> [] \<Longrightarrow> 0 < pm_count m (pm_rbegin m)"
  by (metis pm_count_pos_iff pm_rbegin_def image_eqI last_in_set)

interpretation pm: pos_counter pm_empty pm_inc pm_dec pm_count "\<lambda>m. m = []" pm_begin pm_rbegin pm_inv
  by unfold_locales
    (simp_all add: pm_empty_def pm_inv_inc pm_inv_dec pm_count_inc pm_count_dec pm_count_nonneg
      pm_empty_iff pm_begin_least pm_rbegin_greatest pm_begin_present pm_rbegin_present
      del: pm_inv_Cons flip: pm_empty_iff)

text \<open>A sorted counter is determined by its counts, so incrementing undoes decrementing.\<close>

lemma pm_inv_ext: "pm_inv m \<Longrightarrow> pm_inv m' \<Longrightarrow> pm_count m = pm_count m' \<Longrightarrow> m = m'"
proof (induction m arbitrary: m')
  case Nil
  then show ?case using pm_empty_iff [of m'] by (auto simp: fun_eq_iff)
next
  case (Cons a m)
  obtain q c where a: "a = (q, c)" by (cases a)
  have "m' \<noteq> []" using Cons.prems pm_empty_iff by (metis list.distinct(1))
  then obtain q' c' n where m': "m' = (q', c') # n" by (cases m') auto
  have "pm_begin (a # m) = pm_begin m'"
    using pm.bounds_determined(1) Cons.prems by blast
  then have q: "q' = q" by (simp add: pm_begin_def a m')
  have c: "c' = c" using fun_cong [OF Cons.prems(3), of q] by (simp add: a m' q)
  have "pm_count m r = pm_count n r" for r
    using fun_cong [OF Cons.prems(3), of r] Cons.prems(1,2) pm_count_below [of m q q] pm_count_below [of n q q]
    by (cases "r = q") (auto simp: a m' q)
  then have "m = n" using Cons.IH [of n] Cons.prems(1,2) by (auto simp: a m')
  then show ?case by (simp add: a m' q c)
qed

lemma pm_inc_dec: "pm_inv m \<Longrightarrow> 0 < pm_count m p \<Longrightarrow> pm_inc p (pm_dec p m) = m"
  by (rule pm_inv_ext) (auto simp: pm_inv_inc pm_inv_dec pm_count_inc pm_count_dec fun_eq_iff)

lemma pm_dec_inc: "pm_inv m \<Longrightarrow> pm_dec p (pm_inc p m) = m"
  by (rule pm_inv_ext)
    (auto simp: pm_inv_inc pm_inv_dec pm_count_inc pm_count_dec pm_count_nonneg fun_eq_iff
      add_pos_nonneg add_nonneg_pos)

end
