(* ===== verification/Kv_Cells.thy ===== *)
theory Kv_Cells
  imports Pos_Map
begin

text \<open>
  The metadata of the KV cache cells, \<open>llama-kv-cells.h\<close>: for every cell its position,
  its accumulated shift and the set of sequences that occupy it, together with two
  redundant indices, the set of used cells and, per sequence, the ordered counter of its
  positions. The invariant \<open>cells_inv\<close> says that both indices agree with the cells; every
  operation keeps it, and each operation is characterised by what it does to the plain
  list of (position, sequence set) pairs, \<open>cells_view\<close>.
\<close>

section \<open>Data\<close>

record kv_cell_ext =
  ext_x :: int
  ext_y :: int

definition is_2d_gt :: "kv_cell_ext \<Rightarrow> int \<Rightarrow> int \<Rightarrow> bool" where
  "is_2d_gt e ox oy \<longleftrightarrow> ext_y e > oy \<or> (ext_y e = oy \<and> ext_x e > ox)"

definition ext_reset :: kv_cell_ext where
  "ext_reset = \<lparr>ext_x = 0, ext_y = 0\<rparr>"

record kv_cells =
  kv_has_shift :: bool
  kv_used :: "nat set"
  kv_pos :: "llama_pos list"
  kv_ext :: "kv_cell_ext list"
  kv_shift :: "llama_pos list"
  kv_seq :: "llama_seq_id set list"
  kv_seq_pos :: "llama_seq_id \<Rightarrow> pos_map"

text \<open>A default-constructed \<open>llama_kv_cells\<close>.\<close>

definition cells_new :: kv_cells where
  "cells_new = \<lparr>kv_has_shift = False, kv_used = {}, kv_pos = [], kv_ext = [], kv_shift = [],
     kv_seq = [], kv_seq_pos = (\<lambda>_. pm_empty)\<rparr>"

section \<open>Operations\<close>

definition cells_reset :: "kv_cells \<Rightarrow> kv_cells" where
  "cells_reset c = c\<lparr>
     kv_pos := map (\<lambda>_. -1) (kv_pos c),
     kv_ext := map (\<lambda>_. ext_reset) (kv_ext c),
     kv_shift := map (\<lambda>_. 0) (kv_shift c),
     kv_seq := map (\<lambda>_. {}) (kv_seq c),
     kv_has_shift := False,
     kv_used := {},
     kv_seq_pos := (\<lambda>s. if s < LLAMA_MAX_SEQ then pm_empty else kv_seq_pos c s)\<rparr>"

definition cells_reset_shift :: "kv_cells \<Rightarrow> kv_cells" where
  "cells_reset_shift c = c\<lparr>kv_has_shift := False, kv_shift := map (\<lambda>_. 0) (kv_shift c)\<rparr>"

definition cells_size :: "kv_cells \<Rightarrow> nat" where
  "cells_size c = length (kv_pos c)"

definition cells_resize :: "nat \<Rightarrow> kv_cells \<Rightarrow> kv_cells" where
  "cells_resize n c = cells_reset (c\<lparr>
     kv_pos := vec_resize n 0 (kv_pos c),
     kv_ext := vec_resize n ext_reset (kv_ext c),
     kv_shift := vec_resize n 0 (kv_shift c),
     kv_seq := vec_resize n {} (kv_seq c)\<rparr>)"

definition cells_is_empty :: "kv_cells \<Rightarrow> nat \<Rightarrow> bool" where
  "cells_is_empty c i \<longleftrightarrow> kv_pos c ! i = -1"

definition cells_get_used :: "kv_cells \<Rightarrow> nat" where
  "cells_get_used c = card (kv_used c)"

definition cells_used_min :: "kv_cells \<Rightarrow> nat" where
  "cells_used_min c = (if kv_used c = {} then 0 else Min (kv_used c))"

definition cells_used_max_p1 :: "kv_cells \<Rightarrow> nat" where
  "cells_used_max_p1 c = (if kv_used c = {} then 0 else Max (kv_used c) + 1)"

definition cells_get_has_shift :: "kv_cells \<Rightarrow> bool" where
  "cells_get_has_shift c = kv_has_shift c"

text \<open>The private helpers on \<open>seq_pos\<close>.\<close>

definition cells_seq_pos_dec :: "kv_cells \<Rightarrow> llama_seq_id \<Rightarrow> llama_pos \<Rightarrow> kv_cells" where
  "cells_seq_pos_dec c s p = c\<lparr>kv_seq_pos := (kv_seq_pos c)(s := pm_dec p (kv_seq_pos c s))\<rparr>"

definition cells_seq_pos_inc :: "kv_cells \<Rightarrow> llama_seq_id \<Rightarrow> llama_pos \<Rightarrow> kv_cells" where
  "cells_seq_pos_inc c s p = c\<lparr>kv_seq_pos := (kv_seq_pos c)(s := pm_inc p (kv_seq_pos c s))\<rparr>"

definition cells_seq_pos_rm :: "kv_cells \<Rightarrow> nat \<Rightarrow> kv_cells" where
  "cells_seq_pos_rm c i =
     fold (\<lambda>s c. if s \<in> kv_seq c ! i then cells_seq_pos_dec c s (kv_pos c ! i) else c)
       [0..<LLAMA_MAX_SEQ] c"

definition cells_seq_pos_add :: "kv_cells \<Rightarrow> nat \<Rightarrow> kv_cells" where
  "cells_seq_pos_add c i =
     fold (\<lambda>s c. if s \<in> kv_seq c ! i then cells_seq_pos_inc c s (kv_pos c ! i) else c)
       [0..<LLAMA_MAX_SEQ] c"

text \<open>
  The two overloads of \<open>cp\<close>: the copy is a fresh object, of which only the positions,
  the extra positions and the sequence sets are filled.
\<close>

definition cells_cp :: "kv_cells \<Rightarrow> nat \<Rightarrow> nat \<Rightarrow> kv_cells" where
  "cells_cp c i n = (cells_resize n cells_new)\<lparr>
     kv_pos := map (\<lambda>j. kv_pos c ! (i + j)) [0..<n],
     kv_ext := map (\<lambda>j. kv_ext c ! (i + j)) [0..<n],
     kv_seq := map (\<lambda>j. kv_seq c ! (i + j)) [0..<n]\<rparr>"

definition cells_cp_idxs :: "kv_cells \<Rightarrow> nat list \<Rightarrow> kv_cells" where
  "cells_cp_idxs c idxs = (cells_resize (length idxs) cells_new)\<lparr>
     kv_pos := map (\<lambda>idx. kv_pos c ! idx) idxs,
     kv_ext := map (\<lambda>idx. kv_ext c ! idx) idxs,
     kv_seq := map (\<lambda>idx. kv_seq c ! idx) idxs\<rparr>"

text \<open>The body of both \<open>set\<close> loops: cell \<open>idx\<close> takes over entry \<open>j\<close> of \<open>other\<close>.\<close>

definition cells_set1 :: "kv_cells \<Rightarrow> nat \<Rightarrow> nat \<Rightarrow> kv_cells \<Rightarrow> kv_cells" where
  "cells_set1 other idx j c =
     (let c = (if kv_pos c ! idx = -1 \<and> kv_pos other ! j \<noteq> -1
               then c\<lparr>kv_used := insert idx (kv_used c)\<rparr> else c);
          c = (if kv_pos c ! idx \<noteq> -1 \<and> kv_pos other ! j = -1
               then c\<lparr>kv_used := kv_used c - {idx}\<rparr> else c);
          c = (if kv_pos c ! idx \<noteq> -1 then cells_seq_pos_rm c idx else c);
          c = c\<lparr>kv_pos := (kv_pos c)[idx := kv_pos other ! j],
                kv_ext := (kv_ext c)[idx := kv_ext other ! j],
                kv_seq := (kv_seq c)[idx := kv_seq other ! j]\<rparr>
      in if kv_pos c ! idx \<noteq> -1 then cells_seq_pos_add c idx else c)"

definition cells_set :: "nat \<Rightarrow> kv_cells \<Rightarrow> kv_cells \<Rightarrow> kv_cells" where
  "cells_set i other c =
     fold (\<lambda>j. cells_set1 other (i + j) j) [0..<length (kv_pos other)] c"

definition cells_set_idxs :: "nat list \<Rightarrow> kv_cells \<Rightarrow> kv_cells \<Rightarrow> kv_cells" where
  "cells_set_idxs idxs other c =
     fold (\<lambda>j. cells_set1 other (idxs ! j) j) [0..<length (kv_pos other)] c"

definition cells_rm :: "nat \<Rightarrow> kv_cells \<Rightarrow> kv_cells" where
  "cells_rm i c =
     (let c = cells_seq_pos_rm c i
      in c\<lparr>kv_seq := (kv_seq c)[i := {}], kv_pos := (kv_pos c)[i := -1],
           kv_ext := (kv_ext c)[i := ext_reset], kv_shift := (kv_shift c)[i := 0],
           kv_used := kv_used c - {i}\<rparr>)"

definition cells_seq_rm :: "nat \<Rightarrow> llama_seq_id \<Rightarrow> kv_cells \<Rightarrow> bool \<times> kv_cells" where
  "cells_seq_rm i seq_id c =
     (let c = c\<lparr>kv_seq := (kv_seq c)[i := kv_seq c ! i - {seq_id}]\<rparr>;
          c = cells_seq_pos_dec c seq_id (kv_pos c ! i)
      in if kv_seq c ! i = {}
         then (True, c\<lparr>kv_pos := (kv_pos c)[i := -1], kv_ext := (kv_ext c)[i := ext_reset],
                       kv_shift := (kv_shift c)[i := 0], kv_used := kv_used c - {i}\<rparr>)
         else (False, c))"

definition cells_seq_keep :: "nat \<Rightarrow> llama_seq_id \<Rightarrow> kv_cells \<Rightarrow> bool \<times> kv_cells" where
  "cells_seq_keep i seq_id c =
     (if seq_id \<in> kv_seq c ! i then
        (let c = cells_seq_pos_rm c i;
             c = c\<lparr>kv_seq := (kv_seq c)[i := {seq_id}]\<rparr>
         in (False, cells_seq_pos_inc c seq_id (kv_pos c ! i)))
      else if kv_seq c ! i \<noteq> {} then
        (let c = cells_seq_pos_rm c i
         in (True, c\<lparr>kv_seq := (kv_seq c)[i := {}], kv_pos := (kv_pos c)[i := -1],
                     kv_ext := (kv_ext c)[i := ext_reset], kv_shift := (kv_shift c)[i := 0],
                     kv_used := kv_used c - {i}\<rparr>))
      else (False, c))"

definition cells_seq_count :: "kv_cells \<Rightarrow> nat \<Rightarrow> nat" where
  "cells_seq_count c i = card (kv_seq c ! i)"

definition cells_seq_has :: "kv_cells \<Rightarrow> nat \<Rightarrow> llama_seq_id \<Rightarrow> bool" where
  "cells_seq_has c i seq_id \<longleftrightarrow> seq_id \<in> kv_seq c ! i"

definition cells_seq_add :: "nat \<Rightarrow> llama_seq_id \<Rightarrow> kv_cells \<Rightarrow> kv_cells" where
  "cells_seq_add i seq_id c =
     (let c = c\<lparr>kv_seq := (kv_seq c)[i := insert seq_id (kv_seq c ! i)]\<rparr>
      in cells_seq_pos_inc c seq_id (kv_pos c ! i))"

definition cells_seq_get :: "kv_cells \<Rightarrow> nat \<Rightarrow> int" where
  "cells_seq_get c i =
     (case find (\<lambda>s. s \<in> kv_seq c ! i) [0..<LLAMA_MAX_SEQ] of Some s \<Rightarrow> int s | None \<Rightarrow> -1)"

definition cells_seq_pos_min :: "kv_cells \<Rightarrow> llama_seq_id \<Rightarrow> llama_pos" where
  "cells_seq_pos_min c s = (if kv_seq_pos c s = [] then -1 else pm_begin (kv_seq_pos c s))"

definition cells_seq_pos_max :: "kv_cells \<Rightarrow> llama_seq_id \<Rightarrow> llama_pos" where
  "cells_seq_pos_max c s = (if kv_seq_pos c s = [] then -1 else pm_rbegin (kv_seq_pos c s))"

definition cells_pos_get :: "kv_cells \<Rightarrow> nat \<Rightarrow> llama_pos" where
  "cells_pos_get c i = kv_pos c ! i"

definition cells_ext_get :: "kv_cells \<Rightarrow> nat \<Rightarrow> kv_cell_ext" where
  "cells_ext_get c i = kv_ext c ! i"

definition cells_get_shift :: "kv_cells \<Rightarrow> nat \<Rightarrow> llama_pos" where
  "cells_get_shift c i = kv_shift c ! i"

definition cells_pos_in :: "kv_cells \<Rightarrow> nat \<Rightarrow> llama_pos \<Rightarrow> llama_pos \<Rightarrow> bool" where
  "cells_pos_in c i p0 p1 \<longleftrightarrow> p0 \<le> kv_pos c ! i \<and> kv_pos c ! i < p1"

definition cells_pos_set :: "nat \<Rightarrow> llama_pos \<Rightarrow> kv_cells \<Rightarrow> kv_cells" where
  "cells_pos_set i p c = c\<lparr>kv_pos := (kv_pos c)[i := p], kv_used := insert i (kv_used c)\<rparr>"

definition cells_ext_set :: "nat \<Rightarrow> kv_cell_ext \<Rightarrow> kv_cells \<Rightarrow> kv_cells" where
  "cells_ext_set i e c = c\<lparr>kv_ext := (kv_ext c)[i := e]\<rparr>"

definition cells_pos_add :: "nat \<Rightarrow> llama_pos \<Rightarrow> kv_cells \<Rightarrow> bool \<times> kv_cells" where
  "cells_pos_add i d c =
     (let c = cells_seq_pos_rm c i;
          c = c\<lparr>kv_pos := (kv_pos c)[i := kv_pos c ! i + d],
                kv_shift := (kv_shift c)[i := kv_shift c ! i + d], kv_has_shift := True\<rparr>
      in if kv_pos c ! i < 0
         then (True, c\<lparr>kv_seq := (kv_seq c)[i := {}], kv_pos := (kv_pos c)[i := -1],
                       kv_shift := (kv_shift c)[i := 0], kv_used := kv_used c - {i}\<rparr>)
         else (False, cells_seq_pos_add c i))"

text \<open>\<open>pos[i] /= d\<close> is C++ division, which truncates towards zero.\<close>

definition trunc_div :: "int \<Rightarrow> int \<Rightarrow> int" where
  "trunc_div a b = sgn a * sgn b * (\<bar>a\<bar> div \<bar>b\<bar>)"

definition cells_pos_div :: "nat \<Rightarrow> int \<Rightarrow> kv_cells \<Rightarrow> kv_cells" where
  "cells_pos_div i d c =
     (let p_old = kv_pos c ! i;
          c = cells_seq_pos_rm c i;
          c = c\<lparr>kv_pos := (kv_pos c)[i := trunc_div (kv_pos c ! i) d]\<rparr>;
          c = c\<lparr>kv_shift := (kv_shift c)[i := kv_shift c ! i + (p_old - kv_pos c ! i)]\<rparr>;
          c = cells_seq_pos_add c i
      in c\<lparr>kv_has_shift := True\<rparr>)"

lemmas cells_read_defs = cells_size_def cells_is_empty_def cells_seq_has_def cells_pos_in_def
  cells_pos_get_def cells_ext_get_def cells_get_shift_def cells_seq_count_def
  cells_get_has_shift_def cells_get_used_def

section \<open>The invariant\<close>

definition cells_view :: "kv_cells \<Rightarrow> (llama_pos \<times> llama_seq_id set) list" where
  "cells_view c = zip (kv_pos c) (kv_seq c)"

text \<open>In how many cells position \<open>p\<close> of sequence \<open>s\<close> is stored.\<close>

definition occ :: "(llama_pos \<times> llama_seq_id set) list \<Rightarrow> llama_seq_id \<Rightarrow> llama_pos \<Rightarrow> nat" where
  "occ v s p = length (filter (\<lambda>(q, S). s \<in> S \<and> q = p) v)"

definition cell_ok :: "llama_pos \<times> llama_seq_id set \<Rightarrow> bool" where
  "cell_ok = (\<lambda>(p, S). -1 \<le> p \<and> S \<subseteq> {..<LLAMA_MAX_SEQ} \<and> (p = -1 \<longrightarrow> S = {}))"

definition cells_shape :: "kv_cells \<Rightarrow> bool" where
  "cells_shape c \<longleftrightarrow> length (kv_ext c) = cells_size c \<and> length (kv_shift c) = cells_size c \<and>
     length (kv_seq c) = cells_size c"

definition cells_inv :: "kv_cells \<Rightarrow> bool" where
  "cells_inv c \<longleftrightarrow> cells_shape c \<and>
     (\<forall>cell \<in> set (cells_view c). cell_ok cell) \<and>
     (\<forall>i < cells_size c. kv_pos c ! i = -1 \<longrightarrow> kv_shift c ! i = 0) \<and>
     kv_used c = {i. i < cells_size c \<and> kv_pos c ! i \<noteq> -1} \<and>
     (\<forall>s < LLAMA_MAX_SEQ. pm_inv (kv_seq_pos c s) \<and>
        (\<forall>p. pm_count (kv_seq_pos c s) p = int (occ (cells_view c) s p)))"

lemma cells_shapeD:
  assumes "cells_shape c"
  shows "length (kv_pos c) = cells_size c" "length (kv_ext c) = cells_size c"
    "length (kv_shift c) = cells_size c" "length (kv_seq c) = cells_size c"
    "length (cells_view c) = cells_size c"
  using assms by (simp_all add: cells_shape_def cells_size_def cells_view_def)

lemma cells_view_nth:
  "cells_shape c \<Longrightarrow> i < cells_size c \<Longrightarrow> cells_view c ! i = (kv_pos c ! i, kv_seq c ! i)"
  by (simp add: cells_view_def cells_shape_def cells_size_def)

lemma cells_inv_shape: "cells_inv c \<Longrightarrow> cells_shape c"
  by (simp add: cells_inv_def)

lemma cells_inv_cell:
  assumes "cells_inv c" "i < cells_size c"
  shows "-1 \<le> kv_pos c ! i" "kv_seq c ! i \<subseteq> {..<LLAMA_MAX_SEQ}"
    "kv_pos c ! i = -1 \<Longrightarrow> kv_seq c ! i = {}" "kv_pos c ! i = -1 \<Longrightarrow> kv_shift c ! i = 0"
    "i \<in> kv_used c \<longleftrightarrow> kv_pos c ! i \<noteq> -1" "finite (kv_seq c ! i)"
proof -
  have "cells_view c ! i \<in> set (cells_view c)"
    using assms(2) by (simp add: cells_shapeD(5) [OF cells_inv_shape [OF assms(1)]])
  then have "cell_ok (cells_view c ! i)"
    using assms(1) by (simp add: cells_inv_def)
  then have "cell_ok (kv_pos c ! i, kv_seq c ! i)"
    using assms by (simp add: cells_view_nth cells_inv_shape)
  then show "-1 \<le> kv_pos c ! i" "kv_seq c ! i \<subseteq> {..<LLAMA_MAX_SEQ}"
    "kv_pos c ! i = -1 \<Longrightarrow> kv_seq c ! i = {}"
    by (auto simp: cell_ok_def)
  then show "finite (kv_seq c ! i)" by (blast intro: finite_subset)
  show "kv_pos c ! i = -1 \<Longrightarrow> kv_shift c ! i = 0" "i \<in> kv_used c \<longleftrightarrow> kv_pos c ! i \<noteq> -1"
    using assms by (simp_all add: cells_inv_def)
qed

lemma cells_inv_counter:
  assumes "cells_inv c" "s < LLAMA_MAX_SEQ"
  shows "pm_inv (kv_seq_pos c s)" "pm_count (kv_seq_pos c s) p = int (occ (cells_view c) s p)"
  using assms by (simp_all add: cells_inv_def)

lemma occ_update:
  "i < length v \<Longrightarrow> int (occ (v[i := (q, S)]) s p) =
     int (occ v s p) - of_bool (s \<in> snd (v ! i) \<and> fst (v ! i) = p) + of_bool (s \<in> S \<and> q = p)"
  by (simp add: occ_def length_filter_update case_prod_beta)

lemma occ_pos_iff: "0 < occ v s p \<longleftrightarrow> (\<exists>i < length v. s \<in> snd (v ! i) \<and> fst (v ! i) = p)"
proof -
  have "0 < occ v s p \<longleftrightarrow> (\<exists>x \<in> set v. s \<in> snd x \<and> fst x = p)"
    unfolding occ_def length_greater_0_conv filter_empty_conv by (auto simp: case_prod_beta)
  then show ?thesis by (metis in_set_conv_nth)
qed

text \<open>A cell occupied by a sequence is counted, so decrementing its count is defined.\<close>

lemma cells_inv_counted:
  assumes "cells_inv c" "i < cells_size c" "s \<in> kv_seq c ! i"
  shows "0 < pm_count (kv_seq_pos c s) (kv_pos c ! i)"
proof -
  have "0 < occ (cells_view c) s (kv_pos c ! i)"
    unfolding occ_pos_iff using assms
    by (intro exI [of _ i]) (simp add: cells_view_nth cells_inv_shape cells_shapeD)
  moreover have "s < LLAMA_MAX_SEQ" using cells_inv_cell(2) [OF assms(1,2)] assms(3) by blast
  ultimately show ?thesis by (simp add: cells_inv_counter [OF assms(1)])
qed

section \<open>The helpers on the position counters\<close>

lemma seq_pos_loop:
  fixes upd :: "int \<Rightarrow> pos_map \<Rightarrow> pos_map"
  shows "fold (\<lambda>s c. if s \<in> kv_seq c ! i
        then c\<lparr>kv_seq_pos := (kv_seq_pos c)(s := upd (kv_pos c ! i) (kv_seq_pos c s))\<rparr> else c)
      [0..<n] c =
    c\<lparr>kv_seq_pos := (\<lambda>s. if s < n \<and> s \<in> kv_seq c ! i
        then upd (kv_pos c ! i) (kv_seq_pos c s) else kv_seq_pos c s)\<rparr>"
  by (induction n) (auto simp: fun_eq_iff less_Suc_eq intro!: kv_cells.equality)

lemma cells_seq_pos_rm_eq:
  "cells_seq_pos_rm c i = c\<lparr>kv_seq_pos := (\<lambda>s. if s < LLAMA_MAX_SEQ \<and> s \<in> kv_seq c ! i
     then pm_dec (kv_pos c ! i) (kv_seq_pos c s) else kv_seq_pos c s)\<rparr>"
  unfolding cells_seq_pos_rm_def cells_seq_pos_dec_def by (rule seq_pos_loop)

lemma cells_seq_pos_add_eq:
  "cells_seq_pos_add c i = c\<lparr>kv_seq_pos := (\<lambda>s. if s < LLAMA_MAX_SEQ \<and> s \<in> kv_seq c ! i
     then pm_inc (kv_pos c ! i) (kv_seq_pos c s) else kv_seq_pos c s)\<rparr>"
  unfolding cells_seq_pos_add_def cells_seq_pos_inc_def by (rule seq_pos_loop)

section \<open>Changing one cell\<close>

text \<open>
  Every operation on a cell overwrites the entries of one index and corrects the two
  redundant indices to match. \<open>cell_changed\<close> records that shape once; its preservation
  lemma is the only place where the counts are argued about.
\<close>

definition cell_changed :: "nat \<Rightarrow> llama_pos \<Rightarrow> llama_seq_id set \<Rightarrow> kv_cells \<Rightarrow> kv_cells \<Rightarrow> bool" where
  "cell_changed i q S c c' \<longleftrightarrow>
     kv_pos c' = (kv_pos c)[i := q] \<and> kv_seq c' = (kv_seq c)[i := S] \<and>
     length (kv_ext c') = length (kv_ext c) \<and>
     (\<exists>sh. kv_shift c' = (kv_shift c)[i := sh] \<and> (q = -1 \<longrightarrow> sh = 0)) \<and>
     kv_used c' = (if q = -1 then kv_used c - {i} else insert i (kv_used c)) \<and>
     (\<forall>s < LLAMA_MAX_SEQ. kv_seq_pos c' s =
        (if s \<in> S \<and> s \<in> kv_seq c ! i \<and> q = kv_pos c ! i then kv_seq_pos c s
         else (if s \<in> S then pm_inc q else id)
           ((if s \<in> kv_seq c ! i then pm_dec (kv_pos c ! i) else id) (kv_seq_pos c s))))"

lemma cell_changed_view:
  "cells_shape c \<Longrightarrow> cell_changed i q S c c' \<Longrightarrow> cells_view c' = (cells_view c)[i := (q, S)]"
  by (simp add: cell_changed_def cells_view_def update_zip)

lemma cell_changed_size: "cell_changed i q S c c' \<Longrightarrow> cells_size c' = cells_size c"
  by (auto simp: cell_changed_def cells_size_def)

lemma cell_changed_shape: "cells_shape c \<Longrightarrow> cell_changed i q S c c' \<Longrightarrow> cells_shape c'"
  by (auto simp: cell_changed_def cells_shape_def cells_size_def)

lemma cell_changed_inv:
  assumes inv: "cells_inv c" and i: "i < cells_size c" and ch: "cell_changed i q S c c'"
    and ok: "cell_ok (q, S)"
  shows "cells_inv c'"
proof -
  note sh = cells_inv_shape [OF inv]
  have v: "cells_view c' = (cells_view c)[i := (q, S)]"
    using sh ch by (rule cell_changed_view)
  have cells: "\<forall>cell \<in> set (cells_view c'). cell_ok cell"
    unfolding v using inv ok set_update_subset_insert [of "cells_view c" i "(q, S)"]
    by (auto simp: cells_inv_def)
  have pos': "kv_pos c' = (kv_pos c)[i := q]"
    and used': "kv_used c' = (if q = -1 then kv_used c - {i} else insert i (kv_used c))"
    using ch by (simp_all add: cell_changed_def)
  obtain d where d: "kv_shift c' = (kv_shift c)[i := d]" "q = -1 \<longrightarrow> d = 0"
    using ch by (auto simp: cell_changed_def)
  have pos_nth: "kv_pos c' ! j = (if j = i then q else kv_pos c ! j)" if "j < cells_size c" for j
    using that i by (simp add: pos' nth_list_update cells_size_def)
  have shift: "\<forall>j < cells_size c'. kv_pos c' ! j = -1 \<longrightarrow> kv_shift c' ! j = 0"
    using cells_inv_cell(4) [OF inv] d i
    by (simp add: pos_nth cell_changed_size [OF ch] nth_list_update cells_shapeD(3) [OF sh])
  have used_c: "j \<in> kv_used c \<longleftrightarrow> j < cells_size c \<and> kv_pos c ! j \<noteq> -1" for j
    using inv by (simp add: cells_inv_def)
  have "j \<in> kv_used c' \<longleftrightarrow> j < cells_size c' \<and> kv_pos c' ! j \<noteq> -1" for j
    using i by (cases "j < cells_size c"; cases "j = i")
      (simp_all add: used' used_c pos_nth cell_changed_size [OF ch])
  then have used: "kv_used c' = {j. j < cells_size c' \<and> kv_pos c' ! j \<noteq> -1}"
    by blast
  have count: "pm_inv (kv_seq_pos c' s) \<and>
      pm_count (kv_seq_pos c' s) p = int (occ (cells_view c') s p)" if "s < LLAMA_MAX_SEQ" for s p
  proof -
    note pm = cells_inv_counter [OF inv that]
    have pos: "s \<in> kv_seq c ! i \<Longrightarrow> 0 < pm_count (kv_seq_pos c s) (kv_pos c ! i)"
      using cells_inv_counted [OF inv i] .
    have o: "int (occ (cells_view c') s p) = int (occ (cells_view c) s p)
        - of_bool (s \<in> kv_seq c ! i \<and> kv_pos c ! i = p) + of_bool (s \<in> S \<and> q = p)"
      unfolding v using i cells_shapeD(5) [OF sh] by (simp add: occ_update cells_view_nth sh)
    have sp: "kv_seq_pos c' s =
        (if s \<in> S \<and> s \<in> kv_seq c ! i \<and> q = kv_pos c ! i then kv_seq_pos c s
         else (if s \<in> S then pm_inc q else id)
           ((if s \<in> kv_seq c ! i then pm_dec (kv_pos c ! i) else id) (kv_seq_pos c s)))"
      using ch that by (simp add: cell_changed_def)
    show ?thesis
    proof (cases "s \<in> kv_seq c ! i")
      case True
      note dec = pm_inv_dec [OF pm(1)] pm_count_dec [OF pm(1) pos [OF True]]
      show ?thesis
        by (simp add: sp o True pm dec pm_inv_inc pm_count_inc of_bool_def)
    next
      case False
      then show ?thesis by (simp add: sp o pm pm_inv_inc pm_count_inc)
    qed
  qed
  show ?thesis
    unfolding cells_inv_def using cell_changed_shape [OF sh ch] cells shift used count by blast
qed

section \<open>What each operation does\<close>

named_theorems cell_ops \<open>the operations as changes of one cell\<close>

lemma cell_changed_rm [cell_ops]:
  "cell_changed i (-1) {} c (cells_rm i c)"
  by (auto simp: cell_changed_def cells_rm_def cells_seq_pos_rm_eq Let_def)

lemma cell_changed_seq_rm [cell_ops]:
  assumes "cells_inv c" "i < cells_size c" "seq_id \<in> kv_seq c ! i"
  shows "cell_changed i (if kv_seq c ! i = {seq_id} then -1 else kv_pos c ! i)
      (kv_seq c ! i - {seq_id}) c (snd (cells_seq_rm i seq_id c))"
    and "fst (cells_seq_rm i seq_id c) \<longleftrightarrow> kv_seq c ! i = {seq_id}"
proof -
  have len: "i < length (kv_seq c)" "i < length (kv_shift c)"
    using assms(1,2) by (simp_all add: cells_shapeD cells_inv_shape)
  have e: "kv_seq c ! i - {seq_id} = {} \<longleftrightarrow> kv_seq c ! i = {seq_id}"
    using assms(3) by auto
  have ne: "kv_pos c ! i \<noteq> -1"
    using cells_inv_cell(3) [OF assms(1,2)] assms(3) by auto
  then have "i \<in> kv_used c" using cells_inv_cell(5) [OF assms(1,2)] by simp
  then have "insert i (kv_used c) = kv_used c" by auto
  then show "cell_changed i (if kv_seq c ! i = {seq_id} then -1 else kv_pos c ! i)
      (kv_seq c ! i - {seq_id}) c (snd (cells_seq_rm i seq_id c))"
    using len ne assms(3)
    by (auto simp: cell_changed_def cells_seq_rm_def cells_seq_pos_dec_def Let_def e
        intro: list_update_id [symmetric])
  show "fst (cells_seq_rm i seq_id c) \<longleftrightarrow> kv_seq c ! i = {seq_id}"
    using len assms(3) by (auto simp: cells_seq_rm_def cells_seq_pos_dec_def Let_def)
qed

text \<open>
  Facts about an occupied cell that the remaining characterisations share: it is in the
  used set, and taking its positions out of the counters and putting them back is neutral.
\<close>

lemma cells_inv_occupied:
  assumes "cells_inv c" "i < cells_size c" "kv_pos c ! i \<noteq> -1"
  shows "insert i (kv_used c) = kv_used c"
    "s \<in> kv_seq c ! i \<Longrightarrow> pm_inc (kv_pos c ! i) (pm_dec (kv_pos c ! i) (kv_seq_pos c s)) = kv_seq_pos c s"
proof -
  show "insert i (kv_used c) = kv_used c"
    using cells_inv_cell(5) [OF assms(1,2)] assms(3) by auto
  assume s: "s \<in> kv_seq c ! i"
  then have "s < LLAMA_MAX_SEQ" using cells_inv_cell(2) [OF assms(1,2)] by auto
  then show "pm_inc (kv_pos c ! i) (pm_dec (kv_pos c ! i) (kv_seq_pos c s)) = kv_seq_pos c s"
    by (intro pm_inc_dec cells_inv_counter(1) [OF assms(1)] cells_inv_counted [OF assms(1,2) s])
qed

lemma cells_inv_lengths:
  "cells_inv c \<Longrightarrow> i < cells_size c \<Longrightarrow>
     i < length (kv_pos c) \<and> i < length (kv_ext c) \<and> i < length (kv_shift c) \<and> i < length (kv_seq c)"
  by (metis cells_inv_shape cells_shapeD(1-4))

lemma cell_changed_seq_keep [cell_ops]:
  assumes "cells_inv c" "i < cells_size c"
  shows "seq_id \<in> kv_seq c ! i \<Longrightarrow>
      cell_changed i (kv_pos c ! i) {seq_id} c (snd (cells_seq_keep i seq_id c))"
    and "seq_id \<notin> kv_seq c ! i \<Longrightarrow> kv_seq c ! i \<noteq> {} \<Longrightarrow>
      cell_changed i (-1) {} c (snd (cells_seq_keep i seq_id c))"
    and "kv_seq c ! i = {} \<Longrightarrow> snd (cells_seq_keep i seq_id c) = c"
    and "fst (cells_seq_keep i seq_id c) \<longleftrightarrow> seq_id \<notin> kv_seq c ! i \<and> kv_seq c ! i \<noteq> {}"
proof -
  note len = cells_inv_lengths [OF assms]
  show "cell_changed i (kv_pos c ! i) {seq_id} c (snd (cells_seq_keep i seq_id c))"
    if s: "seq_id \<in> kv_seq c ! i"
  proof -
    have ne: "kv_pos c ! i \<noteq> -1" using cells_inv_cell(3) [OF assms] s by auto
    note occ = cells_inv_occupied [OF assms ne]
    have "seq_id < LLAMA_MAX_SEQ" using cells_inv_cell(2) [OF assms] s by auto
    then show ?thesis
      using s ne occ(1) occ(2) [OF s] len
      by (auto simp: cell_changed_def cells_seq_keep_def cells_seq_pos_rm_eq cells_seq_pos_inc_def
          Let_def intro: list_update_id [symmetric])
  qed
  show "cell_changed i (-1) {} c (snd (cells_seq_keep i seq_id c))"
    if "seq_id \<notin> kv_seq c ! i" "kv_seq c ! i \<noteq> {}"
    using that by (auto simp: cell_changed_def cells_seq_keep_def cells_seq_pos_rm_eq Let_def)
  show "snd (cells_seq_keep i seq_id c) = c" if "kv_seq c ! i = {}"
    using that by (simp add: cells_seq_keep_def)
  show "fst (cells_seq_keep i seq_id c) \<longleftrightarrow> seq_id \<notin> kv_seq c ! i \<and> kv_seq c ! i \<noteq> {}"
    by (simp add: cells_seq_keep_def Let_def)
qed

lemma cell_changed_seq_add [cell_ops]:
  assumes "cells_inv c" "i < cells_size c" "kv_pos c ! i \<noteq> -1" "seq_id \<notin> kv_seq c ! i"
  shows "cell_changed i (kv_pos c ! i) (insert seq_id (kv_seq c ! i)) c (cells_seq_add i seq_id c)"
  using assms(3,4) cells_inv_occupied(1) [OF assms(1-3)] cells_inv_lengths [OF assms(1,2)]
  by (auto simp: cell_changed_def cells_seq_add_def cells_seq_pos_inc_def Let_def
      intro: list_update_id [symmetric])

lemma cell_changed_pos_set [cell_ops]:
  assumes "cells_inv c" "i < cells_size c" "kv_pos c ! i = -1" "p \<noteq> -1"
  shows "cell_changed i p {} c (cells_pos_set i p c)"
  using assms cells_inv_cell(3) [OF assms(1,2)] cells_inv_lengths [OF assms(1,2)]
  by (auto simp: cell_changed_def cells_pos_set_def intro: list_update_id [symmetric])
    (metis list_update_id)

lemma cell_changed_pos_add [cell_ops]:
  assumes "cells_inv c" "i < cells_size c" "kv_pos c ! i \<noteq> -1"
  shows "kv_pos c ! i + d < 0 \<Longrightarrow> cell_changed i (-1) {} c (snd (cells_pos_add i d c))"
    and "0 \<le> kv_pos c ! i + d \<Longrightarrow>
      cell_changed i (kv_pos c ! i + d) (kv_seq c ! i) c (snd (cells_pos_add i d c))"
    and "fst (cells_pos_add i d c) \<longleftrightarrow> kv_pos c ! i + d < 0"
proof -
  note len = cells_inv_lengths [OF assms(1,2)]
  note occ = cells_inv_occupied [OF assms]
  show "cell_changed i (-1) {} c (snd (cells_pos_add i d c))" if "kv_pos c ! i + d < 0"
    using that len by (auto simp: cell_changed_def cells_pos_add_def cells_seq_pos_rm_eq Let_def)
  show "cell_changed i (kv_pos c ! i + d) (kv_seq c ! i) c (snd (cells_pos_add i d c))"
    if "0 \<le> kv_pos c ! i + d"
    using that len occ
    by (auto simp: cell_changed_def cells_pos_add_def cells_seq_pos_rm_eq cells_seq_pos_add_eq Let_def
        intro: list_update_id [symmetric])
  show "fst (cells_pos_add i d c) \<longleftrightarrow> kv_pos c ! i + d < 0"
    using len by (simp add: cells_pos_add_def cells_seq_pos_rm_eq Let_def)
qed

lemma trunc_div_nonneg: "0 \<le> p \<Longrightarrow> 0 < d \<Longrightarrow> trunc_div p d = p div d"
  by (simp add: trunc_div_def sgn_if)

lemma cell_changed_pos_div [cell_ops]:
  assumes "cells_inv c" "i < cells_size c" "kv_pos c ! i \<noteq> -1" "0 < d"
  shows "cell_changed i (kv_pos c ! i div d) (kv_seq c ! i) c (cells_pos_div i d c)"
proof -
  note len = cells_inv_lengths [OF assms(1,2)]
  note occ = cells_inv_occupied [OF assms(1-3)]
  have p: "0 \<le> kv_pos c ! i" using cells_inv_cell(1) [OF assms(1,2)] assms(3) by simp
  then have q: "0 \<le> kv_pos c ! i div d" using assms(4) by (simp add: pos_imp_zdiv_nonneg_iff)
  show ?thesis
    using len occ q assms(4)
    by (auto simp: cell_changed_def cells_pos_div_def cells_seq_pos_rm_eq cells_seq_pos_add_eq
        Let_def trunc_div_nonneg [OF p] intro: list_update_id [symmetric])
qed

lemma cell_changed_set1 [cell_ops]:
  assumes "cells_inv c" "i < cells_size c" "kv_shift c ! i = 0"
    and "cell_ok (kv_pos other ! j, kv_seq other ! j)"
  shows "cell_changed i (kv_pos other ! j) (kv_seq other ! j) c (cells_set1 other i j c)"
proof -
  note len = cells_inv_lengths [OF assms(1,2)]
  have sh: "kv_shift c = (kv_shift c)[i := 0]" using assms(3) by (metis list_update_id)
  show ?thesis
  proof (cases "kv_pos c ! i = -1")
    case True
    have "kv_seq c ! i = {}" "i \<notin> kv_used c"
      using cells_inv_cell(3,5) [OF assms(1,2)] True by auto
    then show ?thesis
      using True len sh assms(4)
      by (auto simp: cell_changed_def cells_set1_def cells_seq_pos_add_eq Let_def cell_ok_def)
  next
    case False
    then show ?thesis
      using len sh assms(4) cells_inv_occupied [OF assms(1,2) False]
      by (auto simp: cell_changed_def cells_set1_def cells_seq_pos_rm_eq cells_seq_pos_add_eq
          Let_def cell_ok_def)
  qed
qed

section \<open>Preservation of the invariant\<close>

named_theorems cells_inv_intros \<open>each operation keeps the invariant\<close>

lemma occ_empty: "(\<forall>cell \<in> set v. snd cell = {}) \<Longrightarrow> occ v s p = 0"
  by (auto simp: occ_def filter_empty_conv)

lemma cells_inv_reset [cells_inv_intros]:
  assumes "cells_shape c"
  shows "cells_inv (cells_reset c)"
proof -
  have v: "cells_view (cells_reset c) = map (\<lambda>_. (-1, {})) (kv_pos c)"
    using assms by (auto simp: cells_view_def cells_reset_def zip_map_map cells_shape_def
        cells_size_def map_zip_map intro!: nth_equalityI)
  then have "occ (cells_view (cells_reset c)) s p = 0" for s p
    by (auto intro: occ_empty)
  moreover have "\<forall>cell \<in> set (cells_view (cells_reset c)). cell_ok cell"
    by (simp add: v cell_ok_def)
  moreover have "cells_shape (cells_reset c)"
    using assms by (simp add: cells_shape_def cells_size_def cells_reset_def)
  ultimately show ?thesis
    using assms by (simp add: cells_inv_def cells_reset_def cells_size_def cells_shape_def pm_empty_def)
qed

lemma cells_size_reset [simp]: "cells_size (cells_reset c) = cells_size c"
  by (simp add: cells_size_def cells_reset_def)

lemma cells_size_resize [simp]: "cells_size (cells_resize n c) = n"
  by (simp add: cells_resize_def cells_size_def cells_reset_def)

lemma cells_inv_resize [cells_inv_intros]: "cells_inv (cells_resize n c)"
  unfolding cells_resize_def by (rule cells_inv_reset) (simp add: cells_shape_def cells_size_def)

lemma cells_inv_reset_shift [cells_inv_intros]:
  "cells_inv c \<Longrightarrow> cells_inv (cells_reset_shift c)"
  by (simp add: cells_inv_def cells_reset_shift_def cells_shape_def cells_size_def cells_view_def)

lemma cells_inv_ext_set [cells_inv_intros]:
  "cells_inv c \<Longrightarrow> cells_inv (cells_ext_set i e c)"
  by (simp add: cells_inv_def cells_ext_set_def cells_shape_def cells_size_def cells_view_def)

lemma cells_inv_rm [cells_inv_intros]:
  "cells_inv c \<Longrightarrow> i < cells_size c \<Longrightarrow> cells_inv (cells_rm i c)"
  by (rule cell_changed_inv) (auto intro: cell_ops simp: cell_ok_def)

lemma cells_inv_seq_rm [cells_inv_intros]:
  assumes "cells_inv c" "i < cells_size c" "seq_id \<in> kv_seq c ! i"
  shows "cells_inv (snd (cells_seq_rm i seq_id c))"
  by (rule cell_changed_inv [OF assms(1,2) cell_changed_seq_rm(1) [OF assms]])
    (use cells_inv_cell(1-3) [OF assms(1,2)] assms(3) in \<open>auto simp: cell_ok_def split: if_splits\<close>)

lemma cells_inv_seq_keep [cells_inv_intros]:
  assumes "cells_inv c" "i < cells_size c"
  shows "cells_inv (snd (cells_seq_keep i seq_id c))"
proof -
  note ch = cell_changed_seq_keep [OF assms, of seq_id]
  consider "seq_id \<in> kv_seq c ! i" | "seq_id \<notin> kv_seq c ! i" "kv_seq c ! i \<noteq> {}" | "kv_seq c ! i = {}"
    by auto
  then show ?thesis
  proof cases
    case 1
    then show ?thesis
      using cell_changed_inv [OF assms ch(1)] cells_inv_cell(1-3) [OF assms]
      by (auto simp: cell_ok_def)
  next
    case 2
    then show ?thesis using cell_changed_inv [OF assms ch(2)] by (simp add: cell_ok_def)
  next
    case 3
    then show ?thesis using assms by (simp add: ch(3))
  qed
qed

lemma cells_inv_seq_add [cells_inv_intros]:
  assumes "cells_inv c" "i < cells_size c" "kv_pos c ! i \<noteq> -1" "seq_id \<notin> kv_seq c ! i"
    "seq_id < LLAMA_MAX_SEQ"
  shows "cells_inv (cells_seq_add i seq_id c)"
  using cell_changed_inv [OF assms(1,2) cell_changed_seq_add [OF assms(1-4)]]
    cells_inv_cell(1,2) [OF assms(1,2)] assms(3,5)
  by (auto simp: cell_ok_def)

lemma cells_inv_pos_set [cells_inv_intros]:
  assumes "cells_inv c" "i < cells_size c" "kv_pos c ! i = -1" "0 \<le> p"
  shows "cells_inv (cells_pos_set i p c)"
  by (rule cell_changed_inv [OF assms(1,2) cell_changed_pos_set])
    (use assms in \<open>auto simp: cell_ok_def\<close>)

lemma cells_inv_pos_add [cells_inv_intros]:
  assumes "cells_inv c" "i < cells_size c" "kv_pos c ! i \<noteq> -1"
  shows "cells_inv (snd (cells_pos_add i d c))"
proof (cases "kv_pos c ! i + d < 0")
  case True
  then show ?thesis
    using cell_changed_inv [OF assms(1,2) cell_changed_pos_add(1) [OF assms]] by (simp add: cell_ok_def)
next
  case False
  then show ?thesis
    using cell_changed_inv [OF assms(1,2) cell_changed_pos_add(2) [OF assms]]
      cells_inv_cell(2) [OF assms(1,2)] by (auto simp: cell_ok_def)
qed

lemma cells_inv_pos_div [cells_inv_intros]:
  assumes "cells_inv c" "i < cells_size c" "kv_pos c ! i \<noteq> -1" "0 < d"
  shows "cells_inv (cells_pos_div i d c)"
proof -
  have "0 \<le> kv_pos c ! i" using cells_inv_cell(1) [OF assms(1,2)] assms(3) by simp
  then have "0 \<le> kv_pos c ! i div d" using assms(4) by (simp add: pos_imp_zdiv_nonneg_iff)
  then show ?thesis
    using cell_changed_inv [OF assms(1,2) cell_changed_pos_div [OF assms]]
      cells_inv_cell(2) [OF assms(1,2)] by (auto simp: cell_ok_def)
qed

text \<open>What \<open>set\<close> asks of the cells it is given and of the cells it overwrites.\<close>

definition settable :: "(nat \<Rightarrow> nat) \<Rightarrow> kv_cells \<Rightarrow> kv_cells \<Rightarrow> bool" where
  "settable at other c \<longleftrightarrow> (\<forall>j < cells_size other. at j < cells_size c \<and> kv_shift c ! at j = 0 \<and>
     cell_ok (kv_pos other ! j, kv_seq other ! j))"

lemma cells_inv_set_loop:
  assumes "cells_inv c" "settable at other c" "n \<le> cells_size other"
  shows "cells_inv (fold (\<lambda>j. cells_set1 other (at j) j) [0..<n] c) \<and>
    settable at other (fold (\<lambda>j. cells_set1 other (at j) j) [0..<n] c)"
  using assms(3)
proof (induction n)
  case (Suc n)
  let ?t = "fold (\<lambda>j. cells_set1 other (at j) j) [0..<n] c"
  have IH: "cells_inv ?t" "settable at other ?t" and n: "n < cells_size other" using Suc by simp_all
  have at: "at n < cells_size ?t" "kv_shift ?t ! at n = 0" "cell_ok (kv_pos other ! n, kv_seq other ! n)"
    using IH(2) n by (simp_all add: settable_def)
  note ch = cell_changed_set1 [OF IH(1) at]
  have "kv_shift (cells_set1 other (at n) n ?t) = kv_shift ?t"
    by (simp add: cells_set1_def cells_seq_pos_rm_eq cells_seq_pos_add_eq Let_def)
  then show ?case
    using IH(2) cell_changed_inv [OF IH(1) at(1) ch at(3)] cell_changed_size [OF ch]
    by (simp add: settable_def)
qed (use assms in simp)

lemma cells_inv_set [cells_inv_intros]:
  "cells_inv c \<Longrightarrow> settable ((+) i) other c \<Longrightarrow> cells_inv (cells_set i other c)"
  "cells_inv c \<Longrightarrow> settable ((!) idxs) other c \<Longrightarrow> cells_inv (cells_set_idxs idxs other c)"
  using cells_inv_set_loop [of c "(+) i" other "cells_size other"]
    cells_inv_set_loop [of c "(!) idxs" other "cells_size other"]
  by (simp_all add: cells_set_def cells_set_idxs_def cells_size_def)

section \<open>Runs of operations\<close>

text \<open>
  One rule per mutating member function, guarded by what its \<open>assert\<close>s and its comments
  demand of the caller.
\<close>

inductive cells_step :: "kv_cells \<Rightarrow> kv_cells \<Rightarrow> bool" where
  reset: "cells_step c (cells_reset c)"
| reset_shift: "cells_step c (cells_reset_shift c)"
| resize: "cells_step c (cells_resize n c)"
| set: "settable ((+) i) other c \<Longrightarrow> cells_step c (cells_set i other c)"
| set_idxs: "settable ((!) idxs) other c \<Longrightarrow> cells_step c (cells_set_idxs idxs other c)"
| rm: "i < cells_size c \<Longrightarrow> kv_pos c ! i \<noteq> -1 \<Longrightarrow> cells_step c (cells_rm i c)"
| seq_rm: "i < cells_size c \<Longrightarrow> cells_seq_has c i s \<Longrightarrow> cells_step c (snd (cells_seq_rm i s c))"
| seq_keep: "i < cells_size c \<Longrightarrow> cells_step c (snd (cells_seq_keep i s c))"
| seq_add: "i < cells_size c \<Longrightarrow> kv_pos c ! i \<noteq> -1 \<Longrightarrow> \<not> cells_seq_has c i s \<Longrightarrow>
    s < LLAMA_MAX_SEQ \<Longrightarrow> cells_step c (cells_seq_add i s c)"
| pos_set: "i < cells_size c \<Longrightarrow> cells_is_empty c i \<Longrightarrow> 0 \<le> p \<Longrightarrow> cells_step c (cells_pos_set i p c)"
| ext_set: "i < cells_size c \<Longrightarrow> cells_step c (cells_ext_set i e c)"
| pos_add: "i < cells_size c \<Longrightarrow> kv_pos c ! i \<noteq> -1 \<Longrightarrow> cells_step c (snd (cells_pos_add i d c))"
| pos_div: "i < cells_size c \<Longrightarrow> kv_pos c ! i \<noteq> -1 \<Longrightarrow> 0 < d \<Longrightarrow> cells_step c (cells_pos_div i d c)"

inductive cells_reachable :: "kv_cells \<Rightarrow> bool" where
  new: "cells_reachable cells_new"
| step: "cells_reachable c \<Longrightarrow> cells_step c c' \<Longrightarrow> cells_reachable c'"

lemma cells_inv_new: "cells_inv cells_new"
  by (simp add: cells_inv_def cells_new_def cells_shape_def cells_size_def cells_view_def occ_def
      pm_empty_def)

lemma cells_step_inv: "cells_step c c' \<Longrightarrow> cells_inv c \<Longrightarrow> cells_inv c'"
  by (induction rule: cells_step.induct)
    (simp_all add: cells_inv_intros cells_inv_shape cells_read_defs)

lemma cells_reachable_inv: "cells_reachable c \<Longrightarrow> cells_inv c"
  by (induction rule: cells_reachable.induct) (blast intro: cells_inv_new cells_step_inv)+

section \<open>Positions of a sequence\<close>

definition seq_positions :: "kv_cells \<Rightarrow> llama_seq_id \<Rightarrow> llama_pos set" where
  "seq_positions c s = {kv_pos c ! i | i. i < cells_size c \<and> s \<in> kv_seq c ! i}"

lemma finite_seq_positions: "finite (seq_positions c s)"
proof -
  have "seq_positions c s \<subseteq> (\<lambda>i. kv_pos c ! i) ` {..<cells_size c}"
    by (auto simp: seq_positions_def)
  then show ?thesis by (rule finite_subset) simp
qed

lemma seq_positions_counted:
  assumes "cells_inv c" "s < LLAMA_MAX_SEQ"
  shows "p \<in> seq_positions c s \<longleftrightarrow> 0 < pm_count (kv_seq_pos c s) p"
  unfolding cells_inv_counter(2) [OF assms] of_nat_0_less_iff occ_pos_iff
  using assms(1) by (auto simp: seq_positions_def cells_view_nth cells_inv_shape cells_shapeD)

lemma seq_positions_empty_iff:
  assumes "cells_inv c" "s < LLAMA_MAX_SEQ"
  shows "seq_positions c s = {} \<longleftrightarrow> kv_seq_pos c s = []"
proof -
  have "kv_seq_pos c s = [] \<longleftrightarrow> (\<forall>p. \<not> 0 < pm_count (kv_seq_pos c s) p)"
    using pm.is_empty_iff [OF cells_inv_counter(1) [OF assms]]
      pm_count_nonneg [OF cells_inv_counter(1) [OF assms]] by (metis less_irrefl order_le_less)
  then show ?thesis by (auto simp: seq_positions_counted [OF assms, symmetric])
qed

lemma seq_pos_bounds:
  assumes "cells_inv c" "s < LLAMA_MAX_SEQ"
  shows "cells_seq_pos_min c s = (if seq_positions c s = {} then -1 else Min (seq_positions c s))"
    and "cells_seq_pos_max c s = (if seq_positions c s = {} then -1 else Max (seq_positions c s))"
proof -
  note e = seq_positions_empty_iff [OF assms] and m = seq_positions_counted [OF assms]
    and i = cells_inv_counter(1) [OF assms] and fin = finite_seq_positions [of c s]
  show "cells_seq_pos_min c s = (if seq_positions c s = {} then -1 else Min (seq_positions c s))"
    using pm.lo_present [OF i] pm.lo_least [OF i] fin
    by (auto simp: cells_seq_pos_min_def e m intro!: Min_eqI [symmetric])
  show "cells_seq_pos_max c s = (if seq_positions c s = {} then -1 else Max (seq_positions c s))"
    using pm.hi_present [OF i] pm.hi_greatest [OF i] fin
    by (auto simp: cells_seq_pos_max_def e m intro!: Max_eqI [symmetric])
qed

section \<open>Saving and restoring cells\<close>

text \<open>The redundant indices are determined by the cells themselves.\<close>

lemma cells_eqI:
  assumes "cells_inv c" "cells_inv c'"
    and "kv_pos c = kv_pos c'" "kv_seq c = kv_seq c'" "kv_ext c = kv_ext c'"
    and "kv_shift c = kv_shift c'" "kv_has_shift c = kv_has_shift c'"
    and high: "\<And>s. LLAMA_MAX_SEQ \<le> s \<Longrightarrow> kv_seq_pos c s = kv_seq_pos c' s"
  shows "c = c'"
proof -
  have v: "cells_view c = cells_view c'" by (simp add: cells_view_def assms(3,4))
  have "kv_seq_pos c s = kv_seq_pos c' s" for s
  proof (cases "s < LLAMA_MAX_SEQ")
    case True
    show ?thesis
      by (rule pm_inv_ext)
        (simp_all add: fun_eq_iff v cells_inv_counter [OF assms(1) True] cells_inv_counter [OF assms(2) True])
  qed (simp add: high)
  moreover have "kv_used c = kv_used c'"
    using assms(1-3) by (simp add: cells_inv_def cells_size_def)
  ultimately show ?thesis
    using assms by (intro kv_cells.equality) (auto simp: fun_eq_iff)
qed

lemma cells_set1_frame:
  "kv_shift (cells_set1 other i j c) = kv_shift c"
  "kv_has_shift (cells_set1 other i j c) = kv_has_shift c"
  "kv_ext (cells_set1 other i j c) = (kv_ext c)[i := kv_ext other ! j]"
  "LLAMA_MAX_SEQ \<le> s \<Longrightarrow> kv_seq_pos (cells_set1 other i j c) s = kv_seq_pos c s"
  by (simp_all add: cells_set1_def cells_seq_pos_rm_eq cells_seq_pos_add_eq Let_def)

text \<open>
  The cells \<open>c'\<close> agree with \<open>c\<close> everywhere except at the indices \<open>X\<close>; shifts and
  flags agree everywhere.
\<close>

definition cells_agree_except :: "nat set \<Rightarrow> kv_cells \<Rightarrow> kv_cells \<Rightarrow> bool" where
  "cells_agree_except X c c' \<longleftrightarrow> cells_size c' = cells_size c \<and> kv_has_shift c' = kv_has_shift c \<and>
     kv_shift c' = kv_shift c \<and> (\<forall>s \<ge> LLAMA_MAX_SEQ. kv_seq_pos c' s = kv_seq_pos c s) \<and>
     (\<forall>i < cells_size c. i \<notin> X \<longrightarrow> kv_pos c' ! i = kv_pos c ! i \<and> kv_seq c' ! i = kv_seq c ! i \<and>
        kv_ext c' ! i = kv_ext c ! i)"

lemma cells_agree_except_refl: "cells_agree_except X c c"
  by (simp add: cells_agree_except_def)

lemma cells_agree_except_mono: "cells_agree_except X c c' \<Longrightarrow> X \<subseteq> Y \<Longrightarrow> cells_agree_except Y c c'"
  unfolding cells_agree_except_def by blast

lemma cells_agree_except_empty:
  assumes "cells_inv c" "cells_inv c'" "cells_agree_except {} c c'"
  shows "c' = c"
proof (rule cells_eqI)
  note sh = cells_shapeD [OF cells_inv_shape [OF assms(1)]] cells_shapeD [OF cells_inv_shape [OF assms(2)]]
  have size: "cells_size c' = cells_size c" using assms(3) by (simp add: cells_agree_except_def)
  show "kv_pos c' = kv_pos c" "kv_seq c' = kv_seq c" "kv_ext c' = kv_ext c"
    using assms(3) by (auto intro!: nth_equalityI simp: sh size cells_agree_except_def)
qed (use assms in \<open>simp_all add: cells_agree_except_def\<close>)

lemma cells_set1_restores:
  assumes inv: "cells_inv c" "cells_inv c'" and ag: "cells_agree_except X c c'"
    and j: "j < length idxs" "idxs ! j < cells_size c" "kv_shift c ! (idxs ! j) = 0"
  shows "cells_inv (cells_set1 (cells_cp_idxs c idxs) (idxs ! j) j c')"
    and "cells_agree_except (X - {idxs ! j}) c (cells_set1 (cells_cp_idxs c idxs) (idxs ! j) j c')"
proof -
  let ?o = "cells_cp_idxs c idxs" and ?i = "idxs ! j"
  have o: "kv_pos ?o ! j = kv_pos c ! ?i" "kv_seq ?o ! j = kv_seq c ! ?i" "kv_ext ?o ! j = kv_ext c ! ?i"
    using j(1) by (simp_all add: cells_cp_idxs_def)
  have size: "cells_size c' = cells_size c" and "kv_shift c' = kv_shift c"
    using ag by (simp_all add: cells_agree_except_def)
  then have i: "?i < cells_size c'" "kv_shift c' ! ?i = 0" using j by simp_all
  have ok: "cell_ok (kv_pos ?o ! j, kv_seq ?o ! j)"
    using cells_inv_cell(1-3) [OF inv(1) j(2)] by (auto simp: o cell_ok_def)
  have ch: "cell_changed ?i (kv_pos ?o ! j) (kv_seq ?o ! j) c' (cells_set1 ?o ?i j c')"
    by (rule cell_changed_set1 [OF inv(2) i ok])
  show "cells_inv (cells_set1 ?o ?i j c')"
    using inv(2) i(1) ch ok by (rule cell_changed_inv)
  have "kv_pos (cells_set1 ?o ?i j c') = (kv_pos c')[?i := kv_pos c ! ?i]"
    "kv_seq (cells_set1 ?o ?i j c') = (kv_seq c')[?i := kv_seq c ! ?i]"
    using ch by (simp_all add: cell_changed_def o)
  then show "cells_agree_except (X - {?i}) c (cells_set1 ?o ?i j c')"
    using ag cells_inv_lengths [OF inv(2) i(1)] size
    by (auto simp: cells_agree_except_def cells_set1_frame o cells_size_def nth_list_update)
qed

lemma cells_set_idxs_restores:
  assumes "cells_inv c" "cells_inv c'" "cells_agree_except (set idxs) c c'"
    and "\<forall>i \<in> set idxs. i < cells_size c \<and> kv_shift c ! i = 0"
  shows "cells_set_idxs idxs (cells_cp_idxs c idxs) c' = c"
proof -
  let ?o = "cells_cp_idxs c idxs"
  have "cells_inv (fold (\<lambda>j. cells_set1 ?o (idxs ! j) j) [0..<k] c') \<and>
      cells_agree_except (set (drop k idxs)) c (fold (\<lambda>j. cells_set1 ?o (idxs ! j) j) [0..<k] c')"
    if "k \<le> length idxs" for k
    using that
  proof (induction k)
    case 0
    then show ?case using assms by simp
  next
    case (Suc k)
    let ?t = "fold (\<lambda>j. cells_set1 ?o (idxs ! j) j) [0..<k] c'"
    have IH: "cells_inv ?t" "cells_agree_except (set (drop k idxs)) c ?t" and k: "k < length idxs"
      using Suc by simp_all
    have "set (drop k idxs) - {idxs ! k} \<subseteq> set (drop (Suc k) idxs)"
      using k by (simp add: Cons_nth_drop_Suc [symmetric])
    moreover have "idxs ! k < cells_size c" "kv_shift c ! (idxs ! k) = 0"
      using assms(4) nth_mem [OF k] by auto
    note cells_set1_restores [OF assms(1) IH k this]
    ultimately show ?case
      by (simp add: cells_agree_except_mono)
  qed
  from this [of "length idxs"] show ?thesis
    using cells_agree_except_empty [OF assms(1)]
    by (simp add: cells_set_idxs_def cells_cp_idxs_def)
qed

section \<open>Properties\<close>

text \<open>
  C13. However the member functions of \<open>llama_kv_cells\<close> are called, within what their asserts
  ask of the caller, the redundant indices stay exact: the used set is the set of occupied
  cells, \<open>used_min\<close> is the first occupied cell and \<open>used_max_p1\<close> the one after the last, both 0 if all cells are
  empty, and \<open>seq_pos_min\<close>/\<open>seq_pos_max\<close> return the least and greatest position the cells hold of a sequence, or -1.
\<close>

theorem reachable_cells_exact:
  assumes "cells_reachable c" "s < LLAMA_MAX_SEQ"
  shows "kv_used c = {i. i < cells_size c \<and> \<not> cells_is_empty c i} \<and>
    (\<forall>i. i < cells_size c \<and> \<not> cells_is_empty c i \<longrightarrow> cells_used_min c \<le> i \<and> i < cells_used_max_p1 c) \<and>
    (if \<exists>i < cells_size c. \<not> cells_is_empty c i
     then cells_used_min c < cells_size c \<and> \<not> cells_is_empty c (cells_used_min c) \<and>
       0 < cells_used_max_p1 c \<and> cells_used_max_p1 c \<le> cells_size c \<and> \<not> cells_is_empty c (cells_used_max_p1 c - 1)
     else cells_used_min c = 0 \<and> cells_used_max_p1 c = 0) \<and>
    cells_seq_pos_min c s = (if seq_positions c s = {} then -1 else Min (seq_positions c s)) \<and>
    cells_seq_pos_max c s = (if seq_positions c s = {} then -1 else Max (seq_positions c s))"
proof -
  have inv: "cells_inv c" using assms(1) by (rule cells_reachable_inv)
  then have used: "kv_used c = {i. i < cells_size c \<and> \<not> cells_is_empty c i}"
    by (simp add: cells_inv_def cells_is_empty_def)
  then have fin: "finite (kv_used c)" by simp
  have bounds: "cells_used_min c \<le> i \<and> i < cells_used_max_p1 c" if "i < cells_size c \<and> \<not> cells_is_empty c i" for i
  proof -
    have "i \<in> kv_used c" using that by (simp add: used)
    then show ?thesis using fin by (auto simp: cells_used_min_def cells_used_max_p1_def less_Suc_eq_le)
  qed
  have "if \<exists>i < cells_size c. \<not> cells_is_empty c i
     then cells_used_min c < cells_size c \<and> \<not> cells_is_empty c (cells_used_min c) \<and>
       0 < cells_used_max_p1 c \<and> cells_used_max_p1 c \<le> cells_size c \<and> \<not> cells_is_empty c (cells_used_max_p1 c - 1)
     else cells_used_min c = 0 \<and> cells_used_max_p1 c = 0"
  proof (cases "kv_used c = {}")
    case True
    then have "\<not> (\<exists>i < cells_size c. \<not> cells_is_empty c i)" using used by blast
    then show ?thesis using True by (simp add: cells_used_min_def cells_used_max_p1_def)
  next
    case False
    then have "Min (kv_used c) \<in> kv_used c" "Max (kv_used c) \<in> kv_used c" using fin by simp_all
    then have *: "Min (kv_used c) < cells_size c" "\<not> cells_is_empty c (Min (kv_used c))"
      "Max (kv_used c) < cells_size c" "\<not> cells_is_empty c (Max (kv_used c))" unfolding used by blast+
    then have "\<exists>i < cells_size c. \<not> cells_is_empty c i" by blast
    then show ?thesis using False * by (simp add: cells_used_min_def cells_used_max_p1_def Suc_le_eq)
  qed
  then show ?thesis using used bounds seq_pos_bounds [OF inv assms(2)] by blast
qed

text \<open>Three cells, of which cells 0 and 2 hold positions 4 and 9 of sequence 1.\<close>

definition sample_cells :: kv_cells where
  "sample_cells = cells_seq_add 2 1 (cells_pos_set 2 9 (cells_seq_add 0 1 (cells_pos_set 0 4
     (cells_resize 3 cells_new))))"

lemma sample_cells_reachable: "cells_reachable sample_cells"
proof -
  have "cells_reachable (cells_resize 3 cells_new)"
    by (rule cells_reachable.step [OF cells_reachable.new cells_step.resize])
  then have "cells_reachable (cells_pos_set 0 4 (cells_resize 3 cells_new))"
    by (rule cells_reachable.step) (rule cells_step.pos_set; code_simp)
  then have "cells_reachable (cells_seq_add 0 1 (cells_pos_set 0 4 (cells_resize 3 cells_new)))"
    by (rule cells_reachable.step) (rule cells_step.seq_add; code_simp)
  then have "cells_reachable (cells_pos_set 2 9 (cells_seq_add 0 1 (cells_pos_set 0 4 (cells_resize 3 cells_new))))"
    by (rule cells_reachable.step) (rule cells_step.pos_set; code_simp)
  then show ?thesis
    unfolding sample_cells_def by (rule cells_reachable.step) (rule cells_step.seq_add; code_simp)
qed

theorem reachable_cells_exact_witness:
  "cells_seq_pos_min sample_cells 1 = Min (seq_positions sample_cells 1) \<and>
   cells_seq_pos_max sample_cells 1 = 9 \<and> kv_used sample_cells = {0, 2}"
proof -
  have "0 < cells_size sample_cells" "1 \<in> kv_seq sample_cells ! 0" by code_simp+
  then have "seq_positions sample_cells 1 \<noteq> {}" unfolding seq_positions_def by blast
  moreover have "cells_seq_pos_max sample_cells 1 = 9" "kv_used sample_cells = {0, 2}" by code_simp+
  ultimately show ?thesis
    using reachable_cells_exact [OF sample_cells_reachable, of 1] by (simp add: LLAMA_MAX_SEQ_def)
qed

text \<open>
  C14. Saving cells with \<open>cp\<close> and writing them back with \<open>set\<close> restores the whole object, indices
  and counters included, whatever happened to the saved cells in between, provided no
  shift was pending on them.
\<close>

theorem cp_set_restores:
  assumes "cells_inv c" "cells_inv c'" "cells_agree_except (set idxs) c c'"
    and "\<forall>i \<in> set idxs. i < cells_size c \<and> kv_shift c ! i = 0"
  shows "cells_set_idxs idxs (cells_cp_idxs c idxs) c' = c"
  using assms by (rule cells_set_idxs_restores)

theorem cp_set_restores_witness:
  "cells_set_idxs [1, 0] (cells_cp_idxs sample_cells [1, 0]) (cells_rm 0 sample_cells) = sample_cells"
proof (rule cp_set_restores)
  show "cells_inv sample_cells" using sample_cells_reachable by (rule cells_reachable_inv)
  have "cells_step sample_cells (cells_rm 0 sample_cells)" by (rule cells_step.rm; code_simp)
  with \<open>cells_inv sample_cells\<close> show "cells_inv (cells_rm 0 sample_cells)" by (rule cells_step_inv [rotated])
  have "kv_shift sample_cells = [0, 0, 0]" by code_simp
  then show "cells_agree_except (set [1, 0]) sample_cells (cells_rm 0 sample_cells)"
    by (simp add: cells_agree_except_def cells_rm_def cells_seq_pos_rm_eq cells_size_def Let_def)
  show "\<forall>i \<in> set [1, 0]. i < cells_size sample_cells \<and> kv_shift sample_cells ! i = 0" by code_simp
qed

end
