(* ===== verification/Batch.thy ===== *)
theory Batch
  imports Prelude "HOL-Library.Multiset"
begin

text \<open>
  Batches of tokens: the interface type \<open>llama_batch\<close> with the functions that build one
  (\<open>llama-batch.cpp\<close>, \<open>common.cpp\<close>), and \<open>llama_batch_allocr\<close>, which sanitises a
  batch, fills in what the caller left out and splits it into micro-batches.

  A nullable array of \<open>llama_batch\<close> is an \<open>option\<close>; the batch the allocator keeps after
  filling is the record \<open>full_batch\<close>, whose arrays are always present. A float is its bit
  pattern, since embeddings are only ever copied. A negative \<open>n_tokens\<close> fails the same
  assertion as 0, so counts are \<open>nat\<close>.
\<close>

section \<open>The interface type\<close>

type_synonym float32 = "32 word"

record llama_batch =
  bt_n_tokens :: nat
  bt_token :: "llama_token list option"
  bt_embd :: "float32 list option"
  bt_pos :: "llama_pos list option"
  bt_n_seq_id :: "nat list option"
  bt_seq_id :: "int list list option"
  bt_logits :: "bool list option"

definition llama_batch_get_one :: "llama_token list \<Rightarrow> nat \<Rightarrow> llama_batch" where
  "llama_batch_get_one tokens n =
     \<lparr>bt_n_tokens = n, bt_token = Some tokens, bt_embd = None, bt_pos = None,
      bt_n_seq_id = None, bt_seq_id = None, bt_logits = None\<rparr>"

text \<open>
  A batch under construction, as \<open>llama_batch_init(n_alloc, 0, n_seq_max)\<close> allocates it:
  \<open>n_alloc\<close> slots, of which the first \<open>n_tokens\<close> are filled. Writing a slot past the
  allocation is caught by \<open>common_batch_add\<close> through the null terminator of \<open>seq_id\<close>.
\<close>

record slot_entry =
  se_token :: llama_token
  se_pos :: llama_pos
  se_seq_ids :: "int list"
  se_logits :: bool

record slot_batch =
  sb_alloc :: nat
  sb_n_seq_max :: nat
  sb_n_tokens :: nat
  sb_slots :: "slot_entry list"

definition slot_default :: slot_entry where
  "slot_default = \<lparr>se_token = 0, se_pos = 0, se_seq_ids = [], se_logits = False\<rparr>"

text \<open>\<open>llama_batch_init\<close> for tokens (\<open>embd = 0\<close>), the only way the modelled callers use it.\<close>

definition llama_batch_init :: "nat \<Rightarrow> nat \<Rightarrow> slot_batch" where
  "llama_batch_init n_alloc n_seq_max =
     \<lparr>sb_alloc = n_alloc, sb_n_seq_max = n_seq_max, sb_n_tokens = 0,
      sb_slots = replicate n_alloc slot_default\<rparr>"

definition common_batch_clear :: "slot_batch \<Rightarrow> slot_batch" where
  "common_batch_clear b = b\<lparr>sb_n_tokens := 0\<rparr>"

definition common_batch_add ::
  "slot_batch \<Rightarrow> llama_token \<Rightarrow> llama_pos \<Rightarrow> int list \<Rightarrow> bool \<Rightarrow> slot_batch outcome" where
  "common_batch_add b tid p seq_ids logits =
     (if sb_n_tokens b < sb_alloc b then
        Inr (b\<lparr>sb_slots := (sb_slots b)[sb_n_tokens b :=
                 \<lparr>se_token = tid, se_pos = p, se_seq_ids = seq_ids, se_logits = logits\<rparr>],
               sb_n_tokens := sb_n_tokens b + 1\<rparr>)
      else Inl Assert_failed)"

text \<open>The filled part of a batch, which is what \<open>llama_decode\<close> reads.\<close>

definition batch_entries :: "slot_batch \<Rightarrow> slot_entry list" where
  "batch_entries b = take (sb_n_tokens b) (sb_slots b)"

definition batch_wf :: "slot_batch \<Rightarrow> bool" where
  "batch_wf b \<longleftrightarrow> length (sb_slots b) = sb_alloc b \<and> sb_n_tokens b \<le> sb_alloc b"

lemma batch_wf_init [simp]: "batch_wf (llama_batch_init n m)"
  by (simp add: batch_wf_def llama_batch_init_def)

lemma batch_wf_clear [simp]: "batch_wf b \<Longrightarrow> batch_wf (common_batch_clear b)"
  by (simp add: batch_wf_def common_batch_clear_def)

lemma batch_entries_clear [simp]: "batch_entries (common_batch_clear b) = []"
  by (simp add: batch_entries_def common_batch_clear_def)

lemma sb_alloc_clear [simp]: "sb_alloc (common_batch_clear b) = sb_alloc b"
  by (simp add: common_batch_clear_def)

lemma common_batch_add_ok:
  assumes "batch_wf b" "common_batch_add b tid p seq_ids lg = Inr b'"
  shows "batch_wf b'" "sb_alloc b' = sb_alloc b" "sb_n_tokens b' = sb_n_tokens b + 1"
    "batch_entries b' = batch_entries b @
       [\<lparr>se_token = tid, se_pos = p, se_seq_ids = seq_ids, se_logits = lg\<rparr>]"
  using assms
  by (auto simp: common_batch_add_def batch_wf_def batch_entries_def take_Suc_conv_app_nth
      split: if_splits)

lemma common_batch_add_full:
  "batch_wf b \<Longrightarrow> common_batch_add b tid p seq_ids lg = Inl e \<longleftrightarrow>
     e = Assert_failed \<and> length (batch_entries b) = sb_alloc b"
  by (auto simp: common_batch_add_def batch_wf_def batch_entries_def)

text \<open>A batch as \<open>llama_decode\<close> receives it.\<close>

definition to_llama_batch :: "slot_batch \<Rightarrow> llama_batch" where
  "to_llama_batch b = (let es = batch_entries b in
     \<lparr>bt_n_tokens = sb_n_tokens b, bt_token = Some (map se_token es), bt_embd = None,
      bt_pos = Some (map se_pos es), bt_n_seq_id = Some (map (length \<circ> se_seq_ids) es),
      bt_seq_id = Some (map se_seq_ids es), bt_logits = Some (map se_logits es)\<rparr>)"

section \<open>The allocator\<close>

record ubatch =
  ub_equal_seqs :: bool
  ub_n_tokens :: nat
  ub_n_seq_tokens :: nat
  ub_n_seqs :: nat
  ub_n_seqs_unq :: nat
  ub_n_pos :: nat
  ub_token :: "llama_token list option"
  ub_embd :: "float32 list option"
  ub_pos :: "llama_pos list"
  ub_n_seq_id :: "nat list"
  ub_seq_id :: "llama_seq_id list list"
  ub_seq_id_unq :: "llama_seq_id list"
  ub_seq_idx :: "int list"
  ub_output :: "bool list"

definition is_pos_2d :: "ubatch \<Rightarrow> bool" where
  "is_pos_2d u \<longleftrightarrow> ub_n_pos u \<ge> 3"

text \<open>The value-initialised ubatch \<open>{}\<close> that signals that nothing is left.\<close>

definition ubatch_none :: ubatch where
  "ubatch_none = \<lparr>ub_equal_seqs = False, ub_n_tokens = 0, ub_n_seq_tokens = 0, ub_n_seqs = 0,
     ub_n_seqs_unq = 0, ub_n_pos = 0, ub_token = None, ub_embd = None, ub_pos = [],
     ub_n_seq_id = [], ub_seq_id = [], ub_seq_id_unq = [], ub_seq_idx = [], ub_output = []\<rparr>"

record full_batch =
  b_n_tokens :: nat
  b_token :: "llama_token list option"
  b_embd :: "float32 list option"
  b_pos :: "llama_pos list"
  b_n_seq_id :: "nat list"
  b_seq_id :: "llama_seq_id list list"
  b_logits :: "bool list"

definition full_batch_none :: full_batch where
  "full_batch_none = \<lparr>b_n_tokens = 0, b_token = None, b_embd = None, b_pos = [],
     b_n_seq_id = [], b_seq_id = [], b_logits = []\<rparr>"

text \<open>The sequence ids of token \<open>i\<close>: the first \<open>n_seq_id[i]\<close> entries of its row.\<close>

definition b_ids :: "full_batch \<Rightarrow> nat \<Rightarrow> llama_seq_id list" where
  "b_ids b i = take (b_n_seq_id b ! i) (b_seq_id b ! i)"

record batch_allocr =
  ba_batch :: full_batch
  ba_n_pos_per_embd :: nat
  ba_n_embd :: nat
  ba_n_seq_max :: nat
  ba_n_outputs :: nat
  ba_seq_id_unq :: "llama_seq_id list"
  ba_seq_idx :: "int list"
  ba_has_cpl :: bool
  ba_seq_pos :: "llama_seq_id \<Rightarrow> llama_pos set"
  ba_seq_cpl :: "llama_seq_id \<Rightarrow> llama_seq_id \<Rightarrow> bool"
  ba_seq_set :: "llama_seq_id set list"
  ba_seq_set_map :: "llama_seq_id set \<Rightarrow> nat list"
  ba_out_ids :: "nat list"
  ba_n_used :: nat
  ba_used :: "bool list"

definition ba_new :: "nat \<Rightarrow> batch_allocr" where
  "ba_new n_pos_per_embd = \<lparr>ba_batch = full_batch_none, ba_n_pos_per_embd = n_pos_per_embd,
     ba_n_embd = 0, ba_n_seq_max = 0, ba_n_outputs = 0, ba_seq_id_unq = [],
     ba_seq_idx = replicate LLAMA_MAX_SEQ (-1), ba_has_cpl = False,
     ba_seq_pos = (\<lambda>_. {}), ba_seq_cpl = (\<lambda>_ _. False), ba_seq_set = [],
     ba_seq_set_map = (\<lambda>_. []), ba_out_ids = [], ba_n_used = 0, ba_used = []\<rparr>"

definition ba_clear :: "batch_allocr \<Rightarrow> batch_allocr" where
  "ba_clear a = a\<lparr>ba_n_outputs := 0, ba_batch := full_batch_none, ba_seq_id_unq := [],
     ba_seq_pos := (\<lambda>_. {}), ba_seq_cpl := (\<lambda>_ _. False), ba_seq_set := [],
     ba_seq_set_map := (\<lambda>_. []), ba_seq_idx := map (\<lambda>_. -1) (ba_seq_idx a)\<rparr>"

definition ba_get_n_tokens :: "batch_allocr \<Rightarrow> nat" where
  "ba_get_n_tokens a = b_n_tokens (ba_batch a)"

definition ba_seq_pos_min :: "batch_allocr \<Rightarrow> llama_seq_id \<Rightarrow> llama_pos" where
  "ba_seq_pos_min a s = (if ba_seq_pos a s = {} then -1 else Min (ba_seq_pos a s))"

definition ba_seq_pos_max :: "batch_allocr \<Rightarrow> llama_seq_id \<Rightarrow> llama_pos" where
  "ba_seq_pos_max a s = (if ba_seq_pos a s = {} then -1 else Max (ba_seq_pos a s))"

definition ba_split_reset :: "batch_allocr \<Rightarrow> batch_allocr" where
  "ba_split_reset a = a\<lparr>ba_out_ids := [], ba_n_used := 0,
     ba_used := replicate (ba_get_n_tokens a) False\<rparr>"

subsection \<open>Sanitising a batch\<close>

text \<open>
  \<open>llama_batch_allocr::init\<close> in the order of its sections: validation of the token and
  sequence ids, the missing arrays, the statistics, the consistency checks. The memory
  module is seen through its position bounds.
\<close>

record memory_view =
  mem_pos_min :: "llama_seq_id \<Rightarrow> llama_pos"
  mem_pos_max :: "llama_seq_id \<Rightarrow> llama_pos"

definition valid_tokens :: "nat \<Rightarrow> llama_batch \<Rightarrow> bool" where
  "valid_tokens n_vocab b = (case bt_token b of
       None \<Rightarrow> True
     | Some ts \<Rightarrow> list_all (\<lambda>t. \<not> (t < 0 \<or> nat t \<ge> n_vocab)) (take (bt_n_tokens b) ts))"

definition valid_seq_ids :: "nat \<Rightarrow> llama_batch \<Rightarrow> bool outcome" where
  "valid_seq_ids n_seq_max b = (case bt_seq_id b of
       None \<Rightarrow> Inr True
     | Some rows \<Rightarrow> (case bt_n_seq_id b of
           None \<Rightarrow> Inl Null_dereference
         | Some ns \<Rightarrow> Inr (list_all (\<lambda>i. list_all (\<lambda>s. \<not> (s < 0 \<or> s \<ge> int n_seq_max))
             (take (ns ! i) (rows ! i))) [0..<bt_n_tokens b])))"

definition fill_n_seq_id :: "llama_batch \<Rightarrow> nat list" where
  "fill_n_seq_id b = (case bt_n_seq_id b of Some ns \<Rightarrow> ns | None \<Rightarrow> replicate (bt_n_tokens b) 1)"

definition fill_seq_id :: "llama_batch \<Rightarrow> llama_seq_id list list" where
  "fill_seq_id b = (case bt_seq_id b of
     Some rows \<Rightarrow> map (map nat) rows | None \<Rightarrow> replicate (bt_n_tokens b) [0])"

text \<open>The first position of every sequence: after what the memory holds, or 0.\<close>

definition start_pos :: "memory_view option \<Rightarrow> llama_seq_id \<Rightarrow> llama_pos" where
  "start_pos mem s = (case mem of None \<Rightarrow> 0 | Some m \<Rightarrow> mem_pos_max m s + 1)"

text \<open>
  The loop over the tokens; an entry is the row of the token and how many ids of it
  count. The position of a token is the running position of the first id of its row.
\<close>

fun fill_pos_loop :: "(llama_seq_id \<Rightarrow> llama_pos) \<Rightarrow> (llama_seq_id list \<times> nat) list \<Rightarrow> llama_pos list" where
  "fill_pos_loop p0 [] = []"
| "fill_pos_loop p0 ((row, n) # rest) =
     (let p = p0 (row ! 0)
      in p # fill_pos_loop (fold (\<lambda>s p0. p0(s := p + 1)) (take n row) p0) rest)"

definition fill_pos :: "memory_view option \<Rightarrow> llama_batch \<Rightarrow> llama_pos list" where
  "fill_pos mem b = (case bt_pos b of
     Some ps \<Rightarrow> ps
   | None \<Rightarrow> fill_pos_loop (start_pos mem)
       (take (bt_n_tokens b) (zip (fill_seq_id b) (fill_n_seq_id b))))"

definition fill_logits :: "bool \<Rightarrow> llama_batch \<Rightarrow> bool list" where
  "fill_logits output_all b = (case bt_logits b of
     None \<Rightarrow> (if output_all then replicate (bt_n_tokens b) True
              else (replicate (bt_n_tokens b) False)[bt_n_tokens b - 1 := True])
   | Some ls \<Rightarrow> (if output_all \<and> list_ex (\<lambda>l. \<not> l) (take (bt_n_tokens b) ls)
              then replicate (bt_n_tokens b) True else ls))"

definition fill_batch :: "memory_view option \<Rightarrow> bool \<Rightarrow> llama_batch \<Rightarrow> full_batch" where
  "fill_batch mem output_all b = \<lparr>b_n_tokens = bt_n_tokens b, b_token = bt_token b,
     b_embd = bt_embd b, b_pos = fill_pos mem b, b_n_seq_id = fill_n_seq_id b,
     b_seq_id = fill_seq_id b, b_logits = fill_logits output_all b\<rparr>"

text \<open>
  The statistics. \<open>note_token\<close> is the body of the loop that collects the positions of
  each sequence and marks coupled sequences; \<open>note_set\<close> the one that collects the
  sequence sets; \<open>note_unq\<close> the one that numbers the participating sequences.
\<close>

definition note_token :: "nat \<Rightarrow> batch_allocr \<Rightarrow> batch_allocr" where
  "note_token i a =
     (let b = ba_batch a; s0 = b_seq_id b ! i ! 0
      in fold (\<lambda>s a. let s1 = b_seq_id b ! i ! s;
             a = a\<lparr>ba_seq_pos := (ba_seq_pos a)(s1 := insert (b_pos b ! i) (ba_seq_pos a s1))\<rparr>
           in if s > 0 then a\<lparr>ba_seq_cpl := (ba_seq_cpl a)(s1 := (ba_seq_cpl a s1)(s0 := True)),
                               ba_has_cpl := True\<rparr> else a)
         [0..<b_n_seq_id b ! i] a)"

definition note_set :: "nat \<Rightarrow> batch_allocr \<Rightarrow> batch_allocr" where
  "note_set i a = (let cur = set (b_ids (ba_batch a) i)
     in a\<lparr>ba_seq_set := ba_seq_set a @ [cur],
          ba_seq_set_map := (ba_seq_set_map a)(cur := ba_seq_set_map a cur @ [i])\<rparr>)"

definition note_unq :: "llama_seq_id set \<Rightarrow> llama_seq_id \<Rightarrow> batch_allocr \<Rightarrow> batch_allocr" where
  "note_unq unq s a = (if s \<in> unq
     then a\<lparr>ba_seq_idx := (ba_seq_idx a)[s := int (length (ba_seq_id_unq a))],
            ba_seq_id_unq := ba_seq_id_unq a @ [s]\<rparr>
     else a)"

definition ba_stats :: "nat \<Rightarrow> nat \<Rightarrow> batch_allocr \<Rightarrow> batch_allocr" where
  "ba_stats n_embd n_seq_max a =
     (let n = b_n_tokens (ba_batch a);
          a = a\<lparr>ba_n_embd := n_embd, ba_n_seq_max := n_seq_max,
                ba_n_outputs := ba_n_outputs a + length (filter id (take n (b_logits (ba_batch a)))),
                ba_has_cpl := False\<rparr>;
          a = fold note_token [0..<n] a;
          a = fold note_set [0..<n] a;
          unq = (\<Union>i \<in> set [0..<n]. set (b_ids (ba_batch a) i))
      in fold (note_unq unq) [0..<n_seq_max] a)"

definition mem_last :: "memory_view option \<Rightarrow> llama_seq_id \<Rightarrow> llama_pos" where
  "mem_last mem s = (case mem of None \<Rightarrow> -1 | Some m \<Rightarrow> mem_pos_max m s)"

definition check_positions :: "memory_view option \<Rightarrow> batch_allocr \<Rightarrow> bool" where
  "check_positions mem a = list_all (\<lambda>s.
     if ba_seq_pos a s = {} then True
     else let p0 = mem_last mem s in
       if ba_n_pos_per_embd a > 1 then
         (if b_token (ba_batch a) \<noteq> None
          then \<not> (p0 \<ge> 0 \<and> p0 \<ge> ba_seq_pos_min a s)
          else \<not> (p0 \<ge> 0 \<and> p0 > ba_seq_pos_min a s))
       else (p0 \<ge> 0 \<longrightarrow> ba_seq_pos_min a s = p0 + 1) \<and>
         \<not> (ba_seq_pos_max a s - ba_seq_pos_min a s + 1 > int (card (ba_seq_pos a s))))
     [0..<ba_n_seq_max a]"

definition check_coupled :: "memory_view option \<Rightarrow> batch_allocr \<Rightarrow> bool" where
  "check_coupled mem a = (case mem of None \<Rightarrow> True | Some m \<Rightarrow>
     list_all (\<lambda>s0. list_all (\<lambda>s1. ba_seq_cpl a s0 s1 \<longrightarrow>
         \<not> (mem_pos_min m s0 \<noteq> mem_pos_min m s1 \<or> mem_pos_max m s0 \<noteq> mem_pos_max m s1))
       [0..<ba_n_seq_max a]) [0..<ba_n_seq_max a])"

text \<open>
  The last check. \<open>cur\<close> starts with every bit set and is narrowed; \<open>cur_pos\<close> starts at
  \<open>-1\<close> for every sequence and is, as in the code, never assigned again.
\<close>

fun check_ids :: "(llama_seq_id \<Rightarrow> llama_seq_id set) \<Rightarrow> (llama_seq_id \<Rightarrow> llama_pos) \<Rightarrow> llama_pos \<Rightarrow>
    llama_seq_id set \<Rightarrow> llama_seq_id list \<Rightarrow> (llama_seq_id \<Rightarrow> llama_seq_id set) option" where
  "check_ids cur cur_pos p sset [] = Some cur"
| "check_ids cur cur_pos p sset (s # ids) =
     (let cur = cur(s := cur s \<inter> sset)
      in if cur s = {} then None
         else if p < cur_pos s then None
         else check_ids cur cur_pos p sset ids)"

fun check_sets :: "(llama_seq_id \<Rightarrow> llama_seq_id set) \<Rightarrow> (llama_seq_id \<Rightarrow> llama_pos) \<Rightarrow>
    (llama_pos \<times> llama_seq_id set \<times> llama_seq_id list) list \<Rightarrow> bool" where
  "check_sets cur cur_pos [] = True"
| "check_sets cur cur_pos ((p, sset, ids) # rest) =
     (case check_ids cur cur_pos p sset ids of
        None \<Rightarrow> False
      | Some cur' \<Rightarrow> check_sets cur' cur_pos rest)"

definition check_seq_sets :: "batch_allocr \<Rightarrow> bool" where
  "check_seq_sets a = check_sets (\<lambda>_. {..<LLAMA_MAX_SEQ}) (\<lambda>_. -1)
     (map (\<lambda>i. (b_pos (ba_batch a) ! i, ba_seq_set a ! i, b_ids (ba_batch a) i))
       [0..<b_n_tokens (ba_batch a)])"

text \<open>
  A rejected batch leaves the allocator in a state the caller discards; here it is the
  cleared one, or the one the statistics were computed in.
\<close>

definition ba_init :: "nat \<Rightarrow> memory_view option \<Rightarrow> nat \<Rightarrow> nat \<Rightarrow> bool \<Rightarrow> llama_batch \<Rightarrow> batch_allocr
    \<Rightarrow> (bool \<times> batch_allocr) outcome" where
  "ba_init n_vocab mem n_embd n_seq_max output_all inp a =
     (let a = ba_clear a in
      if bt_n_tokens inp = 0 then Inl Assert_failed
      else if n_seq_max > LLAMA_MAX_SEQ then Inr (False, a)
      else if \<not> valid_tokens n_vocab inp then Inr (False, a)
      else case valid_seq_ids n_seq_max inp of
        Inl e \<Rightarrow> Inl e
      | Inr ok \<Rightarrow>
          if \<not> ok then Inr (False, a)
          else
            (let a = a\<lparr>ba_batch := fill_batch mem output_all inp\<rparr>;
                 a = ba_stats n_embd n_seq_max a
             in if \<not> check_positions mem a then Inr (False, a)
                else if \<not> check_coupled mem a then Inr (False, a)
                else if \<not> check_seq_sets a then Inr (False, a)
                else Inr (True, ba_split_reset a)))"

subsection \<open>Building a ubatch\<close>

definition number_unq :: "llama_seq_id set \<Rightarrow> nat \<Rightarrow> int list \<times> llama_seq_id list" where
  "number_unq unq n_seq_max =
     fold (\<lambda>s (idx, ids). if s \<in> unq then (idx[s := int (length ids)], ids @ [s]) else (idx, ids))
       [0..<n_seq_max] (replicate LLAMA_MAX_SEQ (-1), [])"

definition ubatch_add :: "nat list \<Rightarrow> nat \<Rightarrow> bool \<Rightarrow> batch_allocr \<Rightarrow> ubatch \<times> batch_allocr" where
  "ubatch_add idxs n_seqs equal_seqs a =
     (let b = ba_batch a; n_tokens = length idxs;
          unq = (\<Union>i \<in> set idxs. set (b_ids b i));
          (seq_idx, seq_id_unq) = number_unq unq (ba_n_seq_max a)
      in (\<lparr>ub_equal_seqs = equal_seqs, ub_n_tokens = n_tokens, ub_n_seq_tokens = n_tokens div n_seqs,
           ub_n_seqs = n_seqs, ub_n_seqs_unq = length seq_id_unq, ub_n_pos = ba_n_pos_per_embd a,
           ub_token = map_option (\<lambda>ts. map (\<lambda>i. ts ! i) idxs) (b_token b),
           ub_embd = map_option (\<lambda>es. concat (map (\<lambda>i. take (ba_n_embd a) (drop (i * ba_n_embd a) es)) idxs))
             (b_embd b),
           ub_pos = concat (map (\<lambda>j. map (\<lambda>i. b_pos b ! ((if b_token b \<noteq> None then 0 else j * b_n_tokens b) + i)) idxs)
             [0..<ba_n_pos_per_embd a]),
           ub_n_seq_id = map (\<lambda>i. b_n_seq_id b ! i) idxs,
           ub_seq_id = map (b_ids b) idxs,
           ub_seq_id_unq = seq_id_unq, ub_seq_idx = seq_idx,
           ub_output = map (\<lambda>i. b_logits b ! i) idxs\<rparr>,
          a\<lparr>ba_out_ids := ba_out_ids a @ filter (\<lambda>i. b_logits b ! i) idxs\<rparr>))"

subsection \<open>Splitting\<close>

definition use_token :: "nat \<Rightarrow> batch_allocr \<Rightarrow> batch_allocr" where
  "use_token i a = a\<lparr>ba_used := (ba_used a)[i := True], ba_n_used := ba_n_used a + 1\<rparr>"

definition first_unused :: "batch_allocr \<Rightarrow> nat" where
  "first_unused a = length (takeWhile id (ba_used a))"

function split_simple_loop :: "nat \<Rightarrow> nat \<Rightarrow> nat list \<Rightarrow> batch_allocr \<Rightarrow> nat list \<times> batch_allocr" where
  "split_simple_loop n_ubatch cur idxs a =
     (let idxs = idxs @ [cur]; a = use_token cur a; cur = cur + 1
      in if cur \<ge> length (ba_used a) then (idxs, a)
         else if length idxs \<ge> n_ubatch then (idxs, a)
         else split_simple_loop n_ubatch cur idxs a)"
  by pat_completeness auto
termination
  by (relation "measure (\<lambda>(n, cur, idxs, a). length (ba_used a) - cur)") (auto simp: use_token_def)

definition split_simple :: "nat \<Rightarrow> batch_allocr \<Rightarrow> ubatch \<times> batch_allocr" where
  "split_simple n_ubatch a =
     (let cur = first_unused a
      in if cur \<ge> length (ba_used a) then (ubatch_none, a)
         else let (idxs, a) = split_simple_loop n_ubatch cur [] a
              in ubatch_add idxs (length idxs) False a)"

text \<open>
  \<open>split_equal\<close>: the choice of the sequence sets, the first unused token of each, the
  rounds that take one token of every set, and the concatenation.
\<close>

fun select_sets :: "batch_allocr \<Rightarrow> nat \<Rightarrow> bool \<Rightarrow> nat list \<Rightarrow> llama_seq_id set list \<Rightarrow> int \<Rightarrow>
    llama_seq_id set list" where
  "select_sets a n_ubatch sequential [] sets last_seq_id = sets"
| "select_sets a n_ubatch sequential (i # is) sets last_seq_id =
     (if ba_used a ! i then select_sets a n_ubatch sequential is sets last_seq_id
      else
        let add = list_all (\<lambda>S. S \<inter> ba_seq_set a ! i = {}) sets;
            first = int (b_seq_id (ba_batch a) ! i ! 0);
            add = (if sequential then add \<and> (sets = [] \<or> first = last_seq_id + 1) else add)
        in if add then
             (let sets = sets @ [ba_seq_set a ! i]
              in if length sets > n_ubatch then sets
                 else select_sets a n_ubatch sequential is sets first)
           else select_sets a n_ubatch sequential is sets last_seq_id)"

definition take_round :: "llama_seq_id set list \<Rightarrow> nat list \<Rightarrow> nat list list \<times> batch_allocr \<Rightarrow>
    nat list list \<times> batch_allocr" where
  "take_round sets cur st =
     fold (\<lambda>s (per, a). let idx = ba_seq_set_map a (sets ! s) ! (cur ! s)
         in (per[s := per ! s @ [idx]], use_token idx a)) [0..<length sets] st"

definition can_expand :: "batch_allocr \<Rightarrow> llama_seq_id set list \<Rightarrow> nat list \<Rightarrow> bool" where
  "can_expand a sets cur = list_all (\<lambda>s. cur ! s < length (ba_seq_set_map a (sets ! s))) [0..<length sets]"

lemma take_round_map [simp]:
  "ba_seq_set_map (snd (take_round sets cur (per, a))) = ba_seq_set_map a"
proof -
  have "ba_seq_set_map (snd (fold (\<lambda>s (per, a). let idx = ba_seq_set_map a (sets ! s) ! (cur ! s)
         in (per[s := per ! s @ [idx]], use_token idx a)) xs st)) = ba_seq_set_map (snd st)" for xs st
    by (induction xs arbitrary: st) (auto simp: use_token_def Let_def split: prod.splits)
  then show ?thesis by (simp add: take_round_def)
qed

text \<open>The code returns before this loop when no set was selected, and keeps one index per set.\<close>

function equal_loop :: "nat \<Rightarrow> llama_seq_id set list \<Rightarrow> nat list \<Rightarrow> nat list list \<times> batch_allocr \<Rightarrow>
    nat list list \<times> batch_allocr" where
  "equal_loop n_ubatch sets cur st =
     (if sets = [] \<or> cur = [] \<or> \<not> can_expand (snd st) sets cur then st
      else
        let st = take_round sets cur st; cur = map Suc cur
        in if (length (fst st ! 0) + 1) * length sets > n_ubatch then st
           else equal_loop n_ubatch sets cur st)"
  by pat_completeness auto
termination
proof (relation "measure (\<lambda>(n, sets, cur, st). length (ba_seq_set_map (snd st) (hd sets)) - (if cur = [] then 0 else hd cur))",
    goal_cases)
  case 1
  show ?case by simp
next
  case (2 n sets cur st st' cur')
  then have "0 < length sets" by auto
  then have "cur ! 0 < length (ba_seq_set_map (snd st) (sets ! 0))"
    using 2 by (auto simp: can_expand_def list_all_iff)
  then show ?case
    using 2 by (cases st; cases sets; cases cur) (auto simp: hd_conv_nth)
qed

definition split_equal :: "nat \<Rightarrow> bool \<Rightarrow> batch_allocr \<Rightarrow> ubatch \<times> batch_allocr" where
  "split_equal n_ubatch sequential a =
     (if sequential \<and> ba_has_cpl a then (ubatch_none, a)
      else
        let sets = select_sets a n_ubatch sequential [0..<ba_get_n_tokens a] [] (-1)
        in if sets = [] then (ubatch_none, a)
           else
             let cur = map (\<lambda>S. length (takeWhile (\<lambda>idx. ba_used a ! idx) (ba_seq_set_map a S))) sets;
                 (per, a) = equal_loop n_ubatch sets cur (replicate (length sets) [], a)
             in ubatch_add (concat per) (length sets) True a)"

text \<open>
  \<open>split_seq\<close>: the \<open>do ... while\<close> that looks for the next unused token whose set is
  contained in the current one, and the loop around it.
\<close>

definition next_in_set :: "batch_allocr \<Rightarrow> llama_seq_id set \<Rightarrow> nat \<Rightarrow> nat" where
  "next_in_set a S cur = (case find (\<lambda>j. \<not> (ba_used a ! j \<or> S \<inter> ba_seq_set a ! j \<noteq> ba_seq_set a ! j))
       [Suc cur..<ba_get_n_tokens a] of
     Some j \<Rightarrow> j | None \<Rightarrow> max (Suc cur) (ba_get_n_tokens a))"

lemma next_in_set_greater: "cur < next_in_set a S cur"
  by (auto simp: next_in_set_def find_Some_iff split: option.splits)

lemma ba_get_n_tokens_use [simp]: "ba_get_n_tokens (use_token i a) = ba_get_n_tokens a"
  by (simp add: ba_get_n_tokens_def use_token_def)

function split_seq_loop :: "nat \<Rightarrow> llama_seq_id set \<Rightarrow> nat \<Rightarrow> nat list \<Rightarrow> batch_allocr \<Rightarrow>
    nat list \<times> batch_allocr" where
  "split_seq_loop n_ubatch S cur idxs a =
     (let idxs = idxs @ [cur]; a = use_token cur a
      in if length idxs \<ge> n_ubatch then (idxs, a)
         else let cur = next_in_set a S cur
              in if cur \<ge> ba_get_n_tokens a then (idxs, a)
                 else split_seq_loop n_ubatch (ba_seq_set a ! cur) cur idxs a)"
  by pat_completeness auto
termination
proof (relation "measure (\<lambda>(n, S, cur, idxs, a). ba_get_n_tokens a - cur)", goal_cases)
  case (2 n S cur idxs a idxs' a' cur')
  then show ?case using next_in_set_greater [of cur a' S] by auto
qed simp

definition split_seq :: "nat \<Rightarrow> batch_allocr \<Rightarrow> ubatch \<times> batch_allocr" where
  "split_seq n_ubatch a =
     (let cur = first_unused a
      in if cur \<ge> length (ba_used a) then (ubatch_none, a)
         else let (idxs, a) = split_seq_loop n_ubatch (ba_seq_set a ! cur) cur [] a
              in ubatch_add idxs 1 True a)"

definition ubatch_reserve :: "nat \<Rightarrow> nat \<Rightarrow> batch_allocr \<Rightarrow> ubatch \<times> batch_allocr" where
  "ubatch_reserve n_seq_tokens n_seqs a =
     (let n_tokens = n_seq_tokens * n_seqs; a = ba_split_reset (ba_clear a)
      in (\<lparr>ub_equal_seqs = True, ub_n_tokens = n_tokens, ub_n_seq_tokens = n_seq_tokens,
           ub_n_seqs = n_seqs, ub_n_seqs_unq = n_seqs, ub_n_pos = ba_n_pos_per_embd a,
           ub_token = Some (replicate n_tokens 0), ub_embd = None,
           ub_pos = replicate (n_tokens * ba_n_pos_per_embd a) 0,
           ub_n_seq_id = replicate n_tokens 0, ub_seq_id = replicate n_tokens [],
           ub_seq_id_unq = [0..<n_seqs],
           ub_seq_idx = map (\<lambda>s. if s < n_seqs then int s else -1) [0..<LLAMA_MAX_SEQ],
           ub_output = replicate n_tokens False\<rparr>, a))"

section \<open>What the statistics are\<close>

named_theorems ba_frame \<open>what the loops of the allocator leave alone\<close>

text \<open>
  Rows hold at least as many ids as are counted; the caller of \<open>llama_decode\<close> promises
  this, and the arrays the allocator fills in satisfy it.
\<close>

definition rows_ok :: "full_batch \<Rightarrow> bool" where
  "rows_ok b \<longleftrightarrow> (\<forall>i < b_n_tokens b. 0 < b_n_seq_id b ! i \<and> b_n_seq_id b ! i \<le> length (b_seq_id b ! i))"

lemma b_ids_nth: "rows_ok b \<Longrightarrow> i < b_n_tokens b \<Longrightarrow> k < b_n_seq_id b ! i \<Longrightarrow> b_seq_id b ! i ! k = b_ids b i ! k"
  by (simp add: b_ids_def)

lemma length_b_ids: "rows_ok b \<Longrightarrow> i < b_n_tokens b \<Longrightarrow> length (b_ids b i) = b_n_seq_id b ! i"
  by (simp add: b_ids_def rows_ok_def)

lemma b_ids_nonempty: "rows_ok b \<Longrightarrow> i < b_n_tokens b \<Longrightarrow> b_ids b i \<noteq> []"
  by (metis length_b_ids rows_ok_def length_greater_0_conv)

lemma note_token_eq:
  assumes "rows_ok (ba_batch a)" "i < b_n_tokens (ba_batch a)"
  shows "note_token i a = a\<lparr>
     ba_seq_pos := (\<lambda>s. if s \<in> set (b_ids (ba_batch a) i)
       then insert (b_pos (ba_batch a) ! i) (ba_seq_pos a s) else ba_seq_pos a s),
     ba_seq_cpl := (\<lambda>s1 s0. ba_seq_cpl a s1 s0 \<or>
       (s0 = b_ids (ba_batch a) i ! 0 \<and> s1 \<in> set (drop 1 (b_ids (ba_batch a) i)))),
     ba_has_cpl := (ba_has_cpl a \<or> 1 < length (b_ids (ba_batch a) i))\<rparr>"
proof -
  let ?b = "ba_batch a" and ?ids = "b_ids (ba_batch a) i"
  let ?body = "\<lambda>s a. let s1 = b_seq_id ?b ! i ! s;
             a = a\<lparr>ba_seq_pos := (ba_seq_pos a)(s1 := insert (b_pos ?b ! i) (ba_seq_pos a s1))\<rparr>
           in if s > 0 then a\<lparr>ba_seq_cpl := (ba_seq_cpl a)(s1 := (ba_seq_cpl a s1)(b_seq_id ?b ! i ! 0 := True)),
                               ba_has_cpl := True\<rparr> else a"
  have len: "length ?ids = b_n_seq_id ?b ! i" by (rule length_b_ids [OF assms])
  have first: "b_seq_id ?b ! i ! 0 = ?ids ! 0"
    using assms by (intro b_ids_nth) (auto simp: rows_ok_def)
  have "fold ?body [0..<k] a = a\<lparr>
     ba_seq_pos := (\<lambda>s. if s \<in> set (take k ?ids) then insert (b_pos ?b ! i) (ba_seq_pos a s) else ba_seq_pos a s),
     ba_seq_cpl := (\<lambda>s1 s0. ba_seq_cpl a s1 s0 \<or> (s0 = ?ids ! 0 \<and> s1 \<in> set (drop 1 (take k ?ids)))),
     ba_has_cpl := (ba_has_cpl a \<or> 1 < k)\<rparr>" if "k \<le> length ?ids" for k
    using that
  proof (induction k)
    case 0
    then show ?case by simp
  next
    case (Suc k)
    then have k: "k < length ?ids" by simp
    have nth: "b_seq_id ?b ! i ! k = ?ids ! k" using assms k by (intro b_ids_nth) (auto simp: len)
    have tk: "take (Suc k) ?ids = take k ?ids @ [?ids ! k]" using k by (rule take_Suc_conv_app_nth)
    show ?case
    proof (cases "k = 0")
      case True
      then show ?thesis using Suc k tk by (simp add: Let_def nth first fun_eq_iff)
    next
      case False
      then have dk: "drop 1 (take (Suc k) ?ids) = drop 1 (take k ?ids) @ [?ids ! k]"
        using k by (simp add: tk)
      show ?thesis
        using Suc.IH k False
        by (auto simp: Let_def nth first fun_eq_iff tk dk simp del: drop_take)
    qed
  qed
  from this [of "length ?ids"] show ?thesis
    by (simp add: note_token_def Let_def len)
qed

lemma note_tokens_eq:
  assumes "rows_ok (ba_batch a)" "n \<le> b_n_tokens (ba_batch a)"
  shows "fold note_token [0..<n] a = a\<lparr>
     ba_seq_pos := (\<lambda>s. ba_seq_pos a s \<union> {b_pos (ba_batch a) ! i | i. i < n \<and> s \<in> set (b_ids (ba_batch a) i)}),
     ba_seq_cpl := (\<lambda>s1 s0. ba_seq_cpl a s1 s0 \<or>
       (\<exists>i < n. s0 = b_ids (ba_batch a) i ! 0 \<and> s1 \<in> set (drop 1 (b_ids (ba_batch a) i)))),
     ba_has_cpl := (ba_has_cpl a \<or> (\<exists>i < n. 1 < length (b_ids (ba_batch a) i)))\<rparr>"
  using assms(2)
proof (induction n)
  case 0
  then show ?case by simp
next
  case (Suc n)
  then have "n < b_n_tokens (ba_batch a)" by simp
  then show ?case
    using Suc.IH assms(1)
    by (intro batch_allocr.equality) (auto simp: note_token_eq less_Suc_eq fun_eq_iff)
qed

lemma note_sets_eq:
  "fold note_set [0..<n] a = a\<lparr>
     ba_seq_set := ba_seq_set a @ map (\<lambda>i. set (b_ids (ba_batch a) i)) [0..<n],
     ba_seq_set_map := (\<lambda>S. ba_seq_set_map a S @ filter (\<lambda>i. set (b_ids (ba_batch a) i) = S) [0..<n])\<rparr>"
  by (induction n) (auto simp: note_set_def Let_def fun_eq_iff)

lemma note_unq_frame:
  "\<exists>idx. fold (note_unq unq) [0..<n] a = a\<lparr>ba_seq_idx := idx,
     ba_seq_id_unq := ba_seq_id_unq a @ filter (\<lambda>s. s \<in> unq) [0..<n]\<rparr>"
proof (induction n)
  case 0
  show ?case by (rule exI [of _ "ba_seq_idx a"]) simp
next
  case (Suc n)
  then obtain idx where "fold (note_unq unq) [0..<n] a = a\<lparr>ba_seq_idx := idx,
     ba_seq_id_unq := ba_seq_id_unq a @ filter (\<lambda>s. s \<in> unq) [0..<n]\<rparr>" by blast
  then have step: "fold (note_unq unq) [0..<Suc n] a = note_unq unq n (a\<lparr>ba_seq_idx := idx,
     ba_seq_id_unq := ba_seq_id_unq a @ filter (\<lambda>s. s \<in> unq) [0..<n]\<rparr>)" by simp
  show ?case unfolding step by (cases "n \<in> unq") (auto simp: note_unq_def)
qed

text \<open>The positions of sequence \<open>s\<close> in a batch.\<close>

definition batch_positions :: "full_batch \<Rightarrow> llama_seq_id \<Rightarrow> llama_pos set" where
  "batch_positions b s = {b_pos b ! i | i. i < b_n_tokens b \<and> s \<in> set (b_ids b i)}"

lemma finite_batch_positions: "finite (batch_positions b s)"
proof -
  have "batch_positions b s \<subseteq> (\<lambda>i. b_pos b ! i) ` {..<b_n_tokens b}"
    by (auto simp: batch_positions_def)
  then show ?thesis by (rule finite_subset) simp
qed

text \<open>
  What the split functions rely on: for every token its sequence set, and for every
  sequence set the indices of its tokens in increasing order.
\<close>

definition ba_wf :: "batch_allocr \<Rightarrow> bool" where
  "ba_wf a \<longleftrightarrow>
     ba_seq_set a = map (\<lambda>i. set (b_ids (ba_batch a) i)) [0..<ba_get_n_tokens a] \<and>
     ba_seq_set_map a = (\<lambda>S. filter (\<lambda>i. ba_seq_set a ! i = S) [0..<ba_get_n_tokens a]) \<and>
     length (ba_used a) = ba_get_n_tokens a \<and>
     ba_n_used a = length (filter id (ba_used a))"

lemma ba_stats_result:
  fixes a :: batch_allocr and n_embd n_seq_max :: nat
  defines "r \<equiv> ba_stats n_embd n_seq_max a"
  assumes rows: "rows_ok (ba_batch a)"
    and clean: "ba_seq_pos a = (\<lambda>_. {})" "ba_seq_cpl a = (\<lambda>_ _. False)" "ba_seq_set a = []"
      "ba_seq_set_map a = (\<lambda>_. [])" "ba_seq_id_unq a = []" "ba_n_outputs a = 0"
  shows "ba_batch r = ba_batch a"
    and "ba_n_seq_max r = n_seq_max"
    and "ba_n_embd r = n_embd"
    and "ba_n_pos_per_embd r = ba_n_pos_per_embd a"
    and "ba_seq_pos r = batch_positions (ba_batch a)"
    and "ba_seq_cpl r = (\<lambda>s1 s0. \<exists>i < b_n_tokens (ba_batch a).
       s0 = b_ids (ba_batch a) i ! 0 \<and> s1 \<in> set (drop 1 (b_ids (ba_batch a) i)))"
    and "ba_has_cpl r \<longleftrightarrow> (\<exists>i < b_n_tokens (ba_batch a). 1 < length (b_ids (ba_batch a) i))"
    and "ba_seq_set r = map (\<lambda>i. set (b_ids (ba_batch a) i)) [0..<b_n_tokens (ba_batch a)]"
    and "ba_seq_set_map r = (\<lambda>S. filter (\<lambda>i. set (b_ids (ba_batch a) i) = S) [0..<b_n_tokens (ba_batch a)])"
    and "ba_n_outputs r = length (filter id (take (b_n_tokens (ba_batch a)) (b_logits (ba_batch a))))"
proof -
  let ?b = "ba_batch a"
  define m where "m = a\<lparr>ba_n_embd := n_embd, ba_n_seq_max := n_seq_max,
    ba_n_outputs := length (filter id (take (b_n_tokens ?b) (b_logits ?b))),
    ba_seq_pos := batch_positions ?b,
    ba_seq_cpl := (\<lambda>s1 s0. \<exists>i < b_n_tokens ?b. s0 = b_ids ?b i ! 0 \<and> s1 \<in> set (drop 1 (b_ids ?b i))),
    ba_has_cpl := (\<exists>i < b_n_tokens ?b. 1 < length (b_ids ?b i)),
    ba_seq_set := map (\<lambda>i. set (b_ids ?b i)) [0..<b_n_tokens ?b],
    ba_seq_set_map := (\<lambda>S. filter (\<lambda>i. set (b_ids ?b i) = S) [0..<b_n_tokens ?b])\<rparr>"
  have "\<exists>unq. r = fold (note_unq unq) [0..<n_seq_max] m"
    by (rule exI [of _ "\<Union>i \<in> set [0..<b_n_tokens ?b]. set (b_ids ?b i)"])
      (simp add: r_def ba_stats_def Let_def note_sets_eq note_tokens_eq rows clean m_def
        batch_positions_def [abs_def])
  then obtain unq idx where "r = m\<lparr>ba_seq_idx := idx,
     ba_seq_id_unq := ba_seq_id_unq m @ filter (\<lambda>s. s \<in> unq) [0..<n_seq_max]\<rparr>"
    using note_unq_frame by blast
  then show "ba_batch r = ba_batch a"
    and "ba_n_seq_max r = n_seq_max"
    and "ba_n_embd r = n_embd"
    and "ba_n_pos_per_embd r = ba_n_pos_per_embd a"
    and "ba_seq_pos r = batch_positions ?b"
    and "ba_seq_cpl r = (\<lambda>s1 s0. \<exists>i < b_n_tokens ?b. s0 = b_ids ?b i ! 0 \<and> s1 \<in> set (drop 1 (b_ids ?b i)))"
    and "ba_has_cpl r \<longleftrightarrow> (\<exists>i < b_n_tokens ?b. 1 < length (b_ids ?b i))"
    and "ba_seq_set r = map (\<lambda>i. set (b_ids ?b i)) [0..<b_n_tokens ?b]"
    and "ba_seq_set_map r = (\<lambda>S. filter (\<lambda>i. set (b_ids ?b i) = S) [0..<b_n_tokens ?b])"
    and "ba_n_outputs r = length (filter id (take (b_n_tokens ?b) (b_logits ?b)))"
    by (simp_all add: m_def)
qed

lemma ba_wf_stats:
  assumes "rows_ok (ba_batch a)"
    and "ba_seq_pos a = (\<lambda>_. {})" "ba_seq_cpl a = (\<lambda>_ _. False)" "ba_seq_set a = []"
      "ba_seq_set_map a = (\<lambda>_. [])" "ba_seq_id_unq a = []" "ba_n_outputs a = 0"
  shows "ba_wf (ba_split_reset (ba_stats n_embd n_seq_max a))"
proof -
  note r = ba_stats_result [OF assms, of n_embd n_seq_max]
  have "filter (\<lambda>i. set (b_ids (ba_batch a) i) = S) [0..<n] =
      filter (\<lambda>i. map (\<lambda>i. set (b_ids (ba_batch a) i)) [0..<n] ! i = S) [0..<n]" for S n
    by (rule filter_cong) auto
  then show ?thesis
    by (simp add: ba_wf_def ba_split_reset_def ba_get_n_tokens_def r(1,8,9) fun_eq_iff)
qed

lemma ba_clear_clean:
  "ba_seq_pos (ba_clear a) = (\<lambda>_. {})" "ba_seq_cpl (ba_clear a) = (\<lambda>_ _. False)"
  "ba_seq_set (ba_clear a) = []" "ba_seq_set_map (ba_clear a) = (\<lambda>_. [])"
  "ba_seq_id_unq (ba_clear a) = []" "ba_n_outputs (ba_clear a) = 0"
  "ba_n_pos_per_embd (ba_clear a) = ba_n_pos_per_embd a"
  by (simp_all add: ba_clear_def)

section \<open>What an accepted batch guarantees\<close>

text \<open>The rows of the input: where ids are given, so are their counts, and rows are long enough.\<close>

definition input_rows_ok :: "llama_batch \<Rightarrow> bool" where
  "input_rows_ok b \<longleftrightarrow> (case bt_seq_id b of
      None \<Rightarrow> bt_n_seq_id b = None
    | Some rows \<Rightarrow> (case bt_n_seq_id b of None \<Rightarrow> False | Some ns \<Rightarrow>
        length rows \<ge> bt_n_tokens b \<and> length ns \<ge> bt_n_tokens b \<and>
        (\<forall>i < bt_n_tokens b. 0 < ns ! i \<and> ns ! i \<le> length (rows ! i))))"

lemma rows_ok_fill: "input_rows_ok b \<Longrightarrow> rows_ok (fill_batch mem output_all b)"
  by (auto simp: input_rows_ok_def rows_ok_def fill_batch_def fill_n_seq_id_def fill_seq_id_def
      split: option.splits)

lemma ba_init_accepts:
  assumes "input_rows_ok inp"
  shows "ba_init n_vocab mem n_embd n_seq_max output_all inp a = Inr (True, a') \<longleftrightarrow>
    (let b = fill_batch mem output_all inp;
         r = ba_stats n_embd n_seq_max ((ba_clear a)\<lparr>ba_batch := b\<rparr>)
     in 0 < bt_n_tokens inp \<and> n_seq_max \<le> LLAMA_MAX_SEQ \<and> valid_tokens n_vocab inp \<and>
        valid_seq_ids n_seq_max inp = Inr True \<and> check_positions mem r \<and> check_coupled mem r \<and>
        check_seq_sets r \<and> a' = ba_split_reset r)"
  by (auto simp: ba_init_def Let_def split: sum.splits)

text \<open>A finite set of integers that is no wider than it is large is an interval.\<close>

lemma dense_is_interval:
  fixes P :: "int set"
  assumes "finite P" "P \<noteq> {}" "Max P - Min P + 1 \<le> int (card P)"
  shows "P = {Min P..Max P}"
proof (rule card_subset_eq)
  show "finite {Min P..Max P}" by simp
  show sub: "P \<subseteq> {Min P..Max P}" using assms(1) by auto
  have "Min P \<le> Max P" using assms by simp
  then have "card {Min P..Max P} = nat (Max P - Min P + 1)" by simp
  moreover have "card P \<le> card {Min P..Max P}" using sub by (rule card_mono [rotated]) simp
  ultimately show "card P = card {Min P..Max P}" using assms(3) by linarith
qed

section \<open>The simple split\<close>

declare split_simple_loop.simps [simp del] equal_loop.simps [simp del] split_seq_loop.simps [simp del]

text \<open>
  The loop every memory module runs: split until an empty ubatch comes back. Each round
  uses up at least one token, so one more round than there are tokens is enough fuel.
\<close>

fun collect_ubatches :: "nat \<Rightarrow> (batch_allocr \<Rightarrow> ubatch \<times> batch_allocr) \<Rightarrow> batch_allocr \<Rightarrow>
    (ubatch list \<times> batch_allocr) option" where
  "collect_ubatches 0 split a = None"
| "collect_ubatches (Suc fuel) split a =
     (let (u, a') = split a
      in if ub_n_tokens u = 0 then Some ([], a')
         else map_option (\<lambda>(us, a''). (u # us, a'')) (collect_ubatches fuel split a'))"

lemma replicate_True_update:
  "(replicate c True @ replicate (Suc m) False)[c := True] = replicate (Suc c) True @ replicate m False"
  using list_update_length [of "replicate c True" False "replicate m False" True]
  by (simp add: replicate_app_Cons_same)

lemma split_simple_loop_eq:
  assumes "ba_used a = replicate cur True @ replicate m False" "0 < m"
  shows "split_simple_loop n_ubatch cur idxs a =
    (let k = min m (max 1 (n_ubatch - length idxs))
     in (idxs @ [cur..<cur + k],
         a\<lparr>ba_used := replicate (cur + k) True @ replicate (m - k) False, ba_n_used := ba_n_used a + k\<rparr>))"
  using assms
proof (induction m arbitrary: cur idxs a)
  case 0
  then show ?case by simp
next
  case (Suc m)
  let ?a = "use_token cur a"
  have used: "ba_used ?a = replicate (Suc cur) True @ replicate m False"
    using Suc.prems(1) by (simp add: use_token_def replicate_True_update del: replicate.simps)
  have n: "ba_n_used ?a = ba_n_used a + 1" by (simp add: use_token_def)
  have len: "length (ba_used ?a) = Suc cur + m" by (simp add: used del: replicate.simps)
  show ?case
  proof (cases "m = 0 \<or> n_ubatch \<le> Suc (length idxs)")
    case True
    then have "split_simple_loop n_ubatch cur idxs a = (idxs @ [cur], ?a)"
      using len by (auto simp: split_simple_loop.simps [of n_ubatch cur idxs a] Let_def)
    moreover have "min (Suc m) (max 1 (n_ubatch - length idxs)) = 1" using True by auto
    ultimately show ?thesis
      using used n by (simp add: Let_def use_token_def del: replicate.simps)
  next
    case False
    then have m: "0 < m" by simp
    have step: "split_simple_loop n_ubatch cur idxs a = split_simple_loop n_ubatch (Suc cur) (idxs @ [cur]) ?a"
      using False len by (simp add: split_simple_loop.simps [of n_ubatch cur idxs a] Let_def)
    define k where "k = min m (max 1 (n_ubatch - length (idxs @ [cur])))"
    have k: "min (Suc m) (max 1 (n_ubatch - length idxs)) = Suc k" using False by (auto simp: k_def)
    have "split_simple_loop n_ubatch (Suc cur) (idxs @ [cur]) ?a =
      ((idxs @ [cur]) @ [Suc cur..<Suc cur + k],
         ?a\<lparr>ba_used := replicate (Suc cur + k) True @ replicate (m - k) False, ba_n_used := ba_n_used ?a + k\<rparr>)"
      using Suc.IH [OF used m] by (simp add: Let_def k_def del: replicate.simps)
    moreover have "[cur..<cur + Suc k] = cur # [Suc cur..<Suc cur + k]"
      by (simp add: upt_conv_Cons)
    ultimately show ?thesis
      unfolding step k Let_def by (simp add: use_token_def del: replicate.simps)
  qed
qed

lemma first_unused_eq: "ba_used a = replicate c True @ replicate m False \<Longrightarrow> first_unused a = c"
  by (cases m) (simp_all add: first_unused_def takeWhile_append)

text \<open>The fields of a ubatch do not depend on which tokens are used up.\<close>

lemma ubatch_add_frame:
  "fst (ubatch_add idxs n e (a\<lparr>ba_used := u, ba_n_used := k\<rparr>)) = fst (ubatch_add idxs n e a)"
  "fst (ubatch_add idxs n e (a\<lparr>ba_used := u, ba_n_used := k, ba_out_ids := os\<rparr>)) = fst (ubatch_add idxs n e a)"
  "snd (ubatch_add idxs n e a) = a\<lparr>ba_out_ids := ba_out_ids a @ filter (\<lambda>i. b_logits (ba_batch a) ! i) idxs\<rparr>"
  "ub_n_tokens (fst (ubatch_add idxs n e a)) = length idxs"
  "fst (ubatch_add idxs n e (ba_split_reset a)) = fst (ubatch_add idxs n e a)"
  by (simp_all add: ubatch_add_def Let_def ba_split_reset_def split: prod.splits)

lemma split_simple_eq:
  fixes n_ubatch m c :: nat
  assumes used: "ba_used a = replicate c True @ replicate m False" and "0 < m"
  defines "k \<equiv> min m (max 1 n_ubatch)"
  shows "split_simple n_ubatch a = (fst (ubatch_add [c..<c + k] k False a),
     a\<lparr>ba_used := replicate (c + k) True @ replicate (m - k) False, ba_n_used := ba_n_used a + k,
       ba_out_ids := ba_out_ids a @ filter (\<lambda>i. b_logits (ba_batch a) ! i) [c..<c + k]\<rparr>)"
proof -
  have "length (ba_used a) = c + m" by (simp add: used)
  then show ?thesis
    using assms(2) split_simple_loop_eq [OF used assms(2), of n_ubatch "[]"]
    by (intro prod_eqI) (simp_all add: split_simple_def Let_def first_unused_eq [OF used] ubatch_add_frame
        k_def)
qed

text \<open>The consecutive runs of at most \<open>n_ubatch\<close> tokens.\<close>

function runs :: "nat \<Rightarrow> nat \<Rightarrow> nat \<Rightarrow> nat list list" where
  "runs n_ubatch c n = (if c < n then let k = min (n - c) (max 1 n_ubatch) in [c..<c + k] # runs n_ubatch (c + k) n else [])"
  by pat_completeness auto
termination
  by (relation "measure (\<lambda>(u, c, n). n - c)") (auto simp: Let_def min_def max_def)

declare runs.simps [simp del]

lemma concat_runs: "c \<le> n \<Longrightarrow> concat (runs u c n) = [c..<n]"
proof (induction u c n rule: runs.induct)
  case (1 u c n)
  let ?k = "min (n - c) (max 1 u)"
  show ?case
  proof (cases "c < n")
    case True
    then have "concat (runs u (c + ?k) n) = [c + ?k..<n]" using "1.IH" by (simp add: Let_def)
    moreover have "[c..<c + ?k] @ [c + ?k..<n] = [c..<n]"
      using upt_add_eq_append [of c "c + ?k" "n - (c + ?k)"] True by simp
    ultimately show ?thesis
      using True by (simp add: runs.simps [of u c n] Let_def)
  next
    case False
    with "1.prems" show ?thesis by (subst runs.simps) simp
  qed
qed

lemma runs_bounded: "r \<in> set (runs u c n) \<Longrightarrow> r \<noteq> [] \<and> length r \<le> max 1 u"
proof (induction u c n rule: runs.induct)
  case (1 u c n)
  let ?k = "min (n - c) (max 1 u)"
  have c: "c < n" using "1.prems" by (auto simp: runs.simps [of u c n] split: if_splits)
  then have "r = [c..<c + ?k] \<or> r \<in> set (runs u (c + ?k) n)"
    using "1.prems" by (simp add: runs.simps [of u c n] Let_def)
  then show ?case
    using "1.IH" [OF c refl] c by (auto simp: min_def split: if_splits)
qed

lemma split_simple_done:
  "ba_used a = replicate c True \<Longrightarrow> split_simple n_ubatch a = (ubatch_none, a)"
  using first_unused_eq [of a c 0] by (simp add: split_simple_def)

lemma collect_simple:
  assumes "ba_used a = replicate c True @ replicate m False" "m < fuel"
  shows "collect_ubatches fuel (split_simple n_ubatch) a =
    Some (map (\<lambda>r. fst (ubatch_add r (length r) False a)) (runs n_ubatch c (c + m)),
      a\<lparr>ba_used := replicate (c + m) True, ba_n_used := ba_n_used a + m,
        ba_out_ids := ba_out_ids a @ filter (\<lambda>i. b_logits (ba_batch a) ! i) [c..<c + m]\<rparr>)"
  using assms
proof (induction m arbitrary: c a fuel rule: less_induct)
  case (less m)
  obtain f where f: "fuel = Suc f" using less.prems(2) by (cases fuel) auto
  show ?case
  proof (cases "m = 0")
    case True
    then have "split_simple n_ubatch a = (ubatch_none, a)"
      using less.prems(1) by (intro split_simple_done) simp
    then show ?thesis
      using True less.prems(1) by (simp add: f ubatch_none_def runs.simps [of n_ubatch c c])
  next
    case False
    define k where "k = min m (max 1 n_ubatch)"
    have k: "0 < k" "k \<le> m" using False by (auto simp: k_def)
    let ?a = "a\<lparr>ba_used := replicate (c + k) True @ replicate (m - k) False, ba_n_used := ba_n_used a + k,
       ba_out_ids := ba_out_ids a @ filter (\<lambda>i. b_logits (ba_batch a) ! i) [c..<c + k]\<rparr>"
    have split: "split_simple n_ubatch a = (fst (ubatch_add [c..<c + k] k False a), ?a)"
      using split_simple_eq [OF less.prems(1)] False by (simp add: k_def)
    have "m - k < m" "m - k < f" using k less.prems(2) f by auto
    then have rec: "collect_ubatches f (split_simple n_ubatch) ?a =
      Some (map (\<lambda>r. fst (ubatch_add r (length r) False ?a)) (runs n_ubatch (c + k) (c + k + (m - k))),
        ?a\<lparr>ba_used := replicate (c + k + (m - k)) True, ba_n_used := ba_n_used ?a + (m - k),
          ba_out_ids := ba_out_ids ?a @ filter (\<lambda>i. b_logits (ba_batch ?a) ! i) [c + k..<c + k + (m - k)]\<rparr>)"
      by (intro less.IH) simp_all
    have runs: "runs n_ubatch c (c + m) = [c..<c + k] # runs n_ubatch (c + k) (c + m)"
      using False by (simp add: runs.simps [of n_ubatch c "c + m"] Let_def k_def)
    have "[c..<c + m] = [c..<c + k] @ [c + k..<c + m]"
      using upt_add_eq_append [of c "c + k" "m - k"] k by simp
    then show ?thesis
      using rec k by (simp add: f split ubatch_add_frame runs)
  qed
qed

text \<open>
  Splitting the whole batch with \<open>split_simple\<close>: the indices handed out, ubatch after
  ubatch, are all indices of the batch in order.
\<close>

lemma split_all_simple:
  fixes a :: batch_allocr
  defines "n \<equiv> ba_get_n_tokens a"
  shows "collect_ubatches (Suc n) (split_simple n_ubatch) (ba_split_reset a) =
    Some (map (\<lambda>r. fst (ubatch_add r (length r) False a)) (runs n_ubatch 0 n),
      a\<lparr>ba_used := replicate n True, ba_n_used := n,
        ba_out_ids := filter (\<lambda>i. b_logits (ba_batch a) ! i) [0..<n]\<rparr>)"
proof -
  have "ba_used (ba_split_reset a) = replicate 0 True @ replicate n False"
    by (simp add: ba_split_reset_def n_def)
  from collect_simple [OF this, of "Suc n" n_ubatch]
  have "collect_ubatches (Suc n) (split_simple n_ubatch) (ba_split_reset a) =
    Some (map (\<lambda>r. fst (ubatch_add r (length r) False a)) (runs n_ubatch 0 n),
      (ba_split_reset a)\<lparr>ba_used := replicate n True, ba_n_used := ba_n_used (ba_split_reset a) + n,
        ba_out_ids := ba_out_ids (ba_split_reset a) @
          filter (\<lambda>i. b_logits (ba_batch (ba_split_reset a)) ! i) [0..<n]\<rparr>)"
    by (simp add: ubatch_add_frame(5) del: collect_ubatches.simps)
  then show ?thesis by (simp add: ba_split_reset_def del: collect_ubatches.simps)
qed

section \<open>The equal split\<close>

lemma use_tokens_eq:
  "fold use_token us a = a\<lparr>ba_used := fold (\<lambda>i u. u[i := True]) us (ba_used a),
     ba_n_used := ba_n_used a + length us\<rparr>"
  by (induction us arbitrary: a) (simp_all add: use_token_def)

lemma fold_set_True:
  "length (fold (\<lambda>i u. u[i := True]) us u) = length u"
  "\<forall>i \<in> set us. i < length u \<Longrightarrow> j < length u \<Longrightarrow>
     fold (\<lambda>i u. u[i := True]) us u ! j \<longleftrightarrow> u ! j \<or> j \<in> set us"
  by (induction us arbitrary: u) (auto simp: nth_list_update)

text \<open>Marking distinct unused tokens raises the count by their number.\<close>

lemma count_use_tokens:
  assumes "distinct us" "\<forall>i \<in> set us. i < length u \<and> \<not> u ! i"
  shows "length (filter id (fold (\<lambda>i u. u[i := True]) us u)) = length (filter id u) + length us"
  using assms
proof (induction us arbitrary: u)
  case (Cons i us)
  have "int (length (filter id (u[i := True]))) = int (length (filter id u)) + 1"
    using Cons.prems by (subst length_filter_update) auto
  moreover have "length (filter id (fold (\<lambda>i u. u[i := True]) us (u[i := True]))) =
      length (filter id (u[i := True])) + length us"
    using Cons.prems by (intro Cons.IH) (auto simp: nth_list_update)
  ultimately show ?case unfolding fold_simps list.size by linarith
qed simp

lemma take_round_eq:
  assumes "length per = length sets"
  shows "take_round sets cur (per, a) =
    (map (\<lambda>s. per ! s @ [ba_seq_set_map a (sets ! s) ! (cur ! s)]) [0..<length sets],
     fold use_token (map (\<lambda>s. ba_seq_set_map a (sets ! s) ! (cur ! s)) [0..<length sets]) a)"
proof -
  let ?m = "\<lambda>s. ba_seq_set_map a (sets ! s) ! (cur ! s)"
  have "fold (\<lambda>s (per, a). let idx = ba_seq_set_map a (sets ! s) ! (cur ! s)
         in (per[s := per ! s @ [idx]], use_token idx a)) [0..<k] (per, a) =
     (map (\<lambda>s. per ! s @ [?m s]) [0..<k] @ drop k per, fold use_token (map ?m [0..<k]) a)"
    if "k \<le> length sets" for k
    using that
  proof (induction k)
    case (Suc k)
    then have k: "k < length per" using assms by simp
    have m: "ba_seq_set_map (fold use_token us a) = ba_seq_set_map a" for us
      by (simp add: use_tokens_eq)
    have at: "(map (\<lambda>s. per ! s @ [?m s]) [0..<k] @ drop k per) ! k = per ! k"
      using k by (simp add: nth_append)
    have upd: "(map (\<lambda>s. per ! s @ [?m s]) [0..<k] @ drop k per)[k := per ! k @ [?m k]] =
      map (\<lambda>s. per ! s @ [?m s]) [0..<Suc k] @ drop (Suc k) per"
      using k by (simp add: list_update_append Cons_nth_drop_Suc [symmetric])
    show ?case using Suc k at upd by (simp add: m Let_def)
  qed simp
  from this [of "length sets"] show ?thesis using assms by (simp add: take_round_def)
qed

lemma mset_map_plus_sum:
  "mset (map f xs) + (\<Sum>s \<leftarrow> xs. g s) = (\<Sum>s \<leftarrow> xs. add_mset (f s) (g s))"
  by (induction xs) auto

lemma mset_map_sum: "mset (map f xs) = (\<Sum>s \<leftarrow> xs. {#f s#})"
  by (induction xs) auto

text \<open>
  The loop runs \<open>r\<close> rounds; round \<open>j\<close> takes entry \<open>cur + j\<close> of every set's index list.
\<close>

definition round_idxs :: "batch_allocr \<Rightarrow> llama_seq_id set list \<Rightarrow> nat list \<Rightarrow> nat \<Rightarrow> nat \<Rightarrow> nat list" where
  "round_idxs a sets cur s r = map (\<lambda>j. ba_seq_set_map a (sets ! s) ! (cur ! s + j)) [0..<r]"

lemma round_idxs_Suc:
  "length cur = length sets \<Longrightarrow> s < length sets \<Longrightarrow> round_idxs a sets cur s (Suc r) =
     ba_seq_set_map a (sets ! s) ! (cur ! s) # round_idxs a sets (map Suc cur) s r"
  by (auto simp: round_idxs_def upt_conv_Cons map_Suc_upt [symmetric] simp del: upt_Suc)

lemma equal_loop_rounds:
  assumes "sets \<noteq> []" "length cur = length sets" "length per = length sets"
    and "\<forall>s < length sets. length (per ! s) = r0"
  shows "\<exists>r us. equal_loop n_ubatch sets cur (per, a) =
      (map (\<lambda>s. per ! s @ round_idxs a sets cur s r) [0..<length sets], fold use_token us a) \<and>
    mset us = (\<Sum>s \<leftarrow> [0..<length sets]. mset (round_idxs a sets cur s r)) \<and>
    (\<forall>s < length sets. cur ! s + r \<le> length (ba_seq_set_map a (sets ! s)) \<or> r = 0) \<and>
    (can_expand a sets cur \<longrightarrow> 0 < r) \<and> (1 < r \<longrightarrow> (r0 + r) * length sets \<le> n_ubatch)"
  using assms
proof (induction n_ubatch sets cur "(per, a)" arbitrary: per a r0 rule: equal_loop.induct)
  case (1 n sets cur per a)
  have ne: "sets \<noteq> []" "cur \<noteq> []" using "1.prems"(1,2) by auto
  let ?m = "\<lambda>s. ba_seq_set_map a (sets ! s) ! (cur ! s)"
  let ?us = "map ?m [0..<length sets]"
  let ?per = "map (\<lambda>s. per ! s @ [?m s]) [0..<length sets]" and ?a = "fold use_token ?us a"
  have round: "take_round sets cur (per, a) = (?per, ?a)"
    by (rule take_round_eq [OF "1.prems"(3)])
  have map_a: "ba_seq_set_map ?a = ba_seq_set_map a" by (simp add: use_tokens_eq)
  consider (stuck) "\<not> can_expand a sets cur"
    | (last) "can_expand a sets cur" "n < (r0 + 2) * length sets"
    | (more) "can_expand a sets cur" "(r0 + 2) * length sets \<le> n"
    by linarith
  then show ?case
  proof cases
    case stuck
    then show ?thesis
      using "1.prems" by (intro exI [of _ 0] exI [of _ "[]"])
        (auto simp: equal_loop.simps [of n sets cur] round_idxs_def intro!: nth_equalityI)
  next
    case last
    then have "equal_loop n sets cur (per, a) = (?per, ?a)"
      using ne "1.prems"(3,4) by (simp add: equal_loop.simps [of n sets cur] Let_def round)
    then show ?thesis
      using last by (intro exI [of _ 1] exI [of _ ?us])
        (auto simp: round_idxs_def can_expand_def list_all_iff mset_map_sum Suc_le_eq simp del: mset_map)
  next
    case more
    then have step: "equal_loop n sets cur (per, a) = equal_loop n sets (map Suc cur) (?per, ?a)"
      using ne "1.prems"(3,4) by (simp add: equal_loop.simps [of n sets cur] Let_def round)
    have "\<exists>r us. equal_loop n sets (map Suc cur) (?per, ?a) =
        (map (\<lambda>s. ?per ! s @ round_idxs ?a sets (map Suc cur) s r) [0..<length sets], fold use_token us ?a) \<and>
      mset us = (\<Sum>s \<leftarrow> [0..<length sets]. mset (round_idxs ?a sets (map Suc cur) s r)) \<and>
      (\<forall>s < length sets. map Suc cur ! s + r \<le> length (ba_seq_set_map ?a (sets ! s)) \<or> r = 0) \<and>
      (can_expand ?a sets (map Suc cur) \<longrightarrow> 0 < r) \<and> (1 < r \<longrightarrow> (Suc r0 + r) * length sets \<le> n)"
      by (rule "1.hyps" [OF _ round [symmetric] refl]) (use more ne "1.prems" round in \<open>auto simp: Let_def\<close>)
    then obtain r us where r: "equal_loop n sets (map Suc cur) (?per, ?a) =
        (map (\<lambda>s. ?per ! s @ round_idxs ?a sets (map Suc cur) s r) [0..<length sets], fold use_token us ?a)"
      "mset us = (\<Sum>s \<leftarrow> [0..<length sets]. mset (round_idxs ?a sets (map Suc cur) s r))"
      "\<forall>s < length sets. map Suc cur ! s + r \<le> length (ba_seq_set_map ?a (sets ! s)) \<or> r = 0"
      "1 < r \<longrightarrow> (Suc r0 + r) * length sets \<le> n" by blast
    have idx: "round_idxs a sets cur s (Suc r) = ?m s # round_idxs ?a sets (map Suc cur) s r"
      if "s < length sets" for s
      using round_idxs_Suc [OF "1.prems"(2) that] by (simp add: round_idxs_def map_a)
    have "equal_loop n sets cur (per, a) =
        (map (\<lambda>s. per ! s @ round_idxs a sets cur s (Suc r)) [0..<length sets], fold use_token (?us @ us) a)"
      unfolding step r(1) by (simp add: idx)
    moreover have "mset (?us @ us) = (\<Sum>s \<leftarrow> [0..<length sets]. mset (round_idxs a sets cur s (Suc r)))"
    proof -
      have "(\<Sum>s \<leftarrow> [0..<length sets]. mset (round_idxs a sets cur s (Suc r))) =
          (\<Sum>s \<leftarrow> [0..<length sets]. add_mset (?m s) (mset (round_idxs ?a sets (map Suc cur) s r)))"
        by (intro arg_cong [of _ _ sum_list] map_cong refl) (simp add: idx)
      then show ?thesis by (simp only: mset_append r(2) mset_map_plus_sum)
    qed
    moreover have "cur ! s + Suc r \<le> length (ba_seq_set_map a (sets ! s))" if "s < length sets" for s
      using that r(3) more(1) "1.prems"(2)
      by (auto simp: map_a can_expand_def list_all_iff Suc_le_eq)
    moreover have "1 < Suc r \<longrightarrow> (r0 + Suc r) * length sets \<le> n"
      using r(4) more(2) by (cases "r = 1") auto
    ultimately show ?thesis by (intro exI [of _ "Suc r"] exI [of _ "?us @ us"]) simp
  qed
qed

text \<open>
  Within each sequence set the tokens are used up from the front. This holds after
  \<open>split_reset\<close> and every \<open>split_equal\<close> keeps it.
\<close>

definition prefix_used :: "batch_allocr \<Rightarrow> bool" where
  "prefix_used a \<longleftrightarrow> (\<forall>S. \<exists>k. \<forall>j < length (ba_seq_set_map a S). ba_used a ! (ba_seq_set_map a S ! j) \<longleftrightarrow> j < k)"

lemma length_takeWhile_prefix:
  "\<forall>j < length xs. P (xs ! j) \<longleftrightarrow> j < k \<Longrightarrow> length (takeWhile P xs) = min k (length xs)"
proof (induction xs arbitrary: k)
  case (Cons x xs)
  show ?case
  proof (cases k)
    case 0
    then show ?thesis using Cons.prems [rule_format, of 0] by simp
  next
    case (Suc k')
    have "P (xs ! j) \<longleftrightarrow> j < k'" if "j < length xs" for j
      using Cons.prems [rule_format, of "Suc j"] Suc that by simp
    moreover have "P x" using Cons.prems [rule_format, of 0] Suc by simp
    ultimately show ?thesis using Cons.IH Suc by simp
  qed
qed simp

definition skip_used :: "batch_allocr \<Rightarrow> llama_seq_id set \<Rightarrow> nat" where
  "skip_used a S = length (takeWhile (\<lambda>idx. ba_used a ! idx) (ba_seq_set_map a S))"

lemma skip_used_prefix:
  assumes "prefix_used a"
  shows "j < length (ba_seq_set_map a S) \<Longrightarrow> ba_used a ! (ba_seq_set_map a S ! j) \<longleftrightarrow> j < skip_used a S"
    and "skip_used a S \<le> length (ba_seq_set_map a S)"
proof -
  obtain k where k: "\<forall>j < length (ba_seq_set_map a S). ba_used a ! (ba_seq_set_map a S ! j) \<longleftrightarrow> j < k"
    using assms by (auto simp: prefix_used_def)
  then have "skip_used a S = min k (length (ba_seq_set_map a S))"
    unfolding skip_used_def by (rule length_takeWhile_prefix)
  then show "j < length (ba_seq_set_map a S) \<Longrightarrow> ba_used a ! (ba_seq_set_map a S ! j) \<longleftrightarrow> j < skip_used a S"
    and "skip_used a S \<le> length (ba_seq_set_map a S)" using k by auto
qed

text \<open>The sets \<open>select_sets\<close> returns: non-empty, pairwise disjoint, each with an unused token.\<close>

definition sets_ok :: "batch_allocr \<Rightarrow> llama_seq_id set list \<Rightarrow> bool" where
  "sets_ok a sets \<longleftrightarrow> distinct sets \<and>
     (\<forall>S \<in> set sets. S \<noteq> {} \<and> (\<exists>i < ba_get_n_tokens a. ba_seq_set a ! i = S \<and> \<not> ba_used a ! i)) \<and>
     (\<forall>S \<in> set sets. \<forall>T \<in> set sets. S = T \<or> S \<inter> T = {})"

lemma sets_ok_add:
  assumes "sets_ok a sets" "i < ba_get_n_tokens a" "\<not> ba_used a ! i" "ba_seq_set a ! i \<noteq> {}"
    and "list_all (\<lambda>S. S \<inter> ba_seq_set a ! i = {}) sets"
  shows "sets_ok a (sets @ [ba_seq_set a ! i])"
proof -
  have "ba_seq_set a ! i \<notin> set sets"
    using assms(4,5) by (auto simp: list_all_iff)
  then show ?thesis
    using assms unfolding sets_ok_def list_all_iff by (auto simp: Int_commute)
qed

lemma select_sets_ok:
  assumes "sets_ok a sets" "\<forall>i \<in> set is. i < ba_get_n_tokens a \<and> ba_seq_set a ! i \<noteq> {}"
  shows "sets_ok a (select_sets a n_ubatch sq is sets l)"
  using assms
proof (induction a n_ubatch sq "is" sets l rule: select_sets.induct)
  case (2 a n sq i "is" sets l)
  let ?S = "ba_seq_set a ! i" and ?f = "int (b_seq_id (ba_batch a) ! i ! 0)"
  consider (used) "ba_used a ! i"
    | (add) "\<not> ba_used a ! i" "list_all (\<lambda>S. S \<inter> ?S = {}) sets" "sq \<longrightarrow> sets = [] \<or> ?f = l + 1"
    | (skip) "\<not> ba_used a ! i" "\<not> (list_all (\<lambda>S. S \<inter> ?S = {}) sets \<and> (sq \<longrightarrow> sets = [] \<or> ?f = l + 1))"
    by blast
  then show ?case
  proof cases
    case used
    then show ?thesis using 2 by simp
  next
    case add
    then have "sets_ok a (sets @ [?S])" using "2.prems" by (intro sets_ok_add) auto
    then show ?thesis
      using "2.IH"(2) [OF add(1) refl refl refl] add "2.prems"(2) by (cases sq) (auto simp: Let_def)
  next
    case skip
    then have "select_sets a n sq (i # is) sets l = select_sets a n sq is sets l"
      by (cases sq) (auto simp: Let_def)
    moreover have "sets_ok a (select_sets a n sq is sets l)"
      by (rule "2.IH"(3) [OF skip(1) refl refl refl]) (use skip "2.prems" in auto)
    ultimately show ?thesis by simp
  qed
qed simp

lemma length_select_sets:
  "length sets \<le> n_ubatch \<Longrightarrow> length (select_sets a n_ubatch sq is sets l) \<le> Suc n_ubatch"
  by (induction a n_ubatch sq "is" sets l rule: select_sets.induct) (auto simp: Let_def)

lemma select_sets_extends: "\<exists>ys. select_sets a n_ubatch sq is sets l = sets @ ys"
proof (induction a n_ubatch sq "is" sets l rule: select_sets.induct)
  case (2 a n sq i "is" sets l)
  then show ?case by (force simp: Let_def)
qed simp

lemma select_sets_nonempty:
  "\<exists>i \<in> set is. \<not> ba_used a ! i \<Longrightarrow> select_sets a n_ubatch sq is [] l \<noteq> []"
proof (induction "is")
  case (Cons i "is")
  show ?case
  proof (cases "ba_used a ! i")
    case True
    then show ?thesis using Cons by auto
  next
    case False
    then show ?thesis
      using select_sets_extends [of a n_ubatch sq "is" "[ba_seq_set a ! i]"]
      by (auto simp: Let_def) (metis append_Cons list.distinct(1))
  qed
qed simp

lemma select_sets_empty: "\<forall>i \<in> set is. ba_used a ! i \<Longrightarrow> select_sets a n_ubatch sq is sets l = sets"
  by (induction "is") auto

lemma ba_wf_map:
  assumes "ba_wf a"
  shows "set (ba_seq_set_map a S) = {i. i < ba_get_n_tokens a \<and> ba_seq_set a ! i = S}"
    and "distinct (ba_seq_set_map a S)"
  using assms by (auto simp: ba_wf_def)

text \<open>The entries that \<open>r\<close> rounds take from the set with number \<open>s\<close>.\<close>

lemma round_idxs_take:
  "s < length sets \<Longrightarrow> skip_used a (sets ! s) + r \<le> length (ba_seq_set_map a (sets ! s)) \<Longrightarrow>
   round_idxs a sets (map (skip_used a) sets) s r = take r (drop (skip_used a (sets ! s)) (ba_seq_set_map a (sets ! s)))"
  by (auto simp: round_idxs_def intro!: nth_equalityI)

lemma can_expand_start:
  assumes "ba_wf a" "prefix_used a" "sets_ok a sets"
  shows "can_expand a sets (map (skip_used a) sets)"
proof -
  have "skip_used a S < length (ba_seq_set_map a S)" if S: "S \<in> set sets" for S
  proof -
    have "\<exists>i < ba_get_n_tokens a. ba_seq_set a ! i = S \<and> \<not> ba_used a ! i"
      using assms(3) S by (simp add: sets_ok_def)
    then obtain i where "i < ba_get_n_tokens a" "ba_seq_set a ! i = S" "\<not> ba_used a ! i" by blast
    then have "i \<in> set (ba_seq_set_map a S)" by (simp add: ba_wf_map [OF assms(1)])
    then obtain j where "j < length (ba_seq_set_map a S)" "ba_seq_set_map a S ! j = i"
      by (auto simp: in_set_conv_nth)
    then show ?thesis
      using skip_used_prefix(1) [OF assms(2), of j S] \<open>\<not> ba_used a ! i\<close> by auto
  qed
  then show ?thesis by (simp add: can_expand_def list_all_iff)
qed

text \<open>What a block of rounds takes: distinct tokens, all of them unused so far.\<close>

definition taken :: "batch_allocr \<Rightarrow> llama_seq_id set list \<Rightarrow> nat \<Rightarrow> nat list list" where
  "taken a sets r = map (\<lambda>S. take r (drop (skip_used a S) (ba_seq_set_map a S))) sets"

lemma taken_props:
  assumes "ba_wf a" "prefix_used a" "distinct sets"
  shows "distinct (concat (taken a sets r))"
    and "i \<in> set (concat (taken a sets r)) \<Longrightarrow> i < ba_get_n_tokens a \<and> \<not> ba_used a ! i"
proof -
  have sub: "set (take r (drop (skip_used a S) (ba_seq_set_map a S))) \<subseteq> {i. i < ba_get_n_tokens a \<and> ba_seq_set a ! i = S}" for S
    using ba_wf_map(1) [OF assms(1), of S] set_take_subset set_drop_subset by fastforce
  show "distinct (concat (taken a sets r))"
    using assms(3)
  proof (induction sets)
    case (Cons S sets)
    have "set (take r (drop (skip_used a S) (ba_seq_set_map a S))) \<inter> set (concat (taken a sets r)) = {}"
    proof -
      have "ba_seq_set a ! i \<in> set sets" if "i \<in> set (concat (taken a sets r))" for i
        using that sub by (auto simp: taken_def)
      then show ?thesis using sub [of S] Cons.prems by auto
    qed
    then show ?case
      using Cons by (simp add: taken_def ba_wf_map(2) [OF assms(1)])
  qed (simp add: taken_def)
  assume "i \<in> set (concat (taken a sets r))"
  then obtain S where S: "i \<in> set (take r (drop (skip_used a S) (ba_seq_set_map a S)))"
    by (auto simp: taken_def)
  then obtain j where "skip_used a S + j < length (ba_seq_set_map a S)" "i = ba_seq_set_map a S ! (skip_used a S + j)"
    by (auto simp: in_set_conv_nth less_diff_conv2 add.commute less_diff_conv)
  then show "i < ba_get_n_tokens a \<and> \<not> ba_used a ! i"
    using skip_used_prefix(1) [OF assms(2), of "skip_used a S + j" S] sub [of S] S by auto
qed

lemma prefix_used_taken:
  assumes "ba_wf a" "prefix_used a" "distinct sets" "set us = set (concat (taken a sets r))"
  shows "prefix_used (fold use_token us a)"
  unfolding prefix_used_def
proof (intro allI)
  fix S
  let ?M = "ba_seq_set_map a S" and ?c = "skip_used a S"
  have len: "length (ba_used a) = ba_get_n_tokens a" using assms(1) by (simp add: ba_wf_def)
  have us: "\<forall>i \<in> set us. i < length (ba_used a)"
    using taken_props(2) [OF assms(1-3)] assms(4) len by auto
  have used: "fold use_token us a = a\<lparr>ba_used := fold (\<lambda>i u. u[i := True]) us (ba_used a), ba_n_used := ba_n_used a + length us\<rparr>"
    by (rule use_tokens_eq)
  have nth: "ba_used (fold use_token us a) ! (?M ! j) \<longleftrightarrow> j < ?c \<or> ?M ! j \<in> set us" if "j < length ?M" for j
  proof -
    have "?M ! j < length (ba_used a)" using ba_wf_map(1) [OF assms(1), of S] nth_mem [OF that] len by auto
    then show ?thesis
      by (simp add: used fold_set_True(2) [OF us] skip_used_prefix(1) [OF assms(2) that])
  qed
  have mem: "?M ! j \<in> set us \<longleftrightarrow> S \<in> set sets \<and> ?c \<le> j \<and> j < ?c + r" if j: "j < length ?M" for j
  proof -
    have "?M ! j \<in> set (take r (drop (skip_used a T) (ba_seq_set_map a T))) \<longleftrightarrow>
        T = S \<and> ?c \<le> j \<and> j < ?c + r" for T
    proof (cases "T = S")
      case True
      have "?M ! j \<in> set (take r (drop ?c ?M)) \<longleftrightarrow> (\<exists>k < min r (length ?M - ?c). ?M ! j = ?M ! (?c + k))"
        by (auto simp: in_set_conv_nth)
      also have "\<dots> \<longleftrightarrow> ?c \<le> j \<and> j < ?c + r"
        using j nth_eq_iff_index_eq [OF ba_wf_map(2) [OF assms(1), of S]]
        by (auto intro!: exI [of _ "j - ?c"])
      finally show ?thesis using True by simp
    next
      case False
      have "ba_seq_set a ! (?M ! j) = S" using nth_mem [OF j] ba_wf_map(1) [OF assms(1), of S] by auto
      moreover have "set (take r (drop (skip_used a T) (ba_seq_set_map a T))) \<subseteq> {i. ba_seq_set a ! i = T}"
        using ba_wf_map(1) [OF assms(1), of T] set_take_subset set_drop_subset by fastforce
      ultimately show ?thesis using False by auto
    qed
    then show ?thesis by (auto simp: assms(4) taken_def)
  qed
  have "ba_seq_set_map (fold use_token us a) = ba_seq_set_map a" by (simp add: used)
  then show "\<exists>k. \<forall>j < length (ba_seq_set_map (fold use_token us a) S).
      ba_used (fold use_token us a) ! (ba_seq_set_map (fold use_token us a) S ! j) \<longleftrightarrow> j < k"
    by (intro exI [of _ "if S \<in> set sets then ?c + r else ?c"]) (auto simp: nth mem)
qed

text \<open>Every token belongs to some sequence.\<close>

definition sets_nonempty :: "batch_allocr \<Rightarrow> bool" where
  "sets_nonempty a \<longleftrightarrow> (\<forall>i < ba_get_n_tokens a. ba_seq_set a ! i \<noteq> {})"

definition split_ok :: "batch_allocr \<Rightarrow> bool" where
  "split_ok a \<longleftrightarrow> ba_wf a \<and> prefix_used a \<and> sets_nonempty a"

lemma split_equal_step:
  assumes "split_ok a" "\<not> (sq \<and> ba_has_cpl a)" "\<exists>i < ba_get_n_tokens a. \<not> ba_used a ! i"
  obtains sets r us where
    "split_equal n_ubatch sq a = ubatch_add (concat (taken a sets r)) (length sets) True (fold use_token us a)"
    "sets \<noteq> []" "distinct sets" "length sets \<le> Suc n_ubatch" "0 < r"
    "1 < r \<Longrightarrow> r * length sets \<le> n_ubatch"
    "mset us = mset (concat (taken a sets r))" "length (concat (taken a sets r)) = length sets * r"
proof -
  define sets where "sets = select_sets a n_ubatch sq [0..<ba_get_n_tokens a] [] (-1)"
  let ?cur = "map (skip_used a) sets" and ?n = "length sets"
  have wf: "ba_wf a" "prefix_used a" using assms(1) by (simp_all add: split_ok_def)
  have ne: "sets \<noteq> []" unfolding sets_def using assms(3) by (intro select_sets_nonempty) auto
  have ok: "sets_ok a sets" unfolding sets_def
    using assms(1) by (intro select_sets_ok) (auto simp: sets_ok_def split_ok_def sets_nonempty_def)
  have dist: "distinct sets" using ok by (simp add: sets_ok_def)
  have len: "?n \<le> Suc n_ubatch" unfolding sets_def by (rule length_select_sets) simp
  obtain r us where r: "equal_loop n_ubatch sets ?cur (replicate ?n [], a) =
      (map (\<lambda>s. replicate ?n [] ! s @ round_idxs a sets ?cur s r) [0..<?n], fold use_token us a)"
    "mset us = (\<Sum>s \<leftarrow> [0..<?n]. mset (round_idxs a sets ?cur s r))"
    "\<forall>s < ?n. ?cur ! s + r \<le> length (ba_seq_set_map a (sets ! s)) \<or> r = 0"
    "can_expand a sets ?cur \<longrightarrow> 0 < r" "1 < r \<longrightarrow> (0 + r) * ?n \<le> n_ubatch"
    using equal_loop_rounds [OF ne, of ?cur "replicate ?n []" 0 n_ubatch a] by auto
  have pos: "0 < r" using r(4) can_expand_start [OF wf ok] by blast
  have fits: "skip_used a S + r \<le> length (ba_seq_set_map a S)" if "S \<in> set sets" for S
    using r(3) pos that by (auto simp: in_set_conv_nth)
  have per: "map (\<lambda>s. replicate ?n [] ! s @ round_idxs a sets ?cur s r) [0..<?n] = taken a sets r"
    by (rule nth_equalityI) (auto simp: taken_def round_idxs_take fits)
  have "(\<Sum>s \<leftarrow> [0..<?n]. mset (round_idxs a sets ?cur s r)) = mset (concat (taken a sets r))"
  proof -
    have "map (\<lambda>s. mset (round_idxs a sets ?cur s r)) [0..<?n] = map mset (taken a sets r)"
      by (rule nth_equalityI) (auto simp: taken_def round_idxs_take fits)
    then show ?thesis by (simp add: mset_concat)
  qed
  then have us: "mset us = mset (concat (taken a sets r))" using r(2) by simp
  have "length (take r (drop (skip_used a S) (ba_seq_set_map a S))) = r" if "S \<in> set sets" for S
    using fits [OF that] by simp
  then have "map length (taken a sets r) = replicate ?n r"
    unfolding taken_def map_map comp_def by (simp add: map_replicate_const cong: map_cong)
  then have total: "length (concat (taken a sets r)) = ?n * r"
    by (simp add: length_concat sum_list_replicate)
  have "split_equal n_ubatch sq a = ubatch_add (concat (taken a sets r)) ?n True (fold use_token us a)"
    using assms(2) ne r(1) per
    by (auto simp: split_equal_def Let_def sets_def [symmetric] skip_used_def [symmetric, abs_def])
  then show thesis
    using that ne dist len pos r(5) us total by (simp add: mult.commute)
qed

lemma split_ok_use:
  assumes "split_ok a" "distinct sets" "mset us = mset (concat (taken a sets r))"
  shows "split_ok (fold use_token us a)"
    "ba_n_used (fold use_token us a) = ba_n_used a + length (concat (taken a sets r))"
    "ba_get_n_tokens (fold use_token us a) = ba_get_n_tokens a"
    "ba_has_cpl (fold use_token us a) = ba_has_cpl a"
proof -
  have wf: "ba_wf a" "prefix_used a" "sets_nonempty a" using assms(1) by (simp_all add: split_ok_def)
  note dist = taken_props(1) [OF wf(1,2) assms(2), of r] and mem = taken_props(2) [OF wf(1,2) assms(2)]
  have us: "set us = set (concat (taken a sets r))" "distinct us" "length us = length (concat (taken a sets r))"
    using assms(3) dist mset_eq_setD mset_eq_imp_distinct_iff mset_eq_length by blast+
  show n: "ba_get_n_tokens (fold use_token us a) = ba_get_n_tokens a"
    by (simp add: use_tokens_eq ba_get_n_tokens_def)
  show "ba_has_cpl (fold use_token us a) = ba_has_cpl a" by (simp add: use_tokens_eq)
  show "ba_n_used (fold use_token us a) = ba_n_used a + length (concat (taken a sets r))"
    by (simp add: use_tokens_eq us(3))
  have "\<forall>i \<in> set us. i < length (ba_used a) \<and> \<not> ba_used a ! i"
    using mem us(1) wf(1) unfolding ba_wf_def by metis
  then have "length (filter id (fold (\<lambda>i u. u[i := True]) us (ba_used a))) = length (filter id (ba_used a)) + length us"
    using us(2) by (intro count_use_tokens)
  then have "ba_wf (fold use_token us a)"
    using wf(1) by (simp add: ba_wf_def use_tokens_eq fold_set_True(1) ba_get_n_tokens_def)
  moreover have "sets_nonempty (fold use_token us a)"
    using wf(3) by (simp add: sets_nonempty_def use_tokens_eq ba_get_n_tokens_def)
  ultimately show "split_ok (fold use_token us a)"
    using prefix_used_taken [OF wf(1,2) assms(2) us(1)] by (simp add: split_ok_def)
qed

lemma split_ok_out_ids [simp]: "split_ok (a\<lparr>ba_out_ids := os\<rparr>) = split_ok a"
  by (simp add: split_ok_def ba_wf_def prefix_used_def sets_nonempty_def ba_get_n_tokens_def)

lemma length_filter_eq_iff: "length (filter P xs) = length xs \<longleftrightarrow> (\<forall>x \<in> set xs. P x)"
  by (metis filter_True length_filter_less less_irrefl)

lemma n_used_full:
  assumes "ba_wf a"
  shows "ba_n_used a = ba_get_n_tokens a \<longleftrightarrow> (\<forall>i < ba_get_n_tokens a. ba_used a ! i)"
proof -
  have "ba_n_used a = length (filter id (ba_used a))" "ba_get_n_tokens a = length (ba_used a)"
    using assms by (simp_all add: ba_wf_def)
  then show ?thesis by (simp add: length_filter_eq_iff all_set_conv_all_nth)
qed

lemma ubatch_add_use:
  "fst (ubatch_add p k e (fold use_token us a)) = fst (ubatch_add p k e a)"
  by (simp add: use_tokens_eq ubatch_add_frame)

text \<open>The indices that are still unused.\<close>

definition unused :: "batch_allocr \<Rightarrow> nat set" where
  "unused a = {i. i < ba_get_n_tokens a \<and> \<not> ba_used a ! i}"

lemma unused_use:
  assumes "ba_wf a" "\<forall>i \<in> set us. i < ba_get_n_tokens a"
  shows "unused (fold use_token us a) = unused a - set us"
proof -
  have "\<forall>i \<in> set us. i < length (ba_used a)" "length (ba_used a) = ba_get_n_tokens a"
    using assms by (auto simp: ba_wf_def)
  then show ?thesis
    by (auto simp: unused_def use_tokens_eq ba_get_n_tokens_def fold_set_True(2))
qed

text \<open>The shape of a ubatch of \<open>split_equal\<close>.\<close>

definition equal_shape :: "nat \<Rightarrow> ubatch \<Rightarrow> bool" where
  "equal_shape n_ubatch u \<longleftrightarrow> ub_equal_seqs u \<and> 0 < ub_n_tokens u \<and>
     ub_n_tokens u = ub_n_seqs u * ub_n_seq_tokens u \<and> ub_n_seqs u \<le> Suc n_ubatch \<and>
     (ub_n_seqs u \<le> n_ubatch \<longrightarrow> ub_n_tokens u \<le> n_ubatch)"

lemma equal_shape_add:
  assumes "length p = k * r" "0 < r" "0 < k" "k \<le> Suc n_ubatch" "1 < r \<Longrightarrow> r * k \<le> n_ubatch"
  shows "equal_shape n_ubatch (fst (ubatch_add p k True a))"
proof -
  have "k \<le> n_ubatch \<longrightarrow> k * r \<le> n_ubatch"
    using assms(2,5) by (cases "r = 1") (auto simp: mult.commute)
  then show ?thesis
    using assms(1-4) by (simp add: equal_shape_def ubatch_add_def Let_def split: prod.splits)
qed

lemma collect_equal:
  assumes "split_ok a" "\<not> (sq \<and> ba_has_cpl a)" "ba_get_n_tokens a - ba_n_used a < fuel"
  shows "\<exists>ps a'. collect_ubatches fuel (split_equal n_ubatch sq) a =
      Some (map (\<lambda>(p, k). fst (ubatch_add p k True a)) ps, a') \<and>
    distinct (concat (map fst ps)) \<and> set (concat (map fst ps)) = unused a \<and>
    (\<forall>(p, k) \<in> set ps. equal_shape n_ubatch (fst (ubatch_add p k True a))) \<and>
    ba_n_used a' = ba_get_n_tokens a \<and> ba_get_n_tokens a' = ba_get_n_tokens a"
  using assms
proof (induction fuel arbitrary: a)
  case 0
  then show ?case by simp
next
  case (Suc fuel)
  have wf: "ba_wf a" "prefix_used a" using Suc.prems(1) by (simp_all add: split_ok_def)
  show ?case
  proof (cases "unused a = {}")
    case True
    then have all: "\<forall>i < ba_get_n_tokens a. ba_used a ! i" by (auto simp: unused_def)
    then have "split_equal n_ubatch sq a = (ubatch_none, a)"
      by (simp add: split_equal_def select_sets_empty)
    then show ?thesis
      using True all n_used_full [OF wf(1)]
      by (intro exI [of _ "[]"]) (simp add: ubatch_none_def)
  next
    case False
    then have "\<exists>i < ba_get_n_tokens a. \<not> ba_used a ! i" by (auto simp: unused_def)
    from split_equal_step [OF Suc.prems(1,2) this, of n_ubatch] obtain sets r us where st:
      "split_equal n_ubatch sq a = ubatch_add (concat (taken a sets r)) (length sets) True (fold use_token us a)"
      "sets \<noteq> []" "distinct sets" "length sets \<le> Suc n_ubatch" "0 < r"
      "1 < r \<Longrightarrow> r * length sets \<le> n_ubatch"
      "mset us = mset (concat (taken a sets r))" "length (concat (taken a sets r)) = length sets * r" by blast
    let ?p = "concat (taken a sets r)" and ?b = "fold use_token us a"
    let ?c = "snd (ubatch_add ?p (length sets) True ?b)"
    have c: "?c = ?b\<lparr>ba_out_ids := ba_out_ids ?b @ filter (\<lambda>i. b_logits (ba_batch ?b) ! i) ?p\<rparr>"
      by (rule ubatch_add_frame(3))
    note use = split_ok_use [OF Suc.prems(1) st(3,7)]
    have us: "set us = set ?p" using st(7) by (rule mset_eq_setD)
    have sub: "set ?p \<subseteq> unused a"
      using taken_props(2) [OF wf st(3)] by (auto simp: unused_def simp del: set_concat)
    have frame: "ba_get_n_tokens ?c = ba_get_n_tokens a" "ba_has_cpl ?c = ba_has_cpl a"
      "ba_n_used ?c = ba_n_used a + length ?p" "split_ok ?c" "unused ?c = unused a - set ?p"
      using use unused_use [OF wf(1), of us] sub
      by (auto simp: c us ba_get_n_tokens_def unused_def simp del: set_concat)
    have same: "fst (ubatch_add q k True ?c) = fst (ubatch_add q k True a)" for q k
      by (simp add: c use_tokens_eq ubatch_add_frame)
    have p_pos: "0 < length ?p" using st(2,5,8) by simp
    have "ba_n_used a < ba_get_n_tokens a"
      using False n_used_full [OF wf(1)] wf(1) length_filter_le [of id "ba_used a"]
      by (auto simp: unused_def ba_wf_def order_le_less)
    then have "ba_get_n_tokens ?c - ba_n_used ?c < fuel"
      using Suc.prems(3) p_pos unfolding frame by linarith
    moreover have "\<not> (sq \<and> ba_has_cpl ?c)" using Suc.prems(2) by (simp add: frame)
    ultimately obtain ps a' where rec: "collect_ubatches fuel (split_equal n_ubatch sq) ?c =
        Some (map (\<lambda>(p, k). fst (ubatch_add p k True a)) ps, a')"
      "distinct (concat (map fst ps))" "set (concat (map fst ps)) = unused a - set ?p"
      "\<forall>(p, k) \<in> set ps. equal_shape n_ubatch (fst (ubatch_add p k True a))"
      "ba_n_used a' = ba_get_n_tokens a" "ba_get_n_tokens a' = ba_get_n_tokens a"
      using Suc.IH [OF frame(4)] unfolding same frame by blast
    have "ub_n_tokens (fst (ubatch_add ?p (length sets) True a)) \<noteq> 0"
      using p_pos by (simp only: ubatch_add_frame)
    then have "collect_ubatches (Suc fuel) (split_equal n_ubatch sq) a =
        Some (map (\<lambda>(p, k). fst (ubatch_add p k True a)) ((?p, length sets) # ps), a')"
      using rec(1) by (simp add: st(1) case_prod_beta ubatch_add_use)
    moreover have "equal_shape n_ubatch (fst (ubatch_add ?p (length sets) True a))"
      using st by (intro equal_shape_add) auto
    ultimately show ?thesis
      using rec taken_props(1) [OF wf st(3), of r] sub
      by (intro exI [of _ "(?p, length sets) # ps"] exI [of _ a']) (auto simp del: set_concat)
  qed
qed

lemma ba_used_split_reset: "ba_used (ba_split_reset a) = replicate (ba_get_n_tokens a) False"
  by (simp add: ba_split_reset_def)

lemma check_positions_reset: "check_positions mem (ba_split_reset a) = check_positions mem a"
  by (simp add: check_positions_def ba_seq_pos_min_def ba_seq_pos_max_def ba_split_reset_def)

lemma accepted_state:
  assumes "input_rows_ok inp" "ba_init n_vocab mem n_embd n_seq_max output_all inp a = Inr (True, a')"
  shows "split_ok a'" "ba_batch a' = fill_batch mem output_all inp" "ba_n_used a' = 0"
    "ba_seq_pos a' = batch_positions (ba_batch a')" "ba_n_seq_max a' = n_seq_max"
    "ba_n_pos_per_embd a' = ba_n_pos_per_embd a" "ba_get_n_tokens a' = bt_n_tokens inp"
    "unused a' = {..<bt_n_tokens inp}"
    "check_positions mem a'" "a' = ba_split_reset a'"
    "ba_has_cpl a' \<longleftrightarrow> (\<exists>i < bt_n_tokens inp. 1 < length (b_ids (ba_batch a') i))"
proof -
  let ?b = "fill_batch mem output_all inp"
  let ?r = "ba_stats n_embd n_seq_max ((ba_clear a)\<lparr>ba_batch := ?b\<rparr>)"
  have rows: "rows_ok (ba_batch ((ba_clear a)\<lparr>ba_batch := ?b\<rparr>))"
    using rows_ok_fill [OF assms(1)] by simp
  note r = ba_stats_result [OF rows, simplified, unfolded ba_clear_clean, simplified, of n_embd n_seq_max]
  have a': "a' = ba_split_reset ?r" "check_positions mem ?r"
    using assms(2) unfolding ba_init_accepts [OF assms(1)] by (simp_all add: Let_def)
  show bb: "ba_batch a' = ?b" "ba_seq_pos a' = batch_positions (ba_batch a')" "ba_n_seq_max a' = n_seq_max"
    "ba_n_pos_per_embd a' = ba_n_pos_per_embd a" "ba_n_used a' = 0"
    by (simp_all add: a' ba_split_reset_def r)
  show n: "ba_get_n_tokens a' = bt_n_tokens inp"
    by (simp add: ba_get_n_tokens_def bb(1) fill_batch_def)
  show reset: "a' = ba_split_reset a'" by (simp add: a'(1) ba_split_reset_def ba_get_n_tokens_def)
  then have "ba_used a' = replicate (bt_n_tokens inp) False"
    using n ba_used_split_reset [of a'] by simp
  then show "unused a' = {..<bt_n_tokens inp}"
    unfolding unused_def n by auto
  show "check_positions mem a'"
    using a'(2) by (simp add: a'(1) check_positions_reset)
  show "ba_has_cpl a' \<longleftrightarrow> (\<exists>i < bt_n_tokens inp. 1 < length (b_ids (ba_batch a') i))"
    using n by (simp add: a'(1) ba_split_reset_def r ba_get_n_tokens_def)
  have "ba_wf a'"
    unfolding a'(1) by (rule ba_wf_stats [OF rows]) (simp_all add: ba_clear_clean)
  moreover have "prefix_used a'"
    unfolding prefix_used_def
    by (rule allI, rule exI [of _ 0])
      (use \<open>unused a' = {..<bt_n_tokens inp}\<close> ba_wf_map(1) [OF \<open>ba_wf a'\<close>] n nth_mem in \<open>fastforce simp: unused_def\<close>)
  moreover have "sets_nonempty a'"
  proof -
    have "rows_ok (ba_batch a')" using rows by (simp add: bb)
    then show ?thesis
      using \<open>ba_wf a'\<close> b_ids_nonempty [of "ba_batch a'"]
      by (simp add: sets_nonempty_def ba_wf_def ba_get_n_tokens_def)
  qed
  ultimately show "split_ok a'" by (simp add: split_ok_def)
qed

lemma fill_pos_loop_single:
  "fill_pos_loop p0 (replicate n ([0], Suc 0)) = map (\<lambda>k. p0 0 + int k) [0..<n]"
proof (induction n arbitrary: p0)
  case (Suc n)
  have "map (\<lambda>k. p0 0 + int k) [0..<Suc n] = p0 0 # map (\<lambda>k. p0 0 + 1 + int k) [0..<n]"
    by (subst upt_conv_Cons) (simp_all add: map_Suc_upt [symmetric] comp_def add.assoc del: upt_Suc)
  then show ?case using Suc [of "p0(0 := p0 0 + 1)"] by (simp add: Let_def fun_upd_def del: upt_Suc)
qed simp

text \<open>The batch that \<open>llama_batch_get_one\<close> stands for, after filling.\<close>

lemma fill_get_one:
  defines "b mem ts \<equiv> fill_batch mem False (llama_batch_get_one ts (length ts))"
  shows "b_pos (b mem ts) = map (\<lambda>k. start_pos mem 0 + int k) [0..<length ts]"
    and "b_n_tokens (b mem ts) = length ts"
    and "i < length ts \<Longrightarrow> b_ids (b mem ts) i = [0]"
    and "ts \<noteq> [] \<Longrightarrow> b_logits (b mem ts) = replicate (length ts - 1) False @ [True]"
proof -
  have "zip (replicate n x) (replicate n y) = replicate n (x, y)" for n and x :: "nat list" and y :: nat
    by (induction n) auto
  then show "b_pos (b mem ts) = map (\<lambda>k. start_pos mem 0 + int k) [0..<length ts]"
    by (simp add: b_def fill_batch_def fill_pos_def llama_batch_get_one_def fill_seq_id_def
        fill_n_seq_id_def fill_pos_loop_single)
  show "b_n_tokens (b mem ts) = length ts" by (simp add: b_def fill_batch_def llama_batch_get_one_def)
  show "i < length ts \<Longrightarrow> b_ids (b mem ts) i = [0]"
    by (simp add: b_def fill_batch_def llama_batch_get_one_def b_ids_def fill_seq_id_def fill_n_seq_id_def)
  assume "ts \<noteq> []"
  then obtain m where "length ts = Suc m" by (cases ts) auto
  then show "b_logits (b mem ts) = replicate (length ts - 1) False @ [True]"
    using list_update_length [of "replicate m False" False "[]" True]
    by (simp add: b_def fill_batch_def llama_batch_get_one_def fill_logits_def replicate_append_same
        del: list_update_length)
qed

lemma check_sets_single:
  "\<forall>(p, S, ids) \<in> set xs. 0 \<le> p \<and> S = {0} \<and> ids = [0] \<Longrightarrow> 0 \<in> cur 0 \<Longrightarrow> check_sets cur (\<lambda>_. -1) xs"
  by (induction xs arbitrary: cur) (auto simp: Let_def)

lemma check_coupled_none: "(\<And>s0 s1. \<not> ba_seq_cpl a s0 s1) \<Longrightarrow> check_coupled mem a"
  by (simp add: check_coupled_def list_all_iff split: option.split)

lemma accepted_contiguous:
  assumes "input_rows_ok inp" "ba_n_pos_per_embd a \<le> 1"
    and "ba_init n_vocab mem n_embd n_seq_max output_all inp a = Inr (True, a')"
    and "s < n_seq_max" "batch_positions (ba_batch a') s \<noteq> {}"
  shows "batch_positions (ba_batch a') s = {ba_seq_pos_min a' s..ba_seq_pos_max a' s} \<and>
    (0 \<le> mem_last mem s \<longrightarrow> ba_seq_pos_min a' s = mem_last mem s + 1)"
proof -
  note st = accepted_state [OF assms(1,3)]
  have ne: "ba_seq_pos a' s \<noteq> {}" using assms(5) by (simp add: st(4))
  have chk: "(mem_last mem s \<ge> 0 \<longrightarrow> ba_seq_pos_min a' s = mem_last mem s + 1) \<and>
      \<not> (ba_seq_pos_max a' s - ba_seq_pos_min a' s + 1 > int (card (ba_seq_pos a' s)))"
    using st(9) [unfolded check_positions_def list_all_iff, rule_format, of s] assms(2,4) ne
    by (simp add: st(5,6) Let_def)
  have "batch_positions (ba_batch a') s = {Min (batch_positions (ba_batch a') s)..Max (batch_positions (ba_batch a') s)}"
    using chk ne by (intro dense_is_interval finite_batch_positions)
      (simp_all add: ba_seq_pos_min_def ba_seq_pos_max_def st(4))
  then show ?thesis
    using ne chk by (simp add: ba_seq_pos_min_def ba_seq_pos_max_def st(4))
qed

lemma get_one_positions:
  defines "b mem ts \<equiv> fill_batch mem False (llama_batch_get_one ts (length ts))"
  shows "batch_positions (b mem ts) 0 = {start_pos mem 0..start_pos mem 0 + int (length ts) - 1}"
    and "s \<noteq> 0 \<Longrightarrow> batch_positions (b mem ts) s = {}"
proof -
  let ?b = "b mem ts" and ?p = "start_pos mem 0"
  note b = fill_get_one [where mem = mem and ts = ts, folded b_def]
  have "batch_positions ?b 0 = (!) (b_pos ?b) ` {i. i < length ts \<and> 0 \<in> set (b_ids ?b i)}"
    by (auto simp: batch_positions_def b(2))
  also have "\<dots> = (\<lambda>k. ?p + int k) ` {..<length ts}"
    by (rule image_cong) (auto simp: b(1,3))
  finally have "batch_positions ?b 0 = (\<lambda>k. ?p + int k) ` {..<length ts}" .
  moreover have "q \<in> (\<lambda>k. ?p + int k) ` {..<length ts}" if "q \<in> {?p..?p + int (length ts) - 1}" for q
    using that by (intro image_eqI [of _ _ "nat (q - ?p)"]) auto
  ultimately show "batch_positions ?b 0 = {?p..?p + int (length ts) - 1}" by auto
  show "s \<noteq> 0 \<Longrightarrow> batch_positions ?b s = {}"
    by (auto simp: batch_positions_def b)
qed

lemma check_positions_single:
  assumes "0 < n" "ba_n_pos_per_embd r \<le> 1" "\<And>s. s \<noteq> 0 \<Longrightarrow> ba_seq_pos r s = {}"
    and "ba_seq_pos r 0 = {p..p + int n - 1}" "p = mem_last mem 0 + 1"
  shows "check_positions mem r"
proof -
  have le: "p \<le> p + int n - 1" using assms(1) by linarith
  have "Min {p..p + int n - 1} = p" "Max {p..p + int n - 1} = p + int n - 1"
    using le by (intro Min_eqI Max_eqI; auto)+
  then have "ba_seq_pos_min r 0 = p" "ba_seq_pos_max r 0 = p + int n - 1" "int (card (ba_seq_pos r 0)) = int n"
    using le assms(4) by (simp_all add: ba_seq_pos_min_def ba_seq_pos_max_def)
  then show ?thesis
    unfolding check_positions_def list_all_iff Let_def using assms(2,3,5)
    by (intro ballI) (case_tac "s = 0"; simp)
qed

section \<open>The memory the allocator relies on\<close>

text \<open>
  What the allocator is told about the sequences in the memory: their least and greatest
  positions. A memory that reports them truthfully can be extended by an accepted batch
  without gaps.
\<close>

definition gap_free :: "llama_pos set \<Rightarrow> bool" where
  "gap_free P \<longleftrightarrow> (\<exists>lo hi. P = {lo..hi})"

lemma gap_free_empty [simp]: "gap_free {}"
  unfolding gap_free_def by (rule exI [of _ 1], rule exI [of _ 0]) simp

locale sequence_memory =
  fixes inv :: "'m \<Rightarrow> bool"
    and n_seqs :: "'m \<Rightarrow> nat"
    and positions :: "'m \<Rightarrow> llama_seq_id \<Rightarrow> llama_pos set"
    and view :: "'m \<Rightarrow> memory_view"
  assumes finite_positions: "inv m \<Longrightarrow> s < n_seqs m \<Longrightarrow> finite (positions m s)"
    and positions_nonneg: "inv m \<Longrightarrow> s < n_seqs m \<Longrightarrow> p \<in> positions m s \<Longrightarrow> 0 \<le> p"
    and view_min: "inv m \<Longrightarrow> s < n_seqs m \<Longrightarrow>
      mem_pos_min (view m) s = (if positions m s = {} then -1 else Min (positions m s))"
    and view_max: "inv m \<Longrightarrow> s < n_seqs m \<Longrightarrow>
      mem_pos_max (view m) s = (if positions m s = {} then -1 else Max (positions m s))"
begin

lemma accepted_extends:
  assumes "inv m" "input_rows_ok inp" "ba_n_pos_per_embd a \<le> 1"
    and "ba_init n_vocab (Some (view m)) n_embd n_seq_max output_all inp a = Inr (True, a')"
    and "s < n_seq_max" "s < n_seqs m" "gap_free (positions m s)"
  shows "gap_free (positions m s \<union> batch_positions (ba_batch a') s)"
proof (cases "batch_positions (ba_batch a') s = {}")
  case True
  then show ?thesis using assms(7) by simp
next
  case False
  let ?lo = "ba_seq_pos_min a' s" and ?hi = "ba_seq_pos_max a' s"
  note b = accepted_contiguous [OF assms(2,3,4,5) False]
  obtain l h where m: "positions m s = {l..h}" using assms(7) by (auto simp: gap_free_def)
  show ?thesis
  proof (cases "l \<le> h")
    case False
    then show ?thesis using b m by (auto simp: gap_free_def)
  next
    case True
    have "Max {l..h} = h" using True by (intro Max_eqI) auto
    then have "mem_last (Some (view m)) s = h"
      using view_max [OF assms(1,6)] m True by (simp add: mem_last_def)
    moreover have "0 \<le> h" using positions_nonneg [OF assms(1,6), of h] m True by simp
    ultimately have "?lo = h + 1" using b by simp
    moreover have "?lo \<le> ?hi" using b False by auto
    ultimately have "positions m s \<union> batch_positions (ba_batch a') s = {l..?hi}"
      using b m True by auto
    then show ?thesis by (auto simp: gap_free_def)
  qed
qed

end

section \<open>Properties\<close>

text \<open>
  C8. What \<open>llama_batch_allocr::init\<close> guarantees when it accepts a batch for a model with
  one position per token (with more, it accepts positions that jump): the positions of every sequence that occurs in the batch form a
  gap-free interval, and when the memory already holds the sequence, that interval starts
  right after the last stored position.
\<close>

theorem accepted_batch_contiguous:
  assumes "input_rows_ok inp" "ba_n_pos_per_embd a \<le> 1"
    and "ba_init n_vocab mem n_embd n_seq_max output_all inp a = Inr (True, a')"
    and "s < n_seq_max" "batch_positions (ba_batch a') s \<noteq> {}"
  shows "batch_positions (ba_batch a') s = {ba_seq_pos_min a' s..ba_seq_pos_max a' s} \<and>
    (0 \<le> mem_last mem s \<longrightarrow> ba_seq_pos_min a' s = mem_last mem s + 1)"
  using assms by (rule accepted_contiguous)

text \<open>
  A batch made with \<open>llama_batch_get_one\<close> from valid tokens is accepted whatever the
  memory holds of sequence 0: it receives the consecutive positions after the last stored
  one, and only its last token produces an output.
\<close>

theorem get_one_accepted:
  assumes "ts \<noteq> []" "\<forall>t \<in> set ts. 0 \<le> t \<and> t < int n_vocab"
    and "0 < n_seq_max" "n_seq_max \<le> LLAMA_MAX_SEQ" "ba_n_pos_per_embd a \<le> 1" "-1 \<le> mem_last mem 0"
  shows "\<exists>a'. ba_init n_vocab mem n_embd n_seq_max False (llama_batch_get_one ts (length ts)) a = Inr (True, a') \<and>
    b_pos (ba_batch a') = map (\<lambda>k. mem_last mem 0 + 1 + int k) [0..<length ts] \<and>
    b_logits (ba_batch a') = replicate (length ts - 1) False @ [True]"
proof -
  let ?inp = "llama_batch_get_one ts (length ts)"
  let ?b = "fill_batch mem False ?inp"
  let ?a = "(ba_clear a)\<lparr>ba_batch := ?b\<rparr>"
  let ?r = "ba_stats n_embd n_seq_max ?a" and ?p = "start_pos mem 0"
  note b = fill_get_one [where mem = mem and ts = ts]
  have p: "?p = mem_last mem 0 + 1" by (simp add: start_pos_def mem_last_def split: option.splits)
  have inp: "input_rows_ok ?inp" by (simp add: input_rows_ok_def llama_batch_get_one_def)
  have rows: "rows_ok (ba_batch ?a)" using rows_ok_fill [OF inp] by simp
  note r = ba_stats_result [OF rows, simplified, unfolded ba_clear_clean, simplified, of n_embd n_seq_max]
  note pos0 = get_one_positions(1) [of mem ts] and other = get_one_positions(2) [of _ mem ts]
  have "ba_seq_pos ?r s = {}" if "s \<noteq> 0" for s using other [OF that] by (simp add: r)
  moreover have "ba_seq_pos ?r 0 = {?p..?p + int (length ts) - 1}" using pos0 by (simp add: r)
  ultimately have "check_positions mem ?r"
    using assms(1,5) p by (intro check_positions_single [where n = "length ts"]) (simp_all add: r)
  moreover have "check_coupled mem ?r"
  proof -
    have "\<not> ba_seq_cpl ?r s0 s1" for s0 s1 by (auto simp: r b(2,3))
    then show ?thesis by (rule check_coupled_none)
  qed
  moreover have "check_seq_sets ?r"
    unfolding check_seq_sets_def using p assms(6)
    by (intro check_sets_single) (auto simp: r b)
  moreover have "valid_tokens n_vocab ?inp" "valid_seq_ids n_seq_max ?inp = Inr True"
    using assms(2) by (auto simp: valid_tokens_def valid_seq_ids_def llama_batch_get_one_def list_all_iff)
  moreover have "0 < bt_n_tokens ?inp" using assms(1) by (simp add: llama_batch_get_one_def)
  ultimately have "ba_init n_vocab mem n_embd n_seq_max False ?inp a = Inr (True, ba_split_reset ?r)"
    using assms(4) unfolding ba_init_accepts [OF inp] by (simp add: Let_def)
  then show ?thesis
    by (intro exI [of _ "ba_split_reset ?r"]) (simp add: ba_split_reset_def r(1) b(1) b(4) [OF assms(1)] p)
qed

text \<open>A rejected or accepted result can be read off by evaluation.\<close>

lemma accepted_projr: "map_sum id fst x = Inr True \<Longrightarrow> x = Inr (True, snd (projr x))"
  by (cases x) auto

definition sample_memory :: memory_view where
  "sample_memory = \<lparr>mem_pos_min = (\<lambda>_. 0), mem_pos_max = (\<lambda>s. if s = 0 then 6 else -1)\<rparr>"

definition sample_batch :: llama_batch where
  "sample_batch = \<lparr>bt_n_tokens = 4, bt_token = Some [5, 6, 7, 8], bt_embd = None,
     bt_pos = Some [7, 0, 8, 1], bt_n_seq_id = Some [1, 1, 1, 1],
     bt_seq_id = Some [[0], [1], [0], [1]], bt_logits = None\<rparr>"

definition sample_accepted :: batch_allocr where
  "sample_accepted = snd (projr (ba_init 10 (Some sample_memory) 4 2 False sample_batch (ba_new 1)))"

lemma sample_accepted:
  "ba_init 10 (Some sample_memory) 4 2 False sample_batch (ba_new 1) = Inr (True, sample_accepted)"
  unfolding sample_accepted_def by (rule accepted_projr) code_simp

lemma sample_rows_ok: "input_rows_ok sample_batch"
  by code_simp

theorem accepted_batch_contiguous_witness:
  "batch_positions (ba_batch sample_accepted) 0 = {ba_seq_pos_min sample_accepted 0..ba_seq_pos_max sample_accepted 0} \<and>
    ba_seq_pos_min sample_accepted 0 = 7"
proof -
  have "b_n_tokens (ba_batch sample_accepted) = 4" "b_ids (ba_batch sample_accepted) 0 = [0]"
    by code_simp+
  then have "batch_positions (ba_batch sample_accepted) 0 \<noteq> {}"
    unfolding batch_positions_def by force
  moreover have "mem_last (Some sample_memory) 0 = 6" by (simp add: mem_last_def sample_memory_def)
  ultimately show ?thesis
    using accepted_batch_contiguous [OF sample_rows_ok _ sample_accepted, of 0] by (simp add: ba_new_def)
qed

theorem get_one_accepted_witness:
  "\<exists>a'. ba_init 10 (Some sample_memory) 4 1 False (llama_batch_get_one [3, 4] 2) (ba_new 1) = Inr (True, a') \<and>
    b_pos (ba_batch a') = [7, 8] \<and> b_logits (ba_batch a') = [False, True]"
proof -
  have "mem_last (Some sample_memory) 0 = 6" "ba_n_pos_per_embd (ba_new 1) = 1"
    by (simp_all add: mem_last_def sample_memory_def ba_new_def)
  then show ?thesis
    using get_one_accepted [of "[3, 4]" 10 1 "ba_new 1" "Some sample_memory" 4]
    by (simp add: LLAMA_MAX_SEQ_def upt_rec numeral_2_eq_2)
qed

text \<open>
  C10. Splitting an accepted batch with \<open>split_simple\<close> until it yields nothing takes at most
  one call per token plus one, and the micro-batches are the batch cut, in order, into
  non-empty runs of at most \<open>n_ubatch\<close> tokens (one token when \<open>n_ubatch\<close> is 0).
\<close>

theorem split_simple_partitions:
  assumes "input_rows_ok inp" "ba_init n_vocab mem n_embd n_seq_max output_all inp a = Inr (True, a')"
  shows "\<exists>rs a''. collect_ubatches (Suc (bt_n_tokens inp)) (split_simple n_ubatch) a' =
      Some (map (\<lambda>r. fst (ubatch_add r (length r) False a')) rs, a'') \<and>
    concat rs = [0..<bt_n_tokens inp] \<and> (\<forall>r \<in> set rs. r \<noteq> [] \<and> length r \<le> max 1 n_ubatch) \<and>
    ba_n_used a'' = bt_n_tokens inp \<and> ba_out_ids a'' = filter (\<lambda>i. b_logits (ba_batch a') ! i) [0..<bt_n_tokens inp]"
proof -
  note st = accepted_state [OF assms]
  show ?thesis
    using split_all_simple [of a' n_ubatch] concat_runs [of 0 "bt_n_tokens inp" n_ubatch] runs_bounded
    by (fastforce simp: st(7) st(10) [symmetric])
qed

theorem split_simple_partitions_witness:
  "\<exists>rs a''. collect_ubatches 5 (split_simple 3) sample_accepted =
      Some (map (\<lambda>r. fst (ubatch_add r (length r) False sample_accepted)) rs, a'') \<and>
    concat rs = [0, 1, 2, 3] \<and> (\<forall>r \<in> set rs. r \<noteq> [] \<and> length r \<le> 3) \<and> ba_n_used a'' = 4"
  using split_simple_partitions [OF sample_rows_ok sample_accepted, of 3]
  by (fastforce simp: sample_batch_def upt_rec eval_nat_numeral)

text \<open>
  C9. Splitting an accepted batch with \<open>split_equal\<close> until it yields nothing puts every token
  of the batch into exactly one micro-batch; every micro-batch is a rectangle of
  \<open>n_seqs * n_seq_tokens\<close> tokens, and holds at most \<open>n_ubatch\<close> tokens unless it spans
  \<open>n_ubatch + 1\<close> sequence sets. There is one exception: when sequential sets are asked for and the batch has
  coupled sequences, the split refuses, and no token is placed.
\<close>

theorem split_equal_partitions:
  assumes "input_rows_ok inp" "ba_init n_vocab mem n_embd n_seq_max output_all inp a = Inr (True, a')"
  shows "if sequential \<and> ba_has_cpl a'
    then collect_ubatches (Suc (bt_n_tokens inp)) (split_equal n_ubatch sequential) a' = Some ([], a')
    else \<exists>ps a''. collect_ubatches (Suc (bt_n_tokens inp)) (split_equal n_ubatch sequential) a' =
        Some (map (\<lambda>(p, k). fst (ubatch_add p k True a')) ps, a'') \<and>
      distinct (concat (map fst ps)) \<and> set (concat (map fst ps)) = {..<bt_n_tokens inp} \<and>
      (\<forall>(p, k) \<in> set ps. equal_shape n_ubatch (fst (ubatch_add p k True a'))) \<and>
      ba_n_used a'' = bt_n_tokens inp"
proof (cases "sequential \<and> ba_has_cpl a'")
  case True
  then show ?thesis by (simp add: split_equal_def ubatch_none_def)
next
  case False
  note st = accepted_state [OF assms]
  show ?thesis
    using False collect_equal [OF st(1) False, of "Suc (bt_n_tokens inp)" n_ubatch] by (auto simp: st(3,7,8))
qed

theorem split_equal_partitions_witness:
  "\<exists>ps a''. collect_ubatches 5 (split_equal 2 True) sample_accepted =
      Some (map (\<lambda>(p, k). fst (ubatch_add p k True sample_accepted)) ps, a'') \<and>
    distinct (concat (map fst ps)) \<and> set (concat (map fst ps)) = {..<4} \<and> ba_n_used a'' = 4"
proof -
  have "\<not> ba_has_cpl sample_accepted" by code_simp
  then show ?thesis
    using split_equal_partitions [OF sample_rows_ok sample_accepted, of True 2]
    by (fastforce simp: sample_batch_def eval_nat_numeral)
qed

text \<open>
  The bound is sharp: \<open>split_equal\<close> leaves its selection loop only once
  \<open>cur_seq_set.size() > n_ubatch\<close>, so three one-token sequences and \<open>n_ubatch = 2\<close> give a
  micro-batch of three tokens.
\<close>

definition three_sequences :: llama_batch where
  "three_sequences = \<lparr>bt_n_tokens = 3, bt_token = Some [5, 6, 7], bt_embd = None,
     bt_pos = Some [0, 0, 0], bt_n_seq_id = Some [1, 1, 1], bt_seq_id = Some [[0], [1], [2]], bt_logits = None\<rparr>"

theorem split_equal_overshoots:
  "map_sum id (\<lambda>(ok, a). (ok, ub_n_tokens (fst (split_equal 2 False a))))
     (ba_init 10 None 4 3 False three_sequences (ba_new 1)) = Inr (True, 3)"
  by code_simp

text \<open>
  The check that is meant to refuse decreasing positions compares with \<open>cur_seq_pos\<close>,
  which is never assigned after its initialisation to \<open>-1\<close>: a batch that lists the positions
  of a sequence backwards is accepted.
\<close>

definition backwards_batch :: llama_batch where
  "backwards_batch = \<lparr>bt_n_tokens = 2, bt_token = Some [5, 6], bt_embd = None,
     bt_pos = Some [1, 0], bt_n_seq_id = None, bt_seq_id = None, bt_logits = None\<rparr>"

theorem backwards_batch_accepted:
  "map_sum id (\<lambda>(ok, a). (ok, b_pos (ba_batch a)))
     (ba_init 10 None 4 1 False backwards_batch (ba_new 1)) = Inr (True, [1, 0])"
  by code_simp

end
