(* ===== verification/Kv_Cache.thy ===== *)
theory Kv_Cache
  imports Kv_Cells Batch
begin

text \<open>
  The KV cache, \<open>llama-kv-cache.cpp\<close>: streams of cells, the editing of sequences
  (\<open>seq_rm\<close>, \<open>seq_cp\<close>, \<open>seq_keep\<close>, \<open>seq_add\<close>, \<open>seq_div\<close>), the search for
  slots and the placement of micro-batches. The tensors that hold the keys and values are
  not part of the model: what is modelled is which cell holds which token of which sequence.

  Every editing function runs over all cells of a stream and touches the cell it visits
  only. The locale \<open>cell_sweep\<close> states that contract once; each function is an
  interpretation of it.
\<close>

unbundle bit_operations_syntax

section \<open>Data\<close>

datatype llama_swa_type = SWA_NONE | SWA_STANDARD | SWA_CHUNKED | SWA_SYMMETRIC

text \<open>\<open>llama_hparams::is_masked_swa\<close>; a chunked cache has \<open>n_swa > 0\<close>.\<close>

definition is_masked_swa :: "nat \<Rightarrow> llama_swa_type \<Rightarrow> llama_pos \<Rightarrow> llama_pos \<Rightarrow> bool" where
  "is_masked_swa n_swa t p0 p1 = (case t of
       SWA_NONE \<Rightarrow> False
     | SWA_STANDARD \<Rightarrow> p1 - p0 \<ge> int n_swa
     | SWA_CHUNKED \<Rightarrow> p0 < (p1 div int n_swa) * int n_swa
     | SWA_SYMMETRIC \<Rightarrow> (let half = int (n_swa div 2); diff = p1 - p0 in diff < - half \<or> diff > half))"

record slot_info =
  si_s0 :: nat
  si_s1 :: nat
  si_strm :: "nat list"
  si_idxs :: "nat list list"

definition slot_none :: slot_info where
  "slot_none = \<lparr>si_s0 = 0, si_s1 = 0, si_strm = [], si_idxs = []\<rparr>"

definition si_empty :: "slot_info \<Rightarrow> bool" where
  "si_empty si \<longleftrightarrow> si_idxs si = []"

definition si_n_stream :: "slot_info \<Rightarrow> nat" where
  "si_n_stream si = length (si_strm si)"

definition si_size :: "slot_info \<Rightarrow> nat outcome" where
  "si_size si = (if length (si_idxs si) \<noteq> length (si_strm si) then Inl Assert_failed
     else if si_idxs si = [] then Inl Assert_failed
     else Inr (length (si_idxs si ! 0)))"

definition si_head :: "slot_info \<Rightarrow> nat outcome" where
  "si_head si = (if length (si_idxs si) \<noteq> 1 then Inl Assert_failed
     else if si_idxs si ! 0 = [] then Inl Assert_failed
     else Inr (si_idxs si ! 0 ! 0))"

definition si_is_contiguous :: "slot_info \<Rightarrow> bool" where
  "si_is_contiguous si =
     (if si_idxs si = [] \<or> si_idxs si ! 0 = [] then True
      else if length (si_idxs si) > 1 then False
      else let h = si_idxs si ! 0 ! 0
           in list_all (\<lambda>i. si_idxs si ! 0 ! i = h + i) [0..<length (si_idxs si ! 0)])"

record kv_cache =
  kc_n_seq_max :: nat
  kc_n_stream :: nat
  kc_n_pad :: nat
  kc_n_swa :: nat
  kc_swa_type :: llama_swa_type
  kc_n_pos_per_embd :: nat
  kc_arch_step35 :: bool
  kc_v_heads :: "nat list"
  kc_v_cells :: "kv_cells list"
  kc_seq_to_stream :: "nat list"
  kc_sc_info :: "(nat \<times> nat) list"

text \<open>The part of the constructor that sets up the streams; \<open>n_pad\<close> is at least 1.\<close>

definition kv_cache_new :: "bool \<Rightarrow> nat \<Rightarrow> nat \<Rightarrow> nat \<Rightarrow> nat \<Rightarrow> llama_swa_type \<Rightarrow> nat \<Rightarrow> bool \<Rightarrow> kv_cache outcome" where
  "kv_cache_new unified kv_size n_seq_max n_pad n_swa swa_type n_pos_per_embd step35 =
     (let n_stream = (if unified then 1 else n_seq_max)
      in if kv_size mod n_pad \<noteq> 0 then Inl Assert_failed
         else if \<not> (n_stream = 1 \<or> n_stream = n_seq_max) then Inl Assert_failed
         else Inr \<lparr>kc_n_seq_max = n_seq_max, kc_n_stream = n_stream, kc_n_pad = n_pad, kc_n_swa = n_swa,
             kc_swa_type = swa_type, kc_n_pos_per_embd = n_pos_per_embd, kc_arch_step35 = step35,
             kc_v_heads = replicate n_stream 0,
             kc_v_cells = replicate n_stream (cells_resize kv_size cells_new),
             kc_seq_to_stream = (let m = vec_resize LLAMA_MAX_SEQ 0 []
               in if n_stream > 1 then fold (\<lambda>s m. m[s := s]) [0..<n_stream] (vec_resize n_stream 0 m) else m),
             kc_sc_info = []\<rparr>)"

abbreviation kc_cells :: "kv_cache \<Rightarrow> nat \<Rightarrow> kv_cells" where
  "kc_cells k st \<equiv> kc_v_cells k ! st"

section \<open>Editing sequences\<close>

definition kv_clear :: "kv_cache \<Rightarrow> kv_cache" where
  "kv_clear k = fold (\<lambda>s k. k\<lparr>kc_v_cells := (kc_v_cells k)[s := cells_reset (kc_cells k s)],
       kc_v_heads := (kc_v_heads k)[s := 0]\<rparr>) [0..<kc_n_stream k] k"

text \<open>
  The loop over the cells of a stream. The body works on one cell and tells whether it
  became free; \<open>new_head\<close> starts at \<open>size()\<close> and ends as the first freed cell.
\<close>

definition sweep_step :: "(nat \<Rightarrow> kv_cells \<Rightarrow> bool \<times> kv_cells) \<Rightarrow> nat \<Rightarrow> nat \<times> kv_cells \<Rightarrow> nat \<times> kv_cells" where
  "sweep_step body i st = (let (new_head, c) = st; (freed, c) = body i c
     in (if freed \<and> new_head = cells_size c then i else new_head, c))"

definition sweep :: "(nat \<Rightarrow> kv_cells \<Rightarrow> bool \<times> kv_cells) \<Rightarrow> kv_cells \<Rightarrow> nat \<times> kv_cells" where
  "sweep body c = fold (sweep_step body) [0..<cells_size c] (cells_size c, c)"

definition sweep_lower :: "(nat \<Rightarrow> kv_cells \<Rightarrow> bool \<times> kv_cells) \<Rightarrow> nat \<Rightarrow> kv_cache \<Rightarrow> kv_cache" where
  "sweep_lower body st k =
     (let (new_head, c) = sweep body (kc_cells k st); head = kc_v_heads k ! st
      in k\<lparr>kc_v_cells := (kc_v_cells k)[st := c],
           kc_v_heads := (kc_v_heads k)[st := if new_head \<noteq> cells_size c \<and> new_head < head then new_head else head]\<rparr>)"

definition lo_bound :: "llama_pos \<Rightarrow> llama_pos" where
  "lo_bound p0 = (if p0 < 0 then 0 else p0)"

definition hi_bound :: "llama_pos \<Rightarrow> llama_pos" where
  "hi_bound p1 = (if p1 < 0 then LLAMA_POS_MAX else p1)"

definition rm_body :: "llama_seq_id \<Rightarrow> llama_pos \<Rightarrow> llama_pos \<Rightarrow> nat \<Rightarrow> kv_cells \<Rightarrow> bool \<times> kv_cells" where
  "rm_body seq_id p0 p1 i c =
     (if \<not> cells_pos_in c i p0 p1 then (False, c)
      else if cells_seq_has c i seq_id then cells_seq_rm i seq_id c else (False, c))"

definition rm_any_body :: "llama_pos \<Rightarrow> llama_pos \<Rightarrow> nat \<Rightarrow> kv_cells \<Rightarrow> bool \<times> kv_cells" where
  "rm_any_body p0 p1 i c = (if \<not> cells_pos_in c i p0 p1 then (False, c) else (True, cells_rm i c))"

definition valid_seq :: "kv_cache \<Rightarrow> int \<Rightarrow> bool" where
  "valid_seq k seq_id \<longleftrightarrow> seq_id \<ge> 0 \<and> nat seq_id < length (kc_seq_to_stream k)"

definition stream_of :: "kv_cache \<Rightarrow> int \<Rightarrow> nat" where
  "stream_of k seq_id = kc_seq_to_stream k ! nat seq_id"

definition kv_seq_rm :: "int \<Rightarrow> llama_pos \<Rightarrow> llama_pos \<Rightarrow> kv_cache \<Rightarrow> (bool \<times> kv_cache) outcome" where
  "kv_seq_rm seq_id p0 p1 k =
     (if \<not> (seq_id = -1 \<or> valid_seq k seq_id) then Inl Assert_failed
      else let p0 = lo_bound p0; p1 = hi_bound p1
        in if seq_id \<ge> 0 then Inr (True, sweep_lower (rm_body (nat seq_id) p0 p1) (stream_of k seq_id) k)
           else Inr (True, fold (sweep_lower (rm_any_body p0 p1)) [0..<kc_n_stream k] k))"

definition cp_body :: "llama_seq_id \<Rightarrow> llama_seq_id \<Rightarrow> llama_pos \<Rightarrow> llama_pos \<Rightarrow> nat \<Rightarrow> kv_cells \<Rightarrow> bool \<times> kv_cells" where
  "cp_body src dst p0 p1 i c =
     (if \<not> cells_pos_in c i p0 p1 then (False, c)
      else if cells_seq_has c i src then (False, cells_seq_add i dst c) else (False, c))"

definition kv_get_size :: "kv_cache \<Rightarrow> nat" where
  "kv_get_size k = cells_size (kc_cells k (kc_seq_to_stream k ! 0))"

text \<open>The body of the cross-stream copy: cell \<open>i\<close> of the source stream, which keeps its shift.\<close>

definition cross_cell :: "kv_cells \<Rightarrow> llama_seq_id \<Rightarrow> llama_seq_id \<Rightarrow> nat \<Rightarrow> kv_cells \<Rightarrow> kv_cells" where
  "cross_cell c0 src dst i c1 =
     (if cells_seq_has c0 i src then
        let pos = cells_pos_get c0 i; shift = cells_get_shift c0 i; ext = cells_ext_get c0 i;
            pos = (if shift \<noteq> 0 then pos - shift else pos);
            c1 = cells_seq_add i dst (cells_pos_set i pos c1);
            c1 = (if shift \<noteq> 0 then snd (cells_pos_add i shift c1) else c1)
        in cells_ext_set i ext c1
      else c1)"

definition kv_seq_cp :: "int \<Rightarrow> int \<Rightarrow> llama_pos \<Rightarrow> llama_pos \<Rightarrow> kv_cache \<Rightarrow> kv_cache outcome" where
  "kv_seq_cp src dst p0 p1 k =
     (if \<not> valid_seq k src then Inl Assert_failed
      else if \<not> valid_seq k dst then Inl Assert_failed
      else let s0 = stream_of k src; s1 = stream_of k dst
        in if s0 = s1 then
             (if src = dst then Inr k
              else let p0 = lo_bound p0; p1 = hi_bound p1
                in Inr (k\<lparr>kc_v_cells := (kc_v_cells k)[s0 :=
                     snd (sweep (cp_body (nat src) (nat dst) p0 p1) (kc_cells k s0))]\<rparr>))
           else
             let is_full = True;
                 is_full = (if p0 > 0 \<and> p0 + 1 < int (kv_get_size k) then False else is_full);
                 is_full = (if p1 > 0 \<and> p1 + 1 < int (kv_get_size k) then False else is_full)
             in if \<not> is_full then Inl Assert_failed
                else let c0 = kc_cells k s0;
                         c1 = fold (cross_cell c0 (nat src) (nat dst)) [0..<cells_size c0] (cells_reset (kc_cells k s1))
                  in Inr (k\<lparr>kc_sc_info := kc_sc_info k @ [(s0, s1)], kc_v_cells := (kc_v_cells k)[s1 := c1],
                          kc_v_heads := (kc_v_heads k)[s1 := kc_v_heads k ! s0]\<rparr>))"

definition kv_seq_keep :: "int \<Rightarrow> kv_cache \<Rightarrow> kv_cache outcome" where
  "kv_seq_keep seq_id k =
     (if \<not> valid_seq k seq_id then Inl Assert_failed
      else Inr (sweep_lower (\<lambda>i. cells_seq_keep i (nat seq_id)) (stream_of k seq_id) k))"

definition add_body :: "llama_seq_id \<Rightarrow> llama_pos \<Rightarrow> llama_pos \<Rightarrow> llama_pos \<Rightarrow> nat \<Rightarrow> kv_cells \<Rightarrow> bool \<times> kv_cells" where
  "add_body seq_id p0 p1 shift i c =
     (if \<not> cells_pos_in c i p0 p1 then (False, c)
      else if cells_seq_has c i seq_id then cells_pos_add i shift c else (False, c))"

definition kv_seq_add :: "int \<Rightarrow> llama_pos \<Rightarrow> llama_pos \<Rightarrow> llama_pos \<Rightarrow> kv_cache \<Rightarrow> kv_cache outcome" where
  "kv_seq_add seq_id p0 p1 shift k =
     (if \<not> valid_seq k seq_id then Inl Assert_failed
      else if kc_n_pos_per_embd k \<noteq> 1 then Inl Assert_failed
      else if shift = 0 then Inr k
      else let p0 = lo_bound p0; p1 = hi_bound p1
        in if p0 = p1 then Inr k
           else let st = stream_of k seq_id;
                    (new_head, c) = sweep (add_body (nat seq_id) p0 p1 shift) (kc_cells k st)
             in Inr (k\<lparr>kc_v_cells := (kc_v_cells k)[st := c],
                   kc_v_heads := (kc_v_heads k)[st := if new_head \<noteq> cells_size c then new_head else 0]\<rparr>))"

definition div_body :: "llama_seq_id \<Rightarrow> llama_pos \<Rightarrow> llama_pos \<Rightarrow> int \<Rightarrow> nat \<Rightarrow> kv_cells \<Rightarrow> bool \<times> kv_cells" where
  "div_body seq_id p0 p1 d i c =
     (if \<not> cells_pos_in c i p0 p1 then (False, c)
      else if cells_seq_has c i seq_id then (False, cells_pos_div i d c) else (False, c))"

definition kv_seq_div :: "int \<Rightarrow> llama_pos \<Rightarrow> llama_pos \<Rightarrow> int \<Rightarrow> kv_cache \<Rightarrow> kv_cache outcome" where
  "kv_seq_div seq_id p0 p1 d k =
     (if \<not> valid_seq k seq_id then Inl Assert_failed
      else if kc_n_pos_per_embd k \<noteq> 1 then Inl Assert_failed
      else if d = 1 then Inr k
      else let p0 = lo_bound p0; p1 = hi_bound p1
        in if p0 = p1 then Inr k
           else let st = stream_of k seq_id
             in Inr (k\<lparr>kc_v_cells := (kc_v_cells k)[st :=
                  snd (sweep (div_body (nat seq_id) p0 p1 d) (kc_cells k st))]\<rparr>))"

definition kv_seq_pos_min :: "kv_cache \<Rightarrow> int \<Rightarrow> llama_pos outcome" where
  "kv_seq_pos_min k seq_id = (if \<not> valid_seq k seq_id then Inl Assert_failed
     else Inr (cells_seq_pos_min (kc_cells k (stream_of k seq_id)) (nat seq_id)))"

definition kv_seq_pos_max :: "kv_cache \<Rightarrow> int \<Rightarrow> llama_pos outcome" where
  "kv_seq_pos_max k seq_id = (if \<not> valid_seq k seq_id then Inl Assert_failed
     else Inr (cells_seq_pos_max (kc_cells k (stream_of k seq_id)) (nat seq_id)))"

definition kv_get_can_shift :: "kv_cache \<Rightarrow> bool" where
  "kv_get_can_shift k = (if kc_arch_step35 k then False else if kc_n_pos_per_embd k > 1 then False else True)"

definition kv_get_has_shift :: "kv_cache \<Rightarrow> bool" where
  "kv_get_has_shift k = fold (\<lambda>s r. r \<or> cells_get_has_shift (kc_cells k s)) [0..<kc_n_stream k] False"

text \<open>
  \<open>update\<close>: the tensor copies and the graph that rotates the keys are outside the model;
  whether the model has a rotary embedding and whether allocating and running that graph
  succeeds are arguments.
\<close>

definition kv_update :: "bool \<Rightarrow> bool \<Rightarrow> bool \<Rightarrow> bool \<Rightarrow> kv_cache \<Rightarrow> (bool \<times> kv_cache) outcome" where
  "kv_update rope alloc_ok compute_ok do_shift k =
     (if do_shift then
        (if \<not> kv_get_can_shift k then Inl Aborted
         else if rope \<and> \<not> alloc_ok then Inr (False, k)
         else if rope \<and> \<not> compute_ok then Inr (False, k)
         else Inr (rope, fold (\<lambda>s k. k\<lparr>kc_v_cells := (kc_v_cells k)[s := cells_reset_shift (kc_cells k s)]\<rparr>)
                [0..<kc_n_stream k] k))
      else Inr (False, k))"

section \<open>Placing micro-batches\<close>

definition can_use_cell :: "kv_cache \<Rightarrow> kv_cells \<Rightarrow> nat \<Rightarrow> bool" where
  "can_use_cell k c idx \<longleftrightarrow>
     (if cells_is_empty c idx then True
      else if cells_seq_count c idx = 1 then
        is_masked_swa (kc_n_swa k) (kc_swa_type k) (cells_pos_get c idx)
          (cells_seq_pos_max c (nat (cells_seq_get c idx)) + 1)
      else False)"

text \<open>The inner loop: \<open>n_test\<close> cells from \<open>head\<close> on, left early when \<open>cont\<close> meets a busy cell.\<close>

fun test_cells :: "kv_cache \<Rightarrow> kv_cells \<Rightarrow> bool \<Rightarrow> nat \<Rightarrow> nat \<Rightarrow> nat \<Rightarrow> nat list \<Rightarrow> nat \<times> nat \<times> nat list" where
  "test_cells k c cont 0 head n_tested idxs = (head, n_tested, idxs)"
| "test_cells k c cont (Suc n) head n_tested idxs =
     (if can_use_cell k c head then test_cells k c cont n (head + 1) (n_tested + 1) (idxs @ [head])
      else if cont then (head + 1, n_tested + 1, idxs)
      else test_cells k c cont n (head + 1) (n_tested + 1) idxs)"

fun find_loop :: "nat \<Rightarrow> kv_cache \<Rightarrow> kv_cells \<Rightarrow> bool \<Rightarrow> nat \<Rightarrow> nat \<Rightarrow> nat \<Rightarrow> nat list \<Rightarrow> nat list option outcome" where
  "find_loop 0 k c cont n_tokens head n_tested idxs = Inl Diverged"
| "find_loop (Suc fuel) k c cont n_tokens head n_tested idxs =
     (let n_test = (if cont then n_tokens else 1)
      in if head + n_test > cells_size c
         then find_loop fuel k c cont n_tokens 0 (n_tested + (cells_size c - head)) idxs
         else
           let (head, n_tested, idxs) = test_cells k c cont n_test head n_tested idxs
           in if length idxs = n_tokens then Inr (Some idxs)
              else let idxs = (if cont then [] else idxs)
                in if n_tested \<ge> cells_size c then Inr None
                   else find_loop fuel k c cont n_tokens head n_tested idxs)"

text \<open>One sequence of \<open>find_slot\<close>. Every turn of the loop tests a cell or wraps around, so
  twice the number of cells is enough fuel.\<close>

definition find_cells :: "kv_cache \<Rightarrow> bool \<Rightarrow> nat \<Rightarrow> nat \<Rightarrow> nat list option outcome" where
  "find_cells k cont n_tokens st =
     (let c = kc_cells k st; head = kc_v_heads k ! st;
          head = (if head > cells_get_used c + 2 * n_tokens then 0 else head)
      in if n_tokens > cells_size c then Inr None
         else find_loop (2 * cells_size c + 2) k c cont n_tokens head 0 [])"

fun find_seqs :: "kv_cache \<Rightarrow> ubatch \<Rightarrow> bool \<Rightarrow> nat \<Rightarrow> nat list \<Rightarrow> slot_info \<Rightarrow> slot_info outcome" where
  "find_seqs k u cont n_tokens [] res = Inr res"
| "find_seqs k u cont n_tokens (s # ss) res =
     (let seq_id = ub_seq_id_unq u ! s; st = kc_seq_to_stream k ! seq_id
      in if kc_n_stream k > 1 \<and> \<not> (ub_n_seq_id u ! (s * n_tokens) = 1) then Inl Assert_failed
         else if kc_n_stream k > 1 \<and> \<not> (ub_seq_id u ! (s * n_tokens) ! 0 = seq_id) then Inl Assert_failed
         else
           let res = res\<lparr>si_s0 := min (si_s0 res) st, si_s1 := max (si_s1 res) st,
                         si_strm := (si_strm res)[s := st]\<rparr>
           in case find_cells k cont n_tokens st of
                Inl e \<Rightarrow> Inl e
              | Inr None \<Rightarrow> Inr slot_none
              | Inr (Some idxs) \<Rightarrow>
                  (if length idxs < n_tokens then Inr slot_none
                   else find_seqs k u cont n_tokens ss (res\<lparr>si_idxs := (si_idxs res)[s := idxs]\<rparr>)))"

definition find_slot :: "kv_cache \<Rightarrow> ubatch \<Rightarrow> bool \<Rightarrow> slot_info outcome" where
  "find_slot k u cont =
     (if kc_n_stream k > 1 \<and> ub_n_tokens u mod ub_n_seqs_unq u \<noteq> 0 then Inl Assert_failed
      else let n_seqs = (if kc_n_stream k > 1 then ub_n_seqs_unq u else 1);
               n_tokens = (if kc_n_stream k > 1 then ub_n_tokens u div n_seqs else ub_n_tokens u)
        in find_seqs k u cont n_tokens [0..<n_seqs]
             \<lparr>si_s0 = LLAMA_MAX_SEQ, si_s1 = 0, si_strm = replicate n_seqs 0, si_idxs = replicate n_seqs []\<rparr>)"

text \<open>
  \<open>apply_ubatch\<close>: one token into one cell, which also records in \<open>rm\<close> the greatest
  position of each sequence that was overwritten; the purge; the new heads.
\<close>

definition place_token :: "ubatch \<Rightarrow> nat \<Rightarrow> nat \<Rightarrow> (llama_seq_id \<Rightarrow> llama_pos) \<times> kv_cells \<Rightarrow>
    (llama_seq_id \<Rightarrow> llama_pos) \<times> kv_cells" where
  "place_token u i idx st =
     (let (rm, c) = st;
          (rm, c) = (if \<not> cells_is_empty c idx then
              let seq_id = nat (cells_seq_get c idx); pos = cells_pos_get c idx
              in (rm(seq_id := max (rm seq_id) pos), cells_rm idx c)
            else (rm, c));
          c = cells_pos_set idx (ub_pos u ! i) c;
          c = (if is_pos_2d u
               then cells_ext_set idx \<lparr>ext_x = ub_pos u ! (i + ub_n_tokens u * 2),
                                       ext_y = ub_pos u ! (i + ub_n_tokens u)\<rparr> c
               else c);
          c = fold (\<lambda>s. cells_seq_add idx (ub_seq_id u ! i ! s)) [0..<ub_n_seq_id u ! i] c
      in (rm, c))"

definition place_stream :: "slot_info \<Rightarrow> ubatch \<Rightarrow> nat \<Rightarrow> nat \<Rightarrow> (llama_seq_id \<Rightarrow> llama_pos) \<times> kv_cache \<Rightarrow>
    (llama_seq_id \<Rightarrow> llama_pos) \<times> kv_cache" where
  "place_stream si u n s st =
     (let (rm, k) = st; strm = si_strm si ! s;
          (rm, c) = fold (\<lambda>ii. place_token u (s * n + ii) (si_idxs si ! s ! ii)) [0..<n] (rm, kc_cells k strm)
      in (rm, k\<lparr>kc_v_cells := (kc_v_cells k)[strm := c]\<rparr>))"

fun purge :: "(llama_seq_id \<Rightarrow> llama_pos) \<Rightarrow> nat list \<Rightarrow> kv_cache \<Rightarrow> kv_cache outcome" where
  "purge rm [] k = Inr k"
| "purge rm (s # ss) k =
     (if rm s = -1 then purge rm ss k
      else if \<not> s < length (kc_seq_to_stream k) then Inl Assert_failed
      else let c = kc_cells k (kc_seq_to_stream k ! s)
        in if cells_seq_pos_min c s \<le> rm s
           then (case kv_seq_rm (int s) (cells_seq_pos_min c s) (rm s + 1) k of
                   Inl e \<Rightarrow> Inl e | Inr (_, k) \<Rightarrow> purge rm ss k)
           else purge rm ss k)"

definition move_heads :: "slot_info \<Rightarrow> kv_cache \<Rightarrow> kv_cache" where
  "move_heads si k = fold (\<lambda>s k. k\<lparr>kc_v_heads := (kc_v_heads k)[si_strm si ! s := last (si_idxs si ! s) + 1]\<rparr>)
     [0..<si_n_stream si] k"

definition apply_ubatch :: "slot_info \<Rightarrow> ubatch \<Rightarrow> kv_cache \<Rightarrow> kv_cache outcome" where
  "apply_ubatch si u k =
     bind_outcome (si_size si) (\<lambda>n.
       let (rm, k) = fold (place_stream si u n) [0..<si_n_stream si] ((\<lambda>_. -1), k)
       in bind_outcome (purge rm [0..<LLAMA_MAX_SEQ] k) (\<lambda>k. Inr (move_heads si k)))"

text \<open>\<open>prepare\<close>: the recovery stack, the forward loop, and the restoring loop.\<close>

record prep_state =
  ps_sinfo :: slot_info
  ps_heads_old :: "nat list"
  ps_cells :: "kv_cells list"

text \<open>The result holds whether every ubatch found a slot, and the stack with its top first.\<close>

fun prep_loop :: "ubatch list \<Rightarrow> kv_cache \<Rightarrow> prep_state list \<Rightarrow> (bool \<times> prep_state list \<times> kv_cache) outcome" where
  "prep_loop [] k states = Inr (True, states, k)"
| "prep_loop (u # us) k states =
     (case find_slot k u False of
        Inl e \<Rightarrow> Inl e
      | Inr si \<Rightarrow>
          if si_empty si then Inr (False, states, k)
          else let st = \<lparr>ps_sinfo = si, ps_heads_old = kc_v_heads k,
                   ps_cells = map (\<lambda>s. cells_cp_idxs (kc_cells k (si_strm si ! s)) (si_idxs si ! s)) [0..<si_n_stream si]\<rparr>
            in bind_outcome (apply_ubatch si u k) (\<lambda>k. prep_loop us k (st # states)))"

definition restore_state :: "prep_state \<Rightarrow> kv_cache \<Rightarrow> kv_cache" where
  "restore_state st k = fold (\<lambda>s k. let strm = si_strm (ps_sinfo st) ! s
      in k\<lparr>kc_v_cells := (kc_v_cells k)[strm := cells_set_idxs (si_idxs (ps_sinfo st) ! s) (ps_cells st ! s) (kc_cells k strm)],
           kc_v_heads := (kc_v_heads k)[strm := ps_heads_old st ! s]\<rparr>) [0..<si_n_stream (ps_sinfo st)] k"

definition prepare :: "ubatch list \<Rightarrow> kv_cache \<Rightarrow> (slot_info list \<times> kv_cache) outcome" where
  "prepare us k =
     bind_outcome (prep_loop us k []) (\<lambda>(success, states, k).
       if states = [] \<and> success then Inl Assert_failed
       else let k = fold restore_state states k
         in Inr (if success then rev (map ps_sinfo states) else [], k))"

text \<open>
  \<open>init_batch\<close>: the split, and the slots for all micro-batches, or \<open>None\<close> for
  \<open>LLAMA_MEMORY_STATUS_FAILED_PREPARE\<close>. The splitting loop ends after at most one call
  per token and one more.
\<close>

definition init_batch :: "nat \<Rightarrow> batch_allocr \<Rightarrow> kv_cache \<Rightarrow>
    ((slot_info list \<times> ubatch list) option \<times> batch_allocr \<times> kv_cache) outcome" where
  "init_batch n_ubatch a k =
     (case collect_ubatches (Suc (ba_get_n_tokens a))
         (if kc_n_stream k = 1 then split_simple n_ubatch else split_equal n_ubatch True) (ba_split_reset a) of
        None \<Rightarrow> Inl Diverged
      | Some (us, a) \<Rightarrow>
          if ba_n_used a < ba_get_n_tokens a then Inr (None, a, k)
          else bind_outcome (prepare us k) (\<lambda>(sinfos, k).
            Inr (if sinfos = [] then None else Some (sinfos, us), a, k)))"

text \<open>The \<open>apply\<close>/\<open>next\<close> loop over the micro-batches of a memory context.\<close>

fun apply_all :: "slot_info list \<Rightarrow> ubatch list \<Rightarrow> kv_cache \<Rightarrow> kv_cache outcome" where
  "apply_all (si # sis) (u # us) k = bind_outcome (apply_ubatch si u k) (apply_all sis us)"
| "apply_all _ _ k = Inr k"

definition GGML_PAD :: "32 word \<Rightarrow> 32 word \<Rightarrow> 32 word" where
  "GGML_PAD x n = (x + n - 1) AND NOT (n - 1)"

definition kv_get_n_kv :: "kv_cache \<Rightarrow> slot_info \<Rightarrow> nat" where
  "kv_get_n_kv k si = (let n_pad_cur = max (kc_n_pad k) 256 in
     fold (\<lambda>s result. let c = kc_cells k (si_strm si ! s);
         pad = unat (GGML_PAD (of_nat (cells_used_max_p1 c)) (of_nat n_pad_cur))
       in max (min (cells_size c) (max n_pad_cur pad)) result) [0..<si_n_stream si] 0)"

definition k_idxs :: "kv_cache \<Rightarrow> slot_info \<Rightarrow> ubatch \<Rightarrow> nat list outcome" where
  "k_idxs k si u = bind_outcome (si_size si) (\<lambda>n.
     if ub_n_tokens u \<noteq> n * si_n_stream si then Inl Assert_failed
     else Inr (concat (map (\<lambda>s. map (\<lambda>i. (si_strm si ! s) * kv_get_size k + si_idxs si ! s ! i) [0..<n])
       [0..<si_n_stream si])))"

definition v_idxs :: "bool \<Rightarrow> nat \<Rightarrow> kv_cache \<Rightarrow> slot_info \<Rightarrow> ubatch \<Rightarrow> nat list outcome" where
  "v_idxs v_trans n_embd_v_gqa k si u = bind_outcome (si_size si) (\<lambda>n.
     if ub_n_tokens u \<noteq> n * si_n_stream si then Inl Assert_failed
     else if \<not> v_trans then
       Inr (concat (map (\<lambda>s. map (\<lambda>i. (si_strm si ! s) * kv_get_size k + si_idxs si ! s ! i) [0..<n])
         [0..<si_n_stream si]))
     else Inr (concat (map (\<lambda>s. concat (map (\<lambda>i.
         map (\<lambda>j. (si_strm si ! s) * kv_get_size k * n_embd_v_gqa + j * kv_get_size k + si_idxs si ! s ! i)
           [0..<n_embd_v_gqa]) [0..<n])) [0..<si_n_stream si])))"

definition k_shift_data :: "kv_cache \<Rightarrow> llama_pos list" where
  "k_shift_data k = concat (map (\<lambda>s. map (\<lambda>i. if cells_is_empty (kc_cells k s) i then 0
      else cells_get_shift (kc_cells k s) i) [0..<cells_size (kc_cells k s)]) [0..<kc_n_stream k])"

section \<open>Sweeps over the cells of a stream\<close>

lemma length_takeWhile_all: "length (takeWhile P xs) = length xs \<longleftrightarrow> (\<forall>x \<in> set xs. P x)"
  by (induction xs) auto

text \<open>
  What the loop bodies promise: on a cell whose contents satisfy \<open>pre\<close>, the body rewrites
  that cell alone, from \<open>x\<close> to \<open>f x\<close>, and reports whether it became free.
\<close>

definition freed :: "(llama_pos \<times> llama_seq_id set \<Rightarrow> llama_pos \<times> llama_seq_id set) \<Rightarrow>
    llama_pos \<times> llama_seq_id set \<Rightarrow> bool" where
  "freed f x \<longleftrightarrow> fst x \<noteq> -1 \<and> fst (f x) = -1"

locale cell_sweep =
  fixes body :: "nat \<Rightarrow> kv_cells \<Rightarrow> bool \<times> kv_cells"
    and f :: "llama_pos \<times> llama_seq_id set \<Rightarrow> llama_pos \<times> llama_seq_id set"
    and pre :: "llama_pos \<times> llama_seq_id set \<Rightarrow> bool"
  assumes body_inv: "cells_inv c \<Longrightarrow> i < cells_size c \<Longrightarrow> pre (cells_view c ! i) \<Longrightarrow>
      cells_inv (snd (body i c))"
    and body_view: "cells_inv c \<Longrightarrow> i < cells_size c \<Longrightarrow> pre (cells_view c ! i) \<Longrightarrow>
      cells_view (snd (body i c)) = (cells_view c)[i := f (cells_view c ! i)]"
    and body_freed: "cells_inv c \<Longrightarrow> i < cells_size c \<Longrightarrow> pre (cells_view c ! i) \<Longrightarrow>
      fst (body i c) \<longleftrightarrow> freed f (cells_view c ! i)"
begin

lemma sweep_prefix:
  assumes "cells_inv c" "\<forall>x \<in> set (cells_view c). pre x" "n \<le> cells_size c"
  defines "r \<equiv> fold (sweep_step body) [0..<n] (cells_size c, c)"
    and "t \<equiv> length (takeWhile (\<lambda>x. \<not> freed f x) (take n (cells_view c)))"
  shows "cells_inv (snd r) \<and> cells_view (snd r) = map f (take n (cells_view c)) @ drop n (cells_view c) \<and>
    fst r = (if t < n then t else cells_size c)"
  using assms(3) unfolding r_def t_def
proof (induction n)
  case 0
  then show ?case using assms(1) by simp
next
  case (Suc n)
  let ?r = "fold (sweep_step body) [0..<n] (cells_size c, c)" and ?v = "cells_view c"
  let ?t = "length (takeWhile (\<lambda>x. \<not> freed f x) (take n ?v))"
  have IH: "cells_inv (snd ?r)" "cells_view (snd ?r) = map f (take n ?v) @ drop n ?v"
    "fst ?r = (if ?t < n then ?t else cells_size c)" using Suc by simp_all
  have len: "length ?v = cells_size c" using assms(1) by (simp add: cells_inv_shape cells_shapeD)
  have n: "n < length ?v" using Suc.prems len by simp
  have size: "cells_size (snd ?r) = cells_size c"
    using arg_cong [OF IH(2), of length] n cells_shapeD(5) [OF cells_inv_shape [OF IH(1)]] len by simp
  have at: "cells_view (snd ?r) ! n = ?v ! n" using n by (simp add: IH(2) nth_append)
  have pre: "pre (cells_view (snd ?r) ! n)" using assms(2) n by (simp add: at)
  have i: "n < cells_size (snd ?r)" using n size len by simp
  note b = body_inv [OF IH(1) i pre] body_view [OF IH(1) i pre] body_freed [OF IH(1) i pre]
  have size': "cells_size (snd (body n (snd ?r))) = cells_size c"
    using arg_cong [OF b(2), of length] size
      cells_shapeD(5) [OF cells_inv_shape [OF b(1)]] cells_shapeD(5) [OF cells_inv_shape [OF IH(1)]] by simp
  have tk: "take (Suc n) ?v = take n ?v @ [?v ! n]" using n by (rule take_Suc_conv_app_nth)
  have le: "?t \<le> n" using length_takeWhile_le [of "\<lambda>x. \<not> freed f x" "take n ?v"] n by simp
  have full: "?t = n \<longleftrightarrow> (\<forall>x \<in> set (take n ?v). \<not> freed f x)"
    using n length_takeWhile_all [of "\<lambda>x. \<not> freed f x" "take n ?v"] by simp
  have tw: "length (takeWhile (\<lambda>x. \<not> freed f x) (take (Suc n) ?v)) = (if ?t < n then ?t else if freed f (?v ! n) then n else Suc n)"
    using full le n by (auto simp: tk takeWhile_append)
  have "cells_view (snd (body n (snd ?r))) = map f (take (Suc n) ?v) @ drop (Suc n) ?v"
    unfolding b(2) at using n by (simp add: IH(2) list_update_append tk Cons_nth_drop_Suc [symmetric])
  moreover have "fst (sweep_step body n ?r) = (if fst (body n (snd ?r)) \<and> fst ?r = cells_size c then n else fst ?r)"
    "snd (sweep_step body n ?r) = snd (body n (snd ?r))"
    using size' by (auto simp: sweep_step_def Let_def split: prod.splits)
  ultimately show ?case
    using b(1) le n len by (auto simp: tw IH(3) b(3) at)
qed

lemma sweep_correct:
  assumes "cells_inv c" "\<forall>x \<in> set (cells_view c). pre x"
  shows "cells_inv (snd (sweep body c))" "cells_view (snd (sweep body c)) = map f (cells_view c)"
    "fst (sweep body c) = length (takeWhile (\<lambda>x. \<not> freed f x) (cells_view c))"
proof -
  have len: "length (cells_view c) = cells_size c" using assms(1) by (simp add: cells_inv_shape cells_shapeD)
  note p = sweep_prefix [OF assms order.refl]
  show "cells_inv (snd (sweep body c))" "cells_view (snd (sweep body c)) = map f (cells_view c)"
    using p by (simp_all add: sweep_def len [symmetric])
  show "fst (sweep body c) = length (takeWhile (\<lambda>x. \<not> freed f x) (cells_view c))"
    using p length_takeWhile_le [of "\<lambda>x. \<not> freed f x" "cells_view c"]
    by (auto simp: sweep_def len [symmetric])
qed

lemma sweep_size:
  assumes "cells_inv c" "\<forall>x \<in> set (cells_view c). pre x"
  shows "cells_size (snd (sweep body c)) = cells_size c" "fst (sweep body c) \<le> cells_size c"
proof -
  show "cells_size (snd (sweep body c)) = cells_size c"
    using arg_cong [OF sweep_correct(2) [OF assms], of length] assms(1)
      cells_shapeD(5) [OF cells_inv_shape [OF sweep_correct(1) [OF assms]]]
    by (simp add: cells_inv_shape cells_shapeD)
  show "fst (sweep body c) \<le> cells_size c"
    using length_takeWhile_le [of _ "cells_view c"] assms(1)
    by (simp add: sweep_correct(3) [OF assms] cells_inv_shape cells_shapeD)
qed

end

text \<open>A body that changes one cell in the sense of \<open>cell_changed\<close>, or nothing, meets the contract.\<close>

lemma cell_sweep_intro:
  assumes "\<And>c i. cells_inv c \<Longrightarrow> i < cells_size c \<Longrightarrow> pre (kv_pos c ! i, kv_seq c ! i) \<Longrightarrow>
      (let (q, S) = f (kv_pos c ! i, kv_seq c ! i) in
        (cell_changed i q S c (snd (body i c)) \<and> cell_ok (q, S) \<or>
         snd (body i c) = c \<and> (q, S) = (kv_pos c ! i, kv_seq c ! i)) \<and>
        (fst (body i c) \<longleftrightarrow> kv_pos c ! i \<noteq> -1 \<and> q = -1))"
  shows "cell_sweep body f pre"
proof
  fix c i
  assume c: "cells_inv c" "i < cells_size c" "pre (cells_view c ! i)"
  have v: "cells_view c ! i = (kv_pos c ! i, kv_seq c ! i)" using c by (simp add: cells_view_nth cells_inv_shape)
  obtain q S where q: "f (kv_pos c ! i, kv_seq c ! i) = (q, S)" by (cases "f (kv_pos c ! i, kv_seq c ! i)")
  have h: "cell_changed i q S c (snd (body i c)) \<and> cell_ok (q, S) \<or>
         snd (body i c) = c \<and> (q, S) = (kv_pos c ! i, kv_seq c ! i)" "fst (body i c) \<longleftrightarrow> kv_pos c ! i \<noteq> -1 \<and> q = -1"
    using assms [OF c(1,2)] c(3) by (simp_all add: v q)
  show "cells_inv (snd (body i c))" using h(1) c cell_changed_inv by auto
  show "cells_view (snd (body i c)) = (cells_view c)[i := f (cells_view c ! i)]"
    using h(1) c cell_changed_view [OF cells_inv_shape] by (auto simp: v q) (metis v list_update_id)
  show "fst (body i c) \<longleftrightarrow> freed f (cells_view c ! i)"
    using h(2) by (simp add: v q freed_def)
qed

text \<open>What each loop does to the contents of a cell.\<close>

definition rm_cell :: "llama_seq_id \<Rightarrow> llama_pos \<Rightarrow> llama_pos \<Rightarrow> llama_pos \<times> llama_seq_id set \<Rightarrow> llama_pos \<times> llama_seq_id set" where
  "rm_cell s p0 p1 = (\<lambda>(p, S). if p0 \<le> p \<and> p < p1 \<and> s \<in> S
     then (if S = {s} then -1 else p, S - {s}) else (p, S))"

definition rm_any_cell :: "llama_pos \<Rightarrow> llama_pos \<Rightarrow> llama_pos \<times> llama_seq_id set \<Rightarrow> llama_pos \<times> llama_seq_id set" where
  "rm_any_cell p0 p1 = (\<lambda>(p, S). if p0 \<le> p \<and> p < p1 then (-1, {}) else (p, S))"

definition cp_cell :: "llama_seq_id \<Rightarrow> llama_seq_id \<Rightarrow> llama_pos \<Rightarrow> llama_pos \<Rightarrow> llama_pos \<times> llama_seq_id set \<Rightarrow> llama_pos \<times> llama_seq_id set" where
  "cp_cell src dst p0 p1 = (\<lambda>(p, S). if p0 \<le> p \<and> p < p1 \<and> src \<in> S then (p, insert dst S) else (p, S))"

definition keep_cell :: "llama_seq_id \<Rightarrow> llama_pos \<times> llama_seq_id set \<Rightarrow> llama_pos \<times> llama_seq_id set" where
  "keep_cell s = (\<lambda>(p, S). if s \<in> S then (p, {s}) else if S \<noteq> {} then (-1, {}) else (p, S))"

definition add_cell :: "llama_seq_id \<Rightarrow> llama_pos \<Rightarrow> llama_pos \<Rightarrow> llama_pos \<Rightarrow> llama_pos \<times> llama_seq_id set \<Rightarrow> llama_pos \<times> llama_seq_id set" where
  "add_cell s p0 p1 d = (\<lambda>(p, S). if p0 \<le> p \<and> p < p1 \<and> s \<in> S
     then (if p + d < 0 then (-1, {}) else (p + d, S)) else (p, S))"

definition div_cell :: "llama_seq_id \<Rightarrow> llama_pos \<Rightarrow> llama_pos \<Rightarrow> int \<Rightarrow> llama_pos \<times> llama_seq_id set \<Rightarrow> llama_pos \<times> llama_seq_id set" where
  "div_cell s p0 p1 d = (\<lambda>(p, S). if p0 \<le> p \<and> p < p1 \<and> s \<in> S then (p div d, S) else (p, S))"

lemma occupied_seq: "cells_inv c \<Longrightarrow> i < cells_size c \<Longrightarrow> s \<in> kv_seq c ! i \<Longrightarrow> kv_pos c ! i \<noteq> -1 \<and> 0 \<le> kv_pos c ! i"
  using cells_inv_cell(1,3) [of c i] by force

interpretation rm: cell_sweep "rm_body s p0 p1" "rm_cell s p0 p1" "\<lambda>_. True" for s p0 p1
proof (rule cell_sweep_intro)
  fix c i
  assume c: "cells_inv c" "i < cells_size c"
  show "let (q, S) = rm_cell s p0 p1 (kv_pos c ! i, kv_seq c ! i) in
        (cell_changed i q S c (snd (rm_body s p0 p1 i c)) \<and> cell_ok (q, S) \<or>
         snd (rm_body s p0 p1 i c) = c \<and> (q, S) = (kv_pos c ! i, kv_seq c ! i)) \<and>
        (fst (rm_body s p0 p1 i c) \<longleftrightarrow> kv_pos c ! i \<noteq> -1 \<and> q = -1)"
    using cell_changed_seq_rm [OF c, of s] cells_inv_cell(1-3) [OF c] occupied_seq [OF c, of s]
    by (auto simp: rm_cell_def rm_body_def cells_pos_in_def cells_seq_has_def cell_ok_def)
qed

interpretation rm_any: cell_sweep "rm_any_body p0 p1" "rm_any_cell p0 p1" "\<lambda>_. 0 \<le> p0" for p0 p1
  by (rule cell_sweep_intro)
    (auto simp: rm_any_cell_def rm_any_body_def cells_pos_in_def cell_ok_def cell_changed_rm)

interpretation cp: cell_sweep "cp_body src dst p0 p1" "cp_cell src dst p0 p1"
    "\<lambda>x. dst < LLAMA_MAX_SEQ \<and> dst \<notin> snd x" for src dst p0 p1
proof (rule cell_sweep_intro)
  fix c i
  assume c: "cells_inv c" "i < cells_size c" and d: "dst < LLAMA_MAX_SEQ \<and> dst \<notin> snd (kv_pos c ! i, kv_seq c ! i)"
  show "let (q, S) = cp_cell src dst p0 p1 (kv_pos c ! i, kv_seq c ! i) in
        (cell_changed i q S c (snd (cp_body src dst p0 p1 i c)) \<and> cell_ok (q, S) \<or>
         snd (cp_body src dst p0 p1 i c) = c \<and> (q, S) = (kv_pos c ! i, kv_seq c ! i)) \<and>
        (fst (cp_body src dst p0 p1 i c) \<longleftrightarrow> kv_pos c ! i \<noteq> -1 \<and> q = -1)"
    using cell_changed_seq_add [OF c, of dst] cells_inv_cell(1-3) [OF c] occupied_seq [OF c, of src] d
    by (auto simp: cp_cell_def cp_body_def cells_pos_in_def cells_seq_has_def cell_ok_def)
qed

interpretation keep: cell_sweep "\<lambda>i. cells_seq_keep i s" "keep_cell s" "\<lambda>_. True" for s
proof (rule cell_sweep_intro)
  fix c i
  assume c: "cells_inv c" "i < cells_size c"
  show "let (q, S) = keep_cell s (kv_pos c ! i, kv_seq c ! i) in
        (cell_changed i q S c (snd (cells_seq_keep i s c)) \<and> cell_ok (q, S) \<or>
         snd (cells_seq_keep i s c) = c \<and> (q, S) = (kv_pos c ! i, kv_seq c ! i)) \<and>
        (fst (cells_seq_keep i s c) \<longleftrightarrow> kv_pos c ! i \<noteq> -1 \<and> q = -1)"
    using cell_changed_seq_keep [OF c, of s] cells_inv_cell(1-3) [OF c] occupied_seq [OF c]
    by (auto simp: keep_cell_def cell_ok_def)
qed

interpretation add: cell_sweep "add_body s p0 p1 d" "add_cell s p0 p1 d" "\<lambda>_. True" for s p0 p1 d
proof (rule cell_sweep_intro)
  fix c i
  assume c: "cells_inv c" "i < cells_size c"
  show "let (q, S) = add_cell s p0 p1 d (kv_pos c ! i, kv_seq c ! i) in
        (cell_changed i q S c (snd (add_body s p0 p1 d i c)) \<and> cell_ok (q, S) \<or>
         snd (add_body s p0 p1 d i c) = c \<and> (q, S) = (kv_pos c ! i, kv_seq c ! i)) \<and>
        (fst (add_body s p0 p1 d i c) \<longleftrightarrow> kv_pos c ! i \<noteq> -1 \<and> q = -1)"
    using cell_changed_pos_add [OF c, of d] cells_inv_cell(1-3) [OF c] occupied_seq [OF c, of s]
    by (auto simp: add_cell_def add_body_def cells_pos_in_def cells_seq_has_def cell_ok_def)
qed

interpretation div: cell_sweep "div_body s p0 p1 d" "div_cell s p0 p1 d" "\<lambda>_. 0 < d" for s p0 p1 d
proof (rule cell_sweep_intro)
  fix c i
  assume c: "cells_inv c" "i < cells_size c" and d: "0 < d"
  have "0 \<le> kv_pos c ! i div d" if "s \<in> kv_seq c ! i"
    using occupied_seq [OF c that] d by (simp add: pos_imp_zdiv_nonneg_iff)
  then show "let (q, S) = div_cell s p0 p1 d (kv_pos c ! i, kv_seq c ! i) in
        (cell_changed i q S c (snd (div_body s p0 p1 d i c)) \<and> cell_ok (q, S) \<or>
         snd (div_body s p0 p1 d i c) = c \<and> (q, S) = (kv_pos c ! i, kv_seq c ! i)) \<and>
        (fst (div_body s p0 p1 d i c) \<longleftrightarrow> kv_pos c ! i \<noteq> -1 \<and> q = -1)"
    using cell_changed_pos_div [OF c, of d] cells_inv_cell(1-3) [OF c] occupied_seq [OF c, of s] d
    by (auto simp: div_cell_def div_body_def cells_pos_in_def cells_seq_has_def cell_ok_def)
qed

section \<open>The invariant of the cache and what the editing functions do\<close>

definition cache_inv :: "kv_cache \<Rightarrow> bool" where
  "cache_inv k \<longleftrightarrow> 0 < kc_n_stream k \<and> length (kc_v_cells k) = kc_n_stream k \<and>
     length (kc_v_heads k) = kc_n_stream k \<and>
     (\<forall>st < kc_n_stream k. cells_inv (kc_cells k st) \<and> cells_size (kc_cells k st) = kv_get_size k \<and>
        kc_v_heads k ! st \<le> kv_get_size k) \<and>
     0 < length (kc_seq_to_stream k) \<and> length (kc_seq_to_stream k) \<le> LLAMA_MAX_SEQ \<and>
     (\<forall>st \<in> set (kc_seq_to_stream k). st < kc_n_stream k)"

lemma cache_invD:
  assumes "cache_inv k"
  shows "length (kc_v_cells k) = kc_n_stream k" "length (kc_v_heads k) = kc_n_stream k"
    "st < kc_n_stream k \<Longrightarrow> cells_inv (kc_cells k st)"
    "st < kc_n_stream k \<Longrightarrow> cells_size (kc_cells k st) = kv_get_size k"
    "st < kc_n_stream k \<Longrightarrow> kc_v_heads k ! st \<le> kv_get_size k"
    "s < length (kc_seq_to_stream k) \<Longrightarrow> kc_seq_to_stream k ! s < kc_n_stream k"
    "s < length (kc_seq_to_stream k) \<Longrightarrow> s < LLAMA_MAX_SEQ"
  using assms nth_mem by (auto simp: cache_inv_def)

lemma cache_inv_valid:
  assumes "cache_inv k" "valid_seq k s"
  shows "stream_of k s < kc_n_stream k" "nat s < LLAMA_MAX_SEQ" "nat s < length (kc_seq_to_stream k)"
  using cache_invD(6,7) [OF assms(1), of "nat s"] assms(2) by (simp_all add: stream_of_def valid_seq_def)

text \<open>Replacing the cells and the head of one stream.\<close>

definition set_stream :: "nat \<Rightarrow> nat \<Rightarrow> kv_cells \<Rightarrow> kv_cache \<Rightarrow> kv_cache" where
  "set_stream st h c k = k\<lparr>kc_v_cells := (kc_v_cells k)[st := c], kc_v_heads := (kc_v_heads k)[st := h]\<rparr>"

lemma set_stream_frame [simp]:
  "kc_seq_to_stream (set_stream st h c k) = kc_seq_to_stream k" "kc_n_stream (set_stream st h c k) = kc_n_stream k"
  "kc_n_seq_max (set_stream st h c k) = kc_n_seq_max k" "kc_n_swa (set_stream st h c k) = kc_n_swa k"
  "kc_swa_type (set_stream st h c k) = kc_swa_type k" "kc_n_pos_per_embd (set_stream st h c k) = kc_n_pos_per_embd k"
  "kc_v_cells (set_stream st h c k) = (kc_v_cells k)[st := c]" "kc_v_heads (set_stream st h c k) = (kc_v_heads k)[st := h]"
  by (simp_all add: set_stream_def)

text \<open>What no editing function and no placement changes: everything but cells and heads.\<close>

definition same_frame :: "kv_cache \<Rightarrow> kv_cache \<Rightarrow> bool" where
  "same_frame k k' \<longleftrightarrow> (\<exists>cs hs. k' = k\<lparr>kc_v_cells := cs, kc_v_heads := hs\<rparr>)"

lemma same_frame_refl [simp]: "same_frame k k"
proof -
  have "k = k\<lparr>kc_v_cells := kc_v_cells k, kc_v_heads := kc_v_heads k\<rparr>" by simp
  then show ?thesis unfolding same_frame_def by blast
qed

lemma same_frame_trans: "same_frame k k' \<Longrightarrow> same_frame k' k'' \<Longrightarrow> same_frame k k''"
  unfolding same_frame_def by (elim exE, simp) blast

lemma same_frame_set_stream [simp]: "same_frame k (set_stream st h c k)"
  unfolding same_frame_def set_stream_def by blast

lemma same_frameD:
  assumes "same_frame k k'"
  shows "kc_seq_to_stream k' = kc_seq_to_stream k" "kc_n_stream k' = kc_n_stream k" "kc_n_seq_max k' = kc_n_seq_max k"
    "kc_n_swa k' = kc_n_swa k" "kc_swa_type k' = kc_swa_type k" "kc_n_pos_per_embd k' = kc_n_pos_per_embd k"
    "kc_arch_step35 k' = kc_arch_step35 k" "kc_sc_info k' = kc_sc_info k"
  using assms by (auto simp: same_frame_def)

lemma set_stream_size:
  assumes "cache_inv k" "st < kc_n_stream k" "cells_size c = kv_get_size k"
  shows "kv_get_size (set_stream st h c k) = kv_get_size k"
  using assms cache_invD(1) [OF assms(1)] by (cases "kc_seq_to_stream k ! 0 = st") (simp_all add: kv_get_size_def)

lemma cache_inv_set_stream:
  assumes "cache_inv k" "st < kc_n_stream k" "cells_inv c" "cells_size c = kv_get_size k" "h \<le> kv_get_size k"
  shows "cache_inv (set_stream st h c k)"
  using assms set_stream_size [OF assms(1,2,4), of h]
  by (auto simp: cache_inv_def nth_list_update)

text \<open>The positions the cache holds of a sequence.\<close>

definition kv_positions :: "kv_cache \<Rightarrow> llama_seq_id \<Rightarrow> llama_pos set" where
  "kv_positions k s = seq_positions (kc_cells k (kc_seq_to_stream k ! s)) s"

lemma seq_positions_view:
  "cells_shape c \<Longrightarrow> seq_positions c s = {p. \<exists>S. (p, S) \<in> set (cells_view c) \<and> s \<in> S}"
  by (auto simp: seq_positions_def in_set_conv_nth cells_view_nth cells_shapeD; metis cells_view_nth)

text \<open>The positions of \<open>s\<close> once every cell has been rewritten by \<open>f\<close>.\<close>

definition seq_image :: "(llama_pos \<times> llama_seq_id set \<Rightarrow> llama_pos \<times> llama_seq_id set) \<Rightarrow> llama_seq_id \<Rightarrow>
    (llama_pos \<times> llama_seq_id set) list \<Rightarrow> llama_pos set" where
  "seq_image f s v = {q. \<exists>p S. (p, S) \<in> set v \<and> s \<in> snd (f (p, S)) \<and> q = fst (f (p, S))}"

lemma seq_positions_map:
  assumes "cells_inv c" "cells_inv c'" "cells_view c' = map f (cells_view c)"
  shows "seq_positions c' s = seq_image f s (cells_view c)"
proof (rule set_eqI)
  fix q
  have "q \<in> seq_positions c' s \<longleftrightarrow> (\<exists>S. (q, S) \<in> f ` set (cells_view c) \<and> s \<in> S)"
    using assms(2,3) by (simp add: seq_positions_view cells_inv_shape)
  also have "\<dots> \<longleftrightarrow> (\<exists>x \<in> set (cells_view c). s \<in> snd (f x) \<and> q = fst (f x))"
    by (auto simp: image_iff; metis fst_conv snd_conv prod.collapse)
  also have "\<dots> \<longleftrightarrow> q \<in> seq_image f s (cells_view c)"
    by (auto simp: seq_image_def)
  finally show "q \<in> seq_positions c' s \<longleftrightarrow> q \<in> seq_image f s (cells_view c)" .
qed

lemma kv_positions_set_stream:
  assumes "cache_inv k" "s < length (kc_seq_to_stream k)"
  shows "kv_positions (set_stream st h c k) s =
    (if kc_seq_to_stream k ! s = st then seq_positions c s else kv_positions k s)"
  using cache_invD(1,6) [OF assms(1)] assms(2) by (auto simp: kv_positions_def)

lemma view_pos_seq: "cells_inv c \<Longrightarrow> (p, S) \<in> set (cells_view c) \<Longrightarrow> s \<in> S \<Longrightarrow> 0 \<le> p \<and> p \<noteq> -1"
  unfolding cells_inv_def cell_ok_def by fastforce

lemma kv_seq_pos_bounds:
  assumes "cache_inv k" "valid_seq k s"
  shows "kv_seq_pos_min k s = Inr (if kv_positions k (nat s) = {} then -1 else Min (kv_positions k (nat s)))"
    and "kv_seq_pos_max k s = Inr (if kv_positions k (nat s) = {} then -1 else Max (kv_positions k (nat s)))"
proof -
  have "cells_inv (kc_cells k (stream_of k s))" using assms by (intro cache_invD cache_inv_valid)
  note b = seq_pos_bounds [OF this cache_inv_valid(2) [OF assms]]
  show "kv_seq_pos_min k s = Inr (if kv_positions k (nat s) = {} then -1 else Min (kv_positions k (nat s)))"
    "kv_seq_pos_max k s = Inr (if kv_positions k (nat s) = {} then -1 else Max (kv_positions k (nat s)))"
    using assms(2) b by (simp_all add: kv_seq_pos_min_def kv_seq_pos_max_def kv_positions_def stream_of_def)
qed

text \<open>Sweeping one stream and lowering its head.\<close>

context cell_sweep
begin

lemma sweep_lower_set:
  "\<exists>h. sweep_lower body st k = set_stream st h (snd (sweep body (kc_cells k st))) k \<and>
     (h = kc_v_heads k ! st \<or> h < kc_v_heads k ! st)"
proof -
  let ?r = "sweep body (kc_cells k st)" and ?h = "kc_v_heads k ! st"
  show ?thesis
    by (rule exI [of _ "if fst ?r \<noteq> cells_size (snd ?r) \<and> fst ?r < ?h then fst ?r else ?h"])
      (simp add: sweep_lower_def set_stream_def Let_def split: prod.split)
qed

lemma sweep_lower_inv:
  assumes "cache_inv k" "st < kc_n_stream k" "\<forall>x \<in> set (cells_view (kc_cells k st)). pre x"
  shows "cache_inv (sweep_lower body st k)"
proof -
  note c = cache_invD(3,4,5) [OF assms(1,2)]
  obtain h where h: "sweep_lower body st k = set_stream st h (snd (sweep body (kc_cells k st))) k" "h \<le> kc_v_heads k ! st"
    using sweep_lower_set [of st k] by auto
  show ?thesis unfolding h(1)
    by (rule cache_inv_set_stream [OF assms(1,2)])
      (use sweep_correct [OF c(1) assms(3)] sweep_size [OF c(1) assms(3)] c(2,3) h(2) in auto)
qed

lemma sweep_positions:
  assumes "cells_inv c" "\<forall>x \<in> set (cells_view c). pre x"
  shows "seq_positions (snd (sweep body c)) s = seq_image f s (cells_view c)"
  using seq_positions_map [OF assms(1) sweep_correct(1,2) [OF assms]] .

lemma sweep_lower_positions:
  assumes "cache_inv k" "st < kc_n_stream k" "\<forall>x \<in> set (cells_view (kc_cells k st)). pre x"
    and "s < length (kc_seq_to_stream k)"
  shows "kv_positions (sweep_lower body st k) s = (if kc_seq_to_stream k ! s = st
    then seq_image f s (cells_view (kc_cells k st)) else kv_positions k s)"
proof -
  obtain h where h: "sweep_lower body st k = set_stream st h (snd (sweep body (kc_cells k st))) k"
    using sweep_lower_set [of st k] by auto
  show ?thesis
    using sweep_positions [OF cache_invD(3) [OF assms(1,2)] assms(3)]
    by (simp add: h kv_positions_set_stream [OF assms(1,4)])
qed

end

lemma seq_image_eq:
  assumes "cells_inv c"
    and "\<And>p S. (p, S) \<in> set (cells_view c) \<Longrightarrow> t \<in> snd (f (p, S)) \<longleftrightarrow> t \<in> S \<and> P p"
    and "\<And>p S. (p, S) \<in> set (cells_view c) \<Longrightarrow> t \<in> S \<Longrightarrow> P p \<Longrightarrow> fst (f (p, S)) = g p"
  shows "seq_image f t (cells_view c) = g ` {p \<in> seq_positions c t. P p}"
proof -
  have "seq_image f t (cells_view c) = {q. \<exists>p S. (p, S) \<in> set (cells_view c) \<and> t \<in> S \<and> P p \<and> q = g p}"
    unfolding seq_image_def using assms(2,3) by metis
  also have "\<dots> = g ` {p \<in> seq_positions c t. P p}"
    using assms(1) by (auto simp: seq_positions_view cells_inv_shape)
  finally show ?thesis .
qed

lemma seq_image_id:
  assumes "cells_inv c"
    and "\<And>p S. (p, S) \<in> set (cells_view c) \<Longrightarrow> t \<in> snd (f (p, S)) \<longleftrightarrow> t \<in> S"
    and "\<And>p S. (p, S) \<in> set (cells_view c) \<Longrightarrow> t \<in> S \<Longrightarrow> fst (f (p, S)) = p"
  shows "seq_image f t (cells_view c) = seq_positions c t"
  using seq_image_eq [of c t f "\<lambda>_. True" "\<lambda>p. p"] assms by simp

lemma rm_image:
  assumes "cells_inv c"
  shows "seq_image (rm_cell s p0 p1) t (cells_view c) = (if t = s then seq_positions c s - {p0..<p1} else seq_positions c t)"
proof (cases "t = s")
  case True
  show ?thesis
    by (subst seq_image_eq [OF assms, where P = "\<lambda>p. \<not> (p0 \<le> p \<and> p < p1)" and g = "\<lambda>p. p"])
      (auto simp: rm_cell_def True)
next
  case False
  show ?thesis by (subst seq_image_id [OF assms]) (use False in \<open>auto simp: rm_cell_def\<close>)
qed

lemma rm_any_image:
  assumes "cells_inv c"
  shows "seq_image (rm_any_cell p0 p1) t (cells_view c) = seq_positions c t - {p0..<p1}"
  by (subst seq_image_eq [OF assms, where P = "\<lambda>p. \<not> (p0 \<le> p \<and> p < p1)" and g = "\<lambda>p. p"])
    (auto simp: rm_any_cell_def)

lemma cp_image:
  assumes "cells_inv c" "src \<noteq> dst"
  shows "seq_image (cp_cell src dst p0 p1) t (cells_view c) =
    (if t = dst then seq_positions c dst \<union> seq_positions c src \<inter> {p0..<p1} else seq_positions c t)"
proof (cases "t = dst")
  case True
  have "q \<in> seq_image (cp_cell src dst p0 p1) dst (cells_view c) \<longleftrightarrow>
      (\<exists>S. (q, S) \<in> set (cells_view c) \<and> (dst \<in> S \<or> p0 \<le> q \<and> q < p1 \<and> src \<in> S))" for q
    by (auto simp: seq_image_def cp_cell_def split: if_splits)
  then show ?thesis using assms(1) by (auto simp: True seq_positions_view cells_inv_shape)
next
  case False
  show ?thesis by (subst seq_image_id [OF assms(1)]) (use False in \<open>auto simp: cp_cell_def\<close>)
qed

lemma keep_image:
  assumes "cells_inv c"
  shows "seq_image (keep_cell s) t (cells_view c) = (if t = s then seq_positions c s else {})"
proof (cases "t = s")
  case True
  show ?thesis by (subst seq_image_id [OF assms]) (auto simp: keep_cell_def True)
next
  case False
  then show ?thesis by (auto simp: seq_image_def keep_cell_def)
qed

text \<open>A cell that two sequences share moves for both.\<close>

definition exclusive :: "kv_cells \<Rightarrow> llama_seq_id \<Rightarrow> llama_seq_id \<Rightarrow> bool" where
  "exclusive c s t \<longleftrightarrow> (\<forall>(p, S) \<in> set (cells_view c). \<not> (s \<in> S \<and> t \<in> S))"

lemma add_image:
  assumes "cells_inv c"
  shows "seq_image (add_cell s p0 p1 d) s (cells_view c) =
      (seq_positions c s - {p0..<p1}) \<union> {p + d | p. p \<in> seq_positions c s \<inter> {p0..<p1} \<and> 0 \<le> p + d}"
    and "exclusive c s t \<Longrightarrow> seq_image (add_cell s p0 p1 d) t (cells_view c) = seq_positions c t"
proof -
  have "seq_image (add_cell s p0 p1 d) s (cells_view c) =
      (\<lambda>p. if p0 \<le> p \<and> p < p1 then p + d else p) ` {p \<in> seq_positions c s. p0 \<le> p \<and> p < p1 \<longrightarrow> 0 \<le> p + d}"
    by (rule seq_image_eq [OF assms]) (auto simp: add_cell_def)
  then show "seq_image (add_cell s p0 p1 d) s (cells_view c) =
      (seq_positions c s - {p0..<p1}) \<union> {p + d | p. p \<in> seq_positions c s \<inter> {p0..<p1} \<and> 0 \<le> p + d}"
    by auto
  assume "exclusive c s t"
  then show "seq_image (add_cell s p0 p1 d) t (cells_view c) = seq_positions c t"
    by (intro seq_image_id [OF assms]) (auto simp: add_cell_def exclusive_def)
qed

lemma div_image:
  assumes "cells_inv c"
  shows "seq_image (div_cell s p0 p1 d) s (cells_view c) =
      (seq_positions c s - {p0..<p1}) \<union> (\<lambda>p. p div d) ` (seq_positions c s \<inter> {p0..<p1})"
    and "exclusive c s t \<Longrightarrow> seq_image (div_cell s p0 p1 d) t (cells_view c) = seq_positions c t"
proof -
  have "seq_image (div_cell s p0 p1 d) s (cells_view c) =
      (\<lambda>p. if p0 \<le> p \<and> p < p1 then p div d else p) ` {p \<in> seq_positions c s. True}"
    by (rule seq_image_eq [OF assms]) (auto simp: div_cell_def)
  then show "seq_image (div_cell s p0 p1 d) s (cells_view c) =
      (seq_positions c s - {p0..<p1}) \<union> (\<lambda>p. p div d) ` (seq_positions c s \<inter> {p0..<p1})"
    by auto
  assume "exclusive c s t"
  then show "seq_image (div_cell s p0 p1 d) t (cells_view c) = seq_positions c t"
    by (intro seq_image_id [OF assms]) (auto simp: div_cell_def exclusive_def)
qed

text \<open>Removing a range from every sequence, stream by stream.\<close>

lemma rm_any_streams:
  fixes p1 :: llama_pos
  assumes "cache_inv k" "0 \<le> p0" "n \<le> kc_n_stream k"
  defines "r \<equiv> fold (sweep_lower (rm_any_body p0 p1)) [0..<n] k"
  shows "cache_inv r \<and> kc_seq_to_stream r = kc_seq_to_stream k \<and> kc_n_stream r = kc_n_stream k \<and>
    (\<forall>s < length (kc_seq_to_stream k). kv_positions r s =
      (if kc_seq_to_stream k ! s < n then kv_positions k s - {p0..<p1} else kv_positions k s))"
  using assms(3) unfolding r_def
proof (induction n)
  case 0
  then show ?case using assms(1) by simp
next
  case (Suc n)
  let ?r = "fold (sweep_lower (rm_any_body p0 p1)) [0..<n] k"
  have IH: "cache_inv ?r" "kc_seq_to_stream ?r = kc_seq_to_stream k" "kc_n_stream ?r = kc_n_stream k"
    "\<And>s. s < length (kc_seq_to_stream k) \<Longrightarrow> kv_positions ?r s =
      (if kc_seq_to_stream k ! s < n then kv_positions k s - {p0..<p1} else kv_positions k s)"
    using Suc by simp_all
  have n: "n < kc_n_stream ?r" using Suc.prems IH(3) by simp
  have fr: "kc_seq_to_stream (sweep_lower (rm_any_body p0 p1) n ?r) = kc_seq_to_stream k"
    "kc_n_stream (sweep_lower (rm_any_body p0 p1) n ?r) = kc_n_stream k"
    using rm_any.sweep_lower_set [of p0 p1 n ?r] IH(2,3) by auto
  have "kv_positions (sweep_lower (rm_any_body p0 p1) n ?r) s =
      (if kc_seq_to_stream k ! s < Suc n then kv_positions k s - {p0..<p1} else kv_positions k s)"
    if s: "s < length (kc_seq_to_stream k)" for s
  proof -
    have "kv_positions (sweep_lower (rm_any_body p0 p1) n ?r) s =
        (if kc_seq_to_stream k ! s = n then kv_positions ?r s - {p0..<p1} else kv_positions ?r s)"
      using rm_any.sweep_lower_positions [OF IH(1) n, of p0 s p1] assms(2) s
      by (simp add: IH(2) rm_any_image [OF cache_invD(3) [OF IH(1) n]] kv_positions_def)
    then show ?thesis by (simp add: IH(4) [OF s] less_Suc_eq)
  qed
  then show ?case using rm_any.sweep_lower_inv [OF IH(1) n, of p0 p1] assms(2) fr by simp
qed

section \<open>Properties of the editing functions\<close>

lemma seq_rm_spec:
  assumes "cache_inv k" "valid_seq k s"
  shows "\<exists>k'. kv_seq_rm s p0 p1 k = Inr (True, k') \<and> cache_inv k' \<and> same_frame k k' \<and>
    kv_positions k' (nat s) = kv_positions k (nat s) - {lo_bound p0..<hi_bound p1} \<and>
    (\<forall>t < length (kc_seq_to_stream k). t \<noteq> nat s \<longrightarrow> kv_positions k' t = kv_positions k t)"
proof -
  let ?b = "rm_body (nat s) (lo_bound p0) (hi_bound p1)" and ?st = "stream_of k s"
  note v = cache_inv_valid [OF assms]
  have "kv_seq_rm s p0 p1 k = Inr (True, sweep_lower ?b ?st k)"
    using assms(2) by (simp add: kv_seq_rm_def valid_seq_def)
  moreover have "cache_inv (sweep_lower ?b ?st k)" using assms(1) v(1) by (rule rm.sweep_lower_inv) simp
  moreover have "kv_positions (sweep_lower ?b ?st k) t =
      (if t = nat s then kv_positions k (nat s) - {lo_bound p0..<hi_bound p1} else kv_positions k t)"
    if "t < length (kc_seq_to_stream k)" for t
    by (subst rm.sweep_lower_positions [OF assms(1) v(1) _ that])
      (simp_all add: rm_image [OF cache_invD(3) [OF assms(1) v(1)], unfolded stream_of_def] kv_positions_def stream_of_def)
  moreover have "same_frame k (sweep_lower ?b ?st k)" 
    using rm.sweep_lower_set [of "nat s" "lo_bound p0" "hi_bound p1" ?st k] by auto
  ultimately show ?thesis using v(3) by (intro exI [of _ "sweep_lower ?b ?st k"]) simp
qed

text \<open>
  C17. \<open>seq_rm\<close> on a sequence of the cache succeeds, keeps the invariant of the cache, removes
  exactly the positions in \<open>[p0, p1)\<close> of that sequence (a negative bound stands for the
  beginning or the end) and leaves the positions of every other sequence alone, even where
  the two share cells.
\<close>

theorem seq_rm_removes_range:
  assumes "cache_inv k" "valid_seq k s"
  shows "\<exists>k'. kv_seq_rm s p0 p1 k = Inr (True, k') \<and> cache_inv k' \<and>
    kv_positions k' (nat s) = kv_positions k (nat s) - {lo_bound p0..<hi_bound p1} \<and>
    (\<forall>t < length (kc_seq_to_stream k). t \<noteq> nat s \<longrightarrow> kv_positions k' t = kv_positions k t)"
  using seq_rm_spec [OF assms] by blast

text \<open>
  \<open>seq_rm\<close> with sequence -1 removes the positions in \<open>[p0, p1)\<close> of every sequence, in
  every stream.
\<close>

theorem seq_rm_any_removes_range:
  assumes "cache_inv k"
  shows "\<exists>k'. kv_seq_rm (-1) p0 p1 k = Inr (True, k') \<and> cache_inv k' \<and>
    (\<forall>t < length (kc_seq_to_stream k). kv_positions k' t = kv_positions k t - {lo_bound p0..<hi_bound p1})"
proof -
  let ?k = "fold (sweep_lower (rm_any_body (lo_bound p0) (hi_bound p1))) [0..<kc_n_stream k] k"
  have "0 \<le> lo_bound p0" by (simp add: lo_bound_def)
  note r = rm_any_streams [OF assms this order.refl, of "hi_bound p1"]
  have "kv_seq_rm (-1) p0 p1 k = Inr (True, ?k)" by (simp add: kv_seq_rm_def Let_def)
  then show ?thesis using r cache_invD(6) [OF assms] by auto
qed

text \<open>
  \<open>seq_keep\<close> leaves, in the stream of the sequence, only that sequence, with all its
  positions; the sequences of other streams are not touched.
\<close>

theorem seq_keep_keeps_one:
  assumes "cache_inv k" "valid_seq k s"
  shows "\<exists>k'. kv_seq_keep s k = Inr k' \<and> cache_inv k' \<and> kv_positions k' (nat s) = kv_positions k (nat s) \<and>
    (\<forall>t < length (kc_seq_to_stream k). t \<noteq> nat s \<longrightarrow>
      kv_positions k' t = (if kc_seq_to_stream k ! t = stream_of k s then {} else kv_positions k t))"
proof -
  let ?b = "\<lambda>i. cells_seq_keep i (nat s)" and ?st = "stream_of k s"
  note v = cache_inv_valid [OF assms]
  have "kv_seq_keep s k = Inr (sweep_lower ?b ?st k)" using assms(2) by (simp add: kv_seq_keep_def)
  moreover have "cache_inv (sweep_lower ?b ?st k)" using assms(1) v(1) by (rule keep.sweep_lower_inv) simp
  moreover have "kv_positions (sweep_lower ?b ?st k) t = (if kc_seq_to_stream k ! t = ?st
      then (if t = nat s then kv_positions k t else {}) else kv_positions k t)"
    if "t < length (kc_seq_to_stream k)" for t
    by (subst keep.sweep_lower_positions [OF assms(1) v(1) _ that])
      (simp_all add: keep_image [OF cache_invD(3) [OF assms(1) v(1)], unfolded stream_of_def] kv_positions_def stream_of_def)
  ultimately show ?thesis using v(3) by (auto simp: stream_of_def)
qed

text \<open>
  C16. \<open>seq_cp\<close> within a stream adds to the destination exactly the source's positions in
  \<open>[p0, p1)\<close> and changes no other sequence. The code relies on the destination holding none
  of the cells it adds it to, which \<open>assert\<close> checks in debug builds only; it is given here
  as the destination being empty.
\<close>

theorem seq_cp_copies_range:
  assumes "cache_inv k" "valid_seq k src" "valid_seq k dst" "src \<noteq> dst" "stream_of k src = stream_of k dst"
    and "kv_positions k (nat dst) = {}"
  shows "\<exists>k'. kv_seq_cp src dst p0 p1 k = Inr k' \<and> cache_inv k' \<and>
    kv_positions k' (nat dst) = kv_positions k (nat src) \<inter> {lo_bound p0..<hi_bound p1} \<and>
    (\<forall>t < length (kc_seq_to_stream k). t \<noteq> nat dst \<longrightarrow> kv_positions k' t = kv_positions k t)"
proof -
  let ?b = "cp_body (nat src) (nat dst) (lo_bound p0) (hi_bound p1)" and ?st = "stream_of k src"
  let ?c = "kc_cells k ?st"
  let ?k = "set_stream ?st (kc_v_heads k ! ?st) (snd (sweep ?b ?c)) k"
  note v = cache_inv_valid [OF assms(1,2)] and d = cache_inv_valid [OF assms(1,3)]
  note c = cache_invD(3,4,5) [OF assms(1) v(1)]
  have ne: "nat src \<noteq> nat dst" using assms(2-4) by (auto simp: valid_seq_def)
  have st: "kc_seq_to_stream k ! nat dst = ?st" "kc_seq_to_stream k ! nat src = ?st"
    using assms(5) by (simp_all add: stream_of_def)
  have pre: "\<forall>x \<in> set (cells_view ?c). nat dst < LLAMA_MAX_SEQ \<and> nat dst \<notin> snd x"
    using assms(6) d(2) seq_positions_view [OF cells_inv_shape [OF c(1)], of "nat dst"]
    by (auto simp: kv_positions_def st)
  have "kv_seq_cp src dst p0 p1 k = Inr ?k"
    using assms(2-5) by (simp add: kv_seq_cp_def set_stream_def Let_def)
  moreover have "cache_inv ?k"
    by (rule cache_inv_set_stream [OF assms(1) v(1)])
      (use cp.sweep_correct(1) [OF c(1) pre] cp.sweep_size(1) [OF c(1) pre] c(2,3) in auto)
  moreover have "kv_positions ?k t = (if t = nat dst then kv_positions k (nat src) \<inter> {lo_bound p0..<hi_bound p1}
      else kv_positions k t)" if "t < length (kc_seq_to_stream k)" for t
    using cp.sweep_positions [OF c(1) pre] cp_image [OF c(1) ne] assms(6) kv_positions_set_stream [OF assms(1) that]
    by (simp add: kv_positions_def st)
  ultimately show ?thesis using d(3) by (intro exI [of _ ?k]) simp
qed

lemma seq_add_spec:
  assumes "cache_inv k" "valid_seq k s" "kc_n_pos_per_embd k = 1"
  shows "\<exists>k'. kv_seq_add s p0 p1 d k = Inr k' \<and> cache_inv k' \<and> same_frame k k' \<and>
    kv_positions k' (nat s) = (kv_positions k (nat s) - {lo_bound p0..<hi_bound p1}) \<union>
      {p + d | p. p \<in> kv_positions k (nat s) \<inter> {lo_bound p0..<hi_bound p1} \<and> 0 \<le> p + d} \<and>
    (\<forall>t < length (kc_seq_to_stream k). t \<noteq> nat s \<longrightarrow> exclusive (kc_cells k (stream_of k s)) (nat s) t \<longrightarrow>
      kv_positions k' t = kv_positions k t)"
proof -
  let ?lo = "lo_bound p0" and ?hi = "hi_bound p1" and ?st = "stream_of k s"
  let ?b = "add_body (nat s) ?lo ?hi d" and ?c = "kc_cells k ?st"
  note v = cache_inv_valid [OF assms(1,2)] and c = cache_invD(3,4,5) [OF assms(1) cache_inv_valid(1) [OF assms(1,2)]]
  have st: "kc_seq_to_stream k ! nat s = ?st" by (simp add: stream_of_def)
  have nn: "p \<in> kv_positions k (nat s) \<Longrightarrow> 0 \<le> p" for p
    using view_pos_seq [OF c(1)] seq_positions_view [OF cells_inv_shape [OF c(1)]] by (auto simp: kv_positions_def st)
  show ?thesis
  proof (cases "d = 0 \<or> ?lo = ?hi")
    case True
    then have "kv_seq_add s p0 p1 d k = Inr k" using assms(2,3) by (auto simp: kv_seq_add_def Let_def)
    moreover have "kv_positions k (nat s) = (kv_positions k (nat s) - {?lo..<?hi}) \<union>
        {p + d | p. p \<in> kv_positions k (nat s) \<inter> {?lo..<?hi} \<and> 0 \<le> p + d}"
      using True nn by auto
    ultimately show ?thesis using assms(1) same_frame_refl by blast
  next
    case False
    define h where "h = (if fst (sweep ?b ?c) \<noteq> cells_size (snd (sweep ?b ?c)) then fst (sweep ?b ?c) else 0)"
    let ?k = "set_stream ?st h (snd (sweep ?b ?c)) k"
    have k: "kv_seq_add s p0 p1 d k = Inr ?k"
      using False assms(2,3) by (simp add: kv_seq_add_def Let_def set_stream_def h_def split: prod.split)
    have h: "h \<le> kv_get_size k" using add.sweep_size(2) [OF c(1)] c(2) by (simp add: h_def)
    have inv: "cache_inv ?k"
      by (rule cache_inv_set_stream [OF assms(1) v(1)])
        (use add.sweep_correct(1) [OF c(1)] add.sweep_size(1) [OF c(1)] c(2) h in auto)
    have pos: "kv_positions ?k t = (if kc_seq_to_stream k ! t = ?st
        then seq_image (add_cell (nat s) ?lo ?hi d) t (cells_view ?c) else kv_positions k t)"
      if "t < length (kc_seq_to_stream k)" for t
      using add.sweep_positions [OF c(1)] kv_positions_set_stream [OF assms(1) that] by simp
    have same: "kv_positions k t = seq_positions ?c t" if "kc_seq_to_stream k ! t = ?st" for t
      using that by (simp add: kv_positions_def)
    have "kv_positions ?k (nat s) = (kv_positions k (nat s) - {?lo..<?hi}) \<union>
        {p + d | p. p \<in> kv_positions k (nat s) \<inter> {?lo..<?hi} \<and> 0 \<le> p + d}"
      unfolding pos [OF v(3)] same [OF st] by (simp only: st if_True refl add_image(1) [OF c(1)])
    moreover have "kv_positions ?k t = kv_positions k t"
      if "t < length (kc_seq_to_stream k)" "exclusive ?c (nat s) t" for t
      unfolding pos [OF that(1)] using add_image(2) [OF c(1) that(2)] same [of t] by simp
    ultimately show ?thesis using k inv same_frame_set_stream by blast
  qed
qed

text \<open>The arithmetic of \<open>pos_add\<close> stays in 32 bits: in every cell that the call shifts, both the position and the pending shift do.\<close>

definition in_int32 :: "int \<Rightarrow> bool" where
  "in_int32 x \<longleftrightarrow> - (2 ^ 31) \<le> x \<and> x < 2 ^ 31"

definition shift_fits :: "kv_cache \<Rightarrow> int \<Rightarrow> llama_pos \<Rightarrow> llama_pos \<Rightarrow> llama_pos \<Rightarrow> bool" where
  "shift_fits k s p0 p1 d \<longleftrightarrow> (let c = kc_cells k (stream_of k s) in
     list_all (\<lambda>i. cells_pos_in c i (lo_bound p0) (hi_bound p1) \<and> cells_seq_has c i (nat s) \<longrightarrow>
       in_int32 (kv_pos c ! i + d) \<and> in_int32 (kv_shift c ! i + d)) [0..<cells_size c])"

text \<open>
  C15. \<open>seq_add\<close> on a model with one position per token (the code asserts this) moves exactly the positions of the
  sequence in \<open>[p0, p1)\<close> by the shift, drops those that would become negative, and leaves the
  sequences that share no cell with it alone, as long as no shifted position and no pending shift leaves
  the range of \<open>int32_t\<close>; the new positions are in this range, too.
\<close>

theorem seq_add_shifts_range:
  assumes "cache_inv k" "valid_seq k s" "kc_n_pos_per_embd k = 1"
    and "shift_fits k s p0 p1 d" "\<forall>p \<in> kv_positions k (nat s). in_int32 p"
  shows "\<exists>k'. kv_seq_add s p0 p1 d k = Inr k' \<and> cache_inv k' \<and>
    kv_positions k' (nat s) = (kv_positions k (nat s) - {lo_bound p0..<hi_bound p1}) \<union>
      {p + d | p. p \<in> kv_positions k (nat s) \<inter> {lo_bound p0..<hi_bound p1} \<and> 0 \<le> p + d} \<and>
    (\<forall>p \<in> kv_positions k' (nat s). in_int32 p) \<and>
    (\<forall>t < length (kc_seq_to_stream k). t \<noteq> nat s \<longrightarrow> exclusive (kc_cells k (stream_of k s)) (nat s) t \<longrightarrow>
      kv_positions k' t = kv_positions k t)"
proof -
  have "in_int32 (p + d)" if "p \<in> kv_positions k (nat s) \<inter> {lo_bound p0..<hi_bound p1}" for p
    using that assms(4)
    by (auto simp: shift_fits_def Let_def list_all_iff kv_positions_def seq_positions_def stream_of_def cells_pos_in_def cells_seq_has_def)
  then show ?thesis using seq_add_spec [OF assms(1-3), of p0 p1 d] assms(5) by fastforce
qed

text \<open>\<open>clear\<close> empties every stream.\<close>

lemma kv_clear_spec:
  assumes "cache_inv k"
  shows "cache_inv (kv_clear k)" "same_frame k (kv_clear k)"
    "s < length (kc_seq_to_stream k) \<Longrightarrow> kv_positions (kv_clear k) s = {}"
proof -
  let ?f = "\<lambda>s k. set_stream s 0 (cells_reset (kc_cells k s)) k"
  have empty: "seq_positions (cells_reset c) t = {}" "cells_inv (cells_reset c)" if "cells_inv c" for c t
    using cells_inv_reset [OF cells_inv_shape [OF that]] cells_shapeD [OF cells_inv_shape [OF that]]
    by (auto simp: seq_positions_def cells_reset_def cells_size_def)
  have step: "n \<le> kc_n_stream k \<Longrightarrow> cache_inv (fold ?f [0..<n] k) \<and> same_frame k (fold ?f [0..<n] k) \<and>
      (\<forall>s < length (kc_seq_to_stream k). kc_seq_to_stream k ! s < n \<longrightarrow> kv_positions (fold ?f [0..<n] k) s = {})" for n
  proof (induction n)
    case 0
    then show ?case using assms by simp
  next
    case (Suc n)
    let ?k = "fold ?f [0..<n] k"
    have IH: "cache_inv ?k" "same_frame k ?k" using Suc by simp_all
    note f = same_frameD [OF IH(2)]
    have n: "n < kc_n_stream ?k" using Suc.prems f(2) by simp
    note c = cache_invD(3,4) [OF IH(1) n]
    have "cells_size (cells_reset (kc_cells ?k n)) = kv_get_size ?k"
      using c(2) by (simp add: cells_reset_def cells_size_def)
    then have "cache_inv (?f n ?k)" by (intro cache_inv_set_stream IH(1) n empty c(1)) simp_all
    moreover have "same_frame k (?f n ?k)" by (rule same_frame_trans [OF IH(2) same_frame_set_stream])
    moreover have "kv_positions (?f n ?k) s = {}"
      if "s < length (kc_seq_to_stream k)" "kc_seq_to_stream k ! s < Suc n" for s
      using Suc kv_positions_set_stream [OF IH(1), of s] that empty(1) [OF c(1)] f(1) by (auto simp: less_Suc_eq)
    ultimately show ?case by simp
  qed
  have eq: "kv_clear k = fold ?f [0..<kc_n_stream k] k" by (simp add: kv_clear_def set_stream_def)
  show "cache_inv (kv_clear k)" "same_frame k (kv_clear k)" using step [OF order.refl] eq by simp_all
  show "s < length (kc_seq_to_stream k) \<Longrightarrow> kv_positions (kv_clear k) s = {}"
    using step [OF order.refl] eq cache_invD(6) [OF assms] by simp
qed

section \<open>A new cache\<close>

lemma fold_update_upt: "n \<le> length xs \<Longrightarrow> fold (\<lambda>s m. m[s := s]) [0..<n] xs = [0..<n] @ drop n xs"
proof (induction n)
  case (Suc n)
  then have "n < length xs" by simp
  then show ?case using Suc by (simp add: list_update_append Cons_nth_drop_Suc [symmetric])
qed simp

lemma cache_inv_new:
  assumes "kv_cache_new unified kv_size n_seq_max n_pad n_swa t npe step35 = Inr k"
    and "0 < n_seq_max" "n_seq_max \<le> LLAMA_MAX_SEQ"
  shows "cache_inv k" "s < length (kc_seq_to_stream k) \<Longrightarrow> kv_positions k s = {}" "kv_get_size k = kv_size"
    "length (kc_seq_to_stream k) = (if unified \<or> n_seq_max = 1 then LLAMA_MAX_SEQ else n_seq_max)"
proof -
  define n where "n = (if unified then 1 else n_seq_max)"
  have n: "0 < n" "n \<le> LLAMA_MAX_SEQ" using assms(2,3) by (auto simp: n_def LLAMA_MAX_SEQ_def)
  have k: "kc_n_stream k = n" "kc_v_heads k = replicate n 0"
    "kc_v_cells k = replicate n (cells_resize kv_size cells_new)"
    "kc_seq_to_stream k = (if n > 1 then [0..<n] else replicate LLAMA_MAX_SEQ 0)"
    using assms(1) n by (auto simp: kv_cache_new_def n_def [symmetric] Let_def fold_update_upt split: if_splits)
  show size: "kv_get_size k = kv_size" using n by (simp add: kv_get_size_def k)
  show "cache_inv k" using n size by (auto simp: cache_inv_def k cells_inv_resize split: if_splits)
  show "length (kc_seq_to_stream k) = (if unified \<or> n_seq_max = 1 then LLAMA_MAX_SEQ else n_seq_max)"
    using n by (auto simp: k n_def)
  show "kv_positions k s = {}" if "s < length (kc_seq_to_stream k)"
  proof -
    have "seq_positions (cells_resize kv_size cells_new) t = {}" for t
      by (auto simp: seq_positions_def cells_resize_def cells_reset_def cells_new_def cells_size_def)
    moreover have "kc_cells k (kc_seq_to_stream k ! s) = cells_resize kv_size cells_new"
      using that n by (auto simp: k split: if_splits)
    ultimately show ?thesis by (simp add: kv_positions_def)
  qed
qed

end
