(* ===== verification/Kv_Slots.thy ===== *)
theory Kv_Slots
  imports Kv_Cache
begin

text \<open>
  What the slot search and the placement of micro-batches achieve: the search is exact and
  always ends, \<open>prepare\<close> leaves the cache untouched, and a batch the allocator accepted
  ends up in the cells with exactly its positions. The end-to-end part is about a cache
  with one stream and no sliding window, which is how the application creates it.
\<close>

section \<open>Finding cells\<close>

text \<open>The cells a search that starts at \<open>h\<close> may use, in the order it visits them.\<close>

definition usable_from :: "kv_cache \<Rightarrow> kv_cells \<Rightarrow> nat \<Rightarrow> nat list" where
  "usable_from k c h = filter (can_use_cell k c) ([h..<cells_size c] @ [0..<h])"

definition first_n :: "nat \<Rightarrow> 'a list \<Rightarrow> 'a list option" where
  "first_n n xs = (if n \<le> length xs then Some (take n xs) else None)"

definition note_cell :: "kv_cache \<Rightarrow> kv_cells \<Rightarrow> nat \<Rightarrow> nat list \<Rightarrow> nat list" where
  "note_cell k c head idxs = (if can_use_cell k c head then idxs @ [head] else idxs)"

lemma find_loop_step:
  assumes "head < cells_size c"
  shows "find_loop (Suc fuel) k c False n head n_tested idxs =
    (if length (note_cell k c head idxs) = n then Inr (Some (note_cell k c head idxs))
     else if cells_size c \<le> Suc n_tested then Inr None
     else find_loop fuel k c False n (Suc head) (Suc n_tested) (note_cell k c head idxs))"
  using assms by (simp add: note_cell_def)

lemma note_cell_filter:
  "head < m \<Longrightarrow> idxs @ filter (can_use_cell k c) ([head..<m] @ ys) =
     note_cell k c head idxs @ filter (can_use_cell k c) ([Suc head..<m] @ ys)"
  by (simp add: note_cell_def upt_conv_Cons)

lemma length_note_cell: "length idxs < n \<Longrightarrow> length (note_cell k c head idxs) \<noteq> n \<Longrightarrow> length (note_cell k c head idxs) < n"
  by (auto simp: note_cell_def split: if_splits)

lemma first_n_append: "length xs = n \<Longrightarrow> first_n n (xs @ ys) = Some xs"
  by (simp add: first_n_def)

text \<open>The search after the wrap-around: only the cells up to the starting point \<open>h\<close> are left.\<close>

lemma find_loop_wrapped:
  assumes "head < h" "h \<le> cells_size c" "n_tested = cells_size c - h + head" "length idxs < n" "h - head < fuel"
  shows "find_loop fuel k c False n head n_tested idxs = Inr (first_n n (idxs @ filter (can_use_cell k c) [head..<h]))"
  using assms
proof (induction fuel arbitrary: head n_tested idxs)
  case (Suc fuel)
  let ?u = "note_cell k c head idxs"
  note rest = note_cell_filter [of head h idxs k c "[]", simplified]
  have step: "find_loop (Suc fuel) k c False n head n_tested idxs =
      (if length ?u = n then Inr (Some ?u) else if cells_size c \<le> Suc n_tested then Inr None
       else find_loop fuel k c False n (Suc head) (Suc n_tested) ?u)"
    using Suc.prems(1,2) by (intro find_loop_step) simp
  consider "length ?u = n" | "length ?u < n" "Suc head = h" | "length ?u < n" "Suc head < h"
    using length_note_cell [OF Suc.prems(4)] Suc.prems(1) by (meson Suc_lessI)
  then show ?case
  proof cases
    case 1
    then show ?thesis by (simp add: step rest [OF Suc.prems(1)] first_n_append del: find_loop.simps)
  next
    case 2
    then have "cells_size c \<le> Suc n_tested" using Suc.prems by simp
    then show ?thesis using 2 unfolding step rest [OF Suc.prems(1)] by (simp add: first_n_def)
  next
    case 3
    then have "find_loop fuel k c False n (Suc head) (Suc n_tested) ?u =
        Inr (first_n n (?u @ filter (can_use_cell k c) [Suc head..<h]))"
      using Suc.prems by (intro Suc.IH) auto
    moreover have "\<not> cells_size c \<le> Suc n_tested" using 3 Suc.prems by simp
    ultimately show ?thesis using 3 unfolding step rest [OF Suc.prems(1)] by simp
  qed
qed simp

text \<open>The search before the wrap-around.\<close>

lemma find_loop_scan:
  assumes "head \<le> cells_size c" "head = h + n_tested" "n_tested < cells_size c" "length idxs < n"
    and "cells_size c - head + h + 1 < fuel"
  shows "find_loop fuel k c False n head n_tested idxs =
    Inr (first_n n (idxs @ filter (can_use_cell k c) ([head..<cells_size c] @ [0..<h])))"
  using assms
proof (induction fuel arbitrary: head n_tested idxs)
  case (Suc fuel)
  show ?case
  proof (cases "head = cells_size c")
    case True
    have h: "0 < h" using Suc.prems True by simp
    have "find_loop (Suc fuel) k c False n head n_tested idxs = find_loop fuel k c False n 0 n_tested idxs"
      using True by simp
    also have "\<dots> = Inr (first_n n (idxs @ filter (can_use_cell k c) [0..<h]))"
      using Suc.prems True h by (intro find_loop_wrapped) auto
    finally show ?thesis using True by simp
  next
    case False
    let ?u = "note_cell k c head idxs"
    have lt: "head < cells_size c" using Suc.prems(1) False by simp
    note rest = note_cell_filter [OF lt, of idxs k c "[0..<h]"] and step = find_loop_step [OF lt]
    consider "length ?u = n" | "length ?u < n" "Suc n_tested = cells_size c" | "length ?u < n" "Suc n_tested < cells_size c"
      using length_note_cell [OF Suc.prems(4)] Suc.prems(3) by (meson Suc_lessI)
    then show ?thesis
    proof cases
      case 1
      then show ?thesis unfolding rest by (simp add: step first_n_append del: find_loop.simps)
    next
      case 2
      then have "h = 0" "Suc head = cells_size c" using Suc.prems lt by auto
      then show ?thesis using 2 unfolding rest by (simp add: step first_n_def del: find_loop.simps)
    next
      case 3
      then have "find_loop fuel k c False n (Suc head) (Suc n_tested) ?u =
          Inr (first_n n (?u @ filter (can_use_cell k c) ([Suc head..<cells_size c] @ [0..<h])))"
        using Suc.prems lt by (intro Suc.IH) auto
      then show ?thesis using 3 unfolding rest by (simp add: step del: find_loop.simps)
    qed
  qed
qed simp

definition search_head :: "kv_cache \<Rightarrow> nat \<Rightarrow> nat \<Rightarrow> nat" where
  "search_head k n st = (let h = kc_v_heads k ! st in if h > cells_get_used (kc_cells k st) + 2 * n then 0 else h)"

lemma find_cells_eq:
  assumes "cache_inv k" "st < kc_n_stream k" "0 < n"
  shows "find_cells k False n st = Inr (first_n n (usable_from k (kc_cells k st) (search_head k n st)))"
proof -
  let ?c = "kc_cells k st" and ?h = "search_head k n st"
  have h: "?h \<le> cells_size ?c" using cache_invD(4,5) [OF assms(1,2)] by (simp add: search_head_def Let_def)
  show ?thesis
  proof (cases "n \<le> cells_size ?c")
    case True
    have "find_loop (2 * cells_size ?c + 2) k ?c False n ?h 0 [] =
        Inr (first_n n ([] @ filter (can_use_cell k ?c) ([?h..<cells_size ?c] @ [0..<?h])))"
      using h True assms(3) by (intro find_loop_scan) auto
    then show ?thesis using True by (simp add: find_cells_def usable_from_def search_head_def Let_def)
  next
    case False
    have "length (usable_from k ?c ?h) \<le> cells_size ?c"
      unfolding usable_from_def using h by (intro order.trans [OF length_filter_le]) simp
    then show ?thesis using False by (simp add: find_cells_def first_n_def)
  qed
qed

lemma usable_from_props:
  assumes "h \<le> cells_size c"
  shows "distinct (usable_from k c h)" "set (usable_from k c h) = {i. i < cells_size c \<and> can_use_cell k c i}"
  using assms by (auto simp: usable_from_def)

lemma length_usable:
  "h \<le> cells_size c \<Longrightarrow> length (usable_from k c h) = card {i. i < cells_size c \<and> can_use_cell k c i}"
  using usable_from_props [of h c k] distinct_card by metis

lemma find_cells_result:
  assumes "cache_inv k" "st < kc_n_stream k" "0 < n"
  shows "\<exists>r. find_cells k False n st = Inr r \<and>
    (r \<noteq> None \<longleftrightarrow> n \<le> card {i. i < cells_size (kc_cells k st) \<and> can_use_cell k (kc_cells k st) i}) \<and>
    (\<forall>idxs. r = Some idxs \<longrightarrow> length idxs = n \<and> distinct idxs \<and>
      (\<forall>i \<in> set idxs. i < cells_size (kc_cells k st) \<and> can_use_cell k (kc_cells k st) i))"
proof -
  let ?c = "kc_cells k st" and ?h = "search_head k n st"
  have h: "?h \<le> cells_size ?c" using cache_invD(4,5) [OF assms(1,2)] by (simp add: search_head_def Let_def)
  show ?thesis
    unfolding find_cells_eq [OF assms]
    using usable_from_props [OF h, of k] length_usable [OF h, of k] set_take_subset [of n "usable_from k ?c ?h"]
    by (auto simp: first_n_def)
qed

text \<open>
  C18. The search of \<open>find_slot\<close> in one stream for cells that need not be adjacent (as \<open>prepare\<close> asks for them) ends, and it is exact: it returns as many cells
  as asked for, all different, all within the stream and all free or masked by the sliding
  window, if and only if the stream has that many.
\<close>

theorem find_cells_exact:
  assumes "cache_inv k" "st < kc_n_stream k" "0 < n"
  shows "\<exists>r. find_cells k False n st = Inr r \<and>
    (r \<noteq> None \<longleftrightarrow> n \<le> card {i. i < cells_size (kc_cells k st) \<and> can_use_cell k (kc_cells k st) i}) \<and>
    (\<forall>idxs. r = Some idxs \<longrightarrow> length idxs = n \<and> distinct idxs \<and>
      (\<forall>i \<in> set idxs. i < cells_size (kc_cells k st) \<and> can_use_cell k (kc_cells k st) i))"
  using assms by (rule find_cells_result)

section \<open>Placing a micro-batch into free cells\<close>

lemma cells_agree_except_trans:
  "cells_agree_except X c c' \<Longrightarrow> cells_agree_except Y c' c'' \<Longrightarrow> cells_agree_except (X \<union> Y) c c''"
  by (auto simp: cells_agree_except_def)

text \<open>Cell \<open>idx\<close> now holds \<open>x\<close>; nothing else changed.\<close>

definition cell_placed :: "nat \<Rightarrow> llama_pos \<times> llama_seq_id set \<Rightarrow> kv_cells \<Rightarrow> kv_cells \<Rightarrow> bool" where
  "cell_placed idx x c c' \<longleftrightarrow> cells_inv c' \<and> cells_view c' = (cells_view c)[idx := x] \<and> cells_agree_except {idx} c c'"

lemma cell_placed_trans: "cell_placed idx x c c' \<Longrightarrow> cell_placed idx y c' c'' \<Longrightarrow> cell_placed idx y c c''"
  using cells_agree_except_trans [of "{idx}" c c' "{idx}" c''] by (simp add: cell_placed_def)

lemma cell_placed_size: "cell_placed idx x c c' \<Longrightarrow> cells_size c' = cells_size c"
  by (simp add: cell_placed_def cells_agree_except_def)

lemma cell_placed_nth:
  assumes "cells_inv c" "cell_placed idx (p, S) c c'" "idx < cells_size c"
  shows "kv_pos c' ! idx = p" "kv_seq c' ! idx = S"
proof -
  have "cells_view c' ! idx = (p, S)"
    using assms by (simp add: cell_placed_def cells_shapeD cells_inv_shape)
  then show "kv_pos c' ! idx = p" "kv_seq c' ! idx = S"
    using assms cells_view_nth [of c' idx] cell_placed_size [OF assms(2)]
    by (simp_all add: cell_placed_def cells_inv_shape)
qed

lemma cell_placed_pos_set:
  assumes "cells_inv c" "idx < cells_size c" "kv_pos c ! idx = -1" "0 \<le> p"
  shows "cell_placed idx (p, {}) c (cells_pos_set idx p c)"
proof -
  have "cell_changed idx p {} c (cells_pos_set idx p c)" using assms by (intro cell_changed_pos_set) auto
  then have "cells_view (cells_pos_set idx p c) = (cells_view c)[idx := (p, {})]"
    using assms(1) by (simp add: cell_changed_view cells_inv_shape)
  moreover have "cells_agree_except {idx} c (cells_pos_set idx p c)"
    by (simp add: cells_agree_except_def cells_pos_set_def cells_size_def)
  ultimately show ?thesis using cells_inv_pos_set [OF assms] by (simp add: cell_placed_def)
qed

lemma cell_placed_ext_set:
  assumes "cells_inv c" "idx < cells_size c"
  shows "cell_placed idx (cells_view c ! idx) c (cells_ext_set idx e c)"
proof -
  have "cells_view (cells_ext_set idx e c) = (cells_view c)[idx := cells_view c ! idx]"
    by (simp add: cells_view_def cells_ext_set_def)
  moreover have "cells_agree_except {idx} c (cells_ext_set idx e c)"
    by (simp add: cells_agree_except_def cells_ext_set_def cells_size_def)
  ultimately show ?thesis using cells_inv_ext_set [OF assms(1)] by (simp add: cell_placed_def)
qed

lemma cell_placed_seq_add:
  assumes "cells_inv c" "idx < cells_size c" "kv_pos c ! idx \<noteq> -1" "s \<notin> kv_seq c ! idx" "s < LLAMA_MAX_SEQ"
  shows "cell_placed idx (kv_pos c ! idx, insert s (kv_seq c ! idx)) c (cells_seq_add idx s c)"
  using assms cell_changed_seq_add [OF assms(1-4)] cells_inv_seq_add [OF assms]
  by (auto simp: cell_placed_def cell_changed_view cells_inv_shape cells_agree_except_def
      cells_seq_add_def cells_seq_pos_inc_def cells_size_def Let_def)

lemma seq_adds:
  assumes "cells_inv c" "idx < cells_size c" "kv_pos c ! idx \<noteq> -1"
    and "distinct ids" "set ids \<inter> kv_seq c ! idx = {}" "set ids \<subseteq> {..<LLAMA_MAX_SEQ}"
  shows "cell_placed idx (kv_pos c ! idx, kv_seq c ! idx \<union> set ids) c (fold (cells_seq_add idx) ids c)"
  using assms
proof (induction ids arbitrary: c)
  case Nil
  then show ?case
    by (auto simp: cell_placed_def cells_agree_except_refl cells_view_nth cells_inv_shape intro!: list_update_id [symmetric])
      (metis cells_inv_shape cells_view_nth list_update_id)
next
  case (Cons s ids)
  have one: "cell_placed idx (kv_pos c ! idx, insert s (kv_seq c ! idx)) c (cells_seq_add idx s c)"
    using Cons.prems by (intro cell_placed_seq_add) auto
  note nth = cell_placed_nth [OF Cons.prems(1) one Cons.prems(2)]
  have "cell_placed idx (kv_pos (cells_seq_add idx s c) ! idx, kv_seq (cells_seq_add idx s c) ! idx \<union> set ids)
      (cells_seq_add idx s c) (fold (cells_seq_add idx) ids (cells_seq_add idx s c))"
    using Cons.prems one cell_placed_size [OF one] by (intro Cons.IH) (auto simp: nth cell_placed_def)
  then show ?case using cell_placed_trans [OF one] by (simp add: nth)
qed

lemma fold_nth_upt: "fold (\<lambda>s. g (xs ! s)) [0..<length xs] c = fold g xs c"
proof -
  have "fold g (map ((!) xs) [0..<length xs]) c = fold (\<lambda>s. g (xs ! s)) [0..<length xs] c"
    by (simp only: fold_map comp_def)
  then show ?thesis by (simp only: map_nth)
qed

text \<open>Token \<open>i\<close> of a ubatch names its sequences once each, and has a proper position.\<close>

definition token_ok :: "ubatch \<Rightarrow> nat \<Rightarrow> bool" where
  "token_ok u i \<longleftrightarrow> 0 \<le> ub_pos u ! i \<and> ub_n_seq_id u ! i = length (ub_seq_id u ! i) \<and>
     distinct (ub_seq_id u ! i) \<and> set (ub_seq_id u ! i) \<subseteq> {..<LLAMA_MAX_SEQ}"

abbreviation token_cell :: "ubatch \<Rightarrow> nat \<Rightarrow> llama_pos \<times> llama_seq_id set" where
  "token_cell u i \<equiv> (ub_pos u ! i, set (ub_seq_id u ! i))"

lemma place_token_empty:
  assumes "cells_inv c" "idx < cells_size c" "kv_pos c ! idx = -1" "token_ok u i"
  shows "\<exists>c'. place_token u i idx (rm, c) = (rm, c') \<and> cell_placed idx (token_cell u i) c c'"
proof -
  let ?p = "ub_pos u ! i" and ?ids = "ub_seq_id u ! i"
  define c1 where "c1 = cells_pos_set idx ?p c"
  define c2 where "c2 = (if is_pos_2d u then cells_ext_set idx \<lparr>ext_x = ub_pos u ! (i + ub_n_tokens u * 2),
      ext_y = ub_pos u ! (i + ub_n_tokens u)\<rparr> c1 else c1)"
  define c3 where "c3 = fold (cells_seq_add idx) ?ids c2"
  have t: "0 \<le> ?p" "ub_n_seq_id u ! i = length ?ids" "distinct ?ids" "set ?ids \<subseteq> {..<LLAMA_MAX_SEQ}"
    using assms(4) by (simp_all add: token_ok_def)
  have 1: "cell_placed idx (?p, {}) c c1" unfolding c1_def by (rule cell_placed_pos_set [OF assms(1-3) t(1)])
  have i1: "cells_inv c1" "idx < cells_size c1" using 1 assms(2) cell_placed_size [OF 1] by (simp_all add: cell_placed_def)
  have v1: "cells_view c1 ! idx = (?p, {})"
    using 1 assms(1,2) by (simp add: cell_placed_def cells_shapeD cells_inv_shape)
  have 2: "cell_placed idx (?p, {}) c c2"
    using cell_placed_trans [OF 1] cell_placed_ext_set [OF i1] 1 by (simp add: c2_def v1)
  have i2: "cells_inv c2" "idx < cells_size c2" using 2 assms(2) cell_placed_size [OF 2] by (simp_all add: cell_placed_def)
  note n2 = cell_placed_nth [OF assms(1) 2 assms(2)]
  have "cell_placed idx (?p, set ?ids) c2 c3"
    using seq_adds [OF i2, of ?ids] t by (simp add: n2 c3_def)
  then have 3: "cell_placed idx (?p, set ?ids) c c3" by (rule cell_placed_trans [OF 2])
  have "place_token u i idx (rm, c) = (rm, c3)"
    unfolding place_token_def c3_def c2_def c1_def
    using assms(3) t(2) by (simp add: cells_is_empty_def Let_def fold_nth_upt)
  then show ?thesis using 3 by blast
qed

text \<open>All tokens of a stream.\<close>

lemma place_tokens_empty:
  assumes "cells_inv c" "distinct idxs" "\<forall>i \<in> set idxs. i < cells_size c \<and> kv_pos c ! i = -1"
    and "\<forall>ii < length idxs. token_ok u ii" "n \<le> length idxs"
  shows "\<exists>c'. fold (\<lambda>ii. place_token u ii (idxs ! ii)) [0..<n] (rm, c) = (rm, c') \<and> cells_inv c' \<and>
    cells_agree_except (set (take n idxs)) c c' \<and>
    (\<forall>ii < n. cells_view c' ! (idxs ! ii) = token_cell u ii)"
  using assms(5)
proof (induction n)
  case 0
  then show ?case using assms(1) by (simp add: cells_agree_except_refl)
next
  case (Suc n)
  then obtain c' where c': "fold (\<lambda>ii. place_token u ii (idxs ! ii)) [0..<n] (rm, c) = (rm, c')" "cells_inv c'"
    "cells_agree_except (set (take n idxs)) c c'" "\<forall>ii < n. cells_view c' ! (idxs ! ii) = token_cell u ii"
    by auto
  have n: "n < length idxs" using Suc.prems by simp
  have notin: "idxs ! n \<notin> set (take n idxs)"
    using assms(2) n by (metis distinct_take in_set_takeD id_take_nth_drop not_distinct_conv_prefix)
  have size: "cells_size c' = cells_size c" using c'(3) by (simp add: cells_agree_except_def)
  have at: "idxs ! n < cells_size c'" "kv_pos c' ! (idxs ! n) = -1"
    using assms(3) n notin c'(3) size by (auto simp: cells_agree_except_def)
  obtain c'' where c'': "place_token u n (idxs ! n) (rm, c') = (rm, c'')" "cell_placed (idxs ! n) (token_cell u n) c' c''"
    using place_token_empty [OF c'(2) at, of u n rm] assms(4) n by auto
  have "cells_agree_except (set (take (Suc n) idxs)) c c''"
    using cells_agree_except_trans [OF c'(3), of "{idxs ! n}" c''] c''(2) n
    by (simp add: cell_placed_def take_Suc_conv_app_nth)
  moreover have "cells_view c'' ! (idxs ! ii) = token_cell u ii" if "ii < Suc n" for ii
  proof (cases "ii = n")
    case True
    then show ?thesis using c''(2) at(1) c'(2) by (simp add: cell_placed_def cells_shapeD cells_inv_shape)
  next
    case False
    then have "ii < n" "idxs ! ii \<noteq> idxs ! n" using that n assms(2) by (auto simp: nth_eq_iff_index_eq)
    then show ?thesis using c'(4) c''(2) by (simp add: cell_placed_def)
  qed
  ultimately show ?case using c'(1) c''(1,2) by (auto simp: cell_placed_def)
qed

lemma placed_positions:
  assumes "cells_inv c" "cells_inv c'" "distinct idxs" "cells_agree_except (set idxs) c c'"
    and "\<forall>i \<in> set idxs. i < cells_size c \<and> kv_pos c ! i = -1"
    and "\<forall>ii < length idxs. cells_view c' ! (idxs ! ii) = token_cell u ii"
  shows "seq_positions c' t = seq_positions c t \<union> {ub_pos u ! ii | ii. ii < length idxs \<and> t \<in> set (ub_seq_id u ! ii)}"
    (is "_ = _ \<union> ?new")
proof -
  have size: "cells_size c' = cells_size c" using assms(4) by (simp add: cells_agree_except_def)
  have new: "kv_pos c' ! (idxs ! ii) = ub_pos u ! ii \<and> kv_seq c' ! (idxs ! ii) = set (ub_seq_id u ! ii)"
    if "ii < length idxs" for ii
    using assms(6) that assms(5) cells_view_nth [OF cells_inv_shape [OF assms(2)], of "idxs ! ii"] size nth_mem [OF that]
    by auto
  have old: "kv_pos c' ! i = kv_pos c ! i \<and> kv_seq c' ! i = kv_seq c ! i" if "i < cells_size c" "i \<notin> set idxs" for i
    using assms(4) that by (simp add: cells_agree_except_def)
  have free: "kv_seq c ! i = {}" if "i \<in> set idxs" for i
    using that assms(5) cells_inv_cell(3) [OF assms(1)] by blast
  show ?thesis
  proof (intro equalityI subsetI)
    fix p assume "p \<in> seq_positions c' t"
    then obtain i where i: "i < cells_size c" "t \<in> kv_seq c' ! i" "p = kv_pos c' ! i"
      by (auto simp: seq_positions_def size)
    show "p \<in> seq_positions c t \<union> ?new"
    proof (cases "i \<in> set idxs")
      case True
      then obtain ii where "ii < length idxs" "i = idxs ! ii" by (auto simp: in_set_conv_nth)
      then show ?thesis using new i by auto
    next
      case False
      then show ?thesis using old [OF i(1)] i by (auto simp: seq_positions_def)
    qed
  next
    fix p assume "p \<in> seq_positions c t \<union> ?new"
    then consider i where "i < cells_size c" "t \<in> kv_seq c ! i" "p = kv_pos c ! i"
      | ii where "ii < length idxs" "t \<in> set (ub_seq_id u ! ii)" "p = ub_pos u ! ii"
      by (auto simp: seq_positions_def)
    then show "p \<in> seq_positions c' t"
    proof cases
      case 1
      then have "i \<notin> set idxs" using free by auto
      then have "p = kv_pos c' ! i \<and> i < cells_size c' \<and> t \<in> kv_seq c' ! i" using old [OF 1(1)] 1 size by simp
      then show ?thesis unfolding seq_positions_def by blast
    next
      case 2
      then show ?thesis using new [OF 2(1)] assms(5) nth_mem [OF 2(1)] by (force simp: seq_positions_def size)
    qed
  qed
qed

lemma free_after_place:
  assumes "cells_inv c'" "cells_agree_except (set idxs) c c'" "\<forall>i \<in> set idxs. i < cells_size c"
    and "\<forall>ii < length idxs. cells_view c' ! (idxs ! ii) = token_cell u ii" "\<forall>ii < length idxs. token_ok u ii"
  shows "{i. i < cells_size c' \<and> cells_is_empty c' i} = {i. i < cells_size c \<and> cells_is_empty c i} - set idxs"
proof -
  have size: "cells_size c' = cells_size c" using assms(2) by (simp add: cells_agree_except_def)
  have "\<not> cells_is_empty c' i" if i: "i \<in> set idxs" for i
  proof -
    obtain ii where ii: "ii < length idxs" "i = idxs ! ii" using i by (auto simp: in_set_conv_nth)
    have "cells_view c' ! i = token_cell u ii" using assms(4) ii by blast
    moreover have "i < cells_size c'" using assms(3) i size by simp
    ultimately show ?thesis
      using cells_view_nth [OF cells_inv_shape [OF assms(1)], of i] assms(5) [rule_format, OF ii(1)]
      by (auto simp: cells_is_empty_def token_ok_def)
  qed
  then show ?thesis using assms(2) size by (auto simp: cells_agree_except_def cells_is_empty_def)
qed

section \<open>A cache with one stream and no sliding window\<close>

definition plain_cache :: "kv_cache \<Rightarrow> bool" where
  "plain_cache k \<longleftrightarrow> cache_inv k \<and> kc_n_stream k = 1 \<and> kc_swa_type k = SWA_NONE"

definition free_cells :: "kv_cache \<Rightarrow> nat set" where
  "free_cells k = {i. i < cells_size (kc_cells k 0) \<and> cells_is_empty (kc_cells k 0) i}"

text \<open>A micro-batch that names its sequences once per token, all known to the cache.\<close>

definition ubatch_ok :: "kv_cache \<Rightarrow> ubatch \<Rightarrow> bool" where
  "ubatch_ok k u \<longleftrightarrow> 0 < ub_n_tokens u \<and> (\<forall>i < ub_n_tokens u. token_ok u i) \<and>
     ub_seq_id_unq u ! 0 < length (kc_seq_to_stream k)"

definition plain_slot :: "nat list \<Rightarrow> slot_info" where
  "plain_slot idxs = \<lparr>si_s0 = 0, si_s1 = 0, si_strm = [0], si_idxs = [idxs]\<rparr>"

lemma finite_free_cells: "finite (free_cells k)"
  by (simp add: free_cells_def)

lemma plain_stream:
  assumes "plain_cache k" "s < length (kc_seq_to_stream k)"
  shows "kc_seq_to_stream k ! s = 0"
  using cache_invD(6) [of k s] assms by (simp add: plain_cache_def)

lemma can_use_plain: "plain_cache k \<Longrightarrow> can_use_cell k c i \<longleftrightarrow> cells_is_empty c i"
  by (simp add: can_use_cell_def plain_cache_def is_masked_swa_def)

lemma find_slot_plain:
  assumes "plain_cache k" "ubatch_ok k u"
  shows "ub_n_tokens u \<le> card (free_cells k) \<Longrightarrow> \<exists>idxs. find_slot k u False = Inr (plain_slot idxs) \<and>
      length idxs = ub_n_tokens u \<and> distinct idxs \<and> set idxs \<subseteq> free_cells k"
    and "\<not> ub_n_tokens u \<le> card (free_cells k) \<Longrightarrow> find_slot k u False = Inr slot_none"
proof -
  have k: "cache_inv k" "0 < kc_n_stream k" "kc_n_stream k = 1" using assms(1) by (simp_all add: plain_cache_def)
  have n: "0 < ub_n_tokens u" "kc_seq_to_stream k ! (ub_seq_id_unq u ! 0) = 0"
    using assms plain_stream by (auto simp: ubatch_ok_def)
  have free: "{i. i < cells_size (kc_cells k 0) \<and> can_use_cell k (kc_cells k 0) i} = free_cells k"
    using assms(1) by (simp add: can_use_plain free_cells_def)
  obtain r where r: "find_cells k False (ub_n_tokens u) 0 = Inr r" "r \<noteq> None \<longleftrightarrow> ub_n_tokens u \<le> card (free_cells k)"
    "\<And>idxs. r = Some idxs \<Longrightarrow> length idxs = ub_n_tokens u \<and> distinct idxs \<and> set idxs \<subseteq> free_cells k"
    using find_cells_result [OF k(1,2) n(1)] unfolding free by (auto simp: free_cells_def can_use_plain [OF assms(1)])
  have eq: "find_slot k u False = (case r of None \<Rightarrow> Inr slot_none | Some idxs \<Rightarrow>
      if length idxs < ub_n_tokens u then Inr slot_none else Inr (plain_slot idxs))"
    using k(3) n r(1) by (simp add: find_slot_def plain_slot_def Let_def split: option.splits)
  show "ub_n_tokens u \<le> card (free_cells k) \<Longrightarrow> \<exists>idxs. find_slot k u False = Inr (plain_slot idxs) \<and>
      length idxs = ub_n_tokens u \<and> distinct idxs \<and> set idxs \<subseteq> free_cells k"
    using r(2,3) eq by force
  show "\<not> ub_n_tokens u \<le> card (free_cells k) \<Longrightarrow> find_slot k u False = Inr slot_none"
    using r(2) eq by auto
qed

lemma purge_none: "purge (\<lambda>_. -1) ss k = Inr k"
  by (induction ss) simp_all

text \<open>The positions a ubatch brings.\<close>

definition ubatch_positions :: "ubatch \<Rightarrow> llama_seq_id \<Rightarrow> llama_pos set" where
  "ubatch_positions u t = {ub_pos u ! i | i. i < ub_n_tokens u \<and> t \<in> set (ub_seq_id u ! i)}"

text \<open>Applying a ubatch to free cells: the only effect is on the cells of the slot.\<close>

lemma apply_ubatch_plain:
  assumes "plain_cache k" "ubatch_ok k u" "length idxs = ub_n_tokens u" "distinct idxs" "set idxs \<subseteq> free_cells k"
  obtains c where
    "apply_ubatch (plain_slot idxs) u k = Inr (set_stream 0 (last idxs + 1) c k)"
    "plain_cache (set_stream 0 (last idxs + 1) c k)"
    "cells_inv c" "cells_agree_except (set idxs) (kc_cells k 0) c"
    "free_cells (set_stream 0 (last idxs + 1) c k) = free_cells k - set idxs"
    "\<And>t. t < length (kc_seq_to_stream k) \<Longrightarrow>
      kv_positions (set_stream 0 (last idxs + 1) c k) t = kv_positions k t \<union> ubatch_positions u t"
proof -
  have k: "cache_inv k" "0 < kc_n_stream k" "kc_n_stream k = 1" using assms(1) by (simp_all add: plain_cache_def)
  note len = cache_invD(1,2) [OF k(1)] and c0 = cache_invD(3,4) [OF k(1,2)]
  let ?c = "kc_cells k 0"
  have tok: "\<forall>ii < length idxs. token_ok u ii" using assms(2,3) by (simp add: ubatch_ok_def)
  have emp: "\<forall>i \<in> set idxs. i < cells_size ?c \<and> kv_pos ?c ! i = -1"
    using assms(5) by (auto simp: free_cells_def cells_is_empty_def)
  obtain c where c: "fold (\<lambda>ii. place_token u ii (idxs ! ii)) [0..<length idxs] ((\<lambda>_. -1), ?c) = ((\<lambda>_. -1), c)"
    "cells_inv c" "cells_agree_except (set idxs) ?c c" "\<forall>ii < length idxs. cells_view c ! (idxs ! ii) = token_cell u ii"
    using place_tokens_empty [OF c0(1) assms(4) emp tok order.refl, of "\<lambda>_. -1"] by auto
  have ne: "idxs \<noteq> []" using assms(2,3) by (auto simp: ubatch_ok_def)
  have size: "cells_size c = kv_get_size k" using c(3) c0(2) by (simp add: cells_agree_except_def)
  have h: "last idxs + 1 \<le> kv_get_size k" using emp last_in_set [OF ne] c0(2) by auto
  let ?k = "set_stream 0 (last idxs + 1) c k"
  have "apply_ubatch (plain_slot idxs) u k = Inr ?k"
    by (simp add: apply_ubatch_def plain_slot_def si_size_def si_n_stream_def place_stream_def c(1)
        purge_none move_heads_def set_stream_def)
  moreover have inv: "cache_inv ?k" by (rule cache_inv_set_stream [OF k(1,2) c(2) size h])
  then have "plain_cache ?k" using assms(1) by (simp add: plain_cache_def)
  moreover have "free_cells ?k = free_cells k - set idxs"
    using free_after_place [OF c(2,3) _ c(4) tok] emp len k(2) by (simp add: free_cells_def)
  moreover have "kv_positions ?k t = kv_positions k t \<union> ubatch_positions u t" if "t < length (kc_seq_to_stream k)" for t
    unfolding kv_positions_set_stream [OF k(1) that]
    using placed_positions [OF c0(1) c(2) assms(4) c(3) emp c(4), of t] plain_stream [OF assms(1) that]
    by (simp add: kv_positions_def ubatch_positions_def assms(3))
  ultimately show ?thesis using that c(2,3) by blast
qed

text \<open>Undoing it with the saved cells and heads.\<close>

lemma restore_plain:
  assumes "plain_cache k" "set idxs \<subseteq> free_cells k" "cells_inv c" "cells_agree_except (set idxs) (kc_cells k 0) c"
  shows "restore_state \<lparr>ps_sinfo = plain_slot idxs, ps_heads_old = kc_v_heads k,
      ps_cells = [cells_cp_idxs (kc_cells k 0) idxs]\<rparr> (set_stream 0 h c k) = k"
proof -
  have k: "cache_inv k" "0 < kc_n_stream k" "kc_n_stream k = 1" using assms(1) by (simp_all add: plain_cache_def)
  note len = cache_invD(1,2) [OF k(1)] and c0 = cache_invD(3) [OF k(1,2)]
  have "\<forall>i \<in> set idxs. i < cells_size (kc_cells k 0) \<and> kv_shift (kc_cells k 0) ! i = 0"
    using assms(2) cells_inv_cell(4) [OF c0] by (auto simp: free_cells_def cells_is_empty_def)
  then have "cells_set_idxs idxs (cells_cp_idxs (kc_cells k 0) idxs) c = kc_cells k 0"
    by (intro cells_set_idxs_restores c0 assms(3,4))
  then show ?thesis
    using len k(2) by (simp add: restore_state_def plain_slot_def si_n_stream_def set_stream_def)
qed

definition total_tokens :: "ubatch list \<Rightarrow> nat" where
  "total_tokens us = (\<Sum>u \<leftarrow> us. ub_n_tokens u)"

text \<open>
  Micro-batches that can be applied one after the other: after each of them the cache is
  well-formed and holds, for every sequence, the positions of those applied so far, and every token has taken one free cell.
\<close>

definition placed_steps :: "kv_cache \<Rightarrow> slot_info list \<Rightarrow> ubatch list \<Rightarrow> bool" where
  "placed_steps k sis us \<longleftrightarrow> length sis = length us \<and> (\<forall>m \<le> length us. \<exists>km.
     apply_all (take m sis) (take m us) k = Inr km \<and> plain_cache km \<and> same_frame k km \<and>
     card (free_cells km) + total_tokens (take m us) = card (free_cells k) \<and>
     (\<forall>t < length (kc_seq_to_stream k). kv_positions km t = kv_positions k t \<union> (\<Union>u \<in> set (take m us). ubatch_positions u t)))"

lemma placed_steps_Cons:
  assumes "plain_cache k" "apply_ubatch si u k = Inr k1" "same_frame k k1"
    and "\<And>t. t < length (kc_seq_to_stream k) \<Longrightarrow> kv_positions k1 t = kv_positions k t \<union> ubatch_positions u t"
    and "card (free_cells k1) + ub_n_tokens u = card (free_cells k)" "placed_steps k1 sis us"
  shows "placed_steps k (si # sis) (u # us)"
  unfolding placed_steps_def
proof (intro conjI allI impI)
  show "length (si # sis) = length (u # us)" using assms(6) by (simp add: placed_steps_def)
  fix m assume m: "m \<le> length (u # us)"
  show "\<exists>km. apply_all (take m (si # sis)) (take m (u # us)) k = Inr km \<and> plain_cache km \<and>
      same_frame k km \<and> card (free_cells km) + total_tokens (take m (u # us)) = card (free_cells k) \<and> (\<forall>t < length (kc_seq_to_stream k).
        kv_positions km t = kv_positions k t \<union> (\<Union>u \<in> set (take m (u # us)). ubatch_positions u t))"
  proof (cases m)
    case 0
    then show ?thesis using assms(1) by (simp add: total_tokens_def)
  next
    case (Suc m')
    then have "m' \<le> length us" using m by simp
    then obtain km where "apply_all (take m' sis) (take m' us) k1 = Inr km" "plain_cache km"
      "same_frame k1 km" "card (free_cells km) + total_tokens (take m' us) = card (free_cells k1)" "\<forall>t < length (kc_seq_to_stream k1).
        kv_positions km t = kv_positions k1 t \<union> (\<Union>u \<in> set (take m' us). ubatch_positions u t)"
      using assms(6) by (auto simp: placed_steps_def)
    moreover from this(4) have "card (free_cells km) + total_tokens (take m (u # us)) = card (free_cells k)"
      using assms(5) Suc by (simp add: total_tokens_def)
    ultimately show ?thesis using assms(2-4) Suc same_frameD(1) [OF assms(3)] same_frame_trans [OF assms(3)] by auto
  qed
qed

lemma placed_steps_all:
  assumes "placed_steps k sis us"
  obtains k' where "apply_all sis us k = Inr k'" "plain_cache k'" "same_frame k k'"
    "\<And>t. t < length (kc_seq_to_stream k) \<Longrightarrow> kv_positions k' t = kv_positions k t \<union> (\<Union>u \<in> set us. ubatch_positions u t)"
  using assms by (fastforce simp: placed_steps_def)

lemma prep_loop_plain:
  assumes "plain_cache k" "\<forall>u \<in> set us. ubatch_ok k u"
  shows "\<exists>ok sts k'. prep_loop us k states = Inr (ok, sts @ states, k') \<and> fold restore_state sts k' = k \<and>
    (ok \<longleftrightarrow> total_tokens us \<le> card (free_cells k)) \<and>
    (ok \<longrightarrow> length sts = length us \<and> placed_steps k (rev (map ps_sinfo sts)) us)"
  using assms
proof (induction us arbitrary: k states)
  case Nil
  then show ?case by (auto simp: total_tokens_def placed_steps_def)
next
  case (Cons u us)
  have u: "ubatch_ok k u" using Cons.prems by simp
  show ?case
  proof (cases "ub_n_tokens u \<le> card (free_cells k)")
    case False
    then have "find_slot k u False = Inr slot_none" by (rule find_slot_plain(2) [OF Cons.prems(1) u])
    then have "prep_loop (u # us) k states = Inr (False, [] @ states, k)" by (simp add: si_empty_def slot_none_def)
    moreover have "\<not> total_tokens (u # us) \<le> card (free_cells k)" using False by (simp add: total_tokens_def)
    ultimately show ?thesis by fastforce
  next
    case True
    obtain idxs where idxs: "find_slot k u False = Inr (plain_slot idxs)" "length idxs = ub_n_tokens u"
      "distinct idxs" "set idxs \<subseteq> free_cells k"
      using find_slot_plain(1) [OF Cons.prems(1) u True] by blast
    obtain c where c: "apply_ubatch (plain_slot idxs) u k = Inr (set_stream 0 (last idxs + 1) c k)"
      "plain_cache (set_stream 0 (last idxs + 1) c k)" "cells_inv c" "cells_agree_except (set idxs) (kc_cells k 0) c"
      "free_cells (set_stream 0 (last idxs + 1) c k) = free_cells k - set idxs"
      "\<And>t. t < length (kc_seq_to_stream k) \<Longrightarrow>
        kv_positions (set_stream 0 (last idxs + 1) c k) t = kv_positions k t \<union> ubatch_positions u t"
      by (rule apply_ubatch_plain [OF Cons.prems(1) u idxs(2-4)]) blast
    define k1 where "k1 = set_stream 0 (last idxs + 1) c k"
    define st where "st = \<lparr>ps_sinfo = plain_slot idxs, ps_heads_old = kc_v_heads k,
        ps_cells = [cells_cp_idxs (kc_cells k 0) idxs]\<rparr>"
    have "prep_loop (u # us) k states = prep_loop us k1 (st # states)"
      by (simp add: idxs(1) c(1) k1_def st_def si_empty_def si_n_stream_def) (simp add: plain_slot_def)
    moreover have "\<forall>u \<in> set us. ubatch_ok k1 u" using Cons.prems(2) by (simp add: k1_def ubatch_ok_def)
    then obtain ok sts k' where r: "prep_loop us k1 (st # states) = Inr (ok, sts @ st # states, k')"
      "fold restore_state sts k' = k1" "ok \<longleftrightarrow> total_tokens us \<le> card (free_cells k1)"
      "ok \<Longrightarrow> length sts = length us \<and> placed_steps k1 (rev (map ps_sinfo sts)) us"
      using Cons.IH [of k1 "st # states"] c(2) unfolding k1_def by blast
    have undone: "restore_state st k1 = k"
      unfolding st_def k1_def by (rule restore_plain [OF Cons.prems(1) idxs(4) c(3,4)])
    have "card (free_cells k1) = card (free_cells k) - ub_n_tokens u"
      using idxs(2-4) c(5) card_Diff_subset [of "set idxs" "free_cells k"] distinct_card [OF idxs(3)] by (simp add: k1_def)
    then have card1: "card (free_cells k1) + ub_n_tokens u = card (free_cells k)" using True by simp
    then have "ok \<longleftrightarrow> total_tokens (u # us) \<le> card (free_cells k)" using r(3) True by (auto simp: total_tokens_def)
    moreover have "placed_steps k (rev (map ps_sinfo (sts @ [st]))) (u # us)" if ok
      using placed_steps_Cons [OF Cons.prems(1) _ _ c(6) [folded k1_def] card1, where si = "plain_slot idxs"] r(4) [OF that] c(1,2)
      by (simp add: st_def k1_def)
    ultimately show ?thesis
      using r undone by (intro exI [of _ ok] exI [of _ "sts @ [st]"] exI [of _ k']) auto
  qed
qed

text \<open>
  C6. \<open>prepare\<close> on a cache with one stream and no sliding window succeeds exactly when the
  micro-batches together need no more cells than are free, and in either case leaves the
  cache, heads, counters and all, as it was.
\<close>

theorem prepare_restores:
  assumes "plain_cache k" "us \<noteq> []" "\<forall>u \<in> set us. ubatch_ok k u"
  shows "\<exists>sinfos. prepare us k = Inr (sinfos, k) \<and>
    (sinfos \<noteq> [] \<longleftrightarrow> total_tokens us \<le> card (free_cells k))"
proof -
  obtain ok sts k' where r: "prep_loop us k [] = Inr (ok, sts, k')" "fold restore_state sts k' = k"
    "ok \<longleftrightarrow> total_tokens us \<le> card (free_cells k)" "ok \<Longrightarrow> length sts = length us"
    using prep_loop_plain [OF assms(1,3), of "[]"] by auto
  moreover have "ok \<Longrightarrow> sts \<noteq> []" using r(4) assms(2) by auto
  ultimately show ?thesis by (auto simp: prepare_def)
qed

section \<open>From an accepted batch to the cells\<close>

text \<open>The cache as the memory that the batch allocator consults.\<close>

definition kv_memory :: "kv_cache \<Rightarrow> memory_view" where
  "kv_memory k = \<lparr>mem_pos_min = (\<lambda>s. projr (kv_seq_pos_min k (int s))),
     mem_pos_max = (\<lambda>s. projr (kv_seq_pos_max k (int s)))\<rparr>"

lemma kv_positions_nonneg:
  assumes "cache_inv k" "s < length (kc_seq_to_stream k)" "p \<in> kv_positions k s"
  shows "0 \<le> p"
  using cache_invD(3) [OF assms(1) cache_invD(6) [OF assms(1,2)]] assms(3) view_pos_seq
  by (auto simp: kv_positions_def seq_positions_view cells_inv_shape)

interpretation kv: sequence_memory cache_inv "\<lambda>k. length (kc_seq_to_stream k)" kv_positions kv_memory
proof
  fix k s p
  assume k: "cache_inv k" "s < length (kc_seq_to_stream k)"
  show "finite (kv_positions k s)" by (simp add: kv_positions_def finite_seq_positions)
  show "p \<in> kv_positions k s \<Longrightarrow> 0 \<le> p" using kv_positions_nonneg [OF k] .
  have v: "valid_seq k (int s)" using k(2) by (simp add: valid_seq_def)
  show "mem_pos_min (kv_memory k) s = (if kv_positions k s = {} then -1 else Min (kv_positions k s))"
    "mem_pos_max (kv_memory k) s = (if kv_positions k s = {} then -1 else Max (kv_positions k s))"
    using kv_seq_pos_bounds [OF k(1) v] by (simp_all add: kv_memory_def)
qed

lemma number_unq_ids: "snd (number_unq unq n) = filter (\<lambda>s. s \<in> unq) [0..<n]"
proof -
  have "snd (fold (\<lambda>s (idx, ids). if s \<in> unq then (idx[s := int (length ids)], ids @ [s]) else (idx, ids)) xs (idx, ids)) =
      ids @ filter (\<lambda>s. s \<in> unq) xs" for xs and idx :: "int list" and ids
    by (induction xs arbitrary: idx ids) auto
  then show ?thesis by (simp add: number_unq_def)
qed

lemma ubatch_add_fields:
  defines "u r n e a \<equiv> fst (ubatch_add r n e a)"
  shows "ub_n_tokens (u r n e a) = length r"
    "i < length r \<Longrightarrow> ub_seq_id (u r n e a) ! i = b_ids (ba_batch a) (r ! i)"
    "i < length r \<Longrightarrow> ub_n_seq_id (u r n e a) ! i = b_n_seq_id (ba_batch a) ! (r ! i)"
    "ub_seq_id_unq (u r n e a) = filter (\<lambda>s. \<exists>i \<in> set r. s \<in> set (b_ids (ba_batch a) i)) [0..<ba_n_seq_max a]"
    "i < length r \<Longrightarrow> 0 < ba_n_pos_per_embd a \<Longrightarrow> ub_pos (u r n e a) ! i = b_pos (ba_batch a) ! (r ! i)"
proof -
  show "ub_n_tokens (u r n e a) = length r"
    "i < length r \<Longrightarrow> ub_seq_id (u r n e a) ! i = b_ids (ba_batch a) (r ! i)"
    "i < length r \<Longrightarrow> ub_n_seq_id (u r n e a) ! i = b_n_seq_id (ba_batch a) ! (r ! i)"
    by (simp_all add: u_def ubatch_add_def Let_def split: prod.split)
  show "ub_seq_id_unq (u r n e a) = filter (\<lambda>s. \<exists>i \<in> set r. s \<in> set (b_ids (ba_batch a) i)) [0..<ba_n_seq_max a]"
    using number_unq_ids [of "\<Union>i \<in> set r. set (b_ids (ba_batch a) i)" "ba_n_seq_max a"]
    by (simp add: u_def ubatch_add_def Let_def split: prod.split) fastforce
  assume i: "i < length r" "0 < ba_n_pos_per_embd a"
  then show "ub_pos (u r n e a) ! i = b_pos (ba_batch a) ! (r ! i)"
    by (simp add: u_def ubatch_add_def Let_def upt_conv_Cons nth_append split: prod.split)
qed

lemma accepted_ids:
  assumes "input_rows_ok inp" "ba_init n_vocab mem n_embd n_seq_max output_all inp a = Inr (True, a')"
    and "i < bt_n_tokens inp" "s \<in> set (b_ids (ba_batch a') i)" "0 < n_seq_max"
  shows "s < n_seq_max"
proof -
  have b: "ba_batch a' = fill_batch mem output_all inp" by (rule accepted_state(2) [OF assms(1,2)])
  have v: "valid_seq_ids n_seq_max inp = Inr True" using assms(2) ba_init_accepts [OF assms(1)] by (simp add: Let_def)
  show ?thesis
  proof (cases "bt_seq_id inp")
    case None
    then have "bt_n_seq_id inp = None" using assms(1) by (simp add: input_rows_ok_def)
    then show ?thesis using None assms(3-5) by (simp add: b b_ids_def fill_batch_def fill_seq_id_def fill_n_seq_id_def)
  next
    case (Some rows)
    then obtain ns where ns: "bt_n_seq_id inp = Some ns" "length rows \<ge> bt_n_tokens inp"
      using assms(1) by (auto simp: input_rows_ok_def split: option.splits)
    then have "\<forall>x \<in> set (take (ns ! i) (rows ! i)). 0 \<le> x \<and> x < int n_seq_max"
      using v assms(3) by (auto simp: valid_seq_ids_def Some list_all_iff not_less not_le)
    moreover have "b_ids (ba_batch a') i = map nat (take (ns ! i) (rows ! i))"
      using ns assms(3) by (simp add: b b_ids_def fill_batch_def fill_seq_id_def fill_n_seq_id_def Some take_map)
    ultimately show ?thesis using assms(4) by auto
  qed
qed

text \<open>The input of the end-to-end theorems: a batch that the allocator accepted, whose tokens
  name each of their sequences once and have non-negative positions.\<close>

definition batch_ok :: "full_batch \<Rightarrow> bool" where
  "batch_ok b \<longleftrightarrow> (\<forall>i < b_n_tokens b. distinct (b_ids b i) \<and> 0 \<le> b_pos b ! i)"

lemma run_ubatch_ok:
  assumes "split_ok a" "rows_ok (ba_batch a)" "batch_ok (ba_batch a)" "0 < ba_n_pos_per_embd a"
    and ids: "\<And>i s. i < ba_get_n_tokens a \<Longrightarrow> s \<in> set (b_ids (ba_batch a) i) \<Longrightarrow> s < ba_n_seq_max a"
    and "ba_n_seq_max a \<le> LLAMA_MAX_SEQ" "ba_n_seq_max a \<le> length (kc_seq_to_stream k)"
    and r: "r \<noteq> []" "\<forall>i \<in> set r. i < ba_get_n_tokens a"
  shows "ubatch_ok k (fst (ubatch_add r n e a))"
    "ubatch_positions (fst (ubatch_add r n e a)) t = {b_pos (ba_batch a) ! i | i. i \<in> set r \<and> t \<in> set (b_ids (ba_batch a) i)}"
proof -
  let ?u = "fst (ubatch_add r n e a)" and ?b = "ba_batch a"
  note f = ubatch_add_fields [where r = r and n = n and e = e and a = a]
  have in_b: "r ! i < b_n_tokens ?b" if "i < length r" for i using r(2) that by (simp add: ba_get_n_tokens_def)
  have "token_ok ?u i" if "i < length r" for i
    using in_b [OF that] assms(3,6) ids [of "r ! i"] r(2) that
    by (auto simp: token_ok_def f(2,3,5) [OF that] assms(4) batch_ok_def length_b_ids [OF assms(2)] subset_iff
        intro: less_le_trans)
  moreover have "ub_seq_id_unq ?u ! 0 < length (kc_seq_to_stream k)"
  proof -
    have "b_ids ?b (r ! 0) \<noteq> []" using in_b [of 0] r(1) by (simp add: b_ids_nonempty [OF assms(2)])
    then obtain s where s: "s \<in> set (b_ids ?b (r ! 0))" by (cases "b_ids ?b (r ! 0)") auto
    have "r ! 0 \<in> set r" using r(1) by simp
    then have "s \<in> set (ub_seq_id_unq ?u)" using s ids [of "r ! 0" s] r(2) by (auto simp: f(4))
    then have "ub_seq_id_unq ?u ! 0 \<in> set (ub_seq_id_unq ?u)" by (intro nth_mem) (auto simp: length_pos_if_in_set)
    then show ?thesis using assms(7) by (auto simp: f(4))
  qed
  ultimately show "ubatch_ok k ?u" using r(1) by (simp add: ubatch_ok_def f(1))
  have "ub_pos ?u ! i = b_pos ?b ! (r ! i)" "ub_seq_id ?u ! i = b_ids ?b (r ! i)" if "i < length r" for i
    using f(2,5) [OF that] assms(4) by simp_all
  then have "ubatch_positions ?u t = {b_pos ?b ! (r ! i) | i. i < length r \<and> t \<in> set (b_ids ?b (r ! i))}"
    unfolding ubatch_positions_def f(1) by (metis (no_types, lifting))
  also have "\<dots> = {b_pos ?b ! i | i. i \<in> set r \<and> t \<in> set (b_ids ?b i)}"
    by (auto simp: in_set_conv_nth [of _ r])
  finally show "ubatch_positions ?u t = {b_pos ?b ! i | i. i \<in> set r \<and> t \<in> set (b_ids ?b i)}" .
qed

lemma init_batch_steps:
  fixes n_ubatch :: nat
  assumes "plain_cache k" "input_rows_ok inp"
    and acc: "ba_init n_vocab mem n_embd n_seq_max output_all inp a = Inr (True, a')"
    and "0 < ba_n_pos_per_embd a" "0 < n_seq_max" "n_seq_max \<le> length (kc_seq_to_stream k)" "batch_ok (ba_batch a')"
  defines "us \<equiv> map (\<lambda>r. fst (ubatch_add r (length r) False a')) (runs n_ubatch 0 (bt_n_tokens inp))"
    and "a'' \<equiv> a'\<lparr>ba_used := replicate (bt_n_tokens inp) True, ba_n_used := bt_n_tokens inp,
        ba_out_ids := filter (\<lambda>i. b_logits (ba_batch a') ! i) [0..<bt_n_tokens inp]\<rparr>"
  shows "\<not> bt_n_tokens inp \<le> card (free_cells k) \<Longrightarrow> init_batch n_ubatch a' k = Inr (None, a'', k)"
    and "bt_n_tokens inp \<le> card (free_cells k) \<Longrightarrow> \<exists>sinfos. init_batch n_ubatch a' k = Inr (Some (sinfos, us), a'', k) \<and>
      placed_steps k sinfos us"
    and "r \<in> set (runs n_ubatch 0 (bt_n_tokens inp)) \<Longrightarrow> ubatch_ok k (fst (ubatch_add r (length r) False a')) \<and>
      ubatch_positions (fst (ubatch_add r (length r) False a')) t =
        {b_pos (ba_batch a') ! i | i. i \<in> set r \<and> t \<in> set (b_ids (ba_batch a') i)}"
    and "(\<Union>u \<in> set us. ubatch_positions u t) = batch_positions (ba_batch a') t"
proof -
  note st = accepted_state [OF assms(2) acc]
  let ?n = "bt_n_tokens inp" and ?rs = "runs n_ubatch 0 (bt_n_tokens inp)"
  have b: "0 < ?n" "n_seq_max \<le> LLAMA_MAX_SEQ"
    using acc ba_init_accepts [OF assms(2)] by (simp_all add: Let_def)
  have rows: "rows_ok (ba_batch a')" using rows_ok_fill [OF assms(2)] st(2) by simp
  have cr: "concat ?rs = [0..<?n]" by (rule concat_runs) simp
  have run: "r \<noteq> [] \<and> (\<forall>i \<in> set r. i < ?n)" if "r \<in> set ?rs" for r
    using runs_bounded [OF that] arg_cong [OF cr, of set] that by auto
  have ok: "ubatch_ok k (fst (ubatch_add r (length r) False a'))"
      "ubatch_positions (fst (ubatch_add r (length r) False a')) t =
        {b_pos (ba_batch a') ! i | i. i \<in> set r \<and> t \<in> set (b_ids (ba_batch a') i)}" if "r \<in> set ?rs" for r t
  proof -
    have ids: "s < ba_n_seq_max a'" if "i < ba_get_n_tokens a'" "s \<in> set (b_ids (ba_batch a') i)" for i s
      using accepted_ids [OF assms(2) acc _ that(2) assms(5)] that(1) by (simp add: st(5,7))
    show "ubatch_ok k (fst (ubatch_add r (length r) False a'))"
      by (rule run_ubatch_ok [OF st(1) rows assms(7) _ ids])
        (use run [OF that] assms(4,6) b in \<open>auto simp: st(5,6,7)\<close>)
    show "ubatch_positions (fst (ubatch_add r (length r) False a')) t =
        {b_pos (ba_batch a') ! i | i. i \<in> set r \<and> t \<in> set (b_ids (ba_batch a') i)}"
      by (rule run_ubatch_ok [OF st(1) rows assms(7) _ ids])
        (use run [OF that] assms(4,6) b in \<open>auto simp: st(5,6,7)\<close>)
  qed
  have us: "\<forall>u \<in> set us. ubatch_ok k u" unfolding us_def using ok(1) by auto
  have "total_tokens us = length (concat ?rs)"
    by (simp add: total_tokens_def us_def length_concat comp_def ubatch_add_fields(1))
  then have total: "total_tokens us = ?n" by (simp add: cr)
  have ne: "us \<noteq> []" using total b(1) by (auto simp: total_tokens_def)
  have "(\<Union>u \<in> set us. ubatch_positions u t) =
      {b_pos (ba_batch a') ! i | i. i \<in> set (concat ?rs) \<and> t \<in> set (b_ids (ba_batch a') i)}" for t
    unfolding us_def using ok(2) by fastforce
  moreover have "b_n_tokens (ba_batch a') = ?n" using st(7) by (simp add: ba_get_n_tokens_def)
  ultimately have pos: "(\<Union>u \<in> set us. ubatch_positions u t) = batch_positions (ba_batch a') t" for t
    by (simp add: cr batch_positions_def)
  have coll: "collect_ubatches (Suc ?n) (split_simple n_ubatch) (ba_split_reset a') = Some (us, a'')"
    using split_all_simple [of a' n_ubatch] unfolding us_def a''_def st(7) .
  have a'': "ba_n_used a'' = ?n" "ba_get_n_tokens a'' = ?n" using st(7) by (simp_all add: a''_def ba_get_n_tokens_def)
  obtain ok sts k' where r: "prep_loop us k [] = Inr (ok, sts, k')" "fold restore_state sts k' = k"
    "ok \<longleftrightarrow> ?n \<le> card (free_cells k)"
    "ok \<Longrightarrow> length sts = length us \<and> placed_steps k (rev (map ps_sinfo sts)) us"
    using prep_loop_plain [OF assms(1) us, of "[]"] by (auto simp: total)
  have "ok \<Longrightarrow> sts \<noteq> []" using r(4) ne by auto
  then have init: "init_batch n_ubatch a' k = Inr (if ok then Some (rev (map ps_sinfo sts), us) else None, a'', k)"
    using coll a'' r(1,2) assms(1) by (auto simp: init_batch_def st(7) plain_cache_def prepare_def)
  show "\<not> ?n \<le> card (free_cells k) \<Longrightarrow> init_batch n_ubatch a' k = Inr (None, a'', k)"
    using init r(3) by auto
  show "?n \<le> card (free_cells k) \<Longrightarrow> \<exists>sinfos. init_batch n_ubatch a' k = Inr (Some (sinfos, us), a'', k) \<and>
      placed_steps k sinfos us"
    using init r(3,4) by auto
  show "(\<Union>u \<in> set us. ubatch_positions u t) = batch_positions (ba_batch a') t" by (rule pos)
  show "r \<in> set ?rs \<Longrightarrow> ubatch_ok k (fst (ubatch_add r (length r) False a')) \<and>
      ubatch_positions (fst (ubatch_add r (length r) False a')) t =
        {b_pos (ba_batch a') ! i | i. i \<in> set r \<and> t \<in> set (b_ids (ba_batch a') i)}" for r t
    using ok by blast
qed

lemma init_batch_plain:
  assumes "plain_cache k" "input_rows_ok inp"
    and acc: "ba_init n_vocab mem n_embd n_seq_max output_all inp a = Inr (True, a')"
    and "0 < ba_n_pos_per_embd a" "0 < n_seq_max" "n_seq_max \<le> length (kc_seq_to_stream k)" "batch_ok (ba_batch a')"
  shows "\<not> bt_n_tokens inp \<le> card (free_cells k) \<Longrightarrow> \<exists>a''. init_batch n_ubatch a' k = Inr (None, a'', k)"
    and "bt_n_tokens inp \<le> card (free_cells k) \<Longrightarrow> \<exists>sinfos us a'' k'.
      init_batch n_ubatch a' k = Inr (Some (sinfos, us), a'', k) \<and> apply_all sinfos us k = Inr k' \<and> plain_cache k' \<and>
      (\<forall>t < length (kc_seq_to_stream k). kv_positions k' t = kv_positions k t \<union> batch_positions (ba_batch a') t)"
proof -
  note steps = init_batch_steps [OF assms, where n_ubatch = n_ubatch]
  show "\<not> bt_n_tokens inp \<le> card (free_cells k) \<Longrightarrow> \<exists>a''. init_batch n_ubatch a' k = Inr (None, a'', k)"
    using steps(1) by blast
  assume "bt_n_tokens inp \<le> card (free_cells k)"
  then obtain sinfos us a'' where s: "init_batch n_ubatch a' k = Inr (Some (sinfos, us), a'', k)"
    "placed_steps k sinfos us" "\<And>t. (\<Union>u \<in> set us. ubatch_positions u t) = batch_positions (ba_batch a') t"
    using steps(2,4) by blast
  from s(2) obtain k' where "apply_all sinfos us k = Inr k'" "plain_cache k'" "same_frame k k'"
      "\<And>t. t < length (kc_seq_to_stream k) \<Longrightarrow> kv_positions k' t = kv_positions k t \<union> (\<Union>u \<in> set us. ubatch_positions u t)"
    by (rule placed_steps_all) blast
  then show "\<exists>sinfos us a'' k'.
      init_batch n_ubatch a' k = Inr (Some (sinfos, us), a'', k) \<and> apply_all sinfos us k = Inr k' \<and> plain_cache k' \<and>
      (\<forall>t < length (kc_seq_to_stream k). kv_positions k' t = kv_positions k t \<union> batch_positions (ba_batch a') t)"
    using s(1) unfolding s(3) by blast
qed

text \<open>
  C3. Decoding an accepted batch on a cache with one stream and no sliding window:
  \<open>init_batch\<close> fails exactly when the batch has more tokens than the cache has free cells, and
  then the cache is unchanged; otherwise applying the micro-batches one after the other
  adds to every sequence exactly the positions the batch has for it.
\<close>

theorem decode_places_batch:
  assumes "plain_cache k" "input_rows_ok inp"
    and "ba_init n_vocab mem n_embd n_seq_max output_all inp a = Inr (True, a')"
    and "0 < ba_n_pos_per_embd a" "0 < n_seq_max" "n_seq_max \<le> length (kc_seq_to_stream k)" "batch_ok (ba_batch a')"
  shows "if bt_n_tokens inp \<le> card (free_cells k)
    then \<exists>sinfos us a'' k'. init_batch n_ubatch a' k = Inr (Some (sinfos, us), a'', k) \<and>
      apply_all sinfos us k = Inr k' \<and> cache_inv k' \<and>
      (\<forall>t < length (kc_seq_to_stream k). kv_positions k' t = kv_positions k t \<union> batch_positions (ba_batch a') t)
    else \<exists>a''. init_batch n_ubatch a' k = Inr (None, a'', k)"
proof (cases "bt_n_tokens inp \<le> card (free_cells k)")
  case True
  then show ?thesis using init_batch_plain(2) [OF assms True, of n_ubatch] by (auto simp: plain_cache_def)
next
  case False
  then show ?thesis using init_batch_plain(1) [OF assms False] by simp
qed

definition fresh_cache :: kv_cache where
  "fresh_cache = projr (kv_cache_new True 8 4 1 0 SWA_NONE 1 False)"

lemma fresh_cache: "kv_cache_new True 8 4 1 0 SWA_NONE 1 False = Inr fresh_cache"
  by (simp add: fresh_cache_def kv_cache_new_def Let_def)

lemma fresh_cache_plain: "plain_cache fresh_cache" "free_cells fresh_cache = {..<8}"
  "length (kc_seq_to_stream fresh_cache) = 256" "\<And>s. s < 256 \<Longrightarrow> kv_positions fresh_cache s = {}"
proof -
  have n: "0 < (4 :: nat)" "(4 :: nat) \<le> LLAMA_MAX_SEQ" by (simp_all add: LLAMA_MAX_SEQ_def)
  note new = cache_inv_new [OF fresh_cache n]
  show l: "length (kc_seq_to_stream fresh_cache) = 256" using new(4) by (simp add: LLAMA_MAX_SEQ_def)
  show "plain_cache fresh_cache"
    using new(1) by (simp add: plain_cache_def) (simp add: fresh_cache_def kv_cache_new_def Let_def)
  show "s < 256 \<Longrightarrow> kv_positions fresh_cache s = {}" for s using new(2) l by simp
  have "kc_v_cells fresh_cache = [cells_resize 8 cells_new]" by (simp add: fresh_cache_def kv_cache_new_def Let_def)
  then show "free_cells fresh_cache = {..<8}"
    by (auto simp: free_cells_def cells_is_empty_def cells_resize_def cells_reset_def cells_new_def cells_size_def)
qed

definition first_batch :: llama_batch where
  "first_batch = \<lparr>bt_n_tokens = 4, bt_token = Some [5, 6, 7, 8], bt_embd = None,
     bt_pos = None, bt_n_seq_id = Some [1, 1, 1, 2], bt_seq_id = Some [[0], [0], [0], [1, 2]], bt_logits = None\<rparr>"

definition first_accepted :: batch_allocr where
  "first_accepted = snd (projr (ba_init 10 (Some (kv_memory fresh_cache)) 4 4 False first_batch (ba_new 1)))"

lemma first_accepted:
  "ba_init 10 (Some (kv_memory fresh_cache)) 4 4 False first_batch (ba_new 1) = Inr (True, first_accepted)"
  unfolding first_accepted_def by (rule accepted_projr) code_simp

lemma first_batch_ok: "input_rows_ok first_batch" "batch_ok (ba_batch first_accepted)" "bt_n_tokens first_batch = 4"
  by code_simp+

theorem decode_places_batch_witness:
  "\<exists>sinfos us a'' k'. init_batch 3 first_accepted fresh_cache = Inr (Some (sinfos, us), a'', fresh_cache) \<and>
     apply_all sinfos us fresh_cache = Inr k' \<and> cache_inv k' \<and>
     kv_positions k' 0 = batch_positions (ba_batch first_accepted) 0"
proof -
  have "(0 :: nat) < ba_n_pos_per_embd (ba_new 1)" by (simp add: ba_new_def)
  note d = decode_places_batch [OF fresh_cache_plain(1) first_batch_ok(1) first_accepted this _ _ first_batch_ok(2), of 3]
  have "4 \<le> length (kc_seq_to_stream fresh_cache)" "0 < length (kc_seq_to_stream fresh_cache)"
    by (simp_all add: fresh_cache_plain(3))
  then show ?thesis
    using d fresh_cache_plain(4) [of 0] by (force simp: first_batch_ok(3) fresh_cache_plain(2))
qed

text \<open>
  C7. For a model with one position per token and a cache with one stream and no sliding window, the cache as
  memory and the allocator's checks together keep every sequence free of gaps: if the positions the cache holds of a sequence form an interval, they still do
  after a batch that \<open>init\<close> accepted against this cache has been decoded into it.
\<close>

theorem decode_keeps_gap_free:
  assumes "plain_cache k" "input_rows_ok inp"
    and "ba_init n_vocab (Some (kv_memory k)) n_embd n_seq_max output_all inp a = Inr (True, a')"
    and "ba_n_pos_per_embd a = 1" "n_seq_max \<le> length (kc_seq_to_stream k)" "batch_ok (ba_batch a')"
    and "init_batch n_ubatch a' k = Inr (Some (sinfos, us), a'', k)"
    and "s < n_seq_max" "gap_free (kv_positions k s)"
  shows "\<exists>k'. apply_all sinfos us k = Inr k' \<and> gap_free (kv_positions k' s)"
proof -
  have inv: "cache_inv k" using assms(1) by (simp add: plain_cache_def)
  have seq: "0 < n_seq_max" "s < length (kc_seq_to_stream k)" using assms(5,8) by simp_all
  have pos: "0 < ba_n_pos_per_embd a" "ba_n_pos_per_embd a \<le> 1" using assms(4) by simp_all
  note r = init_batch_plain [OF assms(1-3) pos(1) seq(1) assms(5,6), of n_ubatch]
  obtain k' where "apply_all sinfos us k = Inr k'"
    "kv_positions k' s = kv_positions k s \<union> batch_positions (ba_batch a') s"
    using r assms(7) seq(2) by (cases "bt_n_tokens inp \<le> card (free_cells k)") auto
  then show ?thesis
    using kv.accepted_extends [OF inv assms(2) pos(2) assms(3) assms(8) seq(2) assms(9)] by auto
qed

theorem decode_keeps_gap_free_witness:
  "\<exists>sinfos us a'' k'. init_batch 3 first_accepted fresh_cache = Inr (Some (sinfos, us), a'', fresh_cache) \<and>
     apply_all sinfos us fresh_cache = Inr k' \<and> gap_free (kv_positions k' 0)"
proof -
  have pos: "0 < ba_n_pos_per_embd (ba_new 1)" "ba_n_pos_per_embd (ba_new 1) = 1" by (simp_all add: ba_new_def)
  have len: "4 \<le> length (kc_seq_to_stream fresh_cache)" by (simp add: fresh_cache_plain(3))
  have "bt_n_tokens first_batch \<le> card (free_cells fresh_cache)" by (simp add: first_batch_ok(3) fresh_cache_plain(2))
  from init_batch_plain(2) [OF fresh_cache_plain(1) first_batch_ok(1) first_accepted pos(1) _ len first_batch_ok(2) this, of 3]
  obtain sinfos us a'' where i: "init_batch 3 first_accepted fresh_cache = Inr (Some (sinfos, us), a'', fresh_cache)"
    by auto
  then show ?thesis
    using decode_keeps_gap_free [OF fresh_cache_plain(1) first_batch_ok(1) first_accepted pos(2) len first_batch_ok(2) i, of 0]
      fresh_cache_plain(4) [of 0] by auto
qed

text \<open>Witnesses of the earlier properties.\<close>

definition busy_cache :: kv_cache where
  "busy_cache = set_stream 0 0 sample_cells (projr (kv_cache_new True 3 4 1 0 SWA_NONE 1 False))"

lemma busy_cache_plain: "plain_cache busy_cache" "valid_seq busy_cache 1" "valid_seq busy_cache 2"
  "kc_n_pos_per_embd busy_cache = 1" "kc_n_stream busy_cache = 1" "kc_cells busy_cache 0 = sample_cells"
  "length (kc_seq_to_stream busy_cache) = 256" "stream_of busy_cache 1 = stream_of busy_cache 2"
proof -
  define k0 where "k0 = projr (kv_cache_new True 3 4 1 0 SWA_NONE 1 False)"
  have b: "busy_cache = set_stream 0 0 sample_cells k0" by (simp add: busy_cache_def k0_def)
  have new: "kv_cache_new True 3 4 1 0 SWA_NONE 1 False = Inr k0" by (simp add: k0_def kv_cache_new_def Let_def)
  have n: "0 < (4 :: nat)" "(4 :: nat) \<le> LLAMA_MAX_SEQ" by (simp_all add: LLAMA_MAX_SEQ_def)
  note inv = cache_inv_new [OF new n]
  have k: "kc_n_stream k0 = 1" "kc_swa_type k0 = SWA_NONE" "kc_n_pos_per_embd k0 = 1"
    "length (kc_v_cells k0) = 1" "\<forall>s < 256. kc_seq_to_stream k0 ! s = 0"
    by (simp_all add: k0_def kv_cache_new_def Let_def LLAMA_MAX_SEQ_def)
  have c: "cells_inv sample_cells" using sample_cells_reachable by (rule cells_reachable_inv)
  have size: "cells_size sample_cells = 3" by code_simp
  have len: "length (kc_seq_to_stream k0) = 256" using inv(4) by (simp add: LLAMA_MAX_SEQ_def)
  have "cache_inv busy_cache" unfolding b
    by (rule cache_inv_set_stream [OF inv(1) _ c]) (simp_all add: k size inv(3))
  then show "plain_cache busy_cache" by (simp add: plain_cache_def) (simp add: b k)
  show "length (kc_seq_to_stream busy_cache) = 256" by (simp add: b len)
  then show "valid_seq busy_cache 1" "valid_seq busy_cache 2" by (simp_all add: valid_seq_def)
  show "kc_n_pos_per_embd busy_cache = 1" "kc_n_stream busy_cache = 1" "kc_cells busy_cache 0 = sample_cells"
    "stream_of busy_cache 1 = stream_of busy_cache 2"
    by (simp_all add: b k stream_of_def)
qed

lemma busy_cache_inv: "cache_inv busy_cache"
  using busy_cache_plain(1) by (simp add: plain_cache_def)

lemma busy_cache_empty_2: "kv_positions busy_cache 2 = {}"
proof -
  have "kc_seq_to_stream busy_cache ! 2 = 0" using plain_stream [OF busy_cache_plain(1)] busy_cache_plain(7) by simp
  moreover have "kv_seq sample_cells = [{1}, {}, {1}]" "cells_size sample_cells = 3" by code_simp+
  ultimately show ?thesis
    by (auto simp: kv_positions_def busy_cache_plain(6) seq_positions_def nth_Cons' split: if_splits)
qed

theorem seq_rm_removes_range_witness:
  "\<exists>k'. kv_seq_rm 1 0 5 busy_cache = Inr (True, k') \<and> cache_inv k' \<and>
    kv_positions k' 1 = kv_positions busy_cache 1 - {0..<5}"
  using seq_rm_removes_range [OF busy_cache_inv busy_cache_plain(2), of 0 5] by (auto simp: lo_bound_def hi_bound_def)

theorem seq_rm_any_removes_range_witness:
  "\<exists>k'. kv_seq_rm (-1) (-1) 9 busy_cache = Inr (True, k') \<and> kv_positions k' 1 = kv_positions busy_cache 1 - {0..<9}"
  using seq_rm_any_removes_range [OF busy_cache_inv, of "-1" 9] busy_cache_plain(7)
  by (auto simp: lo_bound_def hi_bound_def)

theorem seq_keep_keeps_one_witness:
  "\<exists>k'. kv_seq_keep 1 busy_cache = Inr k' \<and> cache_inv k' \<and> kv_positions k' 1 = kv_positions busy_cache 1"
  using seq_keep_keeps_one [OF busy_cache_inv busy_cache_plain(2)] by auto

theorem seq_cp_copies_range_witness:
  "\<exists>k'. kv_seq_cp 1 2 5 (-1) busy_cache = Inr k' \<and> cache_inv k' \<and>
    kv_positions k' 2 = kv_positions busy_cache 1 \<inter> {5..<2147483647}"
  using seq_cp_copies_range [OF busy_cache_inv busy_cache_plain(2,3) _ busy_cache_plain(8), of 5 "-1"] busy_cache_empty_2
  by (auto simp: lo_bound_def hi_bound_def LLAMA_POS_MAX_def)

theorem seq_add_shifts_range_witness:
  "\<exists>k'. kv_seq_add 1 5 (-1) (-3) busy_cache = Inr k' \<and> cache_inv k' \<and>
    kv_positions k' 1 = (kv_positions busy_cache 1 - {5..<2147483647}) \<union>
      {p + -3 | p. p \<in> kv_positions busy_cache 1 \<inter> {5..<2147483647} \<and> 0 \<le> p + -3}"
proof -
  have cells: "kc_cells busy_cache (stream_of busy_cache 1) = sample_cells"
    using plain_stream [OF busy_cache_plain(1), of 1] busy_cache_plain(6,7) by (simp add: stream_of_def)
  have "shift_fits busy_cache 1 5 (-1) (-3)" unfolding shift_fits_def cells Let_def by code_simp
  moreover have "list_all in_int32 (kv_pos sample_cells)" "length (kv_pos sample_cells) = cells_size sample_cells" by code_simp+
  then have "\<forall>p \<in> kv_positions busy_cache (nat 1). in_int32 p"
    using cells by (auto simp: kv_positions_def seq_positions_def stream_of_def list_all_length)
  ultimately show ?thesis
    using seq_add_shifts_range [OF busy_cache_inv busy_cache_plain(2,4), of 5 "-1" "-3"]
    by (auto simp: lo_bound_def hi_bound_def LLAMA_POS_MAX_def)
qed

theorem find_cells_exact_witness:
  "\<exists>idxs. find_cells busy_cache False 1 0 = Inr (Some idxs) \<and> length idxs = 1"
proof -
  let ?S = "{i. i < cells_size (kc_cells busy_cache 0) \<and> can_use_cell busy_cache (kc_cells busy_cache 0) i}"
  have "1 < cells_size sample_cells" "cells_is_empty sample_cells 1" by code_simp+
  then have "1 \<in> ?S" by (simp add: busy_cache_plain(6) can_use_plain [OF busy_cache_plain(1)])
  then have "1 \<le> card ?S" using card_mono [of ?S "{1}"] by simp
  moreover have "(0 :: nat) < kc_n_stream busy_cache" by (simp add: busy_cache_plain(5))
  ultimately show ?thesis
    using find_cells_exact [OF busy_cache_inv, of 0 1] by auto
qed

definition one_token :: ubatch where
  "one_token = \<lparr>ub_equal_seqs = False, ub_n_tokens = 1, ub_n_seq_tokens = 1, ub_n_seqs = 1, ub_n_seqs_unq = 1,
     ub_n_pos = 1, ub_token = Some [7], ub_embd = None, ub_pos = [5], ub_n_seq_id = [1], ub_seq_id = [[1]],
     ub_seq_id_unq = [1], ub_seq_idx = [], ub_output = [True]\<rparr>"

theorem prepare_restores_witness:
  "\<exists>sinfos. prepare [one_token] busy_cache = Inr (sinfos, busy_cache) \<and>
    (sinfos \<noteq> [] \<longleftrightarrow> 1 \<le> card (free_cells busy_cache))"
proof -
  have "ubatch_ok busy_cache one_token"
    by (simp add: ubatch_ok_def one_token_def token_ok_def busy_cache_plain(7) LLAMA_MAX_SEQ_def)
  then show ?thesis
    using prepare_restores [OF busy_cache_plain(1), of "[one_token]"] by (simp add: total_tokens_def one_token_def)
qed

section \<open>Where the code departs from what it means to do\<close>

text \<open>Small states for the properties below, given by their cells and counters.\<close>

lemma purge_filter: "purge rm (filter (\<lambda>s. rm s \<noteq> -1) ss) k = purge rm ss k"
  by (induction rm ss k rule: purge.induct) (simp_all add: Let_def split: sum.splits)

lemma apply_ubatch_code [code]:
  "apply_ubatch si u k =
     bind_outcome (si_size si) (\<lambda>n.
       let (rm, k) = fold (place_stream si u n) [0..<si_n_stream si] ((\<lambda>_. -1), k)
       in bind_outcome (purge rm (filter (\<lambda>s. rm s \<noteq> -1) [0..<LLAMA_MAX_SEQ]) k) (\<lambda>k. Inr (move_heads si k)))"
  by (simp add: apply_ubatch_def purge_filter)

definition seq_token :: "llama_pos \<Rightarrow> llama_seq_id list \<Rightarrow> ubatch" where
  "seq_token p ids = one_token\<lparr>ub_pos := [p], ub_n_seq_id := [length ids], ub_seq_id := [ids], ub_seq_id_unq := [hd ids]\<rparr>"

definition cells_of :: "llama_pos list \<Rightarrow> llama_seq_id set list \<Rightarrow> (llama_seq_id \<Rightarrow> pos_map) \<Rightarrow> kv_cells" where
  "cells_of ps ss cnt = \<lparr>kv_has_shift = False, kv_used = set (filter (\<lambda>i. ps ! i \<noteq> -1) [0..<length ps]), kv_pos = ps,
     kv_ext = map (\<lambda>_. ext_reset) ps, kv_shift = map (\<lambda>_. 0) ps, kv_seq = ss, kv_seq_pos = cnt\<rparr>"

definition cache_of :: "kv_cells list \<Rightarrow> nat list \<Rightarrow> nat list \<Rightarrow> llama_swa_type \<Rightarrow> nat \<Rightarrow> kv_cache" where
  "cache_of cs hs ss t w = \<lparr>kc_n_seq_max = 2, kc_n_stream = length cs, kc_n_pad = 1, kc_n_swa = w, kc_swa_type = t,
     kc_n_pos_per_embd = 1, kc_arch_step35 = False, kc_v_heads = hs, kc_v_cells = cs, kc_seq_to_stream = ss, kc_sc_info = []\<rparr>"

lemma cells_of_inv:
  assumes "length ss = length ps" "\<forall>x \<in> set (zip ps ss). cell_ok x"
    and "\<And>s p. pm_inv (cnt s) \<and> pm_count (cnt s) p = int (occ (zip ps ss) s p)"
  shows "cells_inv (cells_of ps ss cnt)" "cells_size (cells_of ps ss cnt) = length ps"
  using assms by (auto simp: cells_inv_def cells_of_def cells_shape_def cells_size_def cells_view_def)

definition two_streams :: kv_cache where
  "two_streams = cache_of [cells_of [-1, -1] [{}, {}] (\<lambda>_. []),
       cells_of [0, -1] [{1}, {}] (\<lambda>s. if s = 1 then [(0, 1)] else [])] [0, 1] [0, 1] SWA_NONE 0"

definition window_cache :: kv_cache where
  "window_cache = cache_of [cells_of [0, 2, 1] [{0}, {0}, {0}] (\<lambda>s. if s = 0 then [(0, 1), (1, 1), (2, 1)] else [])]
     [2] (replicate LLAMA_MAX_SEQ 0) SWA_STANDARD 2"

lemma two_streams_inv: "cache_inv two_streams"
proof -
  have "cells_inv (cells_of [-1, -1] [{}, {}] (\<lambda>_. []))"
    by (rule cells_of_inv) (auto simp: cell_ok_def occ_def)
  moreover have "cells_inv (cells_of [0, -1] [{1}, {}] (\<lambda>s. if s = 1 then [(0, 1)] else []))"
    by (rule cells_of_inv) (auto simp: cell_ok_def occ_def LLAMA_MAX_SEQ_def)
  ultimately show ?thesis
    by (auto simp: cache_inv_def two_streams_def cache_of_def kv_get_size_def less_Suc_eq LLAMA_MAX_SEQ_def)
      (simp_all add: cells_of_def cells_size_def)
qed

lemma window_cache_inv: "cache_inv window_cache"
proof -
  have "cells_inv (cells_of [0, 2, 1] [{0}, {0}, {0}] (\<lambda>s. if s = 0 then [(0, 1), (1, 1), (2, 1)] else []))"
    by (rule cells_of_inv) (auto simp: cell_ok_def occ_def LLAMA_MAX_SEQ_def)
  then show ?thesis
    by (auto simp: cache_inv_def window_cache_def cache_of_def kv_get_size_def LLAMA_MAX_SEQ_def)
      (simp_all add: cells_of_def cells_size_def)
qed

text \<open>
  With several streams \<open>prepare\<close> does not put the heads back: it saves all heads but reads
  the saved ones by the index of the stream within the slot. On a consistent cache with
  heads 0 and 1, preparing a token of sequence 1 leaves the heads 0 and 0.
\<close>

theorem prepare_loses_head:
  "cache_inv two_streams \<and> kc_v_heads two_streams = [0, 1] \<and>
   map_sum id (\<lambda>(_, k). kc_v_heads k) (prepare [seq_token 1 [1]] two_streams) = Inr [0, 0]"
proof (intro conjI)
  show "cache_inv two_streams" by (rule two_streams_inv)
  show "kc_v_heads two_streams = [0, 1]" by code_simp
  show "map_sum id (\<lambda>(_, k). kc_v_heads k) (prepare [seq_token 1 [1]] two_streams) = Inr [0, 0]" by code_simp
qed

text \<open>
  With a sliding window \<open>prepare\<close> does not put back the cells that \<open>apply_ubatch\<close> purges: on
  a consistent cache that holds positions 0, 2 and 1 of sequence 0 in its three cells,
  preparing the token for position 3 makes the cache forget position 0.
\<close>

theorem prepare_forgets_purged:
  "cache_inv window_cache \<and> kv_pos (kc_cells window_cache 0) = [0, 2, 1] \<and>
   map_sum id (\<lambda>(_, k). kv_pos (kc_cells k 0)) (prepare [seq_token 3 [0]] window_cache) = Inr [-1, 2, 1]"
proof (intro conjI)
  show "cache_inv window_cache" by (rule window_cache_inv)
  show "kv_pos (kc_cells window_cache 0) = [0, 2, 1]" by code_simp
  show "map_sum id (\<lambda>(_, k). kv_pos (kc_cells k 0)) (prepare [seq_token 3 [0]] window_cache) = Inr [-1, 2, 1]" by code_simp
qed

text \<open>
  Copying a sequence twice counts its positions twice, because only an \<open>assert\<close> guards
  \<open>seq_add\<close>: after both copies and the removal of the destination, \<open>seq_pos_max\<close> still reports
  a position for it.
\<close>

definition one_cell_cache :: kv_cache where
  "one_cell_cache = cache_of [cells_of [3, -1] [{0}, {}] (\<lambda>s. if s = 0 then [(3, 1)] else [])] [1] [0, 0] SWA_NONE 0"

definition copied_twice :: kv_cache where
  "copied_twice = projr (kv_seq_cp 0 1 (-1) (-1) (projr (kv_seq_cp 0 1 (-1) (-1) one_cell_cache)))"

theorem seq_cp_twice_leaves_position:
  "map_sum id (\<lambda>(_, k). kv_seq_pos_max k 1) (kv_seq_rm 1 (-1) (-1) copied_twice) = Inr (Inr 3)"
  by code_simp

end
