(* ===== verification/Outputs.thy ===== *)
theory Outputs
  imports Batch
begin

text \<open>
  The outputs of a context (\<open>llama-context.cpp\<close>): the rows of logits that a decode wrote,
  the table from batch tokens to rows, the swaps that put the rows into batch order, and
  the lazy \<open>output_reorder\<close> behind \<open>llama_get_logits_ith\<close>.

  The logits buffer is a list of rows of \<open>n_vocab\<close> floats; swapping two rows element by
  element is swapping the entries of that list. There are no backend samplers and no
  embeddings buffer.
\<close>

section \<open>Swapping rows\<close>

definition swap :: "nat \<Rightarrow> nat \<Rightarrow> 'a list \<Rightarrow> 'a list" where
  "swap i j xs = xs[i := xs ! j, j := xs ! i]"

definition apply_swaps :: "(nat \<times> nat) list \<Rightarrow> 'a list \<Rightarrow> 'a list" where
  "apply_swaps sw xs = fold (\<lambda>(i, j). swap i j) sw xs"

lemma length_swap [simp]: "length (swap i j xs) = length xs"
  by (simp add: swap_def)

lemma swap_nth:
  assumes "i < length xs" "j < length xs" "k < length xs"
  shows "swap i j xs ! k = (if k = i then xs ! j else if k = j then xs ! i else xs ! k)"
  using assms by (auto simp: swap_def nth_list_update)

lemma mset_swap: "i < length xs \<Longrightarrow> j < length xs \<Longrightarrow> mset (swap i j xs) = mset xs"
  by (simp add: swap_def mset_swap)

lemma map_swap: "i < length xs \<Longrightarrow> j < length xs \<Longrightarrow> swap i j (map f xs) = map f (swap i j xs)"
  by (simp add: swap_def map_update)

lemma take_swap: "i < n \<Longrightarrow> j < n \<Longrightarrow> n \<le> length xs \<Longrightarrow> take n (swap i j xs) = swap i j (take n xs)"
  by (simp add: swap_def take_update_swap)

lemma apply_swaps_simps [simp]:
  "apply_swaps [] xs = xs"
  "apply_swaps ((i, j) # sw) xs = apply_swaps sw (swap i j xs)"
  "apply_swaps (sw @ sw') xs = apply_swaps sw' (apply_swaps sw xs)"
  "length (apply_swaps sw xs) = length xs"
proof -
  show "length (apply_swaps sw xs) = length xs"
    by (induction sw arbitrary: xs) (auto simp: apply_swaps_def)
qed (simp_all add: apply_swaps_def)

definition swaps_below :: "nat \<Rightarrow> (nat \<times> nat) list \<Rightarrow> bool" where
  "swaps_below n sw \<longleftrightarrow> (\<forall>(i, j) \<in> set sw. i < n \<and> j < n)"

lemma apply_swaps_below:
  assumes "swaps_below n sw"
  shows "n \<le> length xs \<Longrightarrow> mset (apply_swaps sw xs) = mset xs"
    and "n \<le> length xs \<Longrightarrow> apply_swaps sw (map f xs) = map f (apply_swaps sw xs)"
    and "n \<le> length xs \<Longrightarrow> take n (apply_swaps sw xs) = apply_swaps sw (take n xs)"
  using assms
  by (induction sw arbitrary: xs) (auto simp: swaps_below_def mset_swap map_swap take_swap)

text \<open>The permutation of \<open>[0..<n]\<close> that a list of swaps realises.\<close>

definition perm_of :: "nat \<Rightarrow> (nat \<times> nat) list \<Rightarrow> nat list" where
  "perm_of n sw = apply_swaps sw [0..<n]"

lemma length_perm_of [simp]: "length (perm_of n sw) = n"
  by (simp add: perm_of_def)

lemma set_perm_of: "swaps_below n sw \<Longrightarrow> set (perm_of n sw) = {..<n}"
  using mset_eq_setD [OF apply_swaps_below(1) [of n sw "[0..<n]"]] by (simp add: perm_of_def atLeast0LessThan)

lemma apply_swaps_perm:
  assumes "swaps_below n sw" "n \<le> length xs" "k < n"
  shows "apply_swaps sw xs ! k = xs ! (perm_of n sw ! k)"
proof -
  have "take n (apply_swaps sw xs) = apply_swaps sw (map ((!) xs) [0..<n])"
    using apply_swaps_below(3) [OF assms(1,2)] assms(2) by (simp add: take_map [symmetric] map_nth min_absorb2
        take_upt [symmetric] del: take_upt) (metis add_0 map_nth take_map take_upt)
  also have "\<dots> = map ((!) xs) (perm_of n sw)" using apply_swaps_below(2) [OF assms(1), of "[0..<n]"] by (simp add: perm_of_def)
  finally have "take n (apply_swaps sw xs) ! k = map ((!) xs) (perm_of n sw) ! k" by simp
  then show ?thesis using assms(3) by simp
qed

section \<open>The outputs of a decode\<close>

record outputs =
  lc_n_outputs :: nat
  lc_output_ids :: "int list"
  lc_output_swaps :: "(nat \<times> nat) list"
  lc_logits :: "float32 list list"

text \<open>The selection sort of \<open>out_ids\<close> that remembers its swaps.\<close>

definition select_min :: "nat list \<Rightarrow> nat \<Rightarrow> nat" where
  "select_min ids i = fold (\<lambda>j j_min. if ids ! j < ids ! j_min then j else j_min) [i + 1..<length ids] i"

definition sort_step :: "nat \<Rightarrow> nat list \<times> (nat \<times> nat) list \<Rightarrow> nat list \<times> (nat \<times> nat) list" where
  "sort_step i st = (let (ids, sw) = st; j = select_min ids i
     in if j = i then (ids, sw) else (swap i j ids, sw @ [(i, j)]))"

definition number_rows :: "nat list \<Rightarrow> int list \<Rightarrow> int list" where
  "number_rows ids oi = fold (\<lambda>i oi. oi[ids ! i := int i]) [0..<length ids] oi"

text \<open>The end of \<open>llama_context::decode\<close>: the output mapping for \<open>n\<close> outputs.\<close>

definition set_outputs :: "nat \<Rightarrow> nat list \<Rightarrow> outputs \<Rightarrow> outputs outcome" where
  "set_outputs n out_ids o1 =
     (let o1 = o1\<lparr>lc_n_outputs := n\<rparr>
      in if n > 0 then
           (if length out_ids \<noteq> n then Inl Assert_failed
            else let o1 = o1\<lparr>lc_output_ids := number_rows out_ids (lc_output_ids o1)\<rparr>;
                     sorted_output = list_all (\<lambda>i. out_ids ! i = i) [0..<n]
              in if \<not> sorted_output \<and> n > 1 then
                   let (ids, sw) = fold sort_step [0..<n - 1] (out_ids, lc_output_swaps o1);
                       oi = map (\<lambda>_. -1) (lc_output_ids o1)
                   in Inr (o1\<lparr>lc_output_swaps := sw, lc_output_ids := number_rows ids oi\<rparr>)
                 else Inr o1)
         else Inr o1)"

definition output_reorder :: "outputs \<Rightarrow> outputs" where
  "output_reorder o1 = o1\<lparr>lc_logits := apply_swaps (lc_output_swaps o1) (lc_logits o1), lc_output_swaps := []\<rparr>"

definition output_resolve_row :: "outputs \<Rightarrow> int \<Rightarrow> nat outcome" where
  "output_resolve_row o1 i =
     (if i < 0 \<and> int (lc_n_outputs o1) + i < 0 then Inl (Runtime_error ''negative index out of range'')
      else if i \<ge> 0 \<and> nat i \<ge> length (lc_output_ids o1) then Inl (Runtime_error ''out of range'')
      else let j = (if i < 0 then int (lc_n_outputs o1) + i else lc_output_ids o1 ! nat i)
        in if j < 0 then Inl (Runtime_error ''batch.logits[i] != true'')
           else if j \<ge> int (lc_n_outputs o1) then Inl (Runtime_error ''corrupt output buffer'')
           else Inr (nat j))"

text \<open>A release build catches the exception and returns the null pointer, here \<open>None\<close>. A buffer that does not exist has no rows.\<close>

definition get_logits_ith :: "int \<Rightarrow> outputs \<Rightarrow> float32 list option \<times> outputs" where
  "get_logits_ith i o1 = (let o1 = output_reorder o1
     in (if lc_logits o1 = [] then None
         else case output_resolve_row o1 i of Inl _ \<Rightarrow> None | Inr j \<Rightarrow> Some (lc_logits o1 ! j), o1))"

section \<open>The selection sort\<close>

lemma select_min_least:
  assumes "i < length ids"
  shows "i \<le> select_min ids i" "select_min ids i < length ids"
    "\<And>k. i \<le> k \<Longrightarrow> k < length ids \<Longrightarrow> ids ! select_min ids i \<le> ids ! k"
proof -
  define f where "f = (\<lambda>j j_min. if ids ! j < ids ! j_min then j else j_min)"
  have "i \<le> fold f [i + 1..<m] i \<and> fold f [i + 1..<m] i < m \<and> (\<forall>k. i \<le> k \<and> k < m \<longrightarrow> ids ! fold f [i + 1..<m] i \<le> ids ! k)"
    if "i < m" for m
    using that
  proof (induction m)
    case (Suc m)
    show ?case
    proof (cases "i = m")
      case False
      then have "i < m" using Suc.prems by simp
      then show ?thesis using Suc.IH by (auto simp: f_def less_Suc_eq intro: order.trans less_imp_le)
    qed (auto simp: f_def less_Suc_eq)
  qed simp
  from this [OF assms]
  show "i \<le> select_min ids i" "select_min ids i < length ids"
    "\<And>k. i \<le> k \<Longrightarrow> k < length ids \<Longrightarrow> ids ! select_min ids i \<le> ids ! k"
    by (simp_all add: select_min_def f_def)
qed

definition sorted_until :: "nat \<Rightarrow> nat list \<Rightarrow> bool" where
  "sorted_until i ids \<longleftrightarrow> (\<forall>a b. a < i \<and> a < b \<and> b < length ids \<longrightarrow> ids ! a \<le> ids ! b)"

lemma sort_step_sorts:
  assumes "i < length ids" "sorted_until i ids"
  shows "\<exists>sw'. sort_step i (ids, sw) = (apply_swaps sw' ids, sw @ sw') \<and> swaps_below (length ids) sw' \<and>
    sorted_until (Suc i) (apply_swaps sw' ids)"
proof -
  let ?j = "select_min ids i"
  note j = select_min_least [OF assms(1)]
  have s: "sorted_until (Suc i) (swap i ?j ids)"
    unfolding sorted_until_def
  proof (intro allI impI, elim conjE)
    fix a b assume ab: "a < Suc i" "a < b" "b < length (swap i ?j ids)"
    show "swap i ?j ids ! a \<le> swap i ?j ids ! b"
      using ab assms j by (cases "a = i") (auto simp: swap_nth sorted_until_def)
  qed
  show ?thesis
  proof (cases "?j = i")
    case True
    then show ?thesis using s by (intro exI [of _ "[]"]) (simp add: sort_step_def swaps_below_def swap_def)
  next
    case False
    then show ?thesis
      using s j(2) assms(1) by (intro exI [of _ "[(i, ?j)]"]) (simp add: sort_step_def swaps_below_def Let_def)
  qed
qed

lemma sort_steps:
  assumes "m \<le> length ids"
  shows "\<exists>sw'. fold sort_step [0..<m] (ids, sw) = (apply_swaps sw' ids, sw @ sw') \<and> swaps_below (length ids) sw' \<and>
    sorted_until m (apply_swaps sw' ids)"
  using assms
proof (induction m)
  case 0
  show ?case by (intro exI [of _ "[]"]) (simp add: swaps_below_def sorted_until_def)
next
  case (Suc m)
  then obtain sw1 where 1: "fold sort_step [0..<m] (ids, sw) = (apply_swaps sw1 ids, sw @ sw1)"
    "swaps_below (length ids) sw1" "sorted_until m (apply_swaps sw1 ids)" by auto
  obtain sw2 where 2: "sort_step m (apply_swaps sw1 ids, sw @ sw1) = (apply_swaps sw2 (apply_swaps sw1 ids), (sw @ sw1) @ sw2)"
    "swaps_below (length ids) sw2" "sorted_until (Suc m) (apply_swaps sw2 (apply_swaps sw1 ids))"
    using sort_step_sorts [of m "apply_swaps sw1 ids" "sw @ sw1"] Suc.prems 1(3) by auto
  show ?case using 1 2 by (intro exI [of _ "sw1 @ sw2"]) (auto simp: swaps_below_def)
qed

lemma selection_sort:
  obtains sw where "fold sort_step [0..<length ids - 1] (ids, []) = (apply_swaps sw ids, sw)"
    "swaps_below (length ids) sw" "sorted (apply_swaps sw ids)"
proof -
  obtain sw where sw: "fold sort_step [0..<length ids - 1] (ids, []) = (apply_swaps sw ids, sw)"
    "swaps_below (length ids) sw" "sorted_until (length ids - 1) (apply_swaps sw ids)"
    using sort_steps [of "length ids - 1" ids "[]"] by auto
  have "sorted (apply_swaps sw ids)"
    using sw(3) unfolding sorted_iff_nth_mono_less sorted_until_def by (auto simp: less_diff_conv)
  then show ?thesis using sw that by blast
qed

lemma number_rows_nth:
  assumes "distinct ids" "\<forall>x \<in> set ids. x < length oi"
  shows "length (number_rows ids oi) = length oi"
    "k < length ids \<Longrightarrow> number_rows ids oi ! (ids ! k) = int k"
    "t < length oi \<Longrightarrow> t \<notin> set ids \<Longrightarrow> number_rows ids oi ! t = oi ! t"
proof -
  have *: "m \<le> length ids \<Longrightarrow> length (fold (\<lambda>i oi. oi[ids ! i := int i]) [0..<m] oi) = length oi \<and>
      (\<forall>k < m. fold (\<lambda>i oi. oi[ids ! i := int i]) [0..<m] oi ! (ids ! k) = int k) \<and>
      (\<forall>t < length oi. t \<notin> set ids \<longrightarrow> fold (\<lambda>i oi. oi[ids ! i := int i]) [0..<m] oi ! t = oi ! t)" for m
  proof (induction m)
    case (Suc m)
    have "ids ! m < length oi" using assms(2) Suc.prems by simp
    moreover have "ids ! m \<noteq> ids ! k" if "k < m" for k
      using assms(1) Suc.prems that by (simp add: nth_eq_iff_index_eq)
    moreover have "ids ! m \<in> set ids" using Suc.prems by simp
    ultimately show ?case using Suc by (auto simp: nth_list_update less_Suc_eq)
  qed simp
  from * [of "length ids"] show "length (number_rows ids oi) = length oi"
    "k < length ids \<Longrightarrow> number_rows ids oi ! (ids ! k) = int k"
    "t < length oi \<Longrightarrow> t \<notin> set ids \<Longrightarrow> number_rows ids oi ! t = oi ! t"
    by (simp_all add: number_rows_def)
qed

section \<open>The rows belong to their tokens\<close>

text \<open>An output state whose rows, once reordered, are those of the tokens \<open>ids\<close> in this order.\<close>

definition rows_of :: "outputs \<Rightarrow> nat list \<Rightarrow> float32 list list \<Rightarrow> bool" where
  "rows_of o1 ids rows \<longleftrightarrow> lc_n_outputs o1 = length ids \<and> length ids \<le> length (lc_logits o1) \<and>
     take (length ids) (lc_logits (output_reorder o1)) = rows \<and>
     lc_output_ids o1 = number_rows ids (replicate (length (lc_output_ids o1)) (-1)) \<and>
     distinct ids \<and> (\<forall>x \<in> set ids. x < length (lc_output_ids o1))"

lemma rows_of_get:
  assumes "rows_of o1 ids rows"
  shows "k < length ids \<Longrightarrow> fst (get_logits_ith (int (ids ! k)) o1) = Some (rows ! k)"
    and "t \<notin> int ` set ids \<Longrightarrow> t \<ge> 0 \<Longrightarrow> fst (get_logits_ith t o1) = None"
    and "ids \<noteq> [] \<Longrightarrow> fst (get_logits_ith (-1) o1) = Some (last rows)"
proof -
  note r = assms [unfolded rows_of_def]
  let ?L = "length (lc_output_ids o1)"
  have len: "length (number_rows ids (replicate ?L (-1))) = ?L" by (rule number_rows_nth(1) [of ids, THEN trans]) (use r in simp_all)
  have [simp]: "lc_n_outputs (output_reorder o1) = lc_n_outputs o1" "lc_output_ids (output_reorder o1) = lc_output_ids o1"
    by (simp_all add: output_reorder_def)
  have "length (lc_logits (output_reorder o1)) = length (lc_logits o1)" by (simp add: output_reorder_def)
  then have some: "lc_logits (output_reorder o1) \<noteq> []" if "ids \<noteq> []" using that r by auto
  have row: "lc_logits (output_reorder o1) ! k = rows ! k" if "k < length ids" for k
    using r that by (metis nth_take)
  show "fst (get_logits_ith (int (ids ! k)) o1) = Some (rows ! k)" if k: "k < length ids"
  proof -
    have "lc_output_ids o1 ! (ids ! k) = int k" using r number_rows_nth(2) [of ids "replicate ?L (-1)" k] k by simp
    moreover have "ids ! k < ?L" "lc_n_outputs o1 = length ids" using r k by simp_all
    moreover have "ids \<noteq> []" using k by auto
    then have "lc_logits (output_reorder o1) \<noteq> []" by (rule some)
    ultimately show ?thesis using k row [OF k] by (simp add: get_logits_ith_def output_resolve_row_def Let_def)
  qed
  show "fst (get_logits_ith t o1) = None" if t: "t \<notin> int ` set ids" "t \<ge> 0"
  proof (cases "nat t < ?L")
    case True
    have "nat t \<notin> set ids" using t by force
    then have "lc_output_ids o1 ! nat t = -1"
      using r number_rows_nth(3) [of ids "replicate ?L (-1)" "nat t"] True by simp
    then show ?thesis using True t by (simp add: get_logits_ith_def output_resolve_row_def Let_def)
  next
    case False
    then show ?thesis using t by (simp add: get_logits_ith_def output_resolve_row_def Let_def)
  qed
  show "fst (get_logits_ith (-1) o1) = Some (last rows)" if "ids \<noteq> []"
  proof -
    have "length rows = length ids" using r by (metis apply_swaps_simps(4) length_take min_absorb2 output_reorder_def
          outputs.select_convs(4) outputs.simps(8) outputs.surjective outputs.update_convs(4))
    then have "last rows = rows ! (length ids - 1)" using that by (metis last_conv_nth length_0_conv)
    moreover have "nat (int (length ids) - 1) = length ids - 1" using that by (cases ids) simp_all
    moreover have "lc_n_outputs o1 = length ids" "0 < length ids" using r that by simp_all
    ultimately show ?thesis using row [of "length ids - 1"] some [OF that]
      by (simp add: get_logits_ith_def output_resolve_row_def Let_def)
  qed
qed

lemma set_outputs_rows:
  assumes "distinct out_ids" "\<forall>x \<in> set out_ids. x < N" "length out_ids \<le> length (lc_logits o1)"
    and "lc_output_swaps o1 = []" "lc_output_ids o1 = replicate N (-1)"
  obtains o2 sw where "set_outputs (length out_ids) out_ids o1 = Inr o2" "swaps_below (length out_ids) sw"
    "rows_of o2 (apply_swaps sw out_ids) (apply_swaps sw (take (length out_ids) (lc_logits o1)))"
    "sorted (apply_swaps sw out_ids)"
proof (cases "\<not> list_all (\<lambda>i. out_ids ! i = i) [0..<length out_ids] \<and> length out_ids > 1")
  case True
  let ?n = "length out_ids"
  obtain sw where sw: "fold sort_step [0..<?n - 1] (out_ids, []) = (apply_swaps sw out_ids, sw)"
    "swaps_below ?n sw" "sorted (apply_swaps sw out_ids)" by (rule selection_sort)
  let ?ids = "apply_swaps sw out_ids"
  have ids: "distinct ?ids" "set ?ids = set out_ids"
    using apply_swaps_below(1) [OF sw(2), of out_ids] assms(1) mset_eq_imp_distinct_iff mset_eq_setD by blast+
  let ?o = "o1\<lparr>lc_n_outputs := ?n, lc_output_swaps := sw, lc_output_ids := number_rows ?ids (replicate N (-1))\<rparr>"
  have len: "length (number_rows xs (replicate N (-1))) = N" if "distinct xs" "set xs = set out_ids" for xs
    using number_rows_nth(1) [of xs "replicate N (-1)"] that assms(2) by simp
  have eq: "set_outputs ?n out_ids o1 = Inr ?o"
    using True sw(1) len [OF assms(1) refl] assms(4,5)
    by (cases "out_ids = []") (simp_all add: set_outputs_def Let_def map_replicate_const)
  have "rows_of ?o ?ids (apply_swaps sw (take ?n (lc_logits o1)))"
    using ids assms(2,3) len [OF ids] apply_swaps_below(3) [OF sw(2) assms(3)]
    by (simp add: rows_of_def output_reorder_def)
  then show ?thesis using that [OF eq sw(2)] sw(3) by blast
next
  case False
  let ?n = "length out_ids" and ?o = "o1\<lparr>lc_n_outputs := length out_ids,
    lc_output_ids := number_rows out_ids (replicate N (-1))\<rparr>"
  have len: "length (number_rows out_ids (replicate N (-1))) = N"
    using number_rows_nth(1) [of out_ids "replicate N (-1)"] assms(1,2) by simp
  have "sorted out_ids"
  proof (cases "?n > 1")
    case True
    then have "\<forall>i < ?n. out_ids ! i = i" using False by (auto simp: list_all_iff)
    then show ?thesis by (simp add: sorted_iff_nth_mono)
  next
    case False
    then show ?thesis by (cases out_ids) auto
  qed
  moreover have "set_outputs ?n out_ids o1 = Inr ?o"
    using False assms(5) by (cases "out_ids = []") (auto simp: set_outputs_def Let_def number_rows_def)
  moreover have "rows_of ?o out_ids (take ?n (lc_logits o1))"
    using assms len by (simp add: rows_of_def output_reorder_def)
  ultimately show ?thesis using that [of ?o "[]"] by (simp add: swaps_below_def)
qed

lemma sorted_last_Max:
  fixes xs :: "nat list"
  assumes "sorted xs" "xs \<noteq> []"
  shows "last xs = Max (set xs)"
proof -
  have "sorted (butlast xs @ [last xs])" using assms by simp
  then have "\<forall>x \<in> set (butlast xs @ [last xs]). x \<le> last xs" by (auto simp: sorted_append)
  then show ?thesis using assms(2) by (intro Max_eqI [symmetric]) auto
qed

text \<open>
  C11. After a decode whose micro-batches wrote their output rows one after the other, in the
  order \<open>out_ids\<close> of the tokens: \<open>llama_get_logits_ith\<close> of a token is the row computed for
  that token, it is null for a token without output, and index -1 gives the last token of
  the batch that has an output.
\<close>

theorem outputs_belong_to_tokens:
  assumes "distinct out_ids" "\<forall>x \<in> set out_ids. x < N" "length out_ids \<le> length (lc_logits o1)"
    and "lc_output_swaps o1 = []" "lc_output_ids o1 = replicate N (-1)"
  shows "\<exists>o2. set_outputs (length out_ids) out_ids o1 = Inr o2 \<and>
    (\<forall>k < length out_ids. fst (get_logits_ith (int (out_ids ! k)) o2) = Some (lc_logits o1 ! k)) \<and>
    (\<forall>t \<ge> 0. t \<notin> int ` set out_ids \<longrightarrow> fst (get_logits_ith t o2) = None) \<and>
    (out_ids \<noteq> [] \<longrightarrow> fst (get_logits_ith (-1) o2) = fst (get_logits_ith (int (Max (set out_ids))) o2))"
proof -
  let ?n = "length out_ids" and ?rows = "take (length out_ids) (lc_logits o1)"
  obtain o2 sw where o2: "set_outputs ?n out_ids o1 = Inr o2" and sw: "swaps_below ?n sw"
    and rows: "rows_of o2 (apply_swaps sw out_ids) (apply_swaps sw ?rows)" and sorted: "sorted (apply_swaps sw out_ids)"
    by (rule set_outputs_rows [OF assms])
  let ?ids = "apply_swaps sw out_ids"
  have set: "set ?ids = set out_ids" using apply_swaps_below(1) [OF sw, of out_ids] mset_eq_setD by blast
  have "fst (get_logits_ith (int (out_ids ! k)) o2) = Some (lc_logits o1 ! k)" if k: "k < ?n" for k
  proof -
    obtain m where m: "m < ?n" "perm_of ?n sw ! m = k"
      using set_perm_of [OF sw] k by (metis in_set_conv_nth length_perm_of lessThan_iff)
    have "?ids ! m = out_ids ! k" "apply_swaps sw ?rows ! m = ?rows ! k"
      using apply_swaps_perm [OF sw _ m(1), of out_ids] apply_swaps_perm [OF sw _ m(1), of ?rows] m(2) assms(3) by simp_all
    then show ?thesis using rows_of_get(1) [OF rows, of m] m(1) k by simp
  qed
  moreover have "fst (get_logits_ith t o2) = None" if "t \<ge> 0" "t \<notin> int ` set out_ids" for t
    using rows_of_get(2) [OF rows, of t] that set by simp
  moreover have "fst (get_logits_ith (-1) o2) = fst (get_logits_ith (int (Max (set out_ids))) o2)" if ne: "out_ids \<noteq> []"
  proof -
    have ids: "?ids \<noteq> []" "length (apply_swaps sw ?rows) = length ?ids" 
      using ne assms(3) by (metis apply_swaps_simps(4) length_0_conv, simp add: min_absorb2)
    have "last ?ids = Max (set ?ids)" by (rule sorted_last_Max [OF sorted ids(1)])
    then have "int (Max (set out_ids)) = int (?ids ! (length ?ids - 1))" using ids(1) set by (simp add: last_conv_nth)
    moreover have "apply_swaps sw ?rows \<noteq> []" using ids by (metis length_0_conv)
    ultimately show ?thesis
      using rows_of_get(3) [OF rows ids(1)] rows_of_get(1) [OF rows, of "length ?ids - 1"] ids ne by (simp add: last_conv_nth)
  qed
  ultimately show ?thesis using o2 by blast
qed

text \<open>Three outputs written in the order 4, 0, 2, as a split by sequence can produce them.\<close>

definition sample_outputs :: outputs where
  "sample_outputs = \<lparr>lc_n_outputs = 0, lc_output_ids = replicate 6 (-1), lc_output_swaps = [], lc_logits = [[40], [0], [20]]\<rparr>"

theorem outputs_belong_to_tokens_witness:
  "\<exists>o2. set_outputs 3 [4, 0, 2] sample_outputs = Inr o2 \<and> fst (get_logits_ith 4 o2) = Some [40] \<and>
    fst (get_logits_ith 0 o2) = Some [0] \<and> fst (get_logits_ith 1 o2) = None \<and> fst (get_logits_ith (-1) o2) = Some [40]"
proof -
  obtain o2 where o2: "set_outputs 3 [4, 0, 2] sample_outputs = Inr o2"
    and rows: "\<forall>k < 3. fst (get_logits_ith (int ([4, 0, 2] ! k)) o2) = Some (lc_logits sample_outputs ! k)"
    and none: "\<forall>t \<ge> 0. t \<notin> int ` set [4, 0, 2] \<longrightarrow> fst (get_logits_ith t o2) = None"
    and last: "fst (get_logits_ith (-1) o2) = fst (get_logits_ith (int (Max (set [4, 0, 2]))) o2)"
    using outputs_belong_to_tokens [of "[4, 0, 2]" 6 sample_outputs] by (auto simp: sample_outputs_def numeral_3_eq_3)
  show ?thesis
    using o2 rows [rule_format, of 0] rows [rule_format, of 1] none [rule_format, of 1] last
    by (auto simp: sample_outputs_def)
qed

end
