(* ===== verification/Decode.thy ===== *)
theory Decode
  imports Kv_Slots Outputs
begin

text \<open>
  \<open>llama_context::decode\<close> (\<open>llama-context.cpp\<close>): a batch is checked, pending position shifts
  are carried out, the batch is split and placed in the KV cache, every micro-batch is
  computed, and a micro-batch that fails is taken out of the cache again.

  The model is a context with a KV cache as its memory, without backend samplers and without
  an embeddings buffer. The compute graph is outside the model: a record of functions
  answers for it, each of which sees and changes the state \<open>'w\<close> of the world outside.
\<close>

section \<open>Data\<close>

datatype ggml_status = GGML_STATUS_ALLOC_FAILED | GGML_STATUS_FAILED | GGML_STATUS_SUCCESS | GGML_STATUS_ABORTED

record 'w engine =
  en_rope :: bool
  en_shift :: "kv_cache \<Rightarrow> 'w \<Rightarrow> (bool \<times> bool) \<times> 'w"
  en_reserve :: "nat \<Rightarrow> 'w \<Rightarrow> bool \<times> 'w"
  en_compute :: "kv_cache \<Rightarrow> slot_info \<Rightarrow> ubatch \<Rightarrow> 'w \<Rightarrow> (ggml_status \<times> float32 list list) \<times> 'w"

record llama_context =
  lc_n_vocab :: nat
  lc_n_embd :: nat
  lc_n_seq_max :: nat
  lc_n_batch :: nat
  lc_n_ubatch :: nat
  lc_kv_unified :: bool
  lc_causal_attn :: bool
  lc_embeddings :: bool
  lc_memory :: kv_cache
  lc_balloc :: batch_allocr
  lc_out :: outputs

definition ctx_n_seq_max :: "llama_context \<Rightarrow> nat" where
  "ctx_n_seq_max c = (if lc_kv_unified c then LLAMA_MAX_SEQ else lc_n_seq_max c)"

section \<open>Updating the memory\<close>

text \<open>
  \<open>init_update\<close> and the status of its context: nothing to do when no shift and no stream
  copy is pending. The list of pending copies is moved out of the cache.
\<close>

definition kv_init_update :: "kv_cache \<Rightarrow> (bool \<times> bool) \<times> kv_cache" where
  "kv_init_update k = (let do_shift = kv_get_has_shift k
     in ((do_shift \<or> kc_sc_info k \<noteq> [], do_shift), k\<lparr>kc_sc_info := []\<rparr>))"

definition memory_update :: "'w engine \<Rightarrow> llama_context \<Rightarrow> 'w \<Rightarrow> (bool \<times> llama_context \<times> 'w) outcome" where
  "memory_update e c w =
     (let ((needed, do_shift), k) = kv_init_update (lc_memory c)
      in if \<not> needed then Inr (False, c\<lparr>lc_memory := k\<rparr>, w)
         else let ((alloc_ok, compute_ok), w) = en_shift e k w
           in bind_outcome (kv_update (en_rope e) alloc_ok compute_ok do_shift k)
                (\<lambda>(_, k). Inr (True, c\<lparr>lc_memory := k\<rparr>, w)))"

section \<open>Output buffers\<close>

definition output_reserve :: "bool \<Rightarrow> nat \<Rightarrow> llama_context \<Rightarrow> nat \<times> llama_context" where
  "output_reserve ok n c =
     (let n_max = max n (lc_n_seq_max c); o1 = lc_out c;
          o1 = (if lc_output_ids o1 = [] then o1\<lparr>lc_output_ids := replicate (lc_n_batch c) 0\<rparr> else o1)
      in if ok then (n_max, c\<lparr>lc_out := o1\<lparr>lc_logits := vec_resize n_max [] (lc_logits o1),
             lc_output_ids := map (\<lambda>_. -1) (lc_output_ids o1), lc_n_outputs := 0\<rparr>\<rparr>)
         else (0, c\<lparr>lc_out := o1\<lparr>lc_logits := []\<rparr>\<rparr>))"

definition write_rows :: "nat \<Rightarrow> 'a list \<Rightarrow> 'a list \<Rightarrow> 'a list" where
  "write_rows prev rows buf = take prev buf @ rows @ drop (prev + length rows) buf"

definition ubatch_outputs :: "nat \<Rightarrow> nat \<Rightarrow> ubatch \<Rightarrow> nat" where
  "ubatch_outputs n_outputs_all n_tokens_all u =
     (if n_outputs_all = n_tokens_all then ub_n_tokens u
      else length (filter (\<lambda>i. ub_output u ! i) [0..<ub_n_tokens u]))"

section \<open>Taking a failed micro-batch back\<close>

definition rollback_min :: "ubatch \<Rightarrow> llama_seq_id \<Rightarrow> llama_pos" where
  "rollback_min u = fold (\<lambda>i m. let s = ub_seq_id u ! i ! 0 in m(s := min (m s) (ub_pos u ! i)))
     [0..<ub_n_tokens u] (\<lambda>_. LLAMA_POS_MAX)"

fun rollback_seqs :: "(llama_seq_id \<Rightarrow> llama_pos) \<Rightarrow> llama_seq_id list \<Rightarrow> kv_cache \<Rightarrow> kv_cache outcome" where
  "rollback_seqs pm [] k = Inr k"
| "rollback_seqs pm (s # ss) k =
     (if pm s = LLAMA_POS_MAX then rollback_seqs pm ss k
      else bind_outcome (kv_seq_rm (int s) (pm s) (-1) k) (\<lambda>(_, k). rollback_seqs pm ss k))"

definition rollback :: "ubatch \<Rightarrow> kv_cache \<Rightarrow> kv_cache outcome" where
  "rollback u k = rollback_seqs (rollback_min u) [0..<LLAMA_MAX_SEQ] k"

definition status_code :: "ggml_status \<Rightarrow> int outcome" where
  "status_code st = (case st of
     GGML_STATUS_ABORTED \<Rightarrow> Inr 2 | GGML_STATUS_ALLOC_FAILED \<Rightarrow> Inr (-2) | GGML_STATUS_FAILED \<Rightarrow> Inr (-3)
   | GGML_STATUS_SUCCESS \<Rightarrow> Inl Aborted)"

section \<open>Decoding\<close>

text \<open>
  The loop over the micro-batches. \<open>process_ubatch\<close> applies the memory context, then runs
  the graph; it returns no result exactly when the status is not success.
\<close>

fun run_ubatches :: "'w engine \<Rightarrow> nat \<Rightarrow> nat \<Rightarrow> nat \<Rightarrow> slot_info list \<Rightarrow> ubatch list \<Rightarrow> llama_context \<Rightarrow> 'w \<Rightarrow>
    (int \<times> llama_context \<times> 'w) outcome" where
  "run_ubatches e n_out n_all prev (si # sis) (u # us) c w =
     (let n_new = ubatch_outputs n_out n_all u; c = c\<lparr>lc_out := (lc_out c)\<lparr>lc_n_outputs := n_new\<rparr>\<rparr>
      in bind_outcome (apply_ubatch si u (lc_memory c)) (\<lambda>k.
           let ((status, rows), w) = en_compute e k si u w
           in if status \<noteq> GGML_STATUS_SUCCESS then
                bind_outcome (rollback u k) (\<lambda>k. bind_outcome (status_code status) (\<lambda>r. Inr (r, c\<lparr>lc_memory := k\<rparr>, w)))
              else if n_new > 0 \<and> \<not> (prev + n_new \<le> n_out \<and> prev + n_new \<le> length (lc_logits (lc_out c))) then Inl Assert_failed
              else let o1 = (lc_out c)\<lparr>lc_logits := (if n_new > 0 then write_rows prev rows (lc_logits (lc_out c)) else lc_logits (lc_out c))\<rparr>
                in run_ubatches e n_out n_all (prev + n_new) sis us (c\<lparr>lc_memory := k, lc_out := o1\<rparr>) w))"
| "run_ubatches e n_out n_all prev _ _ c w = Inr (0, c, w)"

text \<open>The part of \<open>decode\<close> after the slots were found.\<close>

definition decode_slots :: "'w engine \<Rightarrow> slot_info list \<times> ubatch list \<Rightarrow> llama_context \<Rightarrow> 'w \<Rightarrow> (int \<times> llama_context \<times> 'w) outcome" where
  "decode_slots e = (\<lambda>(sis, us) c w.
     let n_all = ba_get_n_tokens (lc_balloc c); n_out = ba_n_outputs (lc_balloc c);
         (ok, w) = en_reserve e n_out w; (n_max, c) = output_reserve ok n_out c
     in if n_max < n_out then Inr (-2, c, w)
        else bind_outcome (run_ubatches e n_out n_all 0 sis us c w) (\<lambda>(r, c, w).
          if r \<noteq> 0 then Inr (r, c, w)
          else bind_outcome (set_outputs n_out (ba_out_ids (lc_balloc c)) (lc_out c)) (\<lambda>o1.
            Inr (0, c\<lparr>lc_out := o1\<rparr>, w))))"

text \<open>One call of \<open>init_batch\<close>; \<open>None\<close> stands for \<open>FAILED_PREPARE\<close>.\<close>

definition ctx_init_batch :: "llama_context \<Rightarrow> ((slot_info list \<times> ubatch list) option \<times> llama_context) outcome" where
  "ctx_init_batch c = bind_outcome (init_batch (lc_n_ubatch c) (lc_balloc c) (lc_memory c))
     (\<lambda>(r, a, k). Inr (r, c\<lparr>lc_balloc := a, lc_memory := k\<rparr>))"

text \<open>
  The retry loop: after a failure the memory is updated once more, and only if that did
  something the batch is tried a second time.
\<close>

definition decode_memory :: "'w engine \<Rightarrow> llama_context \<Rightarrow> 'w \<Rightarrow> (int \<times> llama_context \<times> 'w) outcome" where
  "decode_memory e c w =
     bind_outcome (memory_update e c w) (\<lambda>(_, c, w).
     bind_outcome (ctx_init_batch c) (\<lambda>(r, c). case r of
       Some sl \<Rightarrow> decode_slots e sl c w
     | None \<Rightarrow> bind_outcome (memory_update e c w) (\<lambda>(updated, c, w).
         if \<not> updated then Inr (1, c, w)
         else bind_outcome (ctx_init_batch c) (\<lambda>(r, c). case r of
           Some sl \<Rightarrow> decode_slots e sl c w
         | None \<Rightarrow> Inr (1, c, w)))))"

definition decode :: "'w engine \<Rightarrow> llama_batch \<Rightarrow> llama_context \<Rightarrow> 'w \<Rightarrow> (int \<times> llama_context \<times> 'w) outcome" where
  "decode e inp c w =
     (if \<not> ((bt_token inp = None \<and> bt_embd inp \<noteq> None) \<or> (bt_token inp \<noteq> None \<and> bt_embd inp = None)) then Inl Assert_failed
      else if bt_n_tokens inp = 0 then Inr (-1, c, w)
      else bind_outcome (ba_init (lc_n_vocab c) (Some (kv_memory (lc_memory c))) (lc_n_embd c) (ctx_n_seq_max c)
             (lc_embeddings c) inp (lc_balloc c)) (\<lambda>(ok, a).
        let c = c\<lparr>lc_balloc := a\<rparr>
        in if \<not> ok then Inr (-1, c, w)
           else if lc_embeddings c \<and> ba_n_outputs a \<noteq> ba_get_n_tokens a then Inr (-1, c, w)
           else if \<not> ba_get_n_tokens a \<le> lc_n_batch c then Inl Assert_failed
           else if \<not> (lc_causal_attn c \<or> lc_n_ubatch c \<ge> ba_get_n_tokens a) then Inl Assert_failed
           else decode_memory e (c\<lparr>lc_out := (lc_out c)\<lparr>lc_output_swaps := []\<rparr>\<rparr>) w))"

section \<open>What taking back does\<close>

lemma rollback_min_spec:
  shows "i < ub_n_tokens u \<Longrightarrow> rollback_min u (ub_seq_id u ! i ! 0) \<le> ub_pos u ! i"
    and "rollback_min u t = LLAMA_POS_MAX \<or> (\<exists>i < ub_n_tokens u. ub_seq_id u ! i ! 0 = t \<and> rollback_min u t = ub_pos u ! i)"
proof -
  define f where "f = (\<lambda>i m. let s = ub_seq_id u ! i ! 0 in m(s := min (m s) (ub_pos u ! i)))"
  have "(\<forall>i < n. fold f [0..<n] (\<lambda>_. LLAMA_POS_MAX) (ub_seq_id u ! i ! 0) \<le> ub_pos u ! i) \<and>
      (fold f [0..<n] (\<lambda>_. LLAMA_POS_MAX) t = LLAMA_POS_MAX \<or>
        (\<exists>i < n. ub_seq_id u ! i ! 0 = t \<and> fold f [0..<n] (\<lambda>_. LLAMA_POS_MAX) t = ub_pos u ! i))" for n
    by (induction n) (auto simp: f_def Let_def less_Suc_eq min_def)
  from this [of "ub_n_tokens u"]
  show "i < ub_n_tokens u \<Longrightarrow> rollback_min u (ub_seq_id u ! i ! 0) \<le> ub_pos u ! i"
    "rollback_min u t = LLAMA_POS_MAX \<or> (\<exists>i < ub_n_tokens u. ub_seq_id u ! i ! 0 = t \<and> rollback_min u t = ub_pos u ! i)"
    by (simp_all add: rollback_min_def f_def)
qed

lemma rollback_seqs_spec:
  assumes "cache_inv k" "\<forall>s \<in> set ss. pm s \<noteq> LLAMA_POS_MAX \<longrightarrow> s < length (kc_seq_to_stream k)"
  shows "\<exists>k'. rollback_seqs pm ss k = Inr k' \<and> cache_inv k' \<and> same_frame k k' \<and>
    (\<forall>t < length (kc_seq_to_stream k). kv_positions k' t =
      (if t \<in> set ss \<and> pm t \<noteq> LLAMA_POS_MAX then kv_positions k t - {lo_bound (pm t)..<LLAMA_POS_MAX} else kv_positions k t))"
  using assms
proof (induction ss arbitrary: k)
  case Nil
  then show ?case by simp
next
  case (Cons s ss)
  show ?case
  proof (cases "pm s = LLAMA_POS_MAX")
    case True
    then show ?thesis using Cons.IH [OF Cons.prems(1)] Cons.prems(2) by auto
  next
    case False
    then have s: "s < length (kc_seq_to_stream k)" using Cons.prems(2) by simp
    then have "valid_seq k (int s)" by (simp add: valid_seq_def)
    from seq_rm_spec [OF Cons.prems(1) this, of "pm s" "-1"]
    obtain k1 where k1: "kv_seq_rm (int s) (pm s) (-1) k = Inr (True, k1)" "cache_inv k1" "same_frame k k1"
      "kv_positions k1 s = kv_positions k s - {lo_bound (pm s)..<LLAMA_POS_MAX}"
      "\<And>t. t < length (kc_seq_to_stream k) \<Longrightarrow> t \<noteq> s \<Longrightarrow> kv_positions k1 t = kv_positions k t"
      by (auto simp: hi_bound_def)
    note f = same_frameD(1) [OF k1(3)]
    obtain k2 where k2: "rollback_seqs pm ss k1 = Inr k2" "cache_inv k2" "same_frame k1 k2"
      "\<And>t. t < length (kc_seq_to_stream k) \<Longrightarrow> kv_positions k2 t =
        (if t \<in> set ss \<and> pm t \<noteq> LLAMA_POS_MAX then kv_positions k1 t - {lo_bound (pm t)..<LLAMA_POS_MAX} else kv_positions k1 t)"
      using Cons.IH [OF k1(2)] Cons.prems(2) by (auto simp: f)
    have "kv_positions k2 t = (if t \<in> set (s # ss) \<and> pm t \<noteq> LLAMA_POS_MAX
        then kv_positions k t - {lo_bound (pm t)..<LLAMA_POS_MAX} else kv_positions k t)"
      if "t < length (kc_seq_to_stream k)" for t
      using k2(4) [OF that] k1(4) k1(5) [OF that] False by (cases "t = s") auto
    then show ?thesis using False k1(1) k2(1,2) same_frame_trans [OF k1(3) k2(3)] by simp
  qed
qed

text \<open>Rolling back a micro-batch of a known cache always succeeds.\<close>

lemma rollback_spec:
  assumes "cache_inv k" "\<forall>i < ub_n_tokens u. ub_seq_id u ! i ! 0 < length (kc_seq_to_stream k)"
  shows "\<exists>k'. rollback u k = Inr k' \<and> cache_inv k' \<and> same_frame k k' \<and>
    (\<forall>t < length (kc_seq_to_stream k). kv_positions k' t =
      (if rollback_min u t \<noteq> LLAMA_POS_MAX then kv_positions k t - {lo_bound (rollback_min u t)..<LLAMA_POS_MAX} else kv_positions k t))"
proof -
  have "\<forall>s \<in> set [0..<LLAMA_MAX_SEQ]. rollback_min u s \<noteq> LLAMA_POS_MAX \<longrightarrow> s < length (kc_seq_to_stream k)"
    using rollback_min_spec(2) assms(2) by metis
  from rollback_seqs_spec [OF assms(1) this] show ?thesis
    using cache_invD(7) [OF assms(1)] unfolding rollback_def by auto
qed

section \<open>The loop over the micro-batches\<close>

text \<open>
  The contract of the graph: a computation that succeeds returns as many rows as the micro-batch
  has outputs. The code counts the outputs of a micro-batch in its own way when every token of
  the batch has one; \<open>rows_match\<close> is the contract in terms of that count.
\<close>

definition count_outputs :: "ubatch \<Rightarrow> nat" where
  "count_outputs u = length (filter (\<lambda>i. ub_output u ! i) [0..<ub_n_tokens u])"

definition computes_rows :: "'w engine \<Rightarrow> bool" where
  "computes_rows e \<longleftrightarrow> (\<forall>k si u w. fst (fst (en_compute e k si u w)) = GGML_STATUS_SUCCESS \<longrightarrow>
     length (snd (fst (en_compute e k si u w))) = count_outputs u)"

definition rows_match :: "'w engine \<Rightarrow> nat \<Rightarrow> nat \<Rightarrow> ubatch \<Rightarrow> bool" where
  "rows_match e n_out n_all u \<longleftrightarrow> (\<forall>k si w. fst (fst (en_compute e k si u w)) = GGML_STATUS_SUCCESS \<longrightarrow>
     length (snd (fst (en_compute e k si u w))) = ubatch_outputs n_out n_all u)"

text \<open>A graph that never fails.\<close>

definition never_fails :: "'w engine \<Rightarrow> bool" where
  "never_fails e \<longleftrightarrow> (\<forall>n w. fst (en_reserve e n w)) \<and> (\<forall>k si u w. fst (fst (en_compute e k si u w)) = GGML_STATUS_SUCCESS)"

definition sum_outputs :: "nat \<Rightarrow> nat \<Rightarrow> ubatch list \<Rightarrow> nat" where
  "sum_outputs n_out n_all us = (\<Sum>u \<leftarrow> us. ubatch_outputs n_out n_all u)"

lemma length_write_rows: "prev + length rows \<le> length buf \<Longrightarrow> length (write_rows prev rows buf) = length buf"
  by (simp add: write_rows_def)

lemma apply_all_Cons:
  "apply_all (si # sis) (u # us) k = Inr k' \<longleftrightarrow> (\<exists>k1. apply_ubatch si u k = Inr k1 \<and> apply_all sis us k1 = Inr k')"
  by (simp add: bind_outcome_Inr_iff)

text \<open>The graph fails for the micro-batch \<open>u\<close> on the cache \<open>k\<close>, and \<open>decode\<close> returns \<open>r\<close> for that.\<close>

definition graph_fails :: "'w engine \<Rightarrow> kv_cache \<Rightarrow> ubatch \<Rightarrow> int \<Rightarrow> bool" where
  "graph_fails e k u r \<longleftrightarrow> (\<exists>si v status rows v'. en_compute e k si u v = ((status, rows), v') \<and> status \<noteq> GGML_STATUS_SUCCESS \<and> status_code status = Inr r)"

lemma run_ubatches_spec:
  assumes "apply_all sis us (lc_memory c) = Inr kf" "length sis = length us"
    and "\<forall>u \<in> set us. rows_match e n_out n_all u"
    and "prev + sum_outputs n_out n_all us \<le> n_out" "n_out \<le> length (lc_logits (lc_out c))"
    and "\<And>m km. m < length us \<Longrightarrow> apply_all (take (Suc m) sis) (take (Suc m) us) (lc_memory c) = Inr km \<Longrightarrow>
      \<exists>k'. rollback (us ! m) km = Inr k'"
  shows "\<exists>r k' n l w'. run_ubatches e n_out n_all prev sis us c w =
      Inr (r, c\<lparr>lc_memory := k', lc_out := (lc_out c)\<lparr>lc_n_outputs := n, lc_logits := l\<rparr>\<rparr>, w') \<and>
    (r = 0 \<and> k' = kf \<and> length l = length (lc_logits (lc_out c)) \<or>
     r \<in> {2, -2, -3} \<and> (\<exists>m < length us. \<exists>km. apply_all (take (Suc m) sis) (take (Suc m) us) (lc_memory c) = Inr km \<and>
       rollback (us ! m) km = Inr k' \<and> graph_fails e km (us ! m) r)) \<and> (never_fails e \<longrightarrow> r = 0)"
  using assms
proof (induction us arbitrary: sis c w prev)
  case Nil
  then have "sis = []" "lc_memory c = kf" by simp_all
  then have "run_ubatches e n_out n_all prev sis [] c w = Inr (0, c\<lparr>lc_memory := kf,
      lc_out := (lc_out c)\<lparr>lc_n_outputs := lc_n_outputs (lc_out c), lc_logits := lc_logits (lc_out c)\<rparr>\<rparr>, w)" by auto
  then show ?case by blast
next
  case (Cons u us)
  obtain si sis' where sis: "sis = si # sis'" "length sis' = length us" using Cons.prems(2) by (cases sis) auto
  obtain k1 where k1: "apply_ubatch si u (lc_memory c) = Inr k1" "apply_all sis' us k1 = Inr kf"
    using Cons.prems(1) unfolding sis(1) apply_all_Cons by blast
  obtain status rows w1 where comp: "en_compute e k1 si u w = ((status, rows), w1)" by (metis prod.collapse)
  let ?n = "ubatch_outputs n_out n_all u" and ?l = "lc_logits (lc_out c)"
  show ?case
  proof (cases "status = GGML_STATUS_SUCCESS")
    case False
    obtain k' where k': "rollback u k1 = Inr k'" using Cons.prems(6) [of 0 k1] k1(1) by (auto simp: sis(1))
    obtain r where r: "status_code status = Inr r" "r \<in> {2, -2, -3}" using False by (cases status) (auto simp: status_code_def)
    have "run_ubatches e n_out n_all prev sis (u # us) c w =
        Inr (r, c\<lparr>lc_memory := k', lc_out := (lc_out c)\<lparr>lc_n_outputs := ?n, lc_logits := ?l\<rparr>\<rparr>, w1)"
      using False k' r(1) comp k1(1) by (simp add: sis(1) Let_def)
    moreover have "apply_all (take (Suc 0) sis) (take (Suc 0) (u # us)) (lc_memory c) = Inr k1"
      using k1(1) by (simp add: sis(1))
    moreover have "\<not> never_fails e" using False comp unfolding never_fails_def by (metis fst_conv)
    moreover have "graph_fails e k1 u r" using comp False r(1) unfolding graph_fails_def by blast
    ultimately show ?thesis using r(2) k' by (metis length_Cons nth_Cons_0 zero_less_Suc)
  next
    case True
    have "length rows = ?n" using Cons.prems(3) comp True unfolding rows_match_def by (metis fst_conv list.set_intros(1) snd_conv)
    moreover have sum: "prev + ?n + sum_outputs n_out n_all us \<le> n_out" using Cons.prems(4) by (simp add: sum_outputs_def)
    ultimately have len: "length (if ?n > 0 then write_rows prev rows ?l else ?l) = length ?l"
      using Cons.prems(5) by (simp add: length_write_rows)
    let ?c = "c\<lparr>lc_memory := k1, lc_out := (lc_out c)\<lparr>lc_n_outputs := ?n, lc_logits := if ?n > 0 then write_rows prev rows ?l else ?l\<rparr>\<rparr>"
    have step: "run_ubatches e n_out n_all prev sis (u # us) c w = run_ubatches e n_out n_all (prev + ?n) sis' us ?c w1"
      using True comp k1(1) sum Cons.prems(5) by (simp add: sis(1) Let_def)
    have rb: "\<exists>k'. rollback (us ! m) km = Inr k'"
      if "m < length us" "apply_all (take (Suc m) sis') (take (Suc m) us) (lc_memory ?c) = Inr km" for m km
      using Cons.prems(6) [of "Suc m" km] that k1(1) by (auto simp: sis(1))
    obtain r k' n l w' where IH: "run_ubatches e n_out n_all (prev + ?n) sis' us ?c w1 =
        Inr (r, ?c\<lparr>lc_memory := k', lc_out := (lc_out ?c)\<lparr>lc_n_outputs := n, lc_logits := l\<rparr>\<rparr>, w')"
      "r = 0 \<and> k' = kf \<and> length l = length (lc_logits (lc_out ?c)) \<or>
       r \<in> {2, -2, -3} \<and> (\<exists>m < length us. \<exists>km. apply_all (take (Suc m) sis') (take (Suc m) us) (lc_memory ?c) = Inr km \<and>
         rollback (us ! m) km = Inr k' \<and> graph_fails e km (us ! m) r)" "never_fails e \<longrightarrow> r = 0"
    proof -
      have prem: "apply_all sis' us (lc_memory ?c) = Inr kf" "\<forall>u \<in> set us. rows_match e n_out n_all u"
        "n_out \<le> length (lc_logits (lc_out ?c))" using k1(2) Cons.prems(3,5) len by simp_all
      show ?thesis using that Cons.IH [OF prem(1) sis(2) prem(2) sum prem(3) rb, of w1] by blast
    qed
    have eq: "apply_all (take (Suc (Suc m)) sis) (take (Suc (Suc m)) (u # us)) (lc_memory c) =
        apply_all (take (Suc m) sis') (take (Suc m) us) k1" for m
      using k1(1) by (simp add: sis(1))
    from IH(2) have "r = 0 \<and> k' = kf \<and> length l = length ?l \<or>
       r \<in> {2, -2, -3} \<and> (\<exists>m < length (u # us). \<exists>km. apply_all (take (Suc m) sis) (take (Suc m) (u # us)) (lc_memory c) = Inr km \<and>
         rollback ((u # us) ! m) km = Inr k' \<and> graph_fails e km ((u # us) ! m) r)"
    proof (elim disjE conjE exE)
      fix m km
      assume "r \<in> {2, -2, -3}" "m < length us" "apply_all (take (Suc m) sis') (take (Suc m) us) (lc_memory ?c) = Inr km"
        "rollback (us ! m) km = Inr k'" "graph_fails e km (us ! m) r"
      then show ?thesis using eq [of m] by (intro disjI2 conjI exI [of _ "Suc m"] exI [of _ km]) simp_all
    qed (use len in simp)
    moreover have "?c\<lparr>lc_memory := k', lc_out := (lc_out ?c)\<lparr>lc_n_outputs := n, lc_logits := l\<rparr>\<rparr> =
        c\<lparr>lc_memory := k', lc_out := (lc_out c)\<lparr>lc_n_outputs := n, lc_logits := l\<rparr>\<rparr>" by simp
    ultimately show ?thesis using step IH(1,3) by metis
  qed
qed

section \<open>Pending shifts\<close>

lemma reset_shift_simps [simp]:
  "cells_size (cells_reset_shift c) = cells_size c" "seq_positions (cells_reset_shift c) s = seq_positions c s"
  "cells_is_empty (cells_reset_shift c) i = cells_is_empty c i"
  by (simp_all add: cells_reset_shift_def cells_size_def seq_positions_def cells_is_empty_def)

text \<open>Two caches that hold the same tokens, whatever shifts are pending.\<close>

definition same_tokens :: "kv_cache \<Rightarrow> kv_cache \<Rightarrow> bool" where
  "same_tokens k k' \<longleftrightarrow> plain_cache k' \<and> same_frame k k' \<and> free_cells k' = free_cells k \<and>
     (\<forall>t < length (kc_seq_to_stream k). kv_positions k' t = kv_positions k t)"

lemma same_tokens_refl: "plain_cache k \<Longrightarrow> same_tokens k k"
  by (simp add: same_tokens_def)

lemma same_tokens_trans: "same_tokens k k1 \<Longrightarrow> same_tokens k1 k2 \<Longrightarrow> same_tokens k k2"
  unfolding same_tokens_def using same_frame_trans same_frameD(1) by metis

lemma kv_update_tokens:
  assumes "plain_cache k" "kv_get_can_shift k"
  shows "\<exists>b k'. kv_update rope alloc_ok compute_ok do_shift k = Inr (b, k') \<and> same_tokens k k'"
proof -
  have k: "cache_inv k" "0 < kc_n_stream k" "kc_n_stream k = 1" using assms(1) by (simp_all add: plain_cache_def)
  note c = cache_invD(3,4,5) [OF k(1,2)] and len = cache_invD(1,2) [OF k(1)]
  let ?k = "set_stream 0 (kc_v_heads k ! 0) (cells_reset_shift (kc_cells k 0)) k"
  have inv: "cache_inv ?k" by (rule cache_inv_set_stream [OF k(1,2)]) (use c in \<open>simp_all add: cells_inv_reset_shift\<close>)
  have "kv_positions ?k t = kv_positions k t" if "t < length (kc_seq_to_stream k)" for t
    using kv_positions_set_stream [OF k(1) that] plain_stream [OF assms(1) that] by (simp add: kv_positions_def)
  moreover have "free_cells ?k = free_cells k" using len k(3) by (simp add: free_cells_def)
  ultimately have "same_tokens k ?k" using inv assms(1) by (simp add: same_tokens_def plain_cache_def)
  moreover have "fold (\<lambda>s k. k\<lparr>kc_v_cells := (kc_v_cells k)[s := cells_reset_shift (kc_cells k s)]\<rparr>) [0..<kc_n_stream k] k = ?k"
    using k(3) by (simp add: set_stream_def)
  ultimately show ?thesis
    using assms same_tokens_refl [OF assms(1)] by (auto simp: kv_update_def)
qed

lemma memory_update_tokens:
  assumes "plain_cache (lc_memory c)" "kv_get_can_shift (lc_memory c)" "kc_sc_info (lc_memory c) = []"
  shows "\<exists>b k' w'. memory_update e c w = Inr (b, c\<lparr>lc_memory := k'\<rparr>, w') \<and> same_tokens (lc_memory c) k'"
proof -
  let ?k = "lc_memory c"
  have eq: "kv_init_update ?k = ((kv_get_has_shift ?k, kv_get_has_shift ?k), ?k)"
    using assms(3) by (simp add: kv_init_update_def Let_def)
  show ?thesis
  proof (cases "kv_get_has_shift ?k")
    case True
    obtain a b w1 where "en_shift e ?k w = ((a, b), w1)" by (metis prod.collapse)
    moreover obtain d k' where k': "kv_update (en_rope e) a b True ?k = Inr (d, k')" "same_tokens ?k k'"
      using kv_update_tokens [OF assms(1,2)] by blast
    ultimately have "memory_update e c w = Inr (True, c\<lparr>lc_memory := k'\<rparr>, w1)" using True by (simp add: memory_update_def eq)
    then show ?thesis using k'(2) by blast
  next
    case False
    then have "memory_update e c w = Inr (False, c\<lparr>lc_memory := ?k\<rparr>, w)" by (simp add: memory_update_def eq)
    then show ?thesis using same_tokens_refl [OF assms(1)] by blast
  qed
qed

section \<open>The outcome of a decode\<close>

text \<open>What the application's contexts satisfy, and every call of \<open>decode\<close> keeps.\<close>

definition ctx_ok :: "llama_context \<Rightarrow> bool" where
  "ctx_ok c \<longleftrightarrow> plain_cache (lc_memory c) \<and> kc_sc_info (lc_memory c) = [] \<and> kv_get_can_shift (lc_memory c) \<and>
     kc_n_pos_per_embd (lc_memory c) = 1 \<and> ba_n_pos_per_embd (lc_balloc c) = 1 \<and>
     0 < ctx_n_seq_max c \<and> ctx_n_seq_max c \<le> length (kc_seq_to_stream (lc_memory c)) \<and>
     \<not> lc_embeddings c \<and> lc_causal_attn c \<and> length (lc_output_ids (lc_out c)) \<in> {0, lc_n_batch c}"

lemma ctx_okD:
  assumes "ctx_ok c"
  shows "plain_cache (lc_memory c)" "kc_sc_info (lc_memory c) = []" "kv_get_can_shift (lc_memory c)"
    "kc_n_pos_per_embd (lc_memory c) = 1" "ba_n_pos_per_embd (lc_balloc c) = 1" "0 < ctx_n_seq_max c"
    "ctx_n_seq_max c \<le> length (kc_seq_to_stream (lc_memory c))" "\<not> lc_embeddings c" "lc_causal_attn c"
    "lc_output_ids (lc_out c) = [] \<or> length (lc_output_ids (lc_out c)) = lc_n_batch c"
  using assms by (simp_all add: ctx_ok_def)

text \<open>A batch that \<open>init\<close> accepts on this context, leaving the allocator \<open>a\<close>.\<close>

definition accepts :: "llama_context \<Rightarrow> llama_batch \<Rightarrow> batch_allocr \<Rightarrow> bool" where
  "accepts c inp a \<longleftrightarrow> input_rows_ok inp \<and> (bt_token inp = None) \<noteq> (bt_embd inp = None) \<and> bt_n_tokens inp \<le> lc_n_batch c \<and>
     ba_init (lc_n_vocab c) (Some (kv_memory (lc_memory c))) (lc_n_embd c) (ctx_n_seq_max c) (lc_embeddings c) inp (lc_balloc c) = Inr (True, a) \<and>
     batch_ok (ba_batch a) \<and> bt_n_tokens inp \<le> length (b_logits (ba_batch a))"

lemma accepted_outputs:
  assumes "input_rows_ok inp" "ba_init n_vocab mem n_embd n_seq_max output_all inp a = Inr (True, a')"
    and "bt_n_tokens inp \<le> length (b_logits (ba_batch a'))"
  shows "ba_n_outputs a' = length (filter (\<lambda>i. b_logits (ba_batch a') ! i) [0..<bt_n_tokens inp])"
proof -
  let ?b = "fill_batch mem output_all inp"
  have rows: "rows_ok (ba_batch ((ba_clear a)\<lparr>ba_batch := ?b\<rparr>))" using rows_ok_fill [OF assms(1)] by simp
  note r = ba_stats_result [OF rows, simplified, unfolded ba_clear_clean, simplified, of n_embd n_seq_max]
  have a': "a' = ba_split_reset (ba_stats n_embd n_seq_max ((ba_clear a)\<lparr>ba_batch := ?b\<rparr>))"
    using assms(2) unfolding ba_init_accepts [OF assms(1)] by (simp add: Let_def)
  have n: "b_n_tokens ?b = bt_n_tokens inp" by (simp add: fill_batch_def)
  have "bt_n_tokens inp \<le> length (b_logits ?b)" using assms(3) accepted_state(2) [OF assms(1,2)] by simp
  then have "take (bt_n_tokens inp) (b_logits ?b) = map ((!) (b_logits ?b)) [0..<bt_n_tokens inp]"
    by (simp add: list_eq_iff_nth_eq)
  then show ?thesis using r n by (simp add: a' ba_split_reset_def filter_map comp_def)
qed

lemma run_outputs:
  fixes a :: batch_allocr and r :: "nat list"
  defines "u \<equiv> fst (ubatch_add r (length r) False a)"
  shows "count_outputs u = length (filter (\<lambda>i. b_logits (ba_batch a) ! i) r)"
    and "ubatch_outputs n_out n u = (if n_out = n then length r else count_outputs u)"
proof -
  let ?P = "\<lambda>i. b_logits (ba_batch a) ! i"
  have u: "ub_output u = map ?P r" "ub_n_tokens u = length r"
    unfolding u_def by (simp_all add: ubatch_add_def Let_def split: prod.split)
  then have "count_outputs u = length (filter (\<lambda>i. ?P (r ! i)) [0..<length r])"
    unfolding count_outputs_def by (auto intro!: arg_cong [where f = length] filter_cong)
  also have "\<dots> = length (filter ?P (map ((!) r) [0..<length r]))" by (simp add: filter_map comp_def)
  finally show "count_outputs u = length (filter ?P r)" by (simp only: map_nth)
  show "ubatch_outputs n_out n u = (if n_out = n then length r else count_outputs u)"
    using u(2) by (simp add: ubatch_outputs_def count_outputs_def)
qed

lemma sum_outputs_runs:
  assumes "concat rs = [0..<n]" "n_out = length (filter (\<lambda>i. b_logits (ba_batch a) ! i) [0..<n])"
  shows "sum_outputs n_out n (map (\<lambda>r. fst (ubatch_add r (length r) False a)) rs) = n_out"
proof -
  let ?P = "\<lambda>i. b_logits (ba_batch a) ! i" and ?u = "\<lambda>r. fst (ubatch_add r (length r) False a)"
  have "sum_outputs n_out n (map ?u rs) =
      (if n_out = n then length (concat rs) else length (filter ?P (concat rs)))"
    by (simp add: sum_outputs_def comp_def length_concat filter_concat run_outputs)
  then show ?thesis using assms by simp
qed

lemma runs_match:
  fixes a :: batch_allocr
  assumes "computes_rows e" "concat rs = [0..<n]"
  defines "n_out \<equiv> length (filter (\<lambda>i. b_logits (ba_batch a) ! i) [0..<n])"
  shows "\<forall>u \<in> set (map (\<lambda>r. fst (ubatch_add r (length r) False a)) rs). rows_match e n_out n u"
proof
  let ?P = "\<lambda>i. b_logits (ba_batch a) ! i"
  fix u assume "u \<in> set (map (\<lambda>r. fst (ubatch_add r (length r) False a)) rs)"
  then obtain r where r: "r \<in> set rs" "u = fst (ubatch_add r (length r) False a)" by auto
  have "ubatch_outputs n_out n u = count_outputs u"
  proof (cases "n_out = n")
    case True
    then have "\<forall>i \<in> set [0..<n]. ?P i" using length_filter_eq_iff [of ?P "[0..<n]"] by (simp add: n_out_def)
    moreover have "set r \<subseteq> set [0..<n]" using r(1) assms(2) by (metis UN_upper set_concat)
    ultimately have "filter ?P r = r" by (intro filter_True) blast
    then show ?thesis using True unfolding r(2) run_outputs by simp
  qed (simp add: r(2) run_outputs(2))
  then show "rows_match e n_out n u" using assms(1) by (simp add: computes_rows_def rows_match_def)
qed

text \<open>The positions of the first \<open>j\<close> tokens of a batch.\<close>

definition prefix_positions :: "full_batch \<Rightarrow> nat \<Rightarrow> llama_seq_id \<Rightarrow> llama_pos set" where
  "prefix_positions b j t = {b_pos b ! i | i. i < j \<and> t \<in> set (b_ids b i)}"

lemma prefix_positions_all: "prefix_positions b (b_n_tokens b) t = batch_positions b t"
  by (simp add: prefix_positions_def batch_positions_def)

text \<open>
  What a decode did to the cache: it holds the first \<open>j\<close> tokens of the batch on top of what it
  held before.
\<close>

definition holds_prefix :: "kv_cache \<Rightarrow> full_batch \<Rightarrow> nat \<Rightarrow> kv_cache \<Rightarrow> bool" where
  "holds_prefix k b j k' \<longleftrightarrow> plain_cache k' \<and> same_frame k k' \<and>
     (\<forall>t < length (kc_seq_to_stream k). kv_positions k' t = kv_positions k t \<union> prefix_positions b j t)"

lemma same_tokens_holds: "same_tokens k k' \<Longrightarrow> holds_prefix k b 0 k'"
  by (simp add: same_tokens_def holds_prefix_def prefix_positions_def)

lemma holds_prefix_same: "same_tokens k k1 \<Longrightarrow> holds_prefix k1 b j k' \<Longrightarrow> holds_prefix k b j k'"
  unfolding same_tokens_def holds_prefix_def using same_frame_trans same_frameD(1) by metis

text \<open>Every token belongs to one sequence, and positions grow within a sequence.\<close>

definition sequential :: "full_batch \<Rightarrow> bool" where
  "sequential b \<longleftrightarrow> (\<forall>i < b_n_tokens b. length (b_ids b i) = 1 \<and> b_pos b ! i < LLAMA_POS_MAX) \<and>
     (\<forall>j < b_n_tokens b. \<forall>i < j. b_ids b i = b_ids b j \<longrightarrow> b_pos b ! i < b_pos b ! j)"

lemma runs_take:
  fixes rs :: "nat list list"
  assumes "concat rs = [0..<n]" "m < length rs"
  defines "j \<equiv> length (concat (take m rs))"
  shows "concat (take m rs) = [0..<j]" "rs ! m = [j..<j + length (rs ! m)]" "j + length (rs ! m) \<le> n"
proof -
  have all: "concat rs = concat (take m rs) @ rs ! m @ concat (drop (Suc m) rs)"
    using arg_cong [OF id_take_nth_drop [OF assms(2)], of concat] by simp
  then have le: "j + length (rs ! m) \<le> length (concat rs)" by (simp add: j_def)
  then show "j + length (rs ! m) \<le> n" using assms(1) by simp
  have "concat (take m rs) = take j (concat rs)" using all by (simp add: j_def)
  then show "concat (take m rs) = [0..<j]" using assms(1) le by simp
  have "rs ! m = take (length (rs ! m)) (drop j (concat rs))" using all by (simp add: j_def)
  then show "rs ! m = [j..<j + length (rs ! m)]" using assms(1) le by (simp add: take_upt)
qed

text \<open>An accepted batch starts after what the cache holds.\<close>

lemma accepted_after_memory:
  assumes "cache_inv k" "input_rows_ok inp" "ba_n_pos_per_embd a \<le> 1"
    and acc: "ba_init n_vocab (Some (kv_memory k)) n_embd n_seq_max output_all inp a = Inr (True, a')"
    and "n_seq_max \<le> length (kc_seq_to_stream k)" "t < n_seq_max"
    and "i < bt_n_tokens inp" "t \<in> set (b_ids (ba_batch a') i)" "p \<in> kv_positions k t"
  shows "p < b_pos (ba_batch a') ! i"
proof -
  have t: "t < length (kc_seq_to_stream k)" using assms(5,6) by simp
  note st = accepted_state [OF assms(2) acc]
  have n: "b_n_tokens (ba_batch a') = bt_n_tokens inp" using st(7) by (simp add: ba_get_n_tokens_def)
  have mem: "b_pos (ba_batch a') ! i \<in> batch_positions (ba_batch a') t"
    using assms(7,8) by (auto simp: batch_positions_def n)
  then have ne: "batch_positions (ba_batch a') t \<noteq> {}" by blast
  have pos: "kv_positions k t \<noteq> {}" "finite (kv_positions k t)" using assms(9) kv.finite_positions [OF assms(1) t] by auto
  then have "mem_last (Some (kv_memory k)) t = Max (kv_positions k t)"
    using kv.view_max [OF assms(1) t] by (simp add: mem_last_def)
  moreover have "0 \<le> Max (kv_positions k t)" using kv_positions_nonneg [OF assms(1) t] pos by simp
  ultimately have "ba_seq_pos_min a' t = Max (kv_positions k t) + 1"
    using accepted_contiguous [OF assms(2,3) acc assms(6) ne] by simp
  moreover have "ba_seq_pos_min a' t \<le> b_pos (ba_batch a') ! i"
    using mem accepted_contiguous [OF assms(2,3) acc assms(6) ne] by auto
  ultimately show ?thesis using Max_ge [OF pos(2) assms(9)] by simp
qed

text \<open>Taking back a micro-batch leaves the tokens before it.\<close>

lemma rollback_prefix:
  assumes "sequential b" "batch_ok b" "j' \<le> b_n_tokens b" "j \<le> j'"
    and u: "ub_n_tokens u = j' - j" "\<And>i. i < j' - j \<Longrightarrow> ub_seq_id u ! i = b_ids b (j + i) \<and> ub_pos u ! i = b_pos b ! (j + i)"
    and after: "\<And>t i p. t < length (kc_seq_to_stream k) \<Longrightarrow> i < b_n_tokens b \<Longrightarrow> t \<in> set (b_ids b i) \<Longrightarrow>
      p \<in> kv_positions k t \<Longrightarrow> p < b_pos b ! i"
    and ids: "\<And>i s. i < b_n_tokens b \<Longrightarrow> s \<in> set (b_ids b i) \<Longrightarrow> s < length (kc_seq_to_stream k)"
    and km: "holds_prefix k b j' km"
  shows "\<exists>k'. rollback u km = Inr k' \<and> holds_prefix k b j k'"
proof -
  have inv: "cache_inv km" and frame: "same_frame k km"
    and pos: "\<And>t. t < length (kc_seq_to_stream k) \<Longrightarrow> kv_positions km t = kv_positions k t \<union> prefix_positions b j' t"
    using km by (simp_all add: holds_prefix_def plain_cache_def)
  note f = same_frameD(1) [OF frame]
  have single: "b_ids b i = [s]" if "i < b_n_tokens b" "s \<in> set (b_ids b i)" for i s
    using assms(1) that by (cases "b_ids b i") (auto simp: sequential_def)
  have one: "\<exists>s. b_ids b i = [s]" if "i < b_n_tokens b" for i
    using assms(1) that by (cases "b_ids b i") (auto simp: sequential_def)
  have first: "ub_seq_id u ! i ! 0 = t \<longleftrightarrow> b_ids b (j + i) = [t]" if "i < j' - j" for i t
  proof -
    have "j + i < b_n_tokens b" using that assms(3) by simp
    then show ?thesis using u(2) [OF that] one [of "j + i"] by auto
  qed
  have "\<forall>i < ub_n_tokens u. ub_seq_id u ! i ! 0 < length (kc_seq_to_stream km)"
  proof (intro allI impI)
    fix i assume i: "i < ub_n_tokens u"
    then have "j + i < b_n_tokens b" using u(1) assms(3) by simp
    then show "ub_seq_id u ! i ! 0 < length (kc_seq_to_stream km)"
      using ids [of "j + i" "ub_seq_id u ! i ! 0"] first [of i "ub_seq_id u ! i ! 0"] i u(1) f by simp
  qed
  from rollback_spec [OF inv this] obtain k' where k': "rollback u km = Inr k'" "cache_inv k'" "same_frame km k'"
    "\<And>t. t < length (kc_seq_to_stream k) \<Longrightarrow> kv_positions k' t = (if rollback_min u t \<noteq> LLAMA_POS_MAX
      then kv_positions km t - {lo_bound (rollback_min u t)..<LLAMA_POS_MAX} else kv_positions km t)"
    by (auto simp: f)
  have "kv_positions k' t = kv_positions k t \<union> prefix_positions b j t" if t: "t < length (kc_seq_to_stream k)" for t
  proof (cases "\<exists>i. j \<le> i \<and> i < j' \<and> b_ids b i = [t]")
    case False
    then have "rollback_min u t = LLAMA_POS_MAX" using rollback_min_spec(2) [of u t] u(1) first
      by (metis le_add1 less_diff_conv add.commute)
    moreover have "prefix_positions b j' t = prefix_positions b j t"
      using False single assms(3,4) unfolding prefix_positions_def
      by (intro Collect_cong ex_cong1) (metis leI order.strict_trans2)
    ultimately show ?thesis using k'(4) [OF t] pos [OF t] by simp
  next
    case True
    then obtain i1 where i1: "j \<le> i1" "i1 < j'" "b_ids b i1 = [t]" by blast
    have le: "rollback_min u t \<le> b_pos b ! i" if "j \<le> i" "i < j'" "b_ids b i = [t]" for i
    proof -
      have "i - j < j' - j" "j + (i - j) = i" using that(1,2) by simp_all
      then show ?thesis using rollback_min_spec(1) [of "i - j" u] u first [of "i - j" t] that(3) by simp
    qed
    have "rollback_min u t < LLAMA_POS_MAX"
      using le [OF i1] assms(1,3) i1(2) unfolding sequential_def by (meson order.strict_trans1 order.strict_trans2)
    then obtain i0 where i0: "i0 < j' - j" "b_ids b (j + i0) = [t]" "rollback_min u t = b_pos b ! (j + i0)"
      using rollback_min_spec(2) [of u t] u first by (metis less_irrefl)
    let ?m = "b_pos b ! (j + i0)"
    have lt: "j + i0 < b_n_tokens b" using i0(1) assms(3) by simp
    have "0 \<le> ?m" using assms(2) lt unfolding batch_ok_def by blast
    then have m: "lo_bound (rollback_min u t) = ?m" by (simp add: i0(3) lo_bound_def)
    have old: "p < ?m" if "p \<in> kv_positions k t" for p using after [OF t lt _ that] i0(2) by simp
    have before: "p < ?m" if p: "p \<in> prefix_positions b j t" for p
    proof -
      obtain i where i: "i < j" "t \<in> set (b_ids b i)" "p = b_pos b ! i" using p by (auto simp: prefix_positions_def)
      then have "b_ids b i = b_ids b (j + i0)" using single [of i t] assms(3,4) i0(2) by simp
      then show ?thesis using assms(1) lt i by (simp add: sequential_def)
    qed
    have split: "prefix_positions b j' t = prefix_positions b j t \<union> {b_pos b ! i | i. j \<le> i \<and> i < j' \<and> b_ids b i = [t]}"
    proof -
      have "i < j' \<and> t \<in> set (b_ids b i) \<longleftrightarrow> i < j \<and> t \<in> set (b_ids b i) \<or> j \<le> i \<and> i < j' \<and> b_ids b i = [t]" for i
        using single [of i t] assms(3,4) by (cases "i < j") auto
      then show ?thesis unfolding prefix_positions_def by blast
    qed
    have "{b_pos b ! i | i. j \<le> i \<and> i < j' \<and> b_ids b i = [t]} \<subseteq> {?m..<LLAMA_POS_MAX}"
      using le i0(3) assms(1,3) by (fastforce simp: sequential_def)
    then show ?thesis
      unfolding k'(4) [OF t] pos [OF t] split m
      using old before \<open>rollback_min u t < LLAMA_POS_MAX\<close> by fastforce
  qed
  moreover have "plain_cache k'" using k'(2) km same_frameD [OF k'(3)] by (simp add: plain_cache_def holds_prefix_def)
  ultimately show ?thesis using k'(1) same_frame_trans [OF frame k'(3)] by (auto simp: holds_prefix_def)
qed

section \<open>The end of a decode\<close>

lemma length_number_rows: "length (number_rows ids oi) = length oi"
proof -
  have "length (fold (\<lambda>i oi. oi[ids ! i := int i]) is oi) = length oi" for "is"
    by (induction "is" arbitrary: oi) auto
  then show ?thesis by (simp add: number_rows_def)
qed

lemma set_outputs_length: "set_outputs n ids o1 = Inr o2 \<Longrightarrow> length (lc_output_ids o2) = length (lc_output_ids o1)"
  by (auto simp: set_outputs_def Let_def length_number_rows split: if_splits prod.splits)

text \<open>Which tokens have a row after a decode.\<close>

definition outputs_of :: "outputs \<Rightarrow> nat list \<Rightarrow> bool" where
  "outputs_of o1 ids \<longleftrightarrow> (\<forall>t \<ge> 0. fst (get_logits_ith t o1) \<noteq> None \<longleftrightarrow> nat t \<in> set ids) \<and>
     (ids \<noteq> [] \<longrightarrow> fst (get_logits_ith (-1) o1) \<noteq> None)"

lemma set_outputs_of:
  assumes "distinct ids" "\<forall>x \<in> set ids. x < N" "length ids \<le> length (lc_logits o1)"
    and "lc_output_swaps o1 = []" "lc_output_ids o1 = replicate N (-1)"
  shows "\<exists>o2. set_outputs (length ids) ids o1 = Inr o2 \<and> outputs_of o2 ids"
proof -
  obtain o2 sw where o2: "set_outputs (length ids) ids o1 = Inr o2" and sw: "swaps_below (length ids) sw"
    and rows: "rows_of o2 (apply_swaps sw ids) (apply_swaps sw (take (length ids) (lc_logits o1)))"
    by (rule set_outputs_rows [OF assms])
  have set: "set (apply_swaps sw ids) = set ids" using apply_swaps_below(1) [OF sw, of ids] mset_eq_setD by blast
  have "fst (get_logits_ith t o2) \<noteq> None \<longleftrightarrow> nat t \<in> set ids" if "t \<ge> 0" for t
  proof (cases "nat t \<in> set ids")
    case True
    then obtain k where "k < length ids" "apply_swaps sw ids ! k = nat t" using set by (metis apply_swaps_simps(4) in_set_conv_nth)
    then show ?thesis using rows_of_get(1) [OF rows, of k] True that by simp
  next
    case False
    then have "t \<notin> int ` set (apply_swaps sw ids)" using set by auto
    then show ?thesis using rows_of_get(2) [OF rows _ that] False by simp
  qed
  moreover have "ids \<noteq> [] \<Longrightarrow> apply_swaps sw ids \<noteq> []" by (metis apply_swaps_simps(4) length_0_conv)
  ultimately show ?thesis using o2 rows_of_get(3) [OF rows] by (auto simp: outputs_of_def)
qed

lemma no_outputs: "outputs_of (o1\<lparr>lc_n_outputs := 0\<rparr>) []"
  by (auto simp: outputs_of_def get_logits_ith_def output_resolve_row_def output_reorder_def Let_def)

text \<open>
  The part after the slots were found, on a cache \<open>k\<close> where the micro-batches \<open>us\<close> can be placed.
\<close>

lemma decode_slots_outcome:
  assumes steps: "placed_steps (lc_memory c) sis us" and rows: "\<forall>u \<in> set us. rows_match e n_out n_all u"
    and bal: "ba_get_n_tokens (lc_balloc c) = n_all" "ba_n_outputs (lc_balloc c) = n_out"
    and out: "ba_out_ids (lc_balloc c) = ids" "length ids = n_out" "distinct ids" "\<forall>x \<in> set ids. x < lc_n_batch c"
    and ctx: "lc_output_swaps (lc_out c) = []" "lc_output_ids (lc_out c) = [] \<or> length (lc_output_ids (lc_out c)) = lc_n_batch c"
    and sum: "sum_outputs n_out n_all us = n_out"
    and rb: "\<And>m km. m < length us \<Longrightarrow> apply_all (take (Suc m) sis) (take (Suc m) us) (lc_memory c) = Inr km \<Longrightarrow>
      \<exists>k'. rollback (us ! m) km = Inr k'"
  shows "\<exists>r k' o' w'. decode_slots e (sis, us) c w = Inr (r, c\<lparr>lc_memory := k', lc_out := o'\<rparr>, w') \<and>
    (lc_output_ids o' = [] \<or> length (lc_output_ids o') = lc_n_batch c) \<and>
    (r = 0 \<and> apply_all sis us (lc_memory c) = Inr k' \<and> outputs_of o' ids \<or>
     r = -2 \<and> k' = lc_memory c \<or>
     r \<in> {2, -2, -3} \<and> (\<exists>m < length us. \<exists>km. apply_all (take (Suc m) sis) (take (Suc m) us) (lc_memory c) = Inr km \<and>
       rollback (us ! m) km = Inr k' \<and> graph_fails e km (us ! m) r)) \<and> (never_fails e \<longrightarrow> r = 0)"
proof -
  let ?o = "lc_out c"
  obtain kf where kf: "apply_all sis us (lc_memory c) = Inr kf" and len: "length sis = length us"
    using steps by (metis placed_steps_all placed_steps_def)
  obtain ok w1 where res: "en_reserve e n_out w = (ok, w1)" by (metis prod.collapse)
  define oi where "oi = (if lc_output_ids ?o = [] then replicate (lc_n_batch c) 0 else lc_output_ids ?o)"
  have oi: "length oi = lc_n_batch c" using ctx(2) by (auto simp: oi_def)
  define o1 where "o1 = (if ok then ?o\<lparr>lc_logits := vec_resize (max n_out (lc_n_seq_max c)) [] (lc_logits ?o),
      lc_output_ids := replicate (lc_n_batch c) (-1), lc_n_outputs := 0\<rparr>
    else ?o\<lparr>lc_output_ids := oi, lc_logits := []\<rparr>)"
  have reserve: "output_reserve ok n_out c = (if ok then max n_out (lc_n_seq_max c) else 0, c\<lparr>lc_out := o1\<rparr>)"
    using oi by (auto simp: output_reserve_def Let_def o1_def oi_def map_replicate_const)
  have o1: "lc_output_swaps o1 = []" "length (lc_output_ids o1) = lc_n_batch c" using ctx(1) oi by (simp_all add: o1_def)
  show ?thesis
  proof (cases "ok \<or> n_out = 0")
    case False
    then have "decode_slots e (sis, us) c w = Inr (-2, c\<lparr>lc_memory := lc_memory c, lc_out := o1\<rparr>, w1)"
      using reserve by (simp add: decode_slots_def bal res)
    moreover have "\<not> never_fails e" using False res unfolding never_fails_def by (metis fst_conv)
    ultimately show ?thesis using o1(2) by blast
  next
    case True
    have logits: "n_out \<le> length (lc_logits (lc_out (c\<lparr>lc_out := o1\<rparr>)))" using True by (auto simp: o1_def)
    have le: "0 + sum_outputs n_out n_all us \<le> n_out" using sum by simp
    have mem: "apply_all sis us (lc_memory (c\<lparr>lc_out := o1\<rparr>)) = Inr kf" using kf by simp
    have rb': "\<exists>k'. rollback (us ! m) km = Inr k'" if "m < length us"
      "apply_all (take (Suc m) sis) (take (Suc m) us) (lc_memory (c\<lparr>lc_out := o1\<rparr>)) = Inr km" for m km
      using rb that by simp
    have upd: "c\<lparr>lc_out := o1, lc_memory := k', lc_out := x\<rparr> = c\<lparr>lc_memory := k', lc_out := x\<rparr>"
      "lc_out (c\<lparr>lc_out := o1\<rparr>) = o1" "lc_memory (c\<lparr>lc_out := o1\<rparr>) = lc_memory c" for k' x by simp_all
    obtain r k' n l w' where run: "run_ubatches e n_out n_all 0 sis us (c\<lparr>lc_out := o1\<rparr>) w1 =
        Inr (r, c\<lparr>lc_memory := k', lc_out := o1\<lparr>lc_n_outputs := n, lc_logits := l\<rparr>\<rparr>, w')"
      "r = 0 \<and> k' = kf \<and> length l = length (lc_logits o1) \<or>
       r \<in> {2, -2, -3} \<and> (\<exists>m < length us. \<exists>km. apply_all (take (Suc m) sis) (take (Suc m) us) (lc_memory c) = Inr km \<and>
         rollback (us ! m) km = Inr k' \<and> graph_fails e km (us ! m) r)" "never_fails e \<longrightarrow> r = 0"
      using run_ubatches_spec [OF mem len rows le logits rb', of w1] unfolding upd by blast
    have slots: "decode_slots e (sis, us) c w = (if r \<noteq> 0 then Inr (r, c\<lparr>lc_memory := k', lc_out := o1\<lparr>lc_n_outputs := n, lc_logits := l\<rparr>\<rparr>, w')
        else bind_outcome (set_outputs n_out ids (o1\<lparr>lc_n_outputs := n, lc_logits := l\<rparr>)) (\<lambda>o2. Inr (0, c\<lparr>lc_memory := k', lc_out := o2\<rparr>, w')))"
      using True run(1) by (auto simp: decode_slots_def bal res reserve out(1))
    show ?thesis
    proof (cases "r = 0")
      case False
      then have "r \<in> {2, -2, -3} \<and> (\<exists>m < length us. \<exists>km. apply_all (take (Suc m) sis) (take (Suc m) us) (lc_memory c) = Inr km \<and>
         rollback (us ! m) km = Inr k' \<and> graph_fails e km (us ! m) r)" using run(2) by blast
      moreover have "decode_slots e (sis, us) c w = Inr (r, c\<lparr>lc_memory := k', lc_out := o1\<lparr>lc_n_outputs := n, lc_logits := l\<rparr>\<rparr>, w')"
        using slots False by simp
      moreover have "length (lc_output_ids (o1\<lparr>lc_n_outputs := n, lc_logits := l\<rparr>)) = lc_n_batch c" using o1(2) by simp
      ultimately show ?thesis using run(3) by blast
    next
      case r: True
      then have kl: "k' = kf" "length l = length (lc_logits o1)" using run(2) by auto
      have "\<exists>o2. set_outputs n_out ids (o1\<lparr>lc_n_outputs := n, lc_logits := l\<rparr>) = Inr o2 \<and> outputs_of o2 ids"
      proof (cases ok)
        case True
        then show ?thesis
          using set_outputs_of [of ids "lc_n_batch c" "o1\<lparr>lc_n_outputs := n, lc_logits := l\<rparr>"] out(2-4) o1(1) kl(2)
          by (simp add: o1_def)
      next
        case False
        then have "n_out = 0" "ids = []" using True out(2) by auto
        moreover have "set_outputs 0 [] (o1\<lparr>lc_n_outputs := n, lc_logits := l\<rparr>) = Inr (o1\<lparr>lc_logits := l, lc_n_outputs := 0\<rparr>)"
          by (simp add: set_outputs_def Let_def)
        ultimately show ?thesis using no_outputs by auto
      qed
      then obtain o2 where o2: "set_outputs n_out ids (o1\<lparr>lc_n_outputs := n, lc_logits := l\<rparr>) = Inr o2" "outputs_of o2 ids" by blast
      have "length (lc_output_ids o2) = lc_n_batch c" using set_outputs_length [OF o2(1)] o1(2) by simp
      moreover have "decode_slots e (sis, us) c w = Inr (0, c\<lparr>lc_memory := k', lc_out := o2\<rparr>, w')" using slots r o2(1) by simp
      ultimately show ?thesis using o2(2) kf kl(1) by blast
    qed
  qed
qed

lemma init_batch_again:
  "init_batch n_ubatch (a\<lparr>ba_used := u, ba_n_used := m, ba_out_ids := ids\<rparr>) k = init_batch n_ubatch a k"
  by (simp add: init_batch_def ba_split_reset_def ba_get_n_tokens_def cong: if_cong)

text \<open>What a decode may have done: the return value, the tokens the cache now holds, the outputs.\<close>

definition decode_result :: "llama_context \<Rightarrow> llama_batch \<Rightarrow> full_batch \<Rightarrow> int \<Rightarrow> llama_context \<Rightarrow> nat \<Rightarrow> bool" where
  "decode_result c inp b r c' j \<longleftrightarrow> r \<in> {0, 1, 2, -2, -3} \<and> j \<le> bt_n_tokens inp \<and>
     holds_prefix (lc_memory c) b j (lc_memory c') \<and>
     (r = 0 \<longrightarrow> j = bt_n_tokens inp \<and> outputs_of (lc_out c') (filter (\<lambda>i. b_logits b ! i) [0..<bt_n_tokens inp])) \<and>
     (r \<noteq> 0 \<longrightarrow> j < bt_n_tokens inp) \<and>
     (r = 1 \<longrightarrow> j = 0) \<and> (r = 1 \<longleftrightarrow> card (free_cells (lc_memory c)) < bt_n_tokens inp) \<and>
     (r = 0 \<longrightarrow> card (free_cells (lc_memory c')) + bt_n_tokens inp = card (free_cells (lc_memory c)))"

text \<open>
  What stopped a decode after \<open>j\<close> tokens: the output buffers could not be had, or the micro-batch that starts at token \<open>j\<close>
  failed in the graph, when the cache held the tokens up to its end.
\<close>

definition failed_at :: "'w engine \<Rightarrow> llama_context \<Rightarrow> full_batch \<Rightarrow> int \<Rightarrow> nat \<Rightarrow> bool" where
  "failed_at e c b r j \<longleftrightarrow> r = -2 \<and> j = 0 \<or>
     max 1 (lc_n_ubatch c) dvd j \<and> (\<exists>km u. graph_fails e km u r \<and> ub_n_tokens u = min (b_n_tokens b - j) (max 1 (lc_n_ubatch c)) \<and>
       (\<forall>i < ub_n_tokens u. ub_seq_id u ! i = b_ids b (j + i) \<and> ub_pos u ! i = b_pos b ! (j + i)) \<and>
       holds_prefix (lc_memory c) b (j + ub_n_tokens u) km)"

lemma runs_nth:
  "m < length (runs u c n) \<Longrightarrow> length (concat (take m (runs u c n))) = m * max 1 u \<and> length (runs u c n ! m) = min (n - (c + m * max 1 u)) (max 1 u)"
proof (induction u c n arbitrary: m rule: runs.induct)
  case (1 u c n)
  have c: "c < n" using "1.prems" by (simp add: runs.simps [of u c n] split: if_splits)
  let ?k = "min (n - c) (max 1 u)"
  have r: "runs u c n = [c..<c + ?k] # runs u (c + ?k) n" using c by (subst runs.simps) (simp add: Let_def)
  show ?case
  proof (cases m)
    case 0
    then show ?thesis by (simp add: r)
  next
    case (Suc m')
    then have m': "m' < length (runs u (c + ?k) n)" using "1.prems" by (simp add: r)
    have "runs u d n = []" if "\<not> d < n" for d using that by (subst runs.simps) simp
    then have "c + ?k < n" using m' by (metis length_0_conv not_less_zero)
    then have k: "?k = max 1 u" by linarith
    show ?thesis using "1.IH" [OF c refl m'] unfolding k by (simp add: r [unfolded k] Suc algebra_simps)
  qed
qed

text \<open>The settings of a context, which no decode changes.\<close>

definition same_settings :: "llama_context \<Rightarrow> llama_context \<Rightarrow> bool" where
  "same_settings c c' \<longleftrightarrow> (\<exists>a k o1. c' = c\<lparr>lc_balloc := a, lc_memory := k, lc_out := o1\<rparr>)"

lemma same_settingsD:
  assumes "same_settings c c'"
  shows "lc_n_vocab c' = lc_n_vocab c" "lc_n_embd c' = lc_n_embd c" "ctx_n_seq_max c' = ctx_n_seq_max c"
    "lc_n_batch c' = lc_n_batch c" "lc_n_ubatch c' = lc_n_ubatch c" "lc_embeddings c' = lc_embeddings c"
    "lc_causal_attn c' = lc_causal_attn c"
  using assms by (auto simp: same_settings_def ctx_n_seq_max_def)

text \<open>The batch on a cache \<open>k1\<close> that holds the same tokens as that of the context.\<close>

lemma decode_fits:
  fixes e :: "'w engine"
  assumes ok: "ctx_ok c" and acc: "accepts c inp a" and seq: "sequential (ba_batch a)"
    and rows: "computes_rows e"
    and k1: "same_tokens (lc_memory c) k1"
  defines "a' \<equiv> a\<lparr>ba_used := replicate (bt_n_tokens inp) True, ba_n_used := bt_n_tokens inp,
      ba_out_ids := filter (\<lambda>i. b_logits (ba_batch a) ! i) [0..<bt_n_tokens inp]\<rparr>"
  defines "c1 \<equiv> c\<lparr>lc_balloc := a', lc_memory := k1, lc_out := (lc_out c)\<lparr>lc_output_swaps := []\<rparr>\<rparr>"
  shows "\<not> bt_n_tokens inp \<le> card (free_cells (lc_memory c)) \<Longrightarrow> init_batch (lc_n_ubatch c) a k1 = Inr (None, a', k1)"
    and "bt_n_tokens inp \<le> card (free_cells (lc_memory c)) \<Longrightarrow> \<exists>sl. init_batch (lc_n_ubatch c) a k1 = Inr (Some sl, a', k1) \<and>
      (\<exists>r k' o' w' j. decode_slots e sl c1 w = Inr (r, c1\<lparr>lc_memory := k', lc_out := o'\<rparr>, w') \<and>
        (lc_output_ids o' = [] \<or> length (lc_output_ids o') = lc_n_batch c) \<and>
        decode_result c inp (ba_batch a) r (c1\<lparr>lc_memory := k', lc_out := o'\<rparr>) j \<and> (never_fails e \<longrightarrow> r = 0) \<and>
        (r \<noteq> 0 \<longrightarrow> failed_at e c (ba_batch a) r j))"
proof -
  let ?n = "bt_n_tokens inp" and ?b = "ba_batch a" and ?k = "lc_memory c"
  let ?rs = "runs (lc_n_ubatch c) 0 ?n" and ?ids = "filter (\<lambda>i. b_logits (ba_batch a) ! i) [0..<bt_n_tokens inp]"
  let ?us = "map (\<lambda>r. fst (ubatch_add r (length r) False a)) ?rs"
  note o = ctx_okD [OF ok]
  have inp: "input_rows_ok inp" "?n \<le> lc_n_batch c" "batch_ok ?b" "?n \<le> length (b_logits ?b)"
    and init: "ba_init (lc_n_vocab c) (Some (kv_memory ?k)) (lc_n_embd c) (ctx_n_seq_max c) (lc_embeddings c) inp (lc_balloc c) = Inr (True, a)"
    using acc by (simp_all add: accepts_def)
  note st = accepted_state [OF inp(1) init]
  have k: "plain_cache k1" "same_frame ?k k1" "free_cells k1 = free_cells ?k"
    "\<And>t. t < length (kc_seq_to_stream ?k) \<Longrightarrow> kv_positions k1 t = kv_positions ?k t"
    using k1 by (simp_all add: same_tokens_def)
  note fr = same_frameD(1) [OF k(2)]
  have len: "ctx_n_seq_max c \<le> length (kc_seq_to_stream k1)" using o(7) fr by simp
  have pos: "0 < ba_n_pos_per_embd (lc_balloc c)" "ba_n_pos_per_embd (lc_balloc c) \<le> 1" "0 < ba_n_pos_per_embd a"
    using o(5) st(6) by simp_all
  have n: "b_n_tokens ?b = ?n" using st(7) by (simp add: ba_get_n_tokens_def)
  note ib = init_batch_steps [OF k(1) inp(1) init pos(1) o(6) len inp(3), where n_ubatch = "lc_n_ubatch c"]
  have n0: "0 < ?n" using init unfolding ba_init_accepts [OF inp(1)] by (simp add: Let_def)
  show "\<not> ?n \<le> card (free_cells ?k) \<Longrightarrow> init_batch (lc_n_ubatch c) a k1 = Inr (None, a', k1)"
    using ib(1) k(3) unfolding a'_def by simp
  assume fits: "?n \<le> card (free_cells ?k)"
  then obtain sis where sis: "init_batch (lc_n_ubatch c) a k1 = Inr (Some (sis, ?us), a', k1)" "placed_steps k1 sis ?us"
    using ib(2) k(3) unfolding a'_def by auto
  have cr: "concat ?rs = [0..<?n]" by (rule concat_runs) simp
  have ids: "s < length (kc_seq_to_stream k1)" "s < ctx_n_seq_max c" if "i < b_n_tokens ?b" "s \<in> set (b_ids ?b i)" for i s
    using accepted_ids [OF inp(1) init _ that(2) o(6)] that(1) n len by simp_all
  have after: "p < b_pos ?b ! i" if "t < length (kc_seq_to_stream k1)" "i < b_n_tokens ?b" "t \<in> set (b_ids ?b i)" "p \<in> kv_positions k1 t" for t i p
    using accepted_after_memory [OF _ inp(1) pos(2) init o(7) ids(2) _ that(3)] o(1) k(4) that n fr
    by (simp add: plain_cache_def)
  have step: "\<exists>km. apply_all (take m sis) (take m ?us) k1 = Inr km \<and> holds_prefix k1 ?b (length (concat (take m ?rs))) km \<and>
      card (free_cells km) + length (concat (take m ?rs)) = card (free_cells k1)"
    if m: "m \<le> length ?us" for m
  proof -
    obtain km where km: "apply_all (take m sis) (take m ?us) k1 = Inr km" "plain_cache km" "same_frame k1 km"
      "card (free_cells km) + total_tokens (take m ?us) = card (free_cells k1)"
      "\<And>t. t < length (kc_seq_to_stream k1) \<Longrightarrow> kv_positions km t = kv_positions k1 t \<union> (\<Union>u \<in> set (take m ?us). ubatch_positions u t)"
      using sis(2) m unfolding placed_steps_def by blast
    have "set (take m ?rs) \<subseteq> set ?rs" by (rule set_take_subset)
    then have "(\<Union>u \<in> set (take m ?us). ubatch_positions u t) =
        {b_pos ?b ! i | i. i \<in> set (concat (take m ?rs)) \<and> t \<in> set (b_ids ?b i)}" for t
      using ib(3) unfolding take_map by fastforce
    moreover have "set (concat (take m ?rs)) = {..<length (concat (take m ?rs))}"
    proof (cases "m < length ?rs")
      case True
      show ?thesis by (subst runs_take(1) [OF cr True]) (simp add: lessThan_atLeast0)
    next
      case False
      then have "take m ?rs = ?rs" by simp
      then show ?thesis by (simp only: cr) (simp add: lessThan_atLeast0)
    qed
    ultimately have "(\<Union>u \<in> set (take m ?us). ubatch_positions u t) = prefix_positions ?b (length (concat (take m ?rs))) t" for t
      unfolding prefix_positions_def by (simp only: lessThan_iff)
    then have "holds_prefix k1 ?b (length (concat (take m ?rs))) km" using km(2,3,5) by (simp add: holds_prefix_def)
    moreover have "total_tokens (take m ?us) = length (concat (take m ?rs))"
      by (simp add: total_tokens_def take_map length_concat comp_def ubatch_add_fields(1))
    ultimately show ?thesis using km(1,4) by auto
  qed
  have undo: "\<exists>k'. rollback (?us ! m) km = Inr k' \<and> holds_prefix k1 ?b (length (concat (take m ?rs))) k' \<and> length (concat (take m ?rs)) < ?n \<and>
      (graph_fails e km (?us ! m) r \<longrightarrow> failed_at e c ?b r (length (concat (take m ?rs))))"
    if m: "m < length ?us" "apply_all (take (Suc m) sis) (take (Suc m) ?us) k1 = Inr km" for m km r
  proof -
    have mr: "m < length ?rs" using m(1) by simp
    let ?j = "length (concat (take m ?rs))" and ?r = "?rs ! m"
    note rt = runs_take [OF cr mr]
    have j': "length (concat (take (Suc m) ?rs)) = ?j + length ?r" using mr by (simp add: take_Suc_conv_app_nth)
    have u: "?us ! m = fst (ubatch_add ?r (length ?r) False a)" using mr by simp
    have ids_pos: "ub_seq_id (?us ! m) ! i = b_ids ?b (?j + i) \<and> ub_pos (?us ! m) ! i = b_pos ?b ! (?j + i)" if "i < length ?r" for i
    proof -
      have "?r ! i = ?j + i" using arg_cong [OF rt(2), of "\<lambda>r. r ! i"] that by simp
      then show ?thesis using ubatch_add_fields(2,5) [OF that] pos(3) unfolding u by simp
    qed
    moreover have holds: "holds_prefix k1 ?b (?j + length ?r) km" using step [of "Suc m"] m j' by auto
    moreover have len_u: "ub_n_tokens (?us ! m) = length ?r" unfolding u by (rule ubatch_add_fields(1))
    moreover have "graph_fails e km (?us ! m) r \<longrightarrow> failed_at e c ?b r ?j"
    proof
      assume fails: "graph_fails e km (?us ! m) r"
      have "?j = m * max 1 (lc_n_ubatch c)" "length ?r = min (?n - ?j) (max 1 (lc_n_ubatch c))" using runs_nth [OF mr] by simp_all
      then have "max 1 (lc_n_ubatch c) dvd ?j" "ub_n_tokens (?us ! m) = min (b_n_tokens ?b - ?j) (max 1 (lc_n_ubatch c))"
        using len_u n by simp_all
      then show "failed_at e c ?b r ?j"
        unfolding failed_at_def using fails ids_pos len_u holds_prefix_same [OF k1 holds] by (intro disjI2 conjI exI [of _ km] exI [of _ "?us ! m"]) simp_all
    qed
    moreover have "?j < ?n"
    proof -
      have "?r \<noteq> []" using runs_bounded [of ?r "lc_n_ubatch c" 0 ?n] mr by auto
      then have "0 < length ?r" by simp
      then show ?thesis using rt(3) by linarith
    qed
    ultimately show ?thesis
      using rollback_prefix [OF seq inp(3), of "?j + length ?r" ?j "?us ! m" k1 km] rt(3) n after ids(1) by auto
  qed
  have n_out: "ba_n_outputs a = length ?ids" by (rule accepted_outputs [OF inp(1) init inp(4)])
  have c1: "lc_memory c1 = k1" "lc_balloc c1 = a'" "lc_out c1 = (lc_out c)\<lparr>lc_output_swaps := []\<rparr>" "lc_n_batch c1 = lc_n_batch c"
    by (simp_all add: c1_def)
  have a': "ba_get_n_tokens a' = ?n" "ba_n_outputs a' = ba_n_outputs a" "ba_out_ids a' = ?ids"
    using st(7) by (simp_all add: a'_def ba_get_n_tokens_def)
  have mem: "placed_steps (lc_memory c1) sis ?us" using sis(2) by (simp add: c1)
  have rows': "\<forall>u \<in> set ?us. rows_match e (length ?ids) ?n u" by (rule runs_match [OF rows cr])
  have bal: "ba_get_n_tokens (lc_balloc c1) = ?n" "ba_n_outputs (lc_balloc c1) = length ?ids" "ba_out_ids (lc_balloc c1) = ?ids"
    using a' n_out by (simp_all add: c1)
  have below: "\<forall>x \<in> set ?ids. x < lc_n_batch c1" using inp(2) by (auto simp: c1)
  have outs: "lc_output_swaps (lc_out c1) = []" "lc_output_ids (lc_out c1) = [] \<or> length (lc_output_ids (lc_out c1)) = lc_n_batch c1"
    using o(10) by (simp_all add: c1)
  have undo': "\<exists>k'. rollback (?us ! m) km = Inr k'"
    if "m < length ?us" "apply_all (take (Suc m) sis) (take (Suc m) ?us) (lc_memory c1) = Inr km" for m km
    using undo [OF that(1)] that(2) unfolding c1 by blast
  note decode_slots_outcome [OF mem rows' bal refl distinct_filter [OF distinct_upt] below outs
      sum_outputs_runs [OF cr refl] undo', of w]
  then obtain r k' o' w' where res: "decode_slots e (sis, ?us) c1 w = Inr (r, c1\<lparr>lc_memory := k', lc_out := o'\<rparr>, w')"
    "lc_output_ids o' = [] \<or> length (lc_output_ids o') = lc_n_batch c"
    and cases: "r = 0 \<and> apply_all sis ?us k1 = Inr k' \<and> outputs_of o' ?ids \<or> r = -2 \<and> k' = k1 \<or>
     r \<in> {2, -2, -3} \<and> (\<exists>m < length ?us. \<exists>km. apply_all (take (Suc m) sis) (take (Suc m) ?us) k1 = Inr km \<and>
       rollback (?us ! m) km = Inr k' \<and> graph_fails e km (?us ! m) r)" and nf: "never_fails e \<longrightarrow> r = 0"
    unfolding c1 by blast
  have "\<exists>j. decode_result c inp ?b r (c1\<lparr>lc_memory := k', lc_out := o'\<rparr>) j \<and> (r \<noteq> 0 \<longrightarrow> failed_at e c ?b r j)"
    using cases
  proof (elim disjE conjE exE)
    assume r: "r = 0" "apply_all sis ?us k1 = Inr k'" "outputs_of o' ?ids"
    have "length sis = length ?us" using sis(2) by (simp add: placed_steps_def)
    then have "holds_prefix k1 ?b ?n k'" "card (free_cells k') + ?n = card (free_cells k1)" using step [of "length ?us"] r(2) cr by auto
    then show ?thesis using r k(3) fits holds_prefix_same [OF k1] unfolding decode_result_def by (intro exI [of _ ?n]) simp
  next
    assume "r = -2" "k' = k1"
    then show ?thesis using fits n0 same_tokens_holds [OF k1] unfolding decode_result_def failed_at_def by (intro exI [of _ 0]) simp
  next
    fix m km assume r: "r \<in> {2, -2, -3}" "m < length ?us" "apply_all (take (Suc m) sis) (take (Suc m) ?us) k1 = Inr km" "rollback (?us ! m) km = Inr k'" "graph_fails e km (?us ! m) r"
    obtain k2 where k2: "rollback (?us ! m) km = Inr k2" "holds_prefix k1 ?b (length (concat (take m ?rs))) k2" "length (concat (take m ?rs)) < ?n"
      "graph_fails e km (?us ! m) r \<longrightarrow> failed_at e c ?b r (length (concat (take m ?rs)))"
      using undo [OF r(2,3), of r] by blast
    moreover have "k2 = k'" using k2(1) r(4) by simp
    ultimately have "holds_prefix k1 ?b (length (concat (take m ?rs))) k'" "length (concat (take m ?rs)) < ?n" "failed_at e c ?b r (length (concat (take m ?rs)))"
      using r(5) by simp_all
    then show ?thesis
      using r(1) fits holds_prefix_same [OF k1] unfolding decode_result_def by (intro exI [of _ "length (concat (take m ?rs))"]) auto
  qed
  then show "\<exists>sl. init_batch (lc_n_ubatch c) a k1 = Inr (Some sl, a', k1) \<and>
      (\<exists>r k' o' w' j. decode_slots e sl c1 w = Inr (r, c1\<lparr>lc_memory := k', lc_out := o'\<rparr>, w') \<and>
        (lc_output_ids o' = [] \<or> length (lc_output_ids o') = lc_n_batch c) \<and>
        decode_result c inp (ba_batch a) r (c1\<lparr>lc_memory := k', lc_out := o'\<rparr>) j \<and> (never_fails e \<longrightarrow> r = 0) \<and>
        (r \<noteq> 0 \<longrightarrow> failed_at e c (ba_batch a) r j))"
    using sis(1) res nf by blast
qed

lemma decode_outcome:
  fixes e :: "'w engine"
  assumes ok: "ctx_ok c" and acc: "accepts c inp a" and seq: "sequential (ba_batch a)"
    and rows: "computes_rows e"
  shows "\<exists>r c' w' j. decode e inp c w = Inr (r, c', w') \<and> ctx_ok c' \<and> same_settings c c' \<and>
    decode_result c inp (ba_batch a) r c' j \<and> (never_fails e \<longrightarrow> r \<in> {0, 1}) \<and> (r \<notin> {0, 1} \<longrightarrow> failed_at e c (ba_batch a) r j)"
proof -
  let ?n = "bt_n_tokens inp"
  note o = ctx_okD [OF ok]
  have inp: "input_rows_ok inp" "?n \<le> lc_n_batch c" "(bt_token inp = None) \<noteq> (bt_embd inp = None)"
    and init: "ba_init (lc_n_vocab c) (Some (kv_memory (lc_memory c))) (lc_n_embd c) (ctx_n_seq_max c) (lc_embeddings c) inp (lc_balloc c) = Inr (True, a)"
    using acc by (simp_all add: accepts_def)
  note st = accepted_state [OF inp(1) init]
  have n: "0 < ?n" using init ba_init_accepts [OF inp(1)] by (simp add: Let_def)
  define c0 where "c0 = c\<lparr>lc_balloc := a, lc_out := (lc_out c)\<lparr>lc_output_swaps := []\<rparr>\<rparr>"
  define a' where "a' = a\<lparr>ba_used := replicate ?n True, ba_n_used := ?n,
      ba_out_ids := filter (\<lambda>i. b_logits (ba_batch a) ! i) [0..<?n]\<rparr>"
  have a': "ba_n_pos_per_embd a' = 1" using st(6) o(5) by (simp add: a'_def)
  have dec: "decode e inp c w = decode_memory e c0 w"
    using inp(2,3) n init o(8,9) st(7) by (auto simp: decode_def c0_def)
  have upd: "\<exists>b k' w'. memory_update e (c0\<lparr>lc_balloc := x, lc_memory := k\<rparr>) v = Inr (b, c0\<lparr>lc_balloc := x, lc_memory := k'\<rparr>, w') \<and>
      same_tokens (lc_memory c) k'" if k: "same_tokens (lc_memory c) k" for k x v
  proof -
    have "plain_cache k" "kv_get_can_shift k" "kc_sc_info k = []"
      using k o(2,3) same_frameD [of "lc_memory c" k] by (auto simp: same_tokens_def kv_get_can_shift_def split: if_splits)
    then show ?thesis using memory_update_tokens [of "c0\<lparr>lc_balloc := x, lc_memory := k\<rparr>" e v] same_tokens_trans [OF k] by auto
  qed
  have good: "ctx_ok c' \<and> same_settings c c'" if "c' = c\<lparr>lc_balloc := a', lc_memory := k, lc_out := x\<rparr>" "holds_prefix (lc_memory c) b j k"
    "lc_output_ids x = [] \<or> length (lc_output_ids x) = lc_n_batch c" for c' k x b j
  proof -
    have f: "plain_cache k" "same_frame (lc_memory c) k" using that(2) by (simp_all add: holds_prefix_def)
    show ?thesis
      using o f(1) same_frameD [OF f(2)] a' that(1,3)
      by (auto simp: ctx_ok_def same_settings_def ctx_n_seq_max_def kv_get_can_shift_def)
  qed
  have fitting: "\<exists>r c' w' j. decode_slots e sl (c0\<lparr>lc_balloc := a', lc_memory := k\<rparr>) v = Inr (r, c', w') \<and> ctx_ok c' \<and> same_settings c c' \<and>
      decode_result c inp (ba_batch a) r c' j \<and> (never_fails e \<longrightarrow> r \<in> {0, 1}) \<and> (r \<notin> {0, 1} \<longrightarrow> failed_at e c (ba_batch a) r j)"
    if k: "same_tokens (lc_memory c) k" and sl: "?n \<le> card (free_cells (lc_memory c))"
      "init_batch (lc_n_ubatch c) a k = Inr (Some sl, a', k)" for k sl v
  proof -
    have eq: "c0\<lparr>lc_balloc := a', lc_memory := k\<rparr> = c\<lparr>lc_balloc := a', lc_memory := k, lc_out := (lc_out c)\<lparr>lc_output_swaps := []\<rparr>\<rparr>"
      by (simp add: c0_def)
    define c2 where "c2 = c0\<lparr>lc_balloc := a', lc_memory := k\<rparr>"
    obtain sl' r k' o' w' j where sl': "init_batch (lc_n_ubatch c) a k = Inr (Some sl', a', k)"
      and slots: "decode_slots e sl' c2 v = Inr (r, c2\<lparr>lc_memory := k', lc_out := o'\<rparr>, w')"
      and r: "lc_output_ids o' = [] \<or> length (lc_output_ids o') = lc_n_batch c"
        "decode_result c inp (ba_batch a) r (c2\<lparr>lc_memory := k', lc_out := o'\<rparr>) j" "never_fails e \<longrightarrow> r = 0"
        "r \<noteq> 0 \<longrightarrow> failed_at e c (ba_batch a) r j"
      using decode_fits(2) [OF ok acc seq rows k sl(1), of v] unfolding a'_def [symmetric] eq [folded c2_def, symmetric] by blast
    have c2: "c2\<lparr>lc_memory := k', lc_out := o'\<rparr> = c\<lparr>lc_balloc := a', lc_memory := k', lc_out := o'\<rparr>" by (simp add: c2_def c0_def)
    have "sl' = sl" using sl' sl(2) by simp
    then have "decode_slots e sl (c0\<lparr>lc_balloc := a', lc_memory := k\<rparr>) v = Inr (r, c\<lparr>lc_balloc := a', lc_memory := k', lc_out := o'\<rparr>, w')"
      using slots unfolding c2 by (simp add: c2_def)
    moreover have "holds_prefix (lc_memory c) (ba_batch a) j k'" using r(2) by (simp add: decode_result_def c2_def)
    moreover have "ctx_ok (c\<lparr>lc_balloc := a', lc_memory := k', lc_out := o'\<rparr>) \<and> same_settings c (c\<lparr>lc_balloc := a', lc_memory := k', lc_out := o'\<rparr>)"
      by (rule good [OF refl _ r(1)]) (rule calculation)
    moreover have "never_fails e \<longrightarrow> r \<in> {0, 1}" "r \<notin> {0, 1} \<longrightarrow> failed_at e c (ba_batch a) r j" using r(3,4) by simp_all
    ultimately show ?thesis using r(2) unfolding c2 by blast
  qed
  obtain b1 k1 w1 where k1: "memory_update e c0 w = Inr (b1, c0\<lparr>lc_balloc := a, lc_memory := k1\<rparr>, w1)" "same_tokens (lc_memory c) k1"
  proof -
    have "c0\<lparr>lc_balloc := a, lc_memory := lc_memory c\<rparr> = c0" by (simp add: c0_def)
    then show ?thesis using that upd [OF same_tokens_refl [OF o(1)], of a w] by metis
  qed
  have attempt: "ctx_init_batch (c0\<lparr>lc_balloc := x, lc_memory := k\<rparr>) =
      bind_outcome (init_batch (lc_n_ubatch c) x k) (\<lambda>(r, y, k). Inr (r, c0\<lparr>lc_balloc := y, lc_memory := k\<rparr>))" for x k
    by (simp add: ctx_init_batch_def c0_def)
  show ?thesis
  proof (cases "?n \<le> card (free_cells (lc_memory c))")
    case True
    obtain sl where sl: "init_batch (lc_n_ubatch c) a k1 = Inr (Some sl, a', k1)"
      using decode_fits(2) [OF ok acc seq rows k1(2) True] unfolding a'_def [symmetric] by blast
    then have "decode e inp c w = decode_slots e sl (c0\<lparr>lc_balloc := a', lc_memory := k1\<rparr>) w1"
      by (simp add: dec decode_memory_def k1(1) attempt)
    then show ?thesis using fitting [OF k1(2) True sl] by auto
  next
    case False
    have sl: "init_batch (lc_n_ubatch c) a k = Inr (None, a', k)" if "same_tokens (lc_memory c) k" for k
      using decode_fits(1) [OF ok acc seq rows that False] unfolding a'_def .
    have sl': "init_batch (lc_n_ubatch c) a' k = Inr (None, a', k)" if "same_tokens (lc_memory c) k" for k
      using sl [OF that] unfolding a'_def init_batch_again .
    obtain b2 k2 w2 where k2: "memory_update e (c0\<lparr>lc_balloc := a', lc_memory := k1\<rparr>) w1 = Inr (b2, c0\<lparr>lc_balloc := a', lc_memory := k2\<rparr>, w2)"
      "same_tokens (lc_memory c) k2"
      using upd [OF k1(2), of a' w1] by blast
    have "decode e inp c w = Inr (1, c0\<lparr>lc_balloc := a', lc_memory := k2\<rparr>, w2)"
      by (simp add: dec decode_memory_def k1(1) attempt sl [OF k1(2)] k2(1) sl' [OF k2(2)])
    moreover have "decode_result c inp (ba_batch a) 1 (c0\<lparr>lc_balloc := a', lc_memory := k2\<rparr>) 0"
      using False same_tokens_holds [OF k2(2)] by (simp add: decode_result_def)
    moreover have "ctx_ok (c0\<lparr>lc_balloc := a', lc_memory := k2\<rparr>) \<and> same_settings c (c0\<lparr>lc_balloc := a', lc_memory := k2\<rparr>)"
      by (rule good [where x = "(lc_out c)\<lparr>lc_output_swaps := []\<rparr>", OF _ same_tokens_holds [OF k2(2)]])
        (use o(10) in \<open>auto simp: c0_def\<close>)
    ultimately show ?thesis by blast
  qed
qed

text \<open>
  C1. \<open>llama_decode\<close> of a batch that \<open>init\<close> accepts, whatever the graph answers, for a model with one position per token and
  a cache with one stream and no sliding window: the call
  returns one of 0, 1, 2, -2, -3, and afterwards the cache is well-formed and holds on top
  of its former contents exactly the first \<open>j\<close> tokens of the batch. That is the whole batch exactly when the call
  returns 0, nothing when it returns 1, and 1 is returned exactly when the batch has more
  tokens than the cache has free cells. For any other result either the output buffers could not be had and nothing was decoded, or
  the graph failed for the micro-batch that starts at token \<open>j\<close>, a multiple of \<open>n_ubatch\<close>, after all its tokens
  were placed in the cache: so the failed micro-batch is taken back completely.
  Hypotheses: one sequence per token, growing positions within a sequence (a second sequence of a token would keep it), and a graph that
  returns as many rows as the micro-batch has outputs. A graph that never fails makes every
  batch that fits return 0.
\<close>

theorem decode_keeps_prefix:
  assumes "ctx_ok c" "accepts c inp a" "sequential (ba_batch a)"
    and "computes_rows e"
  shows "\<exists>r c' w' j. decode e inp c w = Inr (r, c', w') \<and> ctx_ok c' \<and> r \<in> {0, 1, 2, -2, -3} \<and>
    j \<le> bt_n_tokens inp \<and> (r = 0 \<longleftrightarrow> j = bt_n_tokens inp) \<and> (r = 1 \<longrightarrow> j = 0) \<and>
    (r = 1 \<longleftrightarrow> card (free_cells (lc_memory c)) < bt_n_tokens inp) \<and> (never_fails e \<longrightarrow> r \<in> {0, 1}) \<and>
    (r \<notin> {0, 1} \<longrightarrow> failed_at e c (ba_batch a) r j) \<and>
    (\<forall>t < length (kc_seq_to_stream (lc_memory c)). kv_positions (lc_memory c') t =
      kv_positions (lc_memory c) t \<union> {b_pos (ba_batch a) ! i | i. i < j \<and> t \<in> set (b_ids (ba_batch a) i)})"
proof -
  obtain r c' w' j where "decode e inp c w = Inr (r, c', w')" "ctx_ok c'" "decode_result c inp (ba_batch a) r c' j"
    "never_fails e \<longrightarrow> r \<in> {0, 1}" "r \<notin> {0, 1} \<longrightarrow> failed_at e c (ba_batch a) r j" using decode_outcome [OF assms, of w] by blast
  moreover from this(3) have "r = 0 \<longleftrightarrow> j = bt_n_tokens inp" by (auto simp: decode_result_def)
  ultimately show ?thesis unfolding decode_result_def holds_prefix_def prefix_positions_def by blast
qed

text \<open>
  C12. After a decode that returned 0, \<open>llama_get_logits_ith\<close> gives a row for exactly the tokens
  whose logits flag is set, and a row for index -1 if there is such a token.
\<close>

theorem decode_outputs:
  assumes "ctx_ok c" "accepts c inp a" "sequential (ba_batch a)"
    and "computes_rows e"
    and "decode e inp c w = Inr (0, c', w')"
  shows "(\<forall>i < bt_n_tokens inp. fst (get_logits_ith (int i) (lc_out c')) \<noteq> None \<longleftrightarrow> b_logits (ba_batch a) ! i) \<and>
    ((\<exists>i < bt_n_tokens inp. b_logits (ba_batch a) ! i) \<longrightarrow> fst (get_logits_ith (-1) (lc_out c')) \<noteq> None)"
proof -
  obtain j where "decode_result c inp (ba_batch a) 0 c' j"
    using decode_outcome [OF assms(1-4), of w] assms(5) by auto
  then have o: "outputs_of (lc_out c') (filter (\<lambda>i. b_logits (ba_batch a) ! i) [0..<bt_n_tokens inp])"
    by (simp add: decode_result_def)
  have "fst (get_logits_ith (int i) (lc_out c')) \<noteq> None \<longleftrightarrow> b_logits (ba_batch a) ! i" if "i < bt_n_tokens inp" for i
    using o [unfolded outputs_of_def, THEN conjunct1, rule_format, of "int i"] that by simp
  moreover have "fst (get_logits_ith (-1) (lc_out c')) \<noteq> None" if "\<exists>i < bt_n_tokens inp. b_logits (ba_batch a) ! i"
    using o [unfolded outputs_of_def, THEN conjunct2] that by (auto simp: filter_empty_conv)
  ultimately show ?thesis by blast
qed

text \<open>A small context, and two graphs: one that succeeds and one that fails.\<close>

definition small_context :: llama_context where
  "small_context = \<lparr>lc_n_vocab = 10, lc_n_embd = 4, lc_n_seq_max = 2, lc_n_batch = 4, lc_n_ubatch = 1, lc_kv_unified = False,
     lc_causal_attn = True, lc_embeddings = False, lc_memory = fresh_cache, lc_balloc = ba_new 1,
     lc_out = \<lparr>lc_n_outputs = 0, lc_output_ids = [], lc_output_swaps = [], lc_logits = []\<rparr>\<rparr>"

definition two_tokens :: llama_batch where
  "two_tokens = llama_batch_get_one [5, 6] 2"

definition two_accepted :: batch_allocr where
  "two_accepted = snd (projr (ba_init 10 (Some (kv_memory fresh_cache)) 4 2 False two_tokens (ba_new 1)))"

definition graph :: "ggml_status \<Rightarrow> 'w engine" where
  "graph st = \<lparr>en_rope = True, en_shift = (\<lambda>k w. ((True, True), w)), en_reserve = (\<lambda>n w. (True, w)),
     en_compute = (\<lambda>k si u w. ((st, replicate (length (filter (\<lambda>i. ub_output u ! i) [0..<ub_n_tokens u])) [7]), w))\<rparr>"

lemma two_accepted:
  "ba_init 10 (Some (kv_memory fresh_cache)) 4 2 False two_tokens (ba_new 1) = Inr (True, two_accepted)"
  unfolding two_accepted_def by (rule accepted_projr) code_simp

lemma small_context_ok: "ctx_ok small_context" "accepts small_context two_tokens two_accepted" "sequential (ba_batch two_accepted)"
  "bt_n_tokens two_tokens = 2"
  "ba_n_outputs two_accepted = 1"
proof -
  have f: "kc_sc_info fresh_cache = []" "kv_get_can_shift fresh_cache" "kc_n_pos_per_embd fresh_cache = 1"
    by (simp_all add: fresh_cache_def kv_cache_new_def Let_def kv_get_can_shift_def)
  show "ctx_ok small_context"
    using fresh_cache_plain f by (simp add: ctx_ok_def small_context_def ctx_n_seq_max_def ba_new_def)
  show n: "bt_n_tokens two_tokens = 2" by code_simp
  have "input_rows_ok two_tokens" "(bt_token two_tokens = None) \<noteq> (bt_embd two_tokens = None)"
    "batch_ok (ba_batch two_accepted)" "2 \<le> length (b_logits (ba_batch two_accepted))" by code_simp+
  then show "accepts small_context two_tokens two_accepted"
    using two_accepted n by (simp add: accepts_def small_context_def ctx_n_seq_max_def)
  show "sequential (ba_batch two_accepted)" by code_simp
  show "ba_n_outputs two_accepted = 1" by code_simp
qed

lemma graph_rows: "computes_rows (graph st)"
  by (simp add: computes_rows_def graph_def count_outputs_def)

theorem decode_keeps_prefix_witness:
  "\<exists>r c' w' j. decode (graph GGML_STATUS_ABORTED) two_tokens small_context () = Inr (r, c', w') \<and> j \<le> 2 \<and>
    kv_positions (lc_memory c') 0 = {b_pos (ba_batch two_accepted) ! i | i. i < j \<and> 0 \<in> set (b_ids (ba_batch two_accepted) i)}"
proof -
  have m: "lc_memory small_context = fresh_cache" by (simp add: small_context_def)
  note d = decode_keeps_prefix [OF small_context_ok(1-3) graph_rows, of GGML_STATUS_ABORTED "()",
      unfolded small_context_ok(4,5) m fresh_cache_plain(3)]
  obtain r c' w' j where d: "decode (graph GGML_STATUS_ABORTED) two_tokens small_context () = Inr (r, c', w')" "j \<le> 2"
    "\<forall>t < 256. kv_positions (lc_memory c') t = kv_positions fresh_cache t \<union>
      {b_pos (ba_batch two_accepted) ! i | i. i < j \<and> t \<in> set (b_ids (ba_batch two_accepted) i)}"
    using d by (elim exE conjE)
  have "kv_positions (lc_memory c') 0 = {b_pos (ba_batch two_accepted) ! i | i. i < j \<and> 0 \<in> set (b_ids (ba_batch two_accepted) i)}"
    using d(3) [rule_format, of 0] unfolding fresh_cache_plain(4) [of 0, simplified] by (simp only: Un_empty_left)
  then show ?thesis using d(1,2) by blast
qed

theorem decode_outputs_witness:
  "\<exists>c' w'. decode (graph GGML_STATUS_SUCCESS) two_tokens small_context () = Inr (0, c', w') \<and>
    fst (get_logits_ith 1 (lc_out c')) \<noteq> None \<and> fst (get_logits_ith 0 (lc_out c')) = None"
proof -
  let ?e = "graph GGML_STATUS_SUCCESS :: unit engine"
  have nf: "never_fails ?e" by (simp add: never_fails_def graph_def)
  have m: "lc_memory small_context = fresh_cache" by (simp add: small_context_def)
  obtain r c' w' j where d: "decode ?e two_tokens small_context () = Inr (r, c', w')" "decode_result small_context two_tokens (ba_batch two_accepted) r c' j"
    "never_fails ?e \<longrightarrow> r \<in> {0, 1}"
    using decode_outcome [OF small_context_ok(1-3) graph_rows, of GGML_STATUS_SUCCESS "()"] by blast
  moreover have "card (free_cells (lc_memory small_context)) = 8" by (simp add: m fresh_cache_plain(2))
  ultimately have r: "r = 0" using nf by (auto simp: decode_result_def small_context_ok(4))
  have flags: "\<not> b_logits (ba_batch two_accepted) ! 0" "b_logits (ba_batch two_accepted) ! 1" by code_simp+
  note decode_outputs [OF small_context_ok(1-3) graph_rows, unfolded small_context_ok(4), OF d(1) [unfolded r]]
  from this [THEN conjunct1, rule_format, of 0] this [THEN conjunct1, rule_format, of 1]
  show ?thesis using d(1) r flags by auto
qed

text \<open>
  Taking a failed micro-batch back looks only at the first sequence of every token: a
  sequence that shares tokens with another but is the first of none keeps all positions the
  failed micro-batch gave it.
\<close>

theorem rollback_misses_coupled:
  assumes "cache_inv k" "\<forall>i < ub_n_tokens u. ub_seq_id u ! i ! 0 < length (kc_seq_to_stream k)"
    and "t < length (kc_seq_to_stream k)" "\<forall>i < ub_n_tokens u. ub_seq_id u ! i ! 0 \<noteq> t"
  shows "\<exists>k'. rollback u k = Inr k' \<and> kv_positions k' t = kv_positions k t"
proof -
  have "rollback_min u t = LLAMA_POS_MAX" using rollback_min_spec(2) [of u t] assms(4) by blast
  then show ?thesis using rollback_spec [OF assms(1,2)] assms(3) by auto
qed

theorem rollback_misses_coupled_witness:
  "\<exists>k'. rollback (seq_token 9 [0, 1]) busy_cache = Inr k' \<and> 9 \<in> kv_positions k' 1"
proof -
  have u: "ub_n_tokens (seq_token 9 [0, 1]) = 1" "ub_seq_id (seq_token 9 [0, 1]) = [[0, 1]]"
    by (simp_all add: seq_token_def one_token_def)
  have "kc_seq_to_stream busy_cache ! 1 = 0" using plain_stream [OF busy_cache_plain(1)] busy_cache_plain(7) by simp
  moreover have "kv_seq sample_cells ! 2 = {1}" "kv_pos sample_cells ! 2 = 9" "2 < cells_size sample_cells" by code_simp+
  ultimately have "9 \<in> kv_positions busy_cache 1"
    by (force simp: kv_positions_def busy_cache_plain(6) seq_positions_def)
  then show ?thesis
    using rollback_misses_coupled [OF busy_cache_inv, of "seq_token 9 [0, 1]" 1] u busy_cache_plain(7) by auto
qed

end
