(* ===== verification/Chat_State.thy ===== *)
theory Chat_State
  imports Complex_Main Decode
begin

text \<open>
  The Android bridge \<open>ai_chat.cpp\<close>: its global variables, the objects they point to, and the
  entry points that load and release them.

  The objects live in a heap of their own: a pointer is an address or null, every allocation
  gets a new address, and reading or freeing an address that holds nothing is the fault
  \<open>Dangling\<close>. What the bridge calls and this development does not model (the model file, the
  tokenizer, the chat template, the sampler, the clock, other threads) is the record \<open>native\<close>,
  whose functions see and change the state \<open>'w\<close> of the world outside. Logging is left out.
  A finite \<open>float\<close> is its rational value.
\<close>

section \<open>Data\<close>

type_synonym ptr = "nat option"

datatype obj =
  is_Model: Model_obj
| is_Context: Context_obj (obj_context: llama_context)
| is_Sampler: Sampler_obj
| is_Templates: Templates_obj
| is_Batch: Batch_obj (obj_batch: slot_batch)

record chat =
  g_heap :: "nat \<Rightarrow> obj option"
  g_next :: nat
  g_runtime_n_ctx :: int
  g_runtime_sampler_temp :: rat
  g_runtime_threads_min :: int
  g_runtime_threads_max :: int
  g_runtime_batch_capacity :: int
  g_model :: ptr
  g_context :: ptr
  g_batch :: ptr
  g_chat_templates :: ptr
  g_sampler :: ptr
  g_direct_cancel_requested :: bool
  g_batch_initialized :: bool
  g_direct_batch_capacity :: int
  chat_msgs :: "(string \<times> string) list"
  system_prompt_position :: llama_pos
  current_position :: llama_pos
  stop_generation_position :: llama_pos
  cached_token_chars :: string
  assistant_ss :: string

record 'w native =
  nv_engine :: "'w engine"
  nv_n_cpus :: int
  nv_load_model :: "string \<Rightarrow> 'w \<Rightarrow> bool \<times> 'w"
  nv_new_context :: "int \<Rightarrow> int \<Rightarrow> int \<Rightarrow> 'w \<Rightarrow> llama_context option \<times> 'w"
  nv_templates_init :: "'w \<Rightarrow> bool \<times> 'w"
  nv_sampler_init :: "rat \<Rightarrow> 'w \<Rightarrow> bool \<times> 'w"
  nv_format :: "(string \<times> string) list \<Rightarrow> string \<times> string \<Rightarrow> bool \<Rightarrow> 'w \<Rightarrow> string \<times> 'w"
  nv_tokenize :: "string \<Rightarrow> bool \<Rightarrow> bool \<Rightarrow> llama_token list"
  nv_piece :: "llama_token \<Rightarrow> string"
  nv_is_eog :: "llama_token \<Rightarrow> bool"
  nv_sample :: "float32 list \<Rightarrow> 'w \<Rightarrow> llama_token \<times> 'w"
  nv_accept :: "llama_token \<Rightarrow> 'w \<Rightarrow> 'w"
  nv_reset :: "'w \<Rightarrow> 'w"
  nv_now :: "'w \<Rightarrow> int \<times> 'w"
  nv_cancel :: "'w \<Rightarrow> bool \<times> 'w"

definition N_THREADS_MIN :: int where "N_THREADS_MIN = 2"
definition N_THREADS_MAX :: int where "N_THREADS_MAX = 4"
definition N_THREADS_HEADROOM :: int where "N_THREADS_HEADROOM = 2"
definition DEFAULT_CONTEXT_SIZE :: int where "DEFAULT_CONTEXT_SIZE = 8192"
definition OVERFLOW_HEADROOM :: int where "OVERFLOW_HEADROOM = 4"
definition BATCH_SIZE :: int where "BATCH_SIZE = 512"
definition ANDROID_RUNTIME_BATCH_MAX :: int where "ANDROID_RUNTIME_BATCH_MAX = 16"
definition DIRECT_MOBILE_BATCH_MAX :: int where "DIRECT_MOBILE_BATCH_MAX = 32"
definition DIRECT_PREFILL_CHUNK :: int where "DIRECT_PREFILL_CHUNK = 1"
definition DEFAULT_SAMPLER_TEMP :: rat where "DEFAULT_SAMPLER_TEMP = 3 / 10"

definition initial_chat :: chat where
  "initial_chat = \<lparr>g_heap = (\<lambda>_. None), g_next = 0, g_runtime_n_ctx = DEFAULT_CONTEXT_SIZE,
     g_runtime_sampler_temp = DEFAULT_SAMPLER_TEMP, g_runtime_threads_min = N_THREADS_MIN,
     g_runtime_threads_max = N_THREADS_MAX, g_runtime_batch_capacity = ANDROID_RUNTIME_BATCH_MAX,
     g_model = None, g_context = None, g_batch = None, g_chat_templates = None, g_sampler = None,
     g_direct_cancel_requested = False, g_batch_initialized = False, g_direct_batch_capacity = 0,
     chat_msgs = [], system_prompt_position = 0, current_position = 0, stop_generation_position = 0,
     cached_token_chars = [], assistant_ss = []\<rparr>"

section \<open>The heap\<close>

definition new_obj :: "obj \<Rightarrow> chat \<Rightarrow> nat \<times> chat" where
  "new_obj x s = (g_next s, s\<lparr>g_heap := (g_heap s)(g_next s := Some x), g_next := g_next s + 1\<rparr>)"

definition deref :: "ptr \<Rightarrow> chat \<Rightarrow> obj outcome" where
  "deref p s = (case p of None \<Rightarrow> Inl Null_dereference
     | Some a \<Rightarrow> (case g_heap s a of None \<Rightarrow> Inl Dangling | Some x \<Rightarrow> Inr x))"

text \<open>All the functions that free an object accept null.\<close>

definition free_obj :: "ptr \<Rightarrow> chat \<Rightarrow> chat outcome" where
  "free_obj p s = (case p of None \<Rightarrow> Inr s
     | Some a \<Rightarrow> (case g_heap s a of None \<Rightarrow> Inl Dangling | Some x \<Rightarrow> Inr (s\<lparr>g_heap := (g_heap s)(a := None)\<rparr>)))"

definition store :: "ptr \<Rightarrow> obj \<Rightarrow> chat \<Rightarrow> chat" where
  "store p x s = (case p of None \<Rightarrow> s | Some a \<Rightarrow> s\<lparr>g_heap := (g_heap s)(a := Some x)\<rparr>)"

definition the_context :: "chat \<Rightarrow> llama_context outcome" where
  "the_context s = bind_outcome (deref (g_context s) s) (\<lambda>x. case x of Context_obj c \<Rightarrow> Inr c | _ \<Rightarrow> Inl Dangling)"

definition the_batch :: "chat \<Rightarrow> slot_batch outcome" where
  "the_batch s = bind_outcome (deref (g_batch s) s) (\<lambda>x. case x of Batch_obj b \<Rightarrow> Inr b | _ \<Rightarrow> Inl Dangling)"

definition on_memory :: "(kv_cache \<Rightarrow> kv_cache outcome) \<Rightarrow> chat \<Rightarrow> chat outcome" where
  "on_memory f s = bind_outcome (the_context s) (\<lambda>c. bind_outcome (f (lc_memory c)) (\<lambda>k.
     Inr (store (g_context s) (Context_obj (c\<lparr>lc_memory := k\<rparr>)) s)))"

section \<open>Short-term and long-term state\<close>

definition reset_long_term_states :: "chat \<Rightarrow> chat outcome" where
  "reset_long_term_states s = on_memory (\<lambda>k. Inr (kv_clear k))
     (s\<lparr>chat_msgs := [], system_prompt_position := 0, current_position := 0\<rparr>)"

definition reset_short_term_states :: "chat \<Rightarrow> chat" where
  "reset_short_term_states s = s\<lparr>stop_generation_position := 0, cached_token_chars := [], assistant_ss := []\<rparr>"

section \<open>Loading and releasing\<close>

definition InferenceEngineImpl_load :: "'w native \<Rightarrow> string \<Rightarrow> chat \<Rightarrow> 'w \<Rightarrow> int \<times> chat \<times> 'w" where
  "InferenceEngineImpl_load nv path s w = (let (ok, w) = nv_load_model nv path w
     in if \<not> ok then (1, s, w) else let (a, s) = new_obj Model_obj s in (0, s\<lparr>g_model := Some a\<rparr>, w))"

text \<open>
  The threads, then the context; the result is null when the model is null or the engine fails. The engine reads
  the model, which may be gone: \<open>unload\<close> leaves \<open>g_model\<close> as it was.
\<close>

definition init_context :: "'w native \<Rightarrow> ptr \<Rightarrow> int \<Rightarrow> chat \<Rightarrow> 'w \<Rightarrow> (ptr \<times> chat \<times> 'w) outcome" where
  "init_context nv model n_ctx s w =
     (if model = None then Inr (None, s, w)
      else bind_outcome (deref model s) (\<lambda>_. let n_threads_min = max 1 (g_runtime_threads_min s);
               n_threads_max = max n_threads_min (g_runtime_threads_max s);
               n_threads = max n_threads_min (min n_threads_max (nv_n_cpus nv - N_THREADS_HEADROOM));
               (r, w) = nv_new_context nv n_ctx BATCH_SIZE n_threads w
           in Inr (case r of None \<Rightarrow> (None, s, w)
              | Some c \<Rightarrow> let (a, s) = new_obj (Context_obj c) s in (Some a, s, w))))"

definition new_sampler :: "'w native \<Rightarrow> rat \<Rightarrow> chat \<Rightarrow> 'w \<Rightarrow> ptr \<times> chat \<times> 'w" where
  "new_sampler nv temp s w = (let (ok, w) = nv_sampler_init nv temp w
     in if ok then let (a, s) = new_obj Sampler_obj s in (Some a, s, w) else (None, s, w))"

definition chat_templates_init :: "'w native \<Rightarrow> chat \<Rightarrow> 'w \<Rightarrow> ptr \<times> chat \<times> 'w" where
  "chat_templates_init nv s w = (let (ok, w) = nv_templates_init nv w
     in if ok then let (a, s) = new_obj Templates_obj s in (Some a, s, w) else (None, s, w))"

definition configureGeneration :: "int \<Rightarrow> rat \<Rightarrow> int \<Rightarrow> int \<Rightarrow> chat \<Rightarrow> chat" where
  "configureGeneration n_ctx temp tmin tmax s =
     (let tmin = max 1 tmin
      in s\<lparr>g_runtime_n_ctx := max 128 n_ctx, g_runtime_sampler_temp := max 0 temp,
           g_runtime_threads_min := tmin, g_runtime_threads_max := max tmin tmax\<rparr>)"

text \<open>Assigning to \<open>g_chat_templates\<close>, a \<open>unique_ptr\<close>, frees what it held.\<close>

definition InferenceEngineImpl_prepare :: "'w native \<Rightarrow> chat \<Rightarrow> 'w \<Rightarrow> (int \<times> chat \<times> 'w) outcome" where
  "InferenceEngineImpl_prepare nv s w =
     bind_outcome (init_context nv (g_model s) (g_runtime_n_ctx s) s w) (\<lambda>(ctx, s, w).
         if ctx = None then Inr (1, s, w)
         else let s = s\<lparr>g_context := ctx\<rparr>;
                  cap = max 1 (min ANDROID_RUNTIME_BATCH_MAX (g_runtime_n_ctx s));
                  (b, s) = new_obj (Batch_obj (llama_batch_init (nat cap) 1)) (s\<lparr>g_runtime_batch_capacity := cap\<rparr>);
                  s = s\<lparr>g_batch := Some b\<rparr>;
                  (t, s, w) = chat_templates_init nv s w
           in bind_outcome (free_obj (g_chat_templates s) s) (\<lambda>s.
                let (sm, s, w) = new_sampler nv (g_runtime_sampler_temp s) (s\<lparr>g_chat_templates := t\<rparr>) w
                in Inr (0, s\<lparr>g_sampler := sm\<rparr>, w)))"

text \<open>The pointers keep their values, \<open>g_chat_templates\<close> apart.\<close>

definition InferenceEngineImpl_unload :: "chat \<Rightarrow> chat outcome" where
  "InferenceEngineImpl_unload s =
     bind_outcome (reset_long_term_states s) (\<lambda>s. let s = reset_short_term_states s in
     bind_outcome (free_obj (g_sampler s) s) (\<lambda>s.
     bind_outcome (free_obj (g_chat_templates s) s) (\<lambda>s. let s = s\<lparr>g_chat_templates := None\<rparr> in
     bind_outcome (free_obj (g_batch s) s) (\<lambda>s.
     bind_outcome (free_obj (g_context s) s) (\<lambda>s. free_obj (g_model s) s)))))"

text \<open>The guarded releases of the direct bridge. The batch is guarded by its flag and keeps its arrays' addresses.\<close>

definition release_sampler :: "chat \<Rightarrow> chat outcome" where
  "release_sampler s = (if g_sampler s \<noteq> None
     then bind_outcome (free_obj (g_sampler s) s) (\<lambda>s. Inr (s\<lparr>g_sampler := None\<rparr>)) else Inr s)"

definition release_batch :: "chat \<Rightarrow> chat outcome" where
  "release_batch s = (if g_batch_initialized s
     then bind_outcome (free_obj (g_batch s) s) (\<lambda>s. Inr (s\<lparr>g_batch_initialized := False\<rparr>)) else Inr s)"

definition release_context :: "chat \<Rightarrow> chat outcome" where
  "release_context s = (if g_context s \<noteq> None
     then bind_outcome (free_obj (g_context s) s) (\<lambda>s. Inr (s\<lparr>g_context := None\<rparr>)) else Inr s)"

definition release_templates :: "chat \<Rightarrow> chat outcome" where
  "release_templates s = (if g_chat_templates s \<noteq> None
     then bind_outcome (free_obj (g_chat_templates s) s) (\<lambda>s. Inr (s\<lparr>g_chat_templates := None\<rparr>)) else Inr s)"

definition release_model :: "chat \<Rightarrow> chat outcome" where
  "release_model s = (if g_model s \<noteq> None
     then bind_outcome (free_obj (g_model s) s) (\<lambda>s. Inr (s\<lparr>g_model := None\<rparr>)) else Inr s)"

definition release_before_load :: "chat \<Rightarrow> chat outcome" where
  "release_before_load s =
     bind_outcome (release_sampler s) (\<lambda>s. bind_outcome (release_batch s) (\<lambda>s.
     bind_outcome (release_context (s\<lparr>g_direct_batch_capacity := 0\<rparr>)) (\<lambda>s.
     bind_outcome (release_templates s) release_model)))"

text \<open>Loading, one step after the other, each of which releases what the earlier ones created when it fails.\<close>

definition load_batch :: "int \<Rightarrow> chat \<Rightarrow> chat" where
  "load_batch mobile_batch s = (let (b, s) = new_obj (Batch_obj (llama_batch_init (nat mobile_batch) 1)) s
     in s\<lparr>g_batch := Some b, g_batch_initialized := True, g_direct_batch_capacity := mobile_batch,
          g_direct_cancel_requested := False\<rparr>)"

definition load_sampler :: "'w native \<Rightarrow> int \<Rightarrow> chat \<Rightarrow> 'w \<Rightarrow> (int \<times> chat \<times> 'w) outcome" where
  "load_sampler nv mobile_batch s w =
     (let (sm, s, w) = new_sampler nv (g_runtime_sampler_temp s) s w; s = s\<lparr>g_sampler := sm\<rparr>
      in if sm = None then
           bind_outcome (release_templates s) (\<lambda>s. bind_outcome (release_context s) (\<lambda>s.
             bind_outcome (release_model s) (\<lambda>s. Inr (4, s, w))))
         else Inr (0, load_batch mobile_batch s, w))"

definition load_templates :: "'w native \<Rightarrow> int \<Rightarrow> chat \<Rightarrow> 'w \<Rightarrow> (int \<times> chat \<times> 'w) outcome" where
  "load_templates nv mobile_batch s w =
     (let (t, s, w) = chat_templates_init nv s w; s = s\<lparr>g_chat_templates := t\<rparr>
      in if t = None then bind_outcome (release_context s) (\<lambda>s. bind_outcome (release_model s) (\<lambda>s. Inr (3, s, w)))
         else load_sampler nv mobile_batch s w)"

definition load_context :: "'w native \<Rightarrow> chat \<Rightarrow> 'w \<Rightarrow> (int \<times> chat \<times> 'w) outcome" where
  "load_context nv s w =
     (let n_threads = max (g_runtime_threads_min s) (min (g_runtime_threads_max s) (nv_n_cpus nv - N_THREADS_HEADROOM));
          mobile_batch = max 16 (min DIRECT_MOBILE_BATCH_MAX (g_runtime_n_ctx s));
          (r, w) = nv_new_context nv (g_runtime_n_ctx s) mobile_batch n_threads w
      in case r of
           None \<Rightarrow> bind_outcome (release_model (s\<lparr>g_context := None\<rparr>)) (\<lambda>s. Inr (2, s, w))
         | Some c \<Rightarrow> let (a, s) = new_obj (Context_obj c) s in load_templates nv mobile_batch (s\<lparr>g_context := Some a\<rparr>) w)"

definition nativeLoadModel :: "'w native \<Rightarrow> string \<Rightarrow> int \<Rightarrow> rat \<Rightarrow> int \<Rightarrow> int \<Rightarrow> chat \<Rightarrow> 'w \<Rightarrow> (int \<times> chat \<times> 'w) outcome" where
  "nativeLoadModel nv path n_ctx temp tmin tmax s w =
     bind_outcome (release_before_load (configureGeneration n_ctx temp tmin tmax s)) (\<lambda>s.
       let (ok, w) = nv_load_model nv path w
       in if \<not> ok then Inr (1, s\<lparr>g_model := None\<rparr>, w)
          else let (m, s) = new_obj Model_obj s in load_context nv (s\<lparr>g_model := Some m\<rparr>) w)"

definition nativeCancel :: "chat \<Rightarrow> chat" where
  "nativeCancel s = s\<lparr>g_direct_cancel_requested := True\<rparr>"

definition nativeUnload :: "chat \<Rightarrow> chat outcome" where
  "nativeUnload s =
     bind_outcome (release_batch (s\<lparr>g_direct_cancel_requested := False\<rparr>)) (\<lambda>s.
     bind_outcome (release_sampler (s\<lparr>g_direct_batch_capacity := 0\<rparr>)) (\<lambda>s.
     bind_outcome (release_templates s) (\<lambda>s. bind_outcome (release_context s) release_model)))"

section \<open>Ownership\<close>

text \<open>
  The invariant of the direct bridge. Every kind of object has one global that may own one; the
  batch counts only while its flag is set. An object is on the heap exactly when the global of
  its kind points to it: nothing is freed too early and nothing is lost.
\<close>

datatype kind = K_model | K_context | K_sampler | K_templates | K_batch

fun kind_of :: "obj \<Rightarrow> kind" where
  "kind_of Model_obj = K_model"
| "kind_of (Context_obj _) = K_context"
| "kind_of Sampler_obj = K_sampler"
| "kind_of Templates_obj = K_templates"
| "kind_of (Batch_obj _) = K_batch"

definition slot :: "chat \<Rightarrow> kind \<Rightarrow> ptr" where
  "slot s k = (case k of K_model \<Rightarrow> g_model s | K_context \<Rightarrow> g_context s | K_sampler \<Rightarrow> g_sampler s
     | K_templates \<Rightarrow> g_chat_templates s | K_batch \<Rightarrow> if g_batch_initialized s then g_batch s else None)"

definition owns :: "(kind \<Rightarrow> ptr) \<Rightarrow> (nat \<Rightarrow> obj option) \<Rightarrow> nat \<Rightarrow> bool" where
  "owns sl h n \<longleftrightarrow> (\<forall>a x. h a = Some x \<longrightarrow> a < n \<and> sl (kind_of x) = Some a) \<and>
     (\<forall>k a. sl k = Some a \<longrightarrow> (\<exists>x. h a = Some x \<and> kind_of x = k))"

definition owned :: "chat \<Rightarrow> bool" where
  "owned s \<longleftrightarrow> owns (slot s) (g_heap s) (g_next s) \<and> (g_batch_initialized s \<longrightarrow> g_batch s \<noteq> None)"

lemma initial_owned: "owned initial_chat"
proof -
  have "slot initial_chat k = None" for k by (simp add: slot_def initial_chat_def split: kind.split)
  then show ?thesis by (simp add: owned_def owns_def initial_chat_def)
qed

definition without :: "ptr \<Rightarrow> (nat \<Rightarrow> obj option) \<Rightarrow> nat \<Rightarrow> obj option" where
  "without p h = (case p of None \<Rightarrow> h | Some a \<Rightarrow> h(a := None))"

lemma owns_live: "owns sl h n \<Longrightarrow> h a = Some x \<Longrightarrow> a < n \<and> sl (kind_of x) = Some a"
  by (simp add: owns_def)

lemma owns_target: "owns sl h n \<Longrightarrow> sl k = Some a \<Longrightarrow> \<exists>x. h a = Some x \<and> kind_of x = k"
  by (simp add: owns_def)

lemma ownsI:
  "(\<And>a x. h a = Some x \<Longrightarrow> a < n \<and> sl (kind_of x) = Some a) \<Longrightarrow> (\<And>k a. sl k = Some a \<Longrightarrow> \<exists>x. h a = Some x \<and> kind_of x = k) \<Longrightarrow>
   owns sl h n"
  by (simp add: owns_def)

lemma owns_drop: "owns sl h n \<Longrightarrow> owns (sl(k := None)) (without (sl k) h) n"
  unfolding owns_def without_def by (cases "sl k") (auto, metis option.inject)

lemma owns_new: "owns sl h n \<Longrightarrow> sl (kind_of x) = None \<Longrightarrow> owns (sl(kind_of x := Some n)) (h(n := Some x)) (n + 1)"
  unfolding owns_def by (auto simp: less_Suc_eq) (metis less_irrefl option.distinct(1))+

lemma owns_put:
  assumes "owns sl h n" "sl (kind_of x) = Some a"
  shows "owns sl (h(a := Some x)) n"
proof (rule ownsI)
  obtain y where y: "h a = Some y" "kind_of y = kind_of x" using owns_target [OF assms] by blast
  fix b z
  show "b < n \<and> sl (kind_of z) = Some b" if "(h(a := Some x)) b = Some z"
    using that owns_live [OF assms(1), of b] y assms(2) by (cases "b = a") auto
next
  obtain y where y: "h a = Some y" "kind_of y = kind_of x" using owns_target [OF assms] by blast
  fix k b assume k: "sl k = Some b"
  show "\<exists>z. (h(a := Some x)) b = Some z \<and> kind_of z = k"
    using owns_target [OF assms(1) k] y by (cases "b = a") auto
qed

lemma owns_free: "owns (slot s) (g_heap s) n \<Longrightarrow> slot s k = p \<Longrightarrow> free_obj p s = Inr (s\<lparr>g_heap := without p (g_heap s)\<rparr>)"
  using owns_target [of "slot s" "g_heap s" n k] by (auto simp: free_obj_def without_def split: option.split)

lemma slot_simps [simp]:
  "slot (s\<lparr>g_heap := h\<rparr>) = slot s" "slot (s\<lparr>g_next := n\<rparr>) = slot s"
  "slot (s\<lparr>g_sampler := p\<rparr>) = (slot s)(K_sampler := p)" "slot (s\<lparr>g_context := p\<rparr>) = (slot s)(K_context := p)"
  "slot (s\<lparr>g_model := p\<rparr>) = (slot s)(K_model := p)" "slot (s\<lparr>g_chat_templates := p\<rparr>) = (slot s)(K_templates := p)"
  "slot (s\<lparr>g_batch_initialized := False\<rparr>) = (slot s)(K_batch := None)"
  "slot (s\<lparr>g_batch := p, g_batch_initialized := True\<rparr>) = (slot s)(K_batch := p)"
  "slot (s\<lparr>g_direct_batch_capacity := cap\<rparr>) = slot s" "slot (s\<lparr>g_direct_cancel_requested := c\<rparr>) = slot s"
  "slot (configureGeneration n_ctx temp tmin tmax s) = slot s"
  by (simp_all add: fun_eq_iff slot_def configureGeneration_def Let_def split: kind.split)

lemma slot_kinds:
  "slot s K_sampler = g_sampler s" "slot s K_context = g_context s" "slot s K_model = g_model s"
  "slot s K_templates = g_chat_templates s" "g_batch_initialized s \<Longrightarrow> slot s K_batch = g_batch s"
  by (simp_all add: slot_def)

text \<open>The bridge with the object of one kind released.\<close>

fun released :: "kind \<Rightarrow> chat \<Rightarrow> chat" where
  "released K_model s = s\<lparr>g_heap := without (g_model s) (g_heap s), g_model := None\<rparr>"
| "released K_context s = s\<lparr>g_heap := without (g_context s) (g_heap s), g_context := None\<rparr>"
| "released K_sampler s = s\<lparr>g_heap := without (g_sampler s) (g_heap s), g_sampler := None\<rparr>"
| "released K_templates s = s\<lparr>g_heap := without (g_chat_templates s) (g_heap s), g_chat_templates := None\<rparr>"
| "released K_batch s = s\<lparr>g_heap := without (slot s K_batch) (g_heap s), g_batch_initialized := False\<rparr>"

lemma slot_released: "slot (released k s) = (slot s)(k := None)"
  by (cases k) simp_all

lemma released_owned:
  assumes "owned s"
  shows "owned (released k s)"
proof -
  have "g_heap (released k s) = without (slot s k) (g_heap s)" "g_next (released k s) = g_next s"
    "g_batch_initialized (released k s) \<longrightarrow> g_batch_initialized s \<and> g_batch (released k s) = g_batch s"
    by (cases k; simp add: slot_kinds)+
  then show ?thesis using assms owns_drop [of "slot s" "g_heap s" "g_next s" k] by (auto simp: owned_def slot_released)
qed

lemma release_owned:
  assumes "owned s"
  shows "release_sampler s = Inr (released K_sampler s)" "release_context s = Inr (released K_context s)"
    "release_templates s = Inr (released K_templates s)" "release_model s = Inr (released K_model s)"
    "release_batch s = Inr (released K_batch s)"
proof -
  have o: "owns (slot s) (g_heap s) (g_next s)" using assms by (simp add: owned_def)
  note free = owns_free [OF o slot_kinds(1)] owns_free [OF o slot_kinds(2)] owns_free [OF o slot_kinds(3)]
    owns_free [OF o slot_kinds(4)] owns_free [OF o slot_kinds(5)]
  show "release_sampler s = Inr (released K_sampler s)" "release_context s = Inr (released K_context s)"
    "release_templates s = Inr (released K_templates s)" "release_model s = Inr (released K_model s)"
    by (simp_all add: release_sampler_def release_context_def release_templates_def release_model_def free without_def)
  show "release_batch s = Inr (released K_batch s)"
    by (simp add: release_batch_def free slot_def without_def)
qed

declare released.simps [simp del]

text \<open>Changes of other variables.\<close>

lemma owned_frame:
  "owned s \<Longrightarrow> slot s' = slot s \<Longrightarrow> g_heap s' = g_heap s \<Longrightarrow> g_next s' = g_next s \<Longrightarrow>
   g_batch_initialized s' = g_batch_initialized s \<Longrightarrow> g_batch s' = g_batch s \<Longrightarrow> owned s'"
  by (simp add: owned_def)

lemma empty_heap:
  assumes "owned s" "slot s = (\<lambda>_. None)"
  shows "g_heap s = (\<lambda>_. None)"
proof
  fix a show "g_heap s a = None" using assms by (cases "g_heap s a") (auto simp: owned_def owns_def)
qed

section \<open>Properties\<close>

lemma released_runtime [simp]:
  "g_runtime_n_ctx (released k s) = g_runtime_n_ctx s" "g_runtime_sampler_temp (released k s) = g_runtime_sampler_temp s"
  "g_runtime_threads_min (released k s) = g_runtime_threads_min s" "g_runtime_threads_max (released k s) = g_runtime_threads_max s"
  by (cases k; simp add: released.simps)+

lemma release_before_load_owned:
  assumes "owned s"
  shows "\<exists>s'. release_before_load s = Inr s' \<and> owned s' \<and> slot s' = (\<lambda>_. None) \<and> g_runtime_n_ctx s' = g_runtime_n_ctx s"
proof -
  let ?s1 = "released K_sampler s" let ?s2 = "(released K_batch ?s1)\<lparr>g_direct_batch_capacity := 0\<rparr>"
  let ?s3 = "released K_context ?s2" let ?s4 = "released K_templates ?s3" let ?s5 = "released K_model ?s4"
  note 1 = released_owned [OF assms, of K_sampler]
  have 2: "owned ?s2" by (rule owned_frame [OF released_owned [OF 1, of K_batch]]) simp_all
  note 3 = released_owned [OF 2, of K_context] note 4 = released_owned [OF 3, of K_templates]
  have "release_before_load s = Inr ?s5"
    unfolding release_before_load_def release_owned(1) [OF assms] bind_outcome_simps release_owned(5) [OF 1]
      release_owned(2) [OF 2] release_owned(3) [OF 3] release_owned(4) [OF 4] ..
  moreover have "slot ?s5 = (\<lambda>_. None)" by (rule ext, rename_tac k, case_tac k) (simp_all only: slot_released slot_simps fun_upd_apply kind.distinct if_True if_False simp_thms refl)
  moreover have "g_runtime_n_ctx ?s5 = g_runtime_n_ctx s" by (simp only: released_runtime) simp
  ultimately show ?thesis using released_owned [OF 4, of K_model] by blast
qed

lemma new_obj_owned:
  assumes "owned s" "slot s (kind_of x) = None" "slot s' = (slot s)(kind_of x := Some (g_next s))"
    and "g_heap s' = (g_heap s)(g_next s := Some x)" "g_next s' = g_next s + 1" "g_batch_initialized s' \<longrightarrow> g_batch s' \<noteq> None"
  shows "owned s'"
  using assms owns_new [of "slot s" "g_heap s" "g_next s" x] by (simp add: owned_def)

text \<open>What \<open>nativeLoadModel\<close> leaves behind: all five objects, or none.\<close>

definition all_loaded :: "chat \<Rightarrow> llama_context \<Rightarrow> int \<Rightarrow> bool" where
  "all_loaded s c cap \<longleftrightarrow> g_model s \<noteq> None \<and> g_sampler s \<noteq> None \<and> g_chat_templates s \<noteq> None \<and> the_context s = Inr c \<and>
     g_batch_initialized s \<and> the_batch s = Inr (llama_batch_init (nat cap) 1) \<and> g_direct_batch_capacity s = cap \<and>
     \<not> g_direct_cancel_requested s"

definition all_released :: "chat \<Rightarrow> bool" where
  "all_released s \<longleftrightarrow> g_heap s = (\<lambda>_. None) \<and> g_model s = None \<and> g_context s = None \<and> g_sampler s = None \<and>
     g_chat_templates s = None \<and> \<not> g_batch_initialized s"

lemma slot_None_released:
  assumes "owned s" "slot s = (\<lambda>_. None)"
  shows "all_released s"
proof -
  have "slot s k = None" for k using assms(2) by simp
  from this [of K_model] this [of K_context] this [of K_sampler] this [of K_templates] this [of K_batch]
  show ?thesis using assms(1) empty_heap [OF assms] by (auto simp: all_released_def slot_kinds owned_def)
qed

text \<open>
  The steps of loading. \<open>only\<close> says which globals own an object; each step either adds one or
  releases them all.
\<close>

definition only :: "kind set \<Rightarrow> chat \<Rightarrow> bool" where
  "only K s \<longleftrightarrow> owned s \<and> (\<forall>k. slot s k \<noteq> None \<longleftrightarrow> k \<in> K)"

lemma only_released: "only K s \<Longrightarrow> only (K - {k}) (released k s)"
  by (auto simp: only_def released_owned slot_released)

lemma only_cong: "only K s \<Longrightarrow> K = L \<Longrightarrow> only L s"
  by simp

lemma only_none: "only {} s \<Longrightarrow> all_released s"
  by (rule slot_None_released) (auto simp: only_def fun_eq_iff)

lemma only_new:
  assumes "only K s" "kind_of x \<notin> K" "slot s' = (slot s)(kind_of x := Some (g_next s))"
    and "g_heap s' = (g_heap s)(g_next s := Some x)" "g_next s' = g_next s + 1" "g_batch_initialized s' \<longrightarrow> g_batch s' \<noteq> None"
  shows "only (insert (kind_of x) K) s'"
proof -
  have "slot s (kind_of x) = None" "owned s" using assms(1,2) by (auto simp: only_def)
  then show ?thesis using new_obj_owned [of s x s'] assms by (auto simp: only_def)
qed

lemma only_same: "only K s \<Longrightarrow> slot s' = slot s \<Longrightarrow> g_heap s' = g_heap s \<Longrightarrow> g_next s' = g_next s \<Longrightarrow>
   g_batch_initialized s' = g_batch_initialized s \<Longrightarrow> g_batch s' = g_batch s \<Longrightarrow> only K s'"
  by (auto simp: only_def intro: owned_frame)

lemma only_None [simp]: "only K s \<Longrightarrow> k \<notin> K \<Longrightarrow> slot s k = None"
  by (auto simp: only_def)

definition load_done :: "(int \<times> chat \<times> 'w) outcome \<Rightarrow> chat \<Rightarrow> llama_context \<Rightarrow> int \<Rightarrow> bool" where
  "load_done res s c cap \<longleftrightarrow> (\<exists>r s' w'. res = Inr (r, s', w') \<and> owned s' \<and> g_runtime_n_ctx s' = g_runtime_n_ctx s \<and>
     (r = 0 \<and> all_loaded s' c cap \<or> 0 < r \<and> r \<le> 4 \<and> all_released s'))"

lemma load_sampler_done:
  assumes "only {K_model, K_context, K_templates} s" "the_context s = Inr c"
  shows "load_done (load_sampler nv cap s w) s c cap"
proof -
  obtain ok w1 where smp: "nv_sampler_init nv (g_runtime_sampler_temp s) w = (ok, w1)" by (metis prod.collapse)
  have b: "\<not> g_batch_initialized s" using only_None [OF assms(1), of K_batch] assms(1) by (auto simp: slot_def only_def owned_def)
  show ?thesis
  proof (cases ok)
    case False
    have s: "s\<lparr>g_sampler := None\<rparr> = s" using only_None [OF assms(1), of K_sampler] by (simp add: slot_def)
    note 1 = only_released [OF assms(1), of K_templates] note 2 = only_released [OF 1, of K_context]
    have 3: "only {} (released K_model (released K_context (released K_templates s)))"
      using only_released [OF 2, of K_model] by (rule only_cong) auto
    have "load_sampler nv cap s w = Inr (4, released K_model (released K_context (released K_templates s)), w1)"
      using False smp s release_owned(3) [of s] release_owned(2) [of "released K_templates s"]
        release_owned(4) [of "released K_context (released K_templates s)"] assms(1) 1 2
      by (simp add: load_sampler_def new_sampler_def only_def)
    then show ?thesis using only_none [OF 3] 3 by (simp add: load_done_def only_def)
  next
    case True
    define s1 where "s1 = s\<lparr>g_heap := (g_heap s)(g_next s := Some Sampler_obj), g_next := g_next s + 1, g_sampler := Some (g_next s)\<rparr>"
    have s1: "only (insert K_sampler {K_model, K_context, K_templates}) s1"
      using only_new [OF assms(1), of Sampler_obj s1] b by (simp add: s1_def)
    define s2 where "s2 = load_batch cap s1"
    have s2: "only (insert K_batch (insert K_sampler {K_model, K_context, K_templates})) s2"
      using only_new [OF s1, of "Batch_obj (llama_batch_init (nat cap) 1)" s2] by (simp add: s2_def load_batch_def new_obj_def)
    have "load_sampler nv cap s w = Inr (0, s2, w1)"
      using True smp by (simp add: load_sampler_def new_sampler_def new_obj_def s1_def s2_def)
    moreover have "all_loaded s2 c cap"
    proof -
      obtain a where a: "g_context s = Some a" "g_heap s a = Some (Context_obj c)"
        using assms(2) by (auto simp: the_context_def deref_def bind_outcome_Inr_iff split: option.splits obj.splits)
      have "a < g_next s" using assms(1) a(2) owns_live by (auto simp: only_def owned_def)
      moreover have "slot s2 K_model \<noteq> None" "slot s2 K_templates \<noteq> None" using s2 unfolding only_def by blast+
      ultimately show ?thesis using a
        by (auto simp: all_loaded_def slot_kinds s2_def load_batch_def new_obj_def s1_def the_context_def the_batch_def deref_def)
    qed
    moreover have "g_runtime_n_ctx s2 = g_runtime_n_ctx s" by (simp add: s2_def s1_def load_batch_def new_obj_def)
    ultimately show ?thesis using s2 by (simp add: load_done_def only_def)
  qed
qed

lemma load_templates_done:
  assumes "only {K_model, K_context} s" "the_context s = Inr c"
  shows "load_done (load_templates nv cap s w) s c cap"
proof -
  obtain ok w1 where t: "nv_templates_init nv w = (ok, w1)" by (metis prod.collapse)
  have b: "\<not> g_batch_initialized s" using only_None [OF assms(1), of K_batch] assms(1) by (auto simp: slot_def only_def owned_def)
  show ?thesis
  proof (cases ok)
    case False
    have s: "s\<lparr>g_chat_templates := None\<rparr> = s" using only_None [OF assms(1), of K_templates] by (simp add: slot_def)
    note 1 = only_released [OF assms(1), of K_context]
    have 2: "only {} (released K_model (released K_context s))"
      using only_released [OF 1, of K_model] by (rule only_cong) auto
    have "load_templates nv cap s w = Inr (3, released K_model (released K_context s), w1)"
      using False t s release_owned(2) [of s] release_owned(4) [of "released K_context s"] assms(1) 1
      by (simp add: load_templates_def chat_templates_init_def only_def)
    then show ?thesis using only_none [OF 2] 2 by (simp add: load_done_def only_def)
  next
    case True
    define s1 where "s1 = s\<lparr>g_heap := (g_heap s)(g_next s := Some Templates_obj), g_next := g_next s + 1, g_chat_templates := Some (g_next s)\<rparr>"
    have "only (insert K_templates {K_model, K_context}) s1"
      using only_new [OF assms(1), of Templates_obj s1] b by (simp add: s1_def)
    then have "only {K_model, K_context, K_templates} s1" by (rule only_cong) auto
    moreover have "the_context s1 = Inr c"
    proof -
      obtain a where a: "g_context s = Some a" "g_heap s a = Some (Context_obj c)"
        using assms(2) by (auto simp: the_context_def deref_def bind_outcome_Inr_iff split: option.splits obj.splits)
      moreover have "a < g_next s" using assms(1) a(2) owns_live by (auto simp: only_def owned_def)
      ultimately show ?thesis by (simp add: s1_def the_context_def deref_def)
    qed
    ultimately have "load_done (load_sampler nv cap s1 w1) s1 c cap" by (rule load_sampler_done)
    moreover have "load_templates nv cap s w = load_sampler nv cap s1 w1"
      using True t by (simp add: load_templates_def chat_templates_init_def new_obj_def s1_def)
    ultimately show ?thesis by (simp add: load_done_def s1_def)
  qed
qed

lemma load_context_done:
  assumes "only {K_model} s"
  defines "cap \<equiv> max 16 (min DIRECT_MOBILE_BATCH_MAX (g_runtime_n_ctx s))"
  shows "\<exists>c. load_done (load_context nv s w) s c cap \<and>
    (all_loaded (fst (snd (projr (load_context nv s w)))) c cap \<longrightarrow> (\<exists>thr w1 w2. nv_new_context nv (g_runtime_n_ctx s) cap thr w1 = (Some c, w2)))"
proof -
  let ?thr = "max (g_runtime_threads_min s) (min (g_runtime_threads_max s) (nv_n_cpus nv - N_THREADS_HEADROOM))"
  obtain r w1 where ctx: "nv_new_context nv (g_runtime_n_ctx s) cap ?thr w = (r, w1)" by (metis prod.collapse)
  have b: "\<not> g_batch_initialized s" using only_None [OF assms(1), of K_batch] assms(1) by (auto simp: slot_def only_def owned_def)
  show ?thesis
  proof (cases r)
    case None
    have s: "s\<lparr>g_context := None\<rparr> = s" using only_None [OF assms(1), of K_context] by (simp add: slot_def)
    have 1: "only {} (released K_model s)" using only_released [OF assms(1), of K_model] by (rule only_cong) auto
    have "load_context nv s w = Inr (2, released K_model s, w1)"
      using None ctx s release_owned(4) [of s] assms(1) by (simp add: load_context_def Let_def cap_def only_def)
    then show ?thesis using only_none [OF 1] 1 by (auto simp: load_done_def only_def all_loaded_def all_released_def)
  next
    case (Some c)
    define s1 where "s1 = s\<lparr>g_heap := (g_heap s)(g_next s := Some (Context_obj c)), g_next := g_next s + 1, g_context := Some (g_next s)\<rparr>"
    have "only (insert K_context {K_model}) s1"
      using only_new [OF assms(1), of "Context_obj c" s1] b by (simp add: s1_def)
    then have "only {K_model, K_context} s1" by (rule only_cong) auto
    moreover have "the_context s1 = Inr c" by (simp add: s1_def the_context_def deref_def)
    ultimately have "load_done (load_templates nv cap s1 w1) s1 c cap" by (rule load_templates_done)
    moreover have "load_context nv s w = load_templates nv cap s1 w1"
      using Some ctx by (simp add: load_context_def Let_def cap_def new_obj_def s1_def)
    ultimately have "load_done (load_context nv s w) s c cap" by (simp add: load_done_def s1_def)
    then show ?thesis using ctx Some by blast
  qed
qed

lemma load_outcome:
  assumes "owned s" "cap = max 16 (min DIRECT_MOBILE_BATCH_MAX (max 128 n_ctx))"
  shows "\<exists>r s' w'. nativeLoadModel nv path n_ctx temp tmin tmax s w = Inr (r, s', w') \<and> owned s' \<and> g_runtime_n_ctx s' = max 128 n_ctx \<and>
    (r = 0 \<and> (\<exists>c thr w1 w2. nv_new_context nv (max 128 n_ctx) cap thr w1 = (Some c, w2) \<and> all_loaded s' c cap) \<or>
     0 < r \<and> r \<le> 4 \<and> all_released s')"
proof -
  let ?s = "configureGeneration n_ctx temp tmin tmax s"
  have "owned ?s" by (rule owned_frame [OF assms(1)]) (simp, simp_all add: configureGeneration_def Let_def)
  moreover have "g_runtime_n_ctx ?s = max 128 n_ctx" by (simp add: configureGeneration_def Let_def)
  ultimately obtain s0 where s0: "release_before_load ?s = Inr s0" "owned s0" "slot s0 = (\<lambda>_. None)" "g_runtime_n_ctx s0 = max 128 n_ctx"
    using release_before_load_owned by metis
  have none: "only {} s0" "all_released s0" using s0 slot_None_released by (auto simp: only_def)
  obtain ok w1 where load: "nv_load_model nv path w = (ok, w1)" by (metis prod.collapse)
  show ?thesis
  proof (cases ok)
    case False
    have "s0\<lparr>g_model := None\<rparr> = s0" using none(2) by (simp add: all_released_def)
    then have "nativeLoadModel nv path n_ctx temp tmin tmax s w = Inr (1, s0, w1)"
      using False by (simp add: nativeLoadModel_def s0(1) load)
    then show ?thesis using s0 none by simp
  next
    case True
    define s1 where "s1 = s0\<lparr>g_heap := (g_heap s0)(g_next s0 := Some Model_obj), g_next := g_next s0 + 1, g_model := Some (g_next s0)\<rparr>"
    have s1: "only {K_model} s1" "g_runtime_n_ctx s1 = max 128 n_ctx"
      using only_new [OF none(1), of Model_obj s1] none(2) s0(4) by (simp_all add: s1_def all_released_def)
    have "nativeLoadModel nv path n_ctx temp tmin tmax s w = load_context nv s1 w1"
      using True by (simp add: nativeLoadModel_def s0(1) load new_obj_def s1_def)
    then show ?thesis using load_context_done [OF s1(1), of nv w1] unfolding s1(2) assms(2) [symmetric] load_done_def by fastforce
  qed
qed

lemma nativeUnload_only:
  assumes s: "owned s"
  shows "\<exists>s'. nativeUnload s = Inr s' \<and> only {} s'"
proof -
  let ?s0 = "s\<lparr>g_direct_cancel_requested := False\<rparr>" let ?s1 = "(released K_batch ?s0)\<lparr>g_direct_batch_capacity := 0\<rparr>"
  let ?s2 = "released K_sampler ?s1" let ?s3 = "released K_templates ?s2" let ?s4 = "released K_context ?s3"
  let ?s5 = "released K_model ?s4"
  have 0: "owned ?s0" by (rule owned_frame [OF s]) simp_all
  have 1: "owned ?s1" by (rule owned_frame [OF released_owned [OF 0, of K_batch]]) simp_all
  note 2 = released_owned [OF 1, of K_sampler] note 3 = released_owned [OF 2, of K_templates]
  note 4 = released_owned [OF 3, of K_context] note 5 = released_owned [OF 4, of K_model]
  have "nativeUnload s = Inr ?s5"
    unfolding nativeUnload_def release_owned(5) [OF 0] bind_outcome_simps release_owned(1) [OF 1] release_owned(3) [OF 2]
      release_owned(2) [OF 3] release_owned(4) [OF 4] ..
  moreover have "slot ?s5 k = None" for k by (cases k) (simp_all add: slot_released)
  ultimately show ?thesis using 5 by (auto simp: only_def)
qed

text \<open>An environment for examples: its world is the list of the tokens that will be sampled.\<close>

definition demo_native :: "llama_token list native" where
  "demo_native = \<lparr>nv_engine = graph GGML_STATUS_SUCCESS, nv_n_cpus = 8, nv_load_model = (\<lambda>path w. (path \<noteq> [], w)),
     nv_new_context = (\<lambda>n_ctx n_batch n_threads w. (Some (small_context\<lparr>lc_n_batch := nat n_batch\<rparr>), w)),
     nv_templates_init = (\<lambda>w. (True, w)), nv_sampler_init = (\<lambda>temp w. (True, w)),
     nv_format = (\<lambda>msgs m ass w. (snd m, w)), nv_tokenize = (\<lambda>str add parse. map (\<lambda>ch. of_char ch mod 8) str),
     nv_piece = (\<lambda>t. if t = 1 then ''{'' else if t = 2 then ''}'' else ''a''), nv_is_eog = (\<lambda>t. t = 9),
     nv_sample = (\<lambda>row w. case w of [] \<Rightarrow> (9, []) | t # w \<Rightarrow> (t mod 10, w)), nv_accept = (\<lambda>t w. w), nv_reset = (\<lambda>w. w),
     nv_now = (\<lambda>w. (0, w)), nv_cancel = (\<lambda>w. (False, w))\<rparr>"

text \<open>
  C30. Loading a model is all or nothing: whatever the engine answers, the call returns without
  touching a freed object; it returns 0 and then the model, a context, the templates, the
  sampler and a batch of the announced capacity exist, or it returns 1 to 4 and then every
  object, also of an earlier load, has been freed and every pointer is null.
\<close>

theorem load_all_or_nothing:
  assumes "owned s" "cap = max 16 (min DIRECT_MOBILE_BATCH_MAX (max 128 n_ctx))"
  shows "\<exists>r s' w'. nativeLoadModel nv path n_ctx temp tmin tmax s w = Inr (r, s', w') \<and> owned s' \<and>
    (r = 0 \<and> (\<exists>c. all_loaded s' c cap) \<or> 0 < r \<and> r \<le> 4 \<and> all_released s')"
proof -
  from load_outcome [OF assms, of nv path temp tmin tmax w]
  obtain r s' w' where "nativeLoadModel nv path n_ctx temp tmin tmax s w = Inr (r, s', w')" "owned s'"
    "r = 0 \<and> (\<exists>c thr w1 w2. nv_new_context nv (max 128 n_ctx) cap thr w1 = (Some c, w2) \<and> all_loaded s' c cap) \<or>
     0 < r \<and> r \<le> 4 \<and> all_released s'" by (elim exE conjE)
  then show ?thesis by blast
qed

theorem load_all_or_nothing_witness:
  "\<exists>r s' w'. nativeLoadModel demo_native ''m.gguf'' 512 0 1 4 initial_chat [] = Inr (r, s', w') \<and>
    (r = 0 \<and> (\<exists>c. all_loaded s' c 32) \<or> 0 < r \<and> r \<le> 4 \<and> all_released s')"
proof -
  have "32 = max 16 (min DIRECT_MOBILE_BATCH_MAX (max 128 512))" by (simp add: DIRECT_MOBILE_BATCH_MAX_def)
  from load_all_or_nothing [OF initial_owned this, of demo_native "''m.gguf''" 0 1 4 "[]"] show ?thesis by blast
qed

text \<open>
  C31. Unloading frees every object exactly once and leaves no pointer behind, and doing it again
  is harmless.
\<close>

theorem unload_frees_all:
  assumes "owned s"
  shows "\<exists>s'. nativeUnload s = Inr s' \<and> owned s' \<and> all_released s' \<and> (\<exists>s''. nativeUnload s' = Inr s'' \<and> all_released s'')"
proof -
  from nativeUnload_only [OF assms] obtain s' where s': "nativeUnload s = Inr s'" "only {} s'" by blast
  then show ?thesis using only_none nativeUnload_only [of s'] by (auto simp: only_def)
qed

theorem unload_frees_all_witness:
  "\<exists>r s1 s2 w'. nativeLoadModel demo_native ''m.gguf'' 512 0 1 4 initial_chat [] = Inr (r, s1, w') \<and>
    nativeUnload s1 = Inr s2 \<and> all_released s2"
proof -
  obtain r s1 w' where "nativeLoadModel demo_native ''m.gguf'' 512 0 1 4 initial_chat [] = Inr (r, s1, w')" "owned s1"
    using load_outcome [OF initial_owned refl, of demo_native "''m.gguf''" 512 0 1 4 "[]"] by blast
  then show ?thesis using unload_frees_all [of s1] by blast
qed

text \<open>
  C32. The other bridge frees its objects but keeps the pointers: after \<open>unload\<close> of a loaded engine,
  loading through the direct bridge frees the sampler a second time.
\<close>

theorem unload_leaves_dangling:
  assumes "g_sampler s \<noteq> None" "InferenceEngineImpl_unload s = Inr s'"
  shows "nativeLoadModel nv path n_ctx temp tmin tmax s' w = Inl Dangling"
proof -
  obtain a where a: "g_sampler s = Some a" using assms(1) by blast
  have free: "g_sampler t' = g_sampler t \<and> (g_heap t b = None \<longrightarrow> g_heap t' b = None) \<and> (p = Some b \<longrightarrow> g_heap t' b = None)"
    if "free_obj p t = Inr t'" for p b t t'
    using that by (auto simp: free_obj_def split: option.splits)
  have clear: "g_sampler t' = g_sampler t" if "reset_long_term_states t = Inr t'" for t t'
    using that by (auto simp: reset_long_term_states_def on_memory_def store_def bind_outcome_Inr_iff split: option.splits)
  obtain s1 s2 s3 s4 s5 where u: "reset_long_term_states s = Inr s1"
    "free_obj (g_sampler (reset_short_term_states s1)) (reset_short_term_states s1) = Inr s2"
    "free_obj (g_chat_templates s2) s2 = Inr s3" "free_obj (g_batch s3) (s3\<lparr>g_chat_templates := None\<rparr>) = Inr s4"
    "free_obj (g_context s4) s4 = Inr s5" "free_obj (g_model s5) s5 = Inr s'"
    using assms(2) by (auto simp: InferenceEngineImpl_unload_def bind_outcome_Inr_iff Let_def)
  have "g_sampler (reset_short_term_states s1) = Some a" using clear [OF u(1)] a by (simp add: reset_short_term_states_def)
  then have "g_sampler s' = Some a" "g_heap s' a = None"
    using free [OF u(2), of a] free [OF u(3), of a] free [OF u(4), of a] free [OF u(5), of a] free [OF u(6), of a] by simp_all
  then show ?thesis
    by (simp add: nativeLoadModel_def release_before_load_def release_sampler_def free_obj_def configureGeneration_def Let_def)
qed

theorem unload_leaves_dangling_witness:
  "\<exists>s s'. InferenceEngineImpl_unload s = Inr s' \<and> nativeLoadModel demo_native ''m.gguf'' 512 0 1 4 s' [] = Inl Dangling"
proof -
  define s where "s = initial_chat\<lparr>g_heap := [0 \<mapsto> Sampler_obj, 1 \<mapsto> Context_obj small_context], g_next := 2,
    g_sampler := Some 0, g_context := Some 1\<rparr>"
  have "\<exists>s'. InferenceEngineImpl_unload s = Inr s'"
    by (simp add: s_def InferenceEngineImpl_unload_def reset_long_term_states_def on_memory_def the_context_def deref_def
        store_def reset_short_term_states_def free_obj_def initial_chat_def)
  then obtain s' where s': "InferenceEngineImpl_unload s = Inr s'" by blast
  have "g_sampler s \<noteq> None" by (simp add: s_def)
  from s' unload_leaves_dangling [OF this s', of demo_native "''m.gguf''" 512 0 1 4 "[]"] show ?thesis by blast
qed

end
