(* ===== verification/Utf8.thy ===== *)
theory Utf8
  imports Prelude
begin

text \<open>
  UTF-8: \<open>is_valid_utf8\<close> of \<open>ai_chat.cpp\<close>, the conversions of \<open>unicode.cpp\<close>, the byte alphabet
  of the BPE tokenizers, and the incremental decoder \<open>decode_utf8\<close> of \<open>llama-grammar.cpp\<close>.

  A byte is a \<open>nat\<close> below 256, a code point a \<open>nat\<close>; the values never exceed 21 bits, so the
  32-bit arithmetic of the code does not wrap. A C string ends at its first zero byte.
\<close>

unbundle bit_operations_syntax

type_synonym bytes = "nat list"

definition bytes_ok :: "bytes \<Rightarrow> bool" where
  "bytes_ok bs \<longleftrightarrow> list_all (\<lambda>b. b < 256) bs"

section \<open>Definitions\<close>

text \<open>\<open>is_valid_utf8\<close>: the length that the first byte announces, then that many continuation bytes.\<close>

definition announced :: "nat \<Rightarrow> nat option" where
  "announced b = (if b AND 0x80 = 0 then Some 1
     else if b AND 0xE0 = 0xC0 then Some 2
     else if b AND 0xF0 = 0xE0 then Some 3
     else if b AND 0xF8 = 0xF0 then Some 4
     else None)"

fun skip_continuation :: "nat \<Rightarrow> bytes \<Rightarrow> bytes option" where
  "skip_continuation 0 bs = Some bs"
| "skip_continuation (Suc n) [] = None"
| "skip_continuation (Suc n) (b # bs) = (if b AND 0xC0 \<noteq> 0x80 then None else skip_continuation n bs)"

lemma skip_continuation_length: "skip_continuation n bs = Some bs' \<Longrightarrow> length bs' \<le> length bs"
  by (induction n bs rule: skip_continuation.induct) (auto split: if_splits)

function is_valid_utf8 :: "bytes \<Rightarrow> bool" where
  "is_valid_utf8 [] = True"
| "is_valid_utf8 (b # bs) = (if b = 0 then True else case announced b of
     None \<Rightarrow> False
   | Some num \<Rightarrow> (case skip_continuation (num - 1) bs of None \<Rightarrow> False | Some bs' \<Rightarrow> is_valid_utf8 bs'))"
  by pat_completeness auto
termination
  by (relation "measure length") (auto dest: skip_continuation_length)

definition unicode_len_utf8 :: "nat \<Rightarrow> nat" where
  "unicode_len_utf8 src = [1, 1, 1, 1, 1, 1, 1, 1, 1, 1, 1, 1, 2, 2, 3, 4] ! drop_bit 4 src"

definition unicode_cpt_to_utf8 :: "nat \<Rightarrow> bytes outcome" where
  "unicode_cpt_to_utf8 cpt =
     (if cpt \<le> 0x7f then Inr [cpt]
      else if 0x80 \<le> cpt \<and> cpt \<le> 0x7ff then Inr [0xc0 OR (drop_bit 6 cpt AND 0x1f), 0x80 OR (cpt AND 0x3f)]
      else if 0x800 \<le> cpt \<and> cpt \<le> 0xffff then
        Inr [0xe0 OR (drop_bit 12 cpt AND 0x0f), 0x80 OR (drop_bit 6 cpt AND 0x3f), 0x80 OR (cpt AND 0x3f)]
      else if 0x10000 \<le> cpt \<and> cpt \<le> 0x10ffff then
        Inr [0xf0 OR (drop_bit 18 cpt AND 0x07), 0x80 OR (drop_bit 12 cpt AND 0x3f), 0x80 OR (drop_bit 6 cpt AND 0x3f),
             0x80 OR (cpt AND 0x3f)]
      else Inl (Runtime_error ''invalid codepoint''))"

text \<open>The result of decoding at an offset: the code point and the new offset.\<close>

definition cont_at :: "bytes \<Rightarrow> nat \<Rightarrow> bool" where
  "cont_at utf8 i \<longleftrightarrow> utf8 ! i AND 0xc0 = 0x80"

definition unicode_cpt_from_utf8 :: "bytes \<Rightarrow> nat \<Rightarrow> (nat \<times> nat) outcome" where
  "unicode_cpt_from_utf8 utf8 offset =
     (if utf8 ! offset AND 0x80 = 0 then Inr (utf8 ! offset, offset + 1)
      else if utf8 ! offset AND 0x40 = 0 then Inl (Runtime_error ''invalid character'')
      else if utf8 ! offset AND 0x20 = 0 then
        (if offset + 1 \<ge> length utf8 \<or> \<not> cont_at utf8 (offset + 1) then Inl (Runtime_error ''invalid character'')
         else Inr (push_bit 6 (utf8 ! offset AND 0x1f) OR (utf8 ! (offset + 1) AND 0x3f), offset + 2))
      else if utf8 ! offset AND 0x10 = 0 then
        (if offset + 2 \<ge> length utf8 \<or> \<not> cont_at utf8 (offset + 1) \<or> \<not> cont_at utf8 (offset + 2)
         then Inl (Runtime_error ''invalid character'')
         else Inr (push_bit 12 (utf8 ! offset AND 0x0f) OR push_bit 6 (utf8 ! (offset + 1) AND 0x3f) OR
                   (utf8 ! (offset + 2) AND 0x3f), offset + 3))
      else if utf8 ! offset AND 0x08 = 0 then
        (if offset + 3 \<ge> length utf8 \<or> \<not> cont_at utf8 (offset + 1) \<or> \<not> cont_at utf8 (offset + 2) \<or> \<not> cont_at utf8 (offset + 3)
         then Inl (Runtime_error ''invalid character'')
         else Inr (push_bit 18 (utf8 ! offset AND 0x07) OR push_bit 12 (utf8 ! (offset + 1) AND 0x3f) OR
                   push_bit 6 (utf8 ! (offset + 2) AND 0x3f) OR (utf8 ! (offset + 3) AND 0x3f), offset + 4))
      else Inl (Runtime_error ''failed to convert utf8 to codepoint''))"

lemma unicode_cpt_from_utf8_grows: "unicode_cpt_from_utf8 utf8 offset = Inr (c, o') \<Longrightarrow> offset < o'"
  by (auto simp: unicode_cpt_from_utf8_def split: if_splits)

function cpts_from_utf8_loop :: "bytes \<Rightarrow> nat \<Rightarrow> nat list" where
  "cpts_from_utf8_loop utf8 offset =
     (if offset < length utf8 then
        (case unicode_cpt_from_utf8 utf8 offset of
           Inr (c, o') \<Rightarrow> c # cpts_from_utf8_loop utf8 o'
         | Inl _ \<Rightarrow> 0xFFFD # cpts_from_utf8_loop utf8 (offset + 1))
      else [])"
  by pat_completeness auto
termination
  by (relation "measure (\<lambda>(u, i). length u - i)") (auto dest!: unicode_cpt_from_utf8_grows)

declare cpts_from_utf8_loop.simps [simp del]

definition unicode_cpts_from_utf8 :: "bytes \<Rightarrow> nat list" where
  "unicode_cpts_from_utf8 utf8 = cpts_from_utf8_loop utf8 0"

fun unicode_cpts_to_utf8 :: "nat list \<Rightarrow> bytes outcome" where
  "unicode_cpts_to_utf8 [] = Inr []"
| "unicode_cpts_to_utf8 (c # cs) = bind_outcome (unicode_cpt_to_utf8 c) (\<lambda>bs.
     bind_outcome (unicode_cpts_to_utf8 cs) (\<lambda>r. Inr (bs @ r)))"

text \<open>
  The byte alphabet of the BPE tokenizers: printable bytes stand for themselves, the others for
  the code points from 256 on, in both directions. The tables are association lists whose
  first entry for a key counts, as the code never overwrites a key.
\<close>

definition printable_bytes :: "nat list" where
  "printable_bytes = [0x21..<0x7F] @ [0xA1..<0xAD] @ [0xAE..<0x100]"

fun add_cpts :: "nat list \<Rightarrow> (nat \<times> bytes) list \<Rightarrow> (nat \<times> bytes) list outcome" where
  "add_cpts [] t = Inr t"
| "add_cpts (ch # chs) t = bind_outcome (unicode_cpt_to_utf8 ch) (\<lambda>bs. add_cpts chs (t @ [(ch, bs)]))"

fun byte_to_utf8_rest :: "nat list \<Rightarrow> nat \<Rightarrow> (nat \<times> bytes) list \<Rightarrow> (nat \<times> bytes) list outcome" where
  "byte_to_utf8_rest [] n t = Inr t"
| "byte_to_utf8_rest (ch # chs) n t = (if map_of t ch = None
     then bind_outcome (unicode_cpt_to_utf8 (256 + n)) (\<lambda>bs. byte_to_utf8_rest chs (n + 1) (t @ [(ch, bs)]))
     else byte_to_utf8_rest chs n t)"

definition unicode_byte_to_utf8_map :: "(nat \<times> bytes) list outcome" where
  "unicode_byte_to_utf8_map = bind_outcome (add_cpts printable_bytes []) (byte_to_utf8_rest [0..<256] 0)"

fun utf8_to_byte_rest :: "nat list \<Rightarrow> nat \<Rightarrow> (bytes \<times> nat) list \<Rightarrow> (bytes \<times> nat) list outcome" where
  "utf8_to_byte_rest [] n t = Inr t"
| "utf8_to_byte_rest (ch # chs) n t = bind_outcome (unicode_cpt_to_utf8 ch) (\<lambda>k. if map_of t k = None
     then bind_outcome (unicode_cpt_to_utf8 (256 + n)) (\<lambda>bs. utf8_to_byte_rest chs (n + 1) (t @ [(bs, ch)]))
     else utf8_to_byte_rest chs n t)"

definition unicode_utf8_to_byte_map :: "(bytes \<times> nat) list outcome" where
  "unicode_utf8_to_byte_map = bind_outcome (add_cpts printable_bytes []) (\<lambda>t.
     utf8_to_byte_rest [0..<256] 0 (map (\<lambda>(ch, bs). (bs, ch)) t))"

text \<open>\<open>map.at\<close> throws \<open>std::out_of_range\<close> for a key that is not there.\<close>

definition unicode_byte_to_utf8 :: "nat \<Rightarrow> bytes outcome" where
  "unicode_byte_to_utf8 byte = bind_outcome unicode_byte_to_utf8_map (\<lambda>t.
     case map_of t byte of None \<Rightarrow> Inl (Runtime_error ''out_of_range'') | Some bs \<Rightarrow> Inr bs)"

definition unicode_utf8_to_byte :: "bytes \<Rightarrow> nat outcome" where
  "unicode_utf8_to_byte utf8 = bind_outcome unicode_utf8_to_byte_map (\<lambda>t.
     case map_of t utf8 of None \<Rightarrow> Inl (Runtime_error ''out_of_range'') | Some b \<Rightarrow> Inr b)"

text \<open>
  The incremental decoder of the grammar sampler. The accumulator \<open>value\<close> is a \<open>uint32_t\<close>, its
  wrap-around is written out. The three loops of the function are \<open>resume_cpt\<close> (None: an
  invalid byte), \<open>rest_of_cpt\<close> and \<open>decode_utf8_loop\<close>.
\<close>

record llama_partial_utf8 =
  pu_value :: nat
  pu_n_remain :: int

definition add_bits :: "nat \<Rightarrow> nat \<Rightarrow> nat" where
  "add_bits val b = (push_bit 6 val + (b AND 0x3F)) mod 2 ^ 32"

fun resume_cpt :: "bytes \<Rightarrow> nat \<Rightarrow> int \<Rightarrow> (bytes \<times> nat \<times> int) option" where
  "resume_cpt [] val n = Some ([], val, n)"
| "resume_cpt (b # bs) val n = (if b \<noteq> 0 \<and> n > 0
     then (if drop_bit 6 b \<noteq> 2 then None else resume_cpt bs (add_bits val b) (n - 1))
     else Some (b # bs, val, n))"

fun rest_of_cpt :: "bytes \<Rightarrow> nat \<Rightarrow> int \<Rightarrow> bytes \<times> nat \<times> int" where
  "rest_of_cpt [] val n = ([], val, n)"
| "rest_of_cpt (b # bs) val n = (if b \<noteq> 0 \<and> n > 0
     then rest_of_cpt bs (add_bits val b) (n - 1)
     else (b # bs, val, n))"

lemma rest_of_cpt_length: "rest_of_cpt bs val n = (bs', r) \<Longrightarrow> length bs' \<le> length bs"
  by (induction bs val n rule: rest_of_cpt.induct) (auto split: if_splits)

definition utf8_lookup :: "int list" where
  "utf8_lookup = [1, 1, 1, 1, 1, 1, 1, 1, 0, 0, 0, 0, 2, 2, 3, 4]"

function decode_utf8_loop :: "bytes \<Rightarrow> nat list \<Rightarrow> nat \<Rightarrow> int \<Rightarrow> nat list \<times> llama_partial_utf8" where
  "decode_utf8_loop [] cpts val n = (cpts @ [0], \<lparr>pu_value = val, pu_n_remain = n\<rparr>)"
| "decode_utf8_loop (b # bs) cpts val n =
     (if b = 0 then (cpts @ [0], \<lparr>pu_value = val, pu_n_remain = n\<rparr>)
      else let n' = utf8_lookup ! drop_bit 4 b - 1 in
        if n' < 0 then ([0], \<lparr>pu_value = 0, pu_n_remain = n'\<rparr>)
        else case rest_of_cpt bs (b AND (2 ^ nat (7 - n') - 1)) n' of
          (bs', val', n'') \<Rightarrow> decode_utf8_loop bs' (if n'' = 0 then cpts @ [val'] else cpts) val' n'')"
  by pat_completeness auto
termination
  by (relation "measure (\<lambda>(bs, _). length bs)") (auto dest!: rest_of_cpt_length [OF sym])

definition decode_utf8 :: "bytes \<Rightarrow> llama_partial_utf8 \<Rightarrow> nat list \<times> llama_partial_utf8" where
  "decode_utf8 src start = (case resume_cpt src (pu_value start) (pu_n_remain start) of
     None \<Rightarrow> ([0], \<lparr>pu_value = 0, pu_n_remain = -1\<rparr>)
   | Some (bs, val, n) \<Rightarrow> decode_utf8_loop bs (if pu_n_remain start > 0 \<and> n = 0 then [val] else []) val n)"

section \<open>Bits of bytes as arithmetic\<close>

text \<open>There are only 256 bytes, so facts about the bits of one byte are checked one by one.\<close>

lemma byte_bits:
  "list_all (\<lambda>b :: int. (b AND 0x80 = 0 \<longleftrightarrow> b < 128) \<and> (b AND 0xC0 = 0x80 \<longleftrightarrow> 128 \<le> b \<and> b < 192) \<and>
     (b AND 0xE0 = 0xC0 \<longleftrightarrow> 192 \<le> b \<and> b < 224) \<and> (b AND 0xF0 = 0xE0 \<longleftrightarrow> 224 \<le> b \<and> b < 240) \<and>
     (b AND 0xF8 = 0xF0 \<longleftrightarrow> 240 \<le> b \<and> b < 248) \<and> (b \<ge> 192 \<longrightarrow> b AND 0x40 \<noteq> 0) \<and>
     (192 \<le> b \<and> b < 224 \<longrightarrow> b AND 0x20 = 0) \<and> (224 \<le> b \<longrightarrow> b AND 0x20 \<noteq> 0) \<and>
     (224 \<le> b \<and> b < 240 \<longrightarrow> b AND 0x10 = 0) \<and> (240 \<le> b \<longrightarrow> b AND 0x10 \<noteq> 0) \<and>
     (240 \<le> b \<and> b < 248 \<longrightarrow> b AND 0x08 = 0)) [0..255]"
  by code_simp

lemma or_bits:
  "list_all (\<lambda>x :: int. 0x80 OR x = 128 + x) [0..63]" "list_all (\<lambda>x :: int. 0xc0 OR x = 192 + x) [0..31]"
  "list_all (\<lambda>x :: int. 0xe0 OR x = 224 + x) [0..15]" "list_all (\<lambda>x :: int. 0xf0 OR x = 240 + x) [0..7]"
  by code_simp+

lemma int_and: "int (a AND b) = int a AND int b"
  by (rule of_nat_and_eq)

lemma int_or: "int (a OR b) = int a OR int b"
  by (rule of_nat_or_eq)

lemma byte_tests:
  fixes b :: nat
  assumes "b < 256"
  shows "b AND 0x80 = 0 \<longleftrightarrow> b < 128" "b AND 0xC0 = 0x80 \<longleftrightarrow> 128 \<le> b \<and> b < 192"
    "b AND 0xE0 = 0xC0 \<longleftrightarrow> 192 \<le> b \<and> b < 224" "b AND 0xF0 = 0xE0 \<longleftrightarrow> 224 \<le> b \<and> b < 240"
    "b AND 0xF8 = 0xF0 \<longleftrightarrow> 240 \<le> b \<and> b < 248" "b \<ge> 192 \<Longrightarrow> b AND 0x40 \<noteq> 0"
    "192 \<le> b \<Longrightarrow> b < 224 \<Longrightarrow> b AND 0x20 = 0" "224 \<le> b \<Longrightarrow> b AND 0x20 \<noteq> 0"
    "224 \<le> b \<Longrightarrow> b < 240 \<Longrightarrow> b AND 0x10 = 0" "240 \<le> b \<Longrightarrow> b AND 0x10 \<noteq> 0"
    "240 \<le> b \<Longrightarrow> b < 248 \<Longrightarrow> b AND 0x08 = 0"
proof -
  have eq: "b AND m = k \<longleftrightarrow> int b AND int m = int k" for m k :: nat by (simp add: int_and [symmetric])
  have "int b \<in> set [0..255]" using assms by simp
  note bits = byte_bits [unfolded list_all_iff, rule_format, OF this]
  show "b AND 0x80 = 0 \<longleftrightarrow> b < 128" "b AND 0xC0 = 0x80 \<longleftrightarrow> 128 \<le> b \<and> b < 192"
    "b AND 0xE0 = 0xC0 \<longleftrightarrow> 192 \<le> b \<and> b < 224" "b AND 0xF0 = 0xE0 \<longleftrightarrow> 224 \<le> b \<and> b < 240"
    "b AND 0xF8 = 0xF0 \<longleftrightarrow> 240 \<le> b \<and> b < 248" "b \<ge> 192 \<Longrightarrow> b AND 0x40 \<noteq> 0"
    "192 \<le> b \<Longrightarrow> b < 224 \<Longrightarrow> b AND 0x20 = 0" "224 \<le> b \<Longrightarrow> b AND 0x20 \<noteq> 0"
    "224 \<le> b \<Longrightarrow> b < 240 \<Longrightarrow> b AND 0x10 = 0" "240 \<le> b \<Longrightarrow> b AND 0x10 \<noteq> 0"
    "240 \<le> b \<Longrightarrow> b < 248 \<Longrightarrow> b AND 0x08 = 0"
    using bits unfolding eq by simp_all
qed

lemma or_adds:
  shows "x < 64 \<Longrightarrow> (0x80 :: nat) OR x = 128 + x" "x < 32 \<Longrightarrow> (0xc0 :: nat) OR x = 192 + x"
    "x < 16 \<Longrightarrow> (0xe0 :: nat) OR x = 224 + x" "x < 8 \<Longrightarrow> (0xf0 :: nat) OR x = 240 + x"
proof -
  have eq: "(a OR x = a + x) \<longleftrightarrow> (int a OR int x = int a + int x)" for a
    by (simp add: int_or [symmetric] flip: of_nat_add)
  show "x < 64 \<Longrightarrow> (0x80 :: nat) OR x = 128 + x" "x < 32 \<Longrightarrow> (0xc0 :: nat) OR x = 192 + x"
    "x < 16 \<Longrightarrow> (0xe0 :: nat) OR x = 224 + x" "x < 8 \<Longrightarrow> (0xf0 :: nat) OR x = 240 + x"
    unfolding eq using or_bits by (simp_all add: list_all_iff)
qed

lemma and_masks:
  fixes x :: nat
  shows "x AND 0x3f = x mod 64" "x AND 0x1f = x mod 32" "x AND 0x0f = x mod 16" "x AND 0x07 = x mod 8"
  using take_bit_eq_mask [of 6 x] take_bit_eq_mask [of 5 x] take_bit_eq_mask [of 4 x] take_bit_eq_mask [of 3 x]
  by (simp_all add: take_bit_eq_mod mask_eq_exp_minus_1)

lemma push_or:
  fixes x y :: nat
  assumes "y < 2 ^ n"
  shows "push_bit n x OR y = x * 2 ^ n + y"
proof -
  have "push_bit n x AND take_bit n y = 0" by (rule bit_eqI) (simp add: bit_simps)
  then have "push_bit n x + take_bit n y = push_bit n x OR take_bit n y" by (rule disjunctive_add_eq_or)
  moreover have "take_bit n y = y" using assms by (simp add: take_bit_eq_mod)
  ultimately show ?thesis by (simp add: push_bit_eq_mult)
qed

section \<open>The encoding as arithmetic\<close>

definition enc :: "nat \<Rightarrow> bytes" where
  "enc c = (if c < 0x80 then [c]
     else if c < 0x800 then [192 + c div 64, 128 + c mod 64]
     else if c < 0x10000 then [224 + c div 4096, 128 + c div 64 mod 64, 128 + c mod 64]
     else [240 + c div 262144, 128 + c div 4096 mod 64, 128 + c div 64 mod 64, 128 + c mod 64])"

lemma to_utf8_enc: "c \<le> 0x10ffff \<Longrightarrow> unicode_cpt_to_utf8 c = Inr (enc c)"
  by (auto simp: unicode_cpt_to_utf8_def enc_def and_masks or_adds drop_bit_eq_div)

lemma cpts_to_utf8_enc: "list_all (\<lambda>c. c \<le> 0x10ffff) cs \<Longrightarrow> unicode_cpts_to_utf8 cs = Inr (concat (map enc cs))"
  by (induction cs) (simp_all add: to_utf8_enc)

lemma enc_bytes: "c \<le> 0x10ffff \<Longrightarrow> b \<in> set (enc c) \<Longrightarrow> b < 256"
  by (auto simp: enc_def split: if_splits)

text \<open>The four shapes of an encoded code point.\<close>

lemma enc_cases:
  assumes "c \<le> 0x10ffff"
  obtains (1) "c < 128" "enc c = [c]"
  | (2) x y where "enc c = [192 + x, 128 + y]" "x < 32" "y < 64" "c = x * 64 + y"
  | (3) x y z where "enc c = [224 + x, 128 + y, 128 + z]" "x < 16" "y < 64" "z < 64" "c = x * 4096 + y * 64 + z"
  | (4) w x y z where "enc c = [240 + w, 128 + x, 128 + y, 128 + z]" "w < 8" "x < 64" "y < 64" "z < 64"
      "c = w * 262144 + x * 4096 + y * 64 + z"
proof -
  have d2: "c = c div 64 * 64 + c mod 64" by simp
  have e3: "c div 64 = c div 4096 * 64 + c div 64 mod 64" using div_mult2_eq [of c 64 64] by (simp add: div_mult_mod_eq)
  have e4: "c div 4096 = c div 262144 * 64 + c div 4096 mod 64" using div_mult2_eq [of c 4096 64] by (simp add: div_mult_mod_eq)
  have d3: "c = c div 4096 * 4096 + c div 64 mod 64 * 64 + c mod 64" using d2 e3 by linarith
  have d4: "c = c div 262144 * 262144 + c div 4096 mod 64 * 4096 + c div 64 mod 64 * 64 + c mod 64" using d3 e4 by linarith
  consider "c < 128" | "128 \<le> c" "c < 2048" | "2048 \<le> c" "c < 65536" | "65536 \<le> c" by linarith
  then show ?thesis
  proof cases
    case 1
    then show ?thesis by (intro that(1)) (simp_all add: enc_def)
  next
    case 2
    then show ?thesis by (intro that(2) [of "c div 64" "c mod 64"]) (use d2 in \<open>auto simp: enc_def\<close>)
  next
    case 3
    then show ?thesis by (intro that(3) [of "c div 4096" "c div 64 mod 64" "c mod 64"]) (use d3 in \<open>auto simp: enc_def\<close>)
  next
    case 4
    then show ?thesis
      by (intro that(4) [of "c div 262144" "c div 4096 mod 64" "c div 64 mod 64" "c mod 64"]) (use d4 assms in \<open>auto simp: enc_def\<close>)
  qed
qed

lemma enc_nonempty: "enc c \<noteq> []"
  by (simp add: enc_def)

section \<open>Decoding what was encoded\<close>

lemma byte_payload [simp]:
  fixes x :: nat
  shows "x < 64 \<Longrightarrow> (128 + x) mod 64 = x" "x < 32 \<Longrightarrow> (192 + x) mod 32 = x" "x < 32 \<Longrightarrow> (192 + x) mod 64 = x"
    "x < 16 \<Longrightarrow> (224 + x) mod 16 = x" "x < 16 \<Longrightarrow> (224 + x) mod 32 = x"
    "x < 8 \<Longrightarrow> (240 + x) mod 8 = x" "x < 8 \<Longrightarrow> (240 + x) mod 16 = x"
proof -
  have gen: "(m * k + x) mod m = x" if "x < m" for m k using that by simp
  show "x < 64 \<Longrightarrow> (128 + x) mod 64 = x" using gen [of 64 2] by simp
  show "x < 32 \<Longrightarrow> (192 + x) mod 32 = x" using gen [of 32 6] by simp
  show "x < 32 \<Longrightarrow> (192 + x) mod 64 = x" using gen [of 64 3] by simp
  show "x < 16 \<Longrightarrow> (224 + x) mod 16 = x" using gen [of 16 14] by simp
  show "x < 16 \<Longrightarrow> (224 + x) mod 32 = x" using gen [of 32 7] by simp
  show "x < 8 \<Longrightarrow> (240 + x) mod 8 = x" using gen [of 8 30] by simp
  show "x < 8 \<Longrightarrow> (240 + x) mod 16 = x" using gen [of 16 15] by simp
qed

lemma from_utf8_enc:
  assumes "c \<le> 0x10ffff"
  shows "unicode_cpt_from_utf8 (pre @ enc c @ post) (length pre) = Inr (c, length pre + length (enc c))"
  using assms
proof (cases rule: enc_cases)
  case 1
  then show ?thesis by (simp add: unicode_cpt_from_utf8_def byte_tests)
next
  case (2 x y)
  then show ?thesis
    by (simp add: unicode_cpt_from_utf8_def byte_tests cont_at_def nth_append and_masks push_or)
next
  case (3 x y z)
  then show ?thesis
    using push_or [of "y * 64 + z" 12 x] push_or [of z 6 y]
    by (simp add: unicode_cpt_from_utf8_def byte_tests cont_at_def nth_append and_masks or.assoc)
next
  case (4 w x y z)
  then show ?thesis
    using push_or [of "x * 4096 + (y * 64 + z)" 18 w] push_or [of "y * 64 + z" 12 x] push_or [of z 6 y]
    by (simp add: unicode_cpt_from_utf8_def byte_tests cont_at_def nth_append and_masks or.assoc)
qed

lemma cpts_from_utf8_loop_enc:
  "list_all (\<lambda>c. c \<le> 0x10ffff) cs \<Longrightarrow> cpts_from_utf8_loop (pre @ concat (map enc cs)) (length pre) = cs"
proof (induction cs arbitrary: pre)
  case Nil
  then show ?case by (simp add: cpts_from_utf8_loop.simps)
next
  case (Cons c cs)
  then show ?case
    using from_utf8_enc [of c pre "concat (map enc cs)"] Cons.IH [of "pre @ enc c"] enc_nonempty [of c]
    by (subst cpts_from_utf8_loop.simps) simp
qed

text \<open>The high four bits of the first byte of a character.\<close>

lemma high_bits:
  fixes x :: nat
  shows "b < 128 \<Longrightarrow> b div 16 \<in> {0, 1, 2, 3, 4, 5, 6, 7 :: nat}" "x < 32 \<Longrightarrow> (192 + x) div 16 \<in> {12, 13}"
    "x < 16 \<Longrightarrow> (224 + x) div 16 = 14" "x < 8 \<Longrightarrow> (240 + x) div 16 = 15"
proof -
  have up: "(c * 16 + x) div 16 = c + x div 16" for c using div_mult_self1 [of 16 x c] by (simp add: add.commute)
  show "b div 16 \<in> {0, 1, 2, 3, 4, 5, 6, 7}" if "b < 128"
  proof -
    have "b div 16 < 8" using that by simp
    then show ?thesis by auto
  qed
  show "(192 + x) div 16 \<in> {12, 13}" if "x < 32"
  proof -
    have "x div 16 < 2" using that by simp
    then show ?thesis using up [of 12] by (auto simp: less_2_cases_iff)
  qed
  show "(224 + x) div 16 = 14" if "x < 16" using up [of 14] that by simp
  show "(240 + x) div 16 = 15" if "x < 8" using up [of 15] that by simp
qed

lemma unicode_len_table:
  "unicode_len_utf8 b = [1, 1, 1, 1, 1, 1, 1, 1, 1, 1, 1, 1, 2, 2, 3, 4] ! (b div 16)"
  by (simp only: unicode_len_utf8_def drop_bit_eq_div) simp

lemma unicode_len_enc:
  assumes "c \<le> 0x10ffff"
  shows "unicode_len_utf8 (hd (enc c)) = length (enc c)"
proof -
  have one: "unicode_len_utf8 b = 1" if "b < 128" for b
    using high_bits(1) [OF that] unfolding unicode_len_table by (elim insertE emptyE) simp_all
  have two: "unicode_len_utf8 (192 + x) = 2" if "x < 32" for x
    using high_bits(2) [OF that] unfolding unicode_len_table by (elim insertE emptyE) simp_all
  have three: "unicode_len_utf8 (224 + x) = 3" if "x < 16" for x
    unfolding unicode_len_table high_bits(3) [OF that] by simp
  have four: "unicode_len_utf8 (240 + x) = 4" if "x < 8" for x
    unfolding unicode_len_table high_bits(4) [OF that] by simp
  from assms show ?thesis by (cases rule: enc_cases) (simp_all add: one two three four)
qed

text \<open>
  C35. Code points written as UTF-8 and read back are the same code points, and the first byte of
  each character tells its length.
\<close>

theorem unicode_round_trip:
  assumes "list_all (\<lambda>c. c \<le> 0x10ffff) cs"
  shows "(\<exists>bs. unicode_cpts_to_utf8 cs = Inr bs \<and> bytes_ok bs \<and> unicode_cpts_from_utf8 bs = cs) \<and>
    list_all (\<lambda>c. \<exists>u. unicode_cpt_to_utf8 c = Inr u \<and> unicode_len_utf8 (hd u) = length u) cs"
proof (intro conjI)
  have "bytes_ok (concat (map enc cs))"
    using assms enc_bytes by (fastforce simp: bytes_ok_def list_all_iff)
  then show "\<exists>bs. unicode_cpts_to_utf8 cs = Inr bs \<and> bytes_ok bs \<and> unicode_cpts_from_utf8 bs = cs"
    using cpts_to_utf8_enc [OF assms] cpts_from_utf8_loop_enc [OF assms, of "[]"] by (simp add: unicode_cpts_from_utf8_def)
  show "list_all (\<lambda>c. \<exists>u. unicode_cpt_to_utf8 c = Inr u \<and> unicode_len_utf8 (hd u) = length u) cs"
    using assms to_utf8_enc unicode_len_enc by (auto simp: list_all_iff)
qed

theorem unicode_round_trip_witness:
  "\<exists>bs. unicode_cpts_to_utf8 [0x41, 0xE9, 0x20AC, 0x1F600] = Inr bs \<and> bytes_ok bs \<and>
     unicode_cpts_from_utf8 bs = [0x41, 0xE9, 0x20AC, 0x1F600]"
  by (rule conjunct1 [OF unicode_round_trip]) simp

section \<open>Validation\<close>

lemma is_valid_enc:
  assumes "c \<le> 0x10ffff" "c \<noteq> 0"
  shows "is_valid_utf8 (enc c @ rest) = is_valid_utf8 rest"
  using assms(1)
proof (cases rule: enc_cases)
  case 1
  then show ?thesis using assms(2) by (simp add: announced_def byte_tests)
qed (simp_all add: announced_def byte_tests numeral_2_eq_2 numeral_3_eq_3)

lemma is_valid_encoded:
  assumes "list_all (\<lambda>c. c \<le> 0x10ffff \<and> c \<noteq> 0) cs"
  shows "is_valid_utf8 (concat (map enc cs) @ rest) = is_valid_utf8 rest"
  using assms by (induction cs) (simp_all add: is_valid_enc)

text \<open>A proper part of an encoded character.\<close>

lemma is_valid_cut:
  assumes "c \<le> 0x10ffff" "enc c = u @ w" "u \<noteq> []" "w \<noteq> []"
  shows "\<not> is_valid_utf8 u"
  using assms(1)
proof (cases rule: enc_cases)
  case 1
  then show ?thesis using assms(2-) by (auto simp: Cons_eq_append_conv append_eq_Cons_conv)
qed (use assms(2-) in \<open>auto simp: Cons_eq_append_conv append_eq_Cons_conv announced_def byte_tests numeral_2_eq_2 numeral_3_eq_3\<close>)

text \<open>
  C36. Whole non-zero characters in front of a text do not change whether it is valid (so text made of them alone is valid); text that ends
  inside a character is not. So the Java side, which is handed the text only when it is valid,
  never receives half a character.
\<close>

theorem is_valid_utf8_whole_characters:
  assumes "list_all (\<lambda>c. c \<le> 0x10ffff \<and> c \<noteq> 0) cs" "unicode_cpts_to_utf8 cs = Inr bs"
  shows "is_valid_utf8 (bs @ rest) = is_valid_utf8 rest \<and>
    (\<forall>c u w. c \<le> 0x10ffff \<and> unicode_cpt_to_utf8 c = Inr (u @ w) \<and> u \<noteq> [] \<and> w \<noteq> [] \<longrightarrow> \<not> is_valid_utf8 (bs @ u))"
proof -
  have "list_all (\<lambda>c. c \<le> 0x10ffff) cs" using assms(1) by (simp add: list_all_iff)
  then have bs: "bs = concat (map enc cs)" using cpts_to_utf8_enc assms(2) by simp
  show ?thesis
    using is_valid_encoded [OF assms(1)] is_valid_cut to_utf8_enc by (fastforce simp: bs)
qed

theorem is_valid_utf8_whole_characters_witness:
  "is_valid_utf8 [0x41, 0xE2, 0x82, 0xAC] \<and> \<not> is_valid_utf8 [0x41, 0xE2, 0x82, 0xAC, 0xC3]"
proof -
  have cs: "list_all (\<lambda>c. c \<le> 0x10ffff \<and> c \<noteq> 0) [0x41, 0x20AC :: nat]" by simp
  have bs: "unicode_cpts_to_utf8 [0x41, 0x20AC] = Inr [0x41, 0xE2, 0x82, 0xAC]" by (simp add: to_utf8_enc enc_def)
  note whole = is_valid_utf8_whole_characters [OF cs bs, of "[]"]
  have "unicode_cpt_to_utf8 0xE9 = Inr ([0xC3] @ [0xA9])" by (simp add: to_utf8_enc enc_def)
  then have "\<not> is_valid_utf8 ([0x41, 0xE2, 0x82, 0xAC] @ [0xC3])"
    by (intro conjunct2 [OF whole, THEN spec [of _ "0xE9"], THEN spec [of _ "[0xC3]"], THEN spec [of _ "[0xA9]"], THEN mp]) simp
  then show ?thesis using conjunct1 [OF whole] by simp
qed

section \<open>The byte alphabet\<close>

lemma enc_inject: "c \<le> 0x10ffff \<Longrightarrow> d \<le> 0x10ffff \<Longrightarrow> enc c = enc d \<longleftrightarrow> c = d"
  using from_utf8_enc [of c "[]" "[]"] from_utf8_enc [of d "[]" "[]"] by (metis prod.inject sum.inject(2))

lemma enc_inj_on: "inj_on enc {c. c \<le> 0x10ffff}"
  by (rule inj_onI) (simp add: enc_inject)

lemma add_cpts_enc:
  "list_all (\<lambda>c. c \<le> 0x10ffff) chs \<Longrightarrow> add_cpts chs t = Inr (t @ map (\<lambda>c. (c, enc c)) chs)"
  by (induction chs arbitrary: t) (simp_all add: to_utf8_enc)

text \<open>The remaining bytes get the code points from \<open>256 + n\<close> on, in their order.\<close>

lemma byte_to_utf8_rest_enc:
  assumes "distinct chs" "256 + n + length chs \<le> 0x10ffff" "Q = filter (\<lambda>c. c \<notin> fst ` set t) chs"
  shows "byte_to_utf8_rest chs n t = Inr (t @ zip Q (map enc [256 + n..<256 + n + length Q]))"
  using assms
proof (induction chs arbitrary: n t Q)
  case (Cons ch chs)
  show ?case
  proof (cases "ch \<in> fst ` set t")
    case True
    then have "map_of t ch \<noteq> None" by (simp add: map_of_eq_None_iff)
    then show ?thesis using Cons True by auto
  next
    case False
    let ?t = "t @ [(ch, enc (256 + n))]" and ?Q = "filter (\<lambda>c. c \<notin> fst ` set t) chs"
    have "?Q = filter (\<lambda>c. c \<notin> fst ` set ?t) chs" using Cons.prems(1) by (auto intro: filter_cong)
    moreover have "map_of t ch = None" using False by (simp add: map_of_eq_None_iff)
    ultimately show ?thesis
      using Cons.IH [of "n + 1" ?Q ?t] Cons.prems False by (simp add: to_utf8_enc upt_conv_Cons add.assoc)
  qed
qed simp

lemma utf8_to_byte_rest_enc:
  assumes "distinct chs" "list_all (\<lambda>c. c < 256) chs" "256 + n + length chs \<le> 0x10ffff"
    "Q = filter (\<lambda>c. enc c \<notin> fst ` set t) chs"
  shows "utf8_to_byte_rest chs n t = Inr (t @ zip (map enc [256 + n..<256 + n + length Q]) Q)"
  using assms
proof (induction chs arbitrary: n t Q)
  case (Cons ch chs)
  show ?case
  proof (cases "enc ch \<in> fst ` set t")
    case True
    then have "map_of t (enc ch) \<noteq> None" by (simp add: map_of_eq_None_iff)
    then show ?thesis using Cons True by (auto simp: to_utf8_enc)
  next
    case False
    let ?t = "t @ [(enc (256 + n), ch)]" and ?Q = "filter (\<lambda>c. enc c \<notin> fst ` set t) chs"
    have "enc c \<noteq> enc (256 + n)" if "c \<in> set chs" for c
      using that Cons.prems by (subst enc_inject) (auto simp: list_all_iff)
    then have "?Q = filter (\<lambda>c. enc c \<notin> fst ` set ?t) chs" by (auto intro: filter_cong)
    moreover have "map_of t (enc ch) = None" using False by (simp add: map_of_eq_None_iff)
    ultimately show ?thesis
      using Cons.IH [of "n + 1" ?Q ?t] Cons.prems False by (simp add: to_utf8_enc upt_conv_Cons add.assoc)
  qed
qed simp

definition other_bytes :: "nat list" where
  "other_bytes = filter (\<lambda>c. c \<notin> set printable_bytes) [0..<256]"

lemma printable_bytes_bound: "c \<in> set printable_bytes \<Longrightarrow> c < 256"
  by (auto simp: printable_bytes_def)

lemma distinct_printable_bytes: "distinct printable_bytes"
  unfolding printable_bytes_def distinct_append set_append set_upt by (auto simp del: upt_rec_numeral)

lemma mem_other_bytes: "b \<in> set other_bytes \<longleftrightarrow> b < 256 \<and> b \<notin> set printable_bytes"
  unfolding other_bytes_def set_filter set_upt by auto

lemma other_bytes_length: "length other_bytes \<le> 256"
  unfolding other_bytes_def by (rule order_trans [OF length_filter_le]) simp

lemma byte_tables:
  "unicode_byte_to_utf8_map =
     Inr (map (\<lambda>c. (c, enc c)) printable_bytes @ zip other_bytes (map enc [256..<256 + length other_bytes]))"
  "unicode_utf8_to_byte_map =
     Inr (map (\<lambda>c. (enc c, c)) printable_bytes @ zip (map enc [256..<256 + length other_bytes]) other_bytes)"
proof -
  have all: "add_cpts printable_bytes [] = Inr (map (\<lambda>c. (c, enc c)) printable_bytes)"
    using add_cpts_enc [of printable_bytes "[]"] printable_bytes_bound by (fastforce simp: list_all_iff)
  have o1: "other_bytes = filter (\<lambda>c. c \<notin> fst ` set (map (\<lambda>c. (c, enc c)) printable_bytes)) [0..<256]"
    by (simp add: other_bytes_def image_image)
  show "unicode_byte_to_utf8_map =
     Inr (map (\<lambda>c. (c, enc c)) printable_bytes @ zip other_bytes (map enc [256..<256 + length other_bytes]))"
    unfolding unicode_byte_to_utf8_map_def all using byte_to_utf8_rest_enc [OF _ _ o1, of 0] by simp
  have "enc c \<in> enc ` set printable_bytes \<longleftrightarrow> c \<in> set printable_bytes" if "c < 256" for c
    using that printable_bytes_bound by (force simp: enc_inject)
  then have o2: "other_bytes = filter (\<lambda>c. enc c \<notin> fst ` set (map (\<lambda>c. (enc c, c)) printable_bytes)) [0..<256]"
    unfolding other_bytes_def by (intro filter_cong) (auto simp: image_image)
  show "unicode_utf8_to_byte_map =
     Inr (map (\<lambda>c. (enc c, c)) printable_bytes @ zip (map enc [256..<256 + length other_bytes]) other_bytes)"
    unfolding unicode_utf8_to_byte_map_def all
    using utf8_to_byte_rest_enc [OF _ _ _ o2, of 0] by (simp add: list_all_iff comp_def)
qed

text \<open>
  C37. Every byte has a text in the byte alphabet of the tokenizers, and the text of a byte is
  mapped back to that byte.
\<close>

theorem byte_alphabet_round_trip:
  assumes "b < 256"
  shows "\<exists>u. unicode_byte_to_utf8 b = Inr u \<and> unicode_utf8_to_byte u = Inr b"
proof (cases "b \<in> set printable_bytes")
  case True
  have inj: "inj_on enc (set printable_bytes)"
    using inj_on_subset [OF enc_inj_on, of "set printable_bytes"] printable_bytes_bound by fastforce
  have "map_of (map (\<lambda>c. (c, enc c)) printable_bytes) b = Some (enc b)"
    using True by (simp add: map_of_map_restrict)
  moreover have "map_of (map (\<lambda>c. (enc c, c)) printable_bytes) (enc b) = Some b"
  proof (rule map_of_is_SomeI)
    show "distinct (map fst (map (\<lambda>c. (enc c, c)) printable_bytes))"
      using inj by (simp add: comp_def distinct_map distinct_printable_bytes)
  qed (use True in auto)
  ultimately show ?thesis
    unfolding unicode_byte_to_utf8_def unicode_utf8_to_byte_def byte_tables by (simp add: map_add_def split: option.split)
next
  case False
  then obtain i where i: "i < length other_bytes" "b = other_bytes ! i"
    using assms by (metis (mono_tags, lifting) in_set_conv_nth mem_other_bytes)
  let ?us = "map enc [256..<256 + length other_bytes]"
  have d: "distinct other_bytes" by (simp add: other_bytes_def)
  have us: "distinct ?us"
    unfolding distinct_map using other_bytes_length by (auto intro!: inj_onI simp: enc_inject)
  have "map_of (zip other_bytes ?us) b = Some (enc (256 + i))" "map_of (zip ?us other_bytes) (enc (256 + i)) = Some b"
    using map_of_zip_nth [of other_bytes ?us i] map_of_zip_nth [of ?us other_bytes i] d us i by simp_all
  moreover have "map_of (map (\<lambda>c. (c, enc c)) printable_bytes) b = None" using False by (simp add: map_of_eq_None_iff image_image)
  moreover have "map_of (map (\<lambda>c. (enc c, c)) printable_bytes) (enc (256 + i)) = None"
    using printable_bytes_bound i other_bytes_length by (force simp: map_of_eq_None_iff enc_inject)
  ultimately show ?thesis
    unfolding unicode_byte_to_utf8_def unicode_utf8_to_byte_def byte_tables by (auto simp: map_add_def)
qed

theorem byte_alphabet_round_trip_witness:
  "\<exists>u. unicode_byte_to_utf8 32 = Inr u \<and> unicode_utf8_to_byte u = Inr 32"
  by (rule byte_alphabet_round_trip) simp

section \<open>Decoding in pieces\<close>

lemma lookup_high:
  fixes x :: nat
  shows "b < 128 \<Longrightarrow> utf8_lookup ! (b div 16) = 1" "x < 32 \<Longrightarrow> utf8_lookup ! ((192 + x) div 16) = 2"
    "x < 16 \<Longrightarrow> utf8_lookup ! ((224 + x) div 16) = 3" "x < 8 \<Longrightarrow> utf8_lookup ! ((240 + x) div 16) = 4"
proof -
  show "utf8_lookup ! (b div 16) = 1" if "b < 128"
    using high_bits(1) [OF that] unfolding utf8_lookup_def by (elim insertE emptyE) simp_all
  show "utf8_lookup ! ((192 + x) div 16) = 2" if "x < 32"
    using high_bits(2) [OF that] unfolding utf8_lookup_def by (elim insertE emptyE) simp_all
  show "utf8_lookup ! ((224 + x) div 16) = 3" if "x < 16" unfolding utf8_lookup_def high_bits(3) [OF that] by simp
  show "utf8_lookup ! ((240 + x) div 16) = 4" if "x < 8" unfolding utf8_lookup_def high_bits(4) [OF that] by simp
qed

lemma add_bits_cont: "y < 64 \<Longrightarrow> val < 2 ^ 26 \<Longrightarrow> add_bits val (128 + y) = val * 64 + y"
  by (simp add: add_bits_def and_masks push_bit_eq_mult)

lemma cont_high: "y < 64 \<Longrightarrow> (128 + y) div 64 = (2 :: nat)"
  by simp

lemma and_mask7: "x AND 0x7f = x mod (128 :: nat)"
  using take_bit_eq_mask [of 7 x] by (simp add: take_bit_eq_mod mask_eq_exp_minus_1)

lemma rest_of_cpt_0 [simp]: "rest_of_cpt bs val 0 = (bs, val, 0)"
  by (cases bs) simp_all

lemma resume_cpt_0 [simp]: "resume_cpt bs val 0 = Some (bs, val, 0)"
  by (cases bs) simp_all

lemmas decode_simps = lookup_high add_bits_cont cont_high and_masks and_mask7 drop_bit_eq_div

lemma decode_loop_enc:
  assumes "c \<le> 0x10ffff" "c \<noteq> 0"
  shows "decode_utf8_loop (enc c @ rest) cpts val n = decode_utf8_loop rest (cpts @ [c]) c 0"
  using assms(1)
proof (cases rule: enc_cases)
  case 1
  then show ?thesis using assms(2) by (simp add: decode_simps mult.commute)
next
  case (2 x y)
  then show ?thesis by (simp add: decode_simps mult.commute)
next
  case (3 x y z)
  then show ?thesis by (simp add: decode_simps mult.commute)
next
  case (4 w x y z)
  then show ?thesis by (simp add: decode_simps mult.commute)
qed

text \<open>A character cut in two: the first part is remembered, the second part completes it.\<close>

lemma decode_loop_cut:
  assumes "c \<le> 0x10ffff" "enc c = u @ w" "u \<noteq> []" "w \<noteq> []"
  shows "\<exists>v. decode_utf8_loop u cpts val n = (cpts @ [0], \<lparr>pu_value = v, pu_n_remain = int (length w)\<rparr>) \<and>
    resume_cpt (w @ rest) v (int (length w)) = Some (rest, c, 0)"
  using assms(1)
proof (cases rule: enc_cases)
  case 1
  then show ?thesis using assms(2-) by (auto simp: Cons_eq_append_conv append_eq_Cons_conv)
qed (use assms(2-) in \<open>auto simp: Cons_eq_append_conv append_eq_Cons_conv decode_simps mult.commute\<close>)

lemma decode_loop_encoded:
  assumes "list_all (\<lambda>c. c \<le> 0x10ffff \<and> c \<noteq> 0) cs"
  shows "\<exists>v. decode_utf8_loop (concat (map enc cs) @ rest) cpts val 0 = decode_utf8_loop rest (cpts @ cs) v 0"
  using assms
proof (induction cs arbitrary: cpts val)
  case (Cons c cs)
  then show ?case using Cons.IH [of "cpts @ [c]" c] by (simp add: decode_loop_enc)
qed auto

text \<open>Where a split of encoded text can fall.\<close>

lemma split_encoded:
  assumes "a @ b = concat (map enc cs)"
  obtains (between) cs1 cs2 where "cs = cs1 @ cs2" "a = concat (map enc cs1)" "b = concat (map enc cs2)"
  | (inside) cs1 c cs2 u w where "cs = cs1 @ c # cs2" "enc c = u @ w" "u \<noteq> []" "w \<noteq> []"
      "a = concat (map enc cs1) @ u" "b = w @ concat (map enc cs2)"
  using assms
proof (induction cs arbitrary: a thesis)
  case Nil
  then show ?case by simp
next
  case (Cons c cs)
  consider "a = []" | w where "enc c = a @ w" "a \<noteq> []" "w \<noteq> []" "b = w @ concat (map enc cs)"
    | a' where "a = enc c @ a'" "a' @ b = concat (map enc cs)"
  proof -
    have "a @ b = enc c @ concat (map enc cs)" using Cons.prems(3) by simp
    then consider us where "a = enc c @ us" "us @ b = concat (map enc cs)"
      | us where "a @ us = enc c" "b = us @ concat (map enc cs)" by (auto simp: append_eq_append_conv2)
    then show thesis by cases (use that in fastforce, use that in \<open>metis append_Nil append_Nil2\<close>)
  qed
  then show ?case
  proof cases
    case 1
    then show ?thesis using Cons.prems(1) [of "[]" "c # cs"] Cons.prems(3) by simp
  next
    case 2
    then show ?thesis using Cons.prems(2) [of "[]" c cs a w] by simp
  next
    case 3
    from 3(2) show ?thesis
    proof (rule Cons.IH [rotated 2])
      show thesis if "cs = cs1 @ cs2" "a' = concat (map enc cs1)" "b = concat (map enc cs2)" for cs1 cs2
        using that Cons.prems(1) [of "c # cs1" cs2] 3(1) by simp
      show thesis if "cs = cs1 @ d # cs2" "enc d = u @ w" "u \<noteq> []" "w \<noteq> []"
        "a' = concat (map enc cs1) @ u" "b = w @ concat (map enc cs2)" for cs1 d cs2 u w
        using that Cons.prems(2) [of "c # cs1" d cs2 u w] 3(1) by simp
    qed
  qed
qed

text \<open>
  C34. The grammar sampler decodes text in pieces, as the tokens arrive: wherever the text of the
  characters \<open>cs\<close> is cut in two, also inside a character, decoding the first piece and then the
  second with the remembered part gives exactly the characters (each call ends its own list with a
  zero), and no part is left over.
\<close>

theorem decode_utf8_in_pieces:
  assumes "list_all (\<lambda>c. c \<le> 0x10ffff \<and> c \<noteq> 0) cs" "unicode_cpts_to_utf8 cs = Inr (a @ b)"
  shows "\<exists>cs1 cs2 p v. decode_utf8 a \<lparr>pu_value = 0, pu_n_remain = 0\<rparr> = (cs1 @ [0], p) \<and>
    decode_utf8 b p = (cs2 @ [0], \<lparr>pu_value = v, pu_n_remain = 0\<rparr>) \<and> cs = cs1 @ cs2"
proof -
  have all: "list_all (\<lambda>c. c \<le> 0x10ffff) cs" using assms(1) by (simp add: list_all_iff)
  then have "a @ b = concat (map enc cs)" using cpts_to_utf8_enc assms(2) by simp
  then show ?thesis
  proof (cases rule: split_encoded)
    case (between cs1 cs2)
    obtain v1 where 1: "decode_utf8_loop a [] 0 0 = decode_utf8_loop [] cs1 v1 0"
      using decode_loop_encoded [of cs1 "[]" "[]" 0] assms(1) between by auto
    obtain v2 where 2: "decode_utf8_loop b [] v1 0 = decode_utf8_loop [] cs2 v2 0"
      using decode_loop_encoded [of cs2 "[]" "[]" v1] assms(1) between by auto
    show ?thesis using 1 2 between(1) by (simp add: decode_utf8_def)
  next
    case (inside cs1 c cs2 u w)
    have c: "c \<le> 0x10ffff" using all inside(1) by simp
    obtain v1 where 1: "decode_utf8_loop a [] 0 0 = decode_utf8_loop u cs1 v1 0"
      using decode_loop_encoded [of cs1 u "[]" 0] assms(1) inside by auto
    obtain v where cut: "decode_utf8_loop u cs1 v1 0 = (cs1 @ [0], \<lparr>pu_value = v, pu_n_remain = int (length w)\<rparr>)"
      "resume_cpt b v (int (length w)) = Some (concat (map enc cs2), c, 0)"
      using decode_loop_cut [OF c inside(2-4), of cs1 v1 0 "concat (map enc cs2)"] inside(6) by auto
    obtain v2 where 2: "decode_utf8_loop (concat (map enc cs2)) [c] c 0 = decode_utf8_loop [] ([c] @ cs2) v2 0"
      using decode_loop_encoded [of cs2 "[]" "[c]" c] assms(1) inside(1) by auto
    show ?thesis using 1 2 cut inside by (simp add: decode_utf8_def)
  qed
qed

theorem decode_utf8_in_pieces_witness:
  "\<exists>cs1 cs2 p v. decode_utf8 [0x41, 0xE2] \<lparr>pu_value = 0, pu_n_remain = 0\<rparr> = (cs1 @ [0], p) \<and>
    decode_utf8 [0x82, 0xAC] p = (cs2 @ [0], \<lparr>pu_value = v, pu_n_remain = 0\<rparr>) \<and> [0x41, 0x20AC] = cs1 @ cs2"
proof -
  have "unicode_cpts_to_utf8 [0x41, 0x20AC] = Inr ([0x41, 0xE2] @ [0x82, 0xAC])" by (simp add: to_utf8_enc enc_def)
  then show ?thesis by (rule decode_utf8_in_pieces [rotated]) simp
qed

end
