(* ===== verification/Ai_Chat.thy ===== *)
theory Ai_Chat
  imports Chat_State Utf8 "HOL-Library.Signed_Division"
begin

text \<open>
  The conversation of \<open>ai_chat.cpp\<close>: prompts are decoded in batches, tokens are generated one
  by one, the context is shifted when it is full, and the text is handed out when it is valid
  UTF-8. The direct bridge answers a prompt in one call, \<open>nativeInfer\<close>, with a time limit and
  a cancel flag that another thread may set.
\<close>

section \<open>Shared steps\<close>

text \<open>Division of \<open>int\<close> truncates towards zero, as in C++.\<close>

definition shift_context :: "chat \<Rightarrow> chat outcome" where
  "shift_context s =
     (let n_discard = (current_position s - system_prompt_position s) sdiv 2;
          sys = system_prompt_position s; cur = current_position s
      in bind_outcome (on_memory (\<lambda>k. bind_outcome (kv_seq_rm 0 sys (sys + n_discard) k) (\<lambda>(_, k). Inr k)) s) (\<lambda>s.
         bind_outcome (on_memory (kv_seq_add 0 (sys + n_discard) cur (- n_discard)) s) (\<lambda>s.
         Inr (s\<lparr>current_position := cur - n_discard\<rparr>))))"

definition chat_add_and_format :: "'w native \<Rightarrow> string \<Rightarrow> string \<Rightarrow> chat \<Rightarrow> 'w \<Rightarrow> (string \<times> chat \<times> 'w) outcome" where
  "chat_add_and_format nv role content s w =
     bind_outcome (deref (g_chat_templates s) s) (\<lambda>_.
       let (formatted, w) = nv_format nv (chat_msgs s) (role, content) (role = ''user'') w
       in Inr (formatted, s\<lparr>chat_msgs := chat_msgs s @ [(role, content)]\<rparr>, w))"

text \<open>The global batch: cleared, filled with entries of sequence 0, decoded.\<close>

definition batch_clear :: "chat \<Rightarrow> chat outcome" where
  "batch_clear s = bind_outcome (the_batch s) (\<lambda>b. Inr (store (g_batch s) (Batch_obj (common_batch_clear b)) s))"

fun add_entries :: "(llama_token \<times> llama_pos \<times> bool) list \<Rightarrow> slot_batch \<Rightarrow> slot_batch outcome" where
  "add_entries [] b = Inr b"
| "add_entries ((t, p, lg) # es) b = bind_outcome (common_batch_add b t p [0] lg) (add_entries es)"

definition batch_add :: "(llama_token \<times> llama_pos \<times> bool) list \<Rightarrow> chat \<Rightarrow> chat outcome" where
  "batch_add es s = bind_outcome (the_batch s) (\<lambda>b. bind_outcome (add_entries es b) (\<lambda>b.
     Inr (store (g_batch s) (Batch_obj b) s)))"

definition chat_decode :: "'w native \<Rightarrow> chat \<Rightarrow> 'w \<Rightarrow> (int \<times> chat \<times> 'w) outcome" where
  "chat_decode nv s w = bind_outcome (the_context s) (\<lambda>c. bind_outcome (the_batch s) (\<lambda>b.
     bind_outcome (decode (nv_engine nv) (to_llama_batch b) c w) (\<lambda>(r, c, w).
       Inr (r, store (g_context s) (Context_obj c) s, w))))"

text \<open>
  \<open>common_sampler_sample(g_sampler, g_context, -1)\<close> asserts that the last output has logits;
  the sampler itself and \<open>common_sampler_accept\<close> are outside.
\<close>

definition sample_token :: "'w native \<Rightarrow> chat \<Rightarrow> 'w \<Rightarrow> (llama_token \<times> chat \<times> 'w) outcome" where
  "sample_token nv s w = bind_outcome (deref (g_sampler s) s) (\<lambda>_. bind_outcome (the_context s) (\<lambda>c.
     let (row, o1) = get_logits_ith (-1) (lc_out c)
     in case row of None \<Rightarrow> Inl Assert_failed
        | Some l \<Rightarrow> let (t, w) = nv_sample nv l w
            in Inr (t, store (g_context s) (Context_obj (c\<lparr>lc_out := o1\<rparr>)) s, nv_accept nv t w)))"

section \<open>Prompts\<close>

text \<open>The loop of \<open>decode_tokens_in_batches\<close> at index \<open>i\<close>; the capacity is at least 1.\<close>

function decode_batches_loop :: "'w native \<Rightarrow> llama_token list \<Rightarrow> llama_pos \<Rightarrow> bool \<Rightarrow> nat \<Rightarrow> nat \<Rightarrow> chat \<Rightarrow> 'w \<Rightarrow>
    (int \<times> chat \<times> 'w) outcome" where
  "decode_batches_loop nv tokens pos0 last_logit cap i s w =
     (if i < length tokens then
        let cur_batch_size = min (length tokens - i) (max 1 cap)
        in bind_outcome (batch_clear s) (\<lambda>s.
           bind_outcome (if pos0 + int i + int cur_batch_size \<ge> DEFAULT_CONTEXT_SIZE - OVERFLOW_HEADROOM
             then shift_context s else Inr s) (\<lambda>s.
           bind_outcome (batch_add (map (\<lambda>j. (tokens ! (i + j), pos0 + int i + int j, last_logit \<and> i + j = length tokens - 1))
             [0..<cur_batch_size]) s) (\<lambda>s.
           bind_outcome (chat_decode nv s w) (\<lambda>(r, s, w).
             if r \<noteq> 0 then Inr (1, s, w)
             else decode_batches_loop nv tokens pos0 last_logit cap (i + max 1 cap) s w))))
      else Inr (0, s, w))"
  by pat_completeness auto
termination
  by (relation "measure (\<lambda>(nv, tokens, pos0, last_logit, cap, i, s, w). length tokens - i)") auto

declare decode_batches_loop.simps [simp del]

definition decode_tokens_in_batches :: "'w native \<Rightarrow> llama_token list \<Rightarrow> llama_pos \<Rightarrow> bool \<Rightarrow> chat \<Rightarrow> 'w \<Rightarrow> (int \<times> chat \<times> 'w) outcome" where
  "decode_tokens_in_batches nv tokens pos0 last_logit s w =
     decode_batches_loop nv tokens pos0 last_logit (nat (max 1 (g_runtime_batch_capacity s))) 0 s w"

text \<open>A Java string arrives as characters, or not at all (\<open>None\<close>) when the VM cannot provide them.\<close>

definition chars_or_empty :: "string option \<Rightarrow> string" where
  "chars_or_empty str = (case str of None \<Rightarrow> [] | Some cs \<Rightarrow> cs)"

definition format_prompt :: "'w native \<Rightarrow> string \<Rightarrow> string \<Rightarrow> chat \<Rightarrow> 'w \<Rightarrow> (string \<times> chat \<times> 'w) outcome" where
  "format_prompt nv role raw s w =
     (if g_chat_templates s \<noteq> None then chat_add_and_format nv role raw s w else Inr (raw, s, w))"

definition processSystemPrompt :: "'w native \<Rightarrow> string option \<Rightarrow> chat \<Rightarrow> 'w \<Rightarrow> (int \<times> chat \<times> 'w) outcome" where
  "processSystemPrompt nv prompt s w =
     bind_outcome (reset_long_term_states s) (\<lambda>s. let s = reset_short_term_states s; has_chat_template = g_chat_templates s \<noteq> None in
     bind_outcome (format_prompt nv ''system'' (chars_or_empty prompt) s w) (\<lambda>(formatted, s, w).
     bind_outcome (the_context s) (\<lambda>_. let system_tokens = nv_tokenize nv formatted has_chat_template has_chat_template in
       if int (length system_tokens) > DEFAULT_CONTEXT_SIZE - OVERFLOW_HEADROOM then Inr (1, s, w)
       else bind_outcome (decode_tokens_in_batches nv system_tokens (current_position s) False s w) (\<lambda>(r, s, w).
         if r \<noteq> 0 then Inr (2, s, w)
         else Inr (0, s\<lparr>system_prompt_position := int (length system_tokens), current_position := int (length system_tokens)\<rparr>, w)))))"

definition processUserPrompt :: "'w native \<Rightarrow> string option \<Rightarrow> int \<Rightarrow> chat \<Rightarrow> 'w \<Rightarrow> (int \<times> chat \<times> 'w) outcome" where
  "processUserPrompt nv prompt n_predict s w =
     (let s = reset_short_term_states s; has_chat_template = g_chat_templates s \<noteq> None in
      bind_outcome (format_prompt nv ''user'' (chars_or_empty prompt) s w) (\<lambda>(formatted, s, w).
      bind_outcome (the_context s) (\<lambda>_.
        let user_tokens = nv_tokenize nv formatted has_chat_template has_chat_template;
            max_batch_size = DEFAULT_CONTEXT_SIZE - OVERFLOW_HEADROOM;
            user_tokens = (if int (length user_tokens) > max_batch_size then take (nat max_batch_size) user_tokens else user_tokens);
            user_prompt_size = int (length user_tokens)
        in bind_outcome (decode_tokens_in_batches nv user_tokens (current_position s) True s w) (\<lambda>(r, s, w).
             if r \<noteq> 0 then Inr (2, s, w)
             else let cur = current_position s + user_prompt_size
               in Inr (0, s\<lparr>current_position := cur, stop_generation_position := cur + user_prompt_size + n_predict\<rparr>, w)))))"

section \<open>Generation\<close>

text \<open>A Java string is made from the bytes before the first zero.\<close>

definition c_str :: "string \<Rightarrow> string" where
  "c_str cs = takeWhile (\<lambda>ch. ch \<noteq> CHR 0x00) cs"

text \<open>The text that \<open>generateNextToken\<close> returns; in its result \<open>None\<close> is the null reference.\<close>

definition emit_chars :: "string \<Rightarrow> chat \<Rightarrow> string \<times> chat" where
  "emit_chars new_token_chars s =
     (let cached = cached_token_chars s @ new_token_chars
      in if is_valid_utf8 (map of_char cached)
         then (c_str cached, s\<lparr>assistant_ss := assistant_ss s @ cached, cached_token_chars := []\<rparr>)
         else ([], s\<lparr>cached_token_chars := cached\<rparr>))"

definition generateNextToken :: "'w native \<Rightarrow> chat \<Rightarrow> 'w \<Rightarrow> (string option \<times> chat \<times> 'w) outcome" where
  "generateNextToken nv s w =
     bind_outcome (if current_position s \<ge> DEFAULT_CONTEXT_SIZE - OVERFLOW_HEADROOM then shift_context s else Inr s) (\<lambda>s.
       if current_position s \<ge> stop_generation_position s then Inr (None, s, w)
       else bind_outcome (sample_token nv s w) (\<lambda>(new_token_id, s, w).
            bind_outcome (batch_clear s) (\<lambda>s. bind_outcome (batch_add [(new_token_id, current_position s, True)] s) (\<lambda>s.
            bind_outcome (chat_decode nv s w) (\<lambda>(r, s, w).
              if r \<noteq> 0 then Inr (None, s, w)
              else let s = s\<lparr>current_position := current_position s + 1\<rparr>
                in bind_outcome (deref (g_model s) s) (\<lambda>_.
                     if nv_is_eog nv new_token_id then
                       bind_outcome (chat_add_and_format nv ''assistant'' (assistant_ss s) s w) (\<lambda>(_, s, w). Inr (None, s, w))
                     else let (str, s) = emit_chars (nv_piece nv new_token_id) s in Inr (Some str, s, w)))))))"

section \<open>Batches of one sequence\<close>

definition entry :: "llama_token \<times> llama_pos \<times> bool \<Rightarrow> slot_entry" where
  "entry = (\<lambda>(t, p, lg). \<lparr>se_token = t, se_pos = p, se_seq_ids = [0], se_logits = lg\<rparr>)"

lemma add_entries_ok:
  assumes "batch_wf b" "sb_n_tokens b + length es \<le> sb_alloc b"
  shows "\<exists>b'. add_entries es b = Inr b' \<and> batch_wf b' \<and> sb_alloc b' = sb_alloc b \<and> sb_n_tokens b' = sb_n_tokens b + length es \<and>
    batch_entries b' = batch_entries b @ map entry es"
  using assms
proof (induction es arbitrary: b)
  case (Cons e es)
  obtain t p lg where e: "e = (t, p, lg)" by (cases e) auto
  obtain b1 where b1: "common_batch_add b t p [0] lg = Inr b1"
    using Cons.prems(2) by (auto simp: common_batch_add_def)
  note a = common_batch_add_ok [OF Cons.prems(1) b1]
  show ?case using Cons.IH [OF a(1)] Cons.prems(2) a(2-4) by (auto simp: e b1 entry_def)
qed simp

text \<open>Entries at consecutive positions from \<open>p\<close> on.\<close>

definition consecutive :: "llama_pos \<Rightarrow> (llama_token \<times> llama_pos \<times> bool) list \<Rightarrow> bool" where
  "consecutive p es \<longleftrightarrow> map (fst \<circ> snd) es = map (\<lambda>k. p + int k) [0..<length es]"

text \<open>What the allocator makes of a batch with the entries \<open>es\<close>.\<close>

definition filled_with :: "slot_batch \<Rightarrow> (llama_token \<times> llama_pos \<times> bool) list \<Rightarrow> llama_pos \<Rightarrow> bool" where
  "filled_with b es p \<longleftrightarrow> batch_entries b = map entry es \<and> sb_n_tokens b = length es \<and> es \<noteq> [] \<and> consecutive p es \<and> 0 \<le> p"

lemma filled_withD:
  assumes "filled_with b es p"
  shows "batch_entries b = map entry es" "sb_n_tokens b = length es" "es \<noteq> []" "consecutive p es" "0 \<le> p"
  using assms by (simp_all add: filled_with_def)

lemma filled:
  assumes "filled_with b es p"
  shows "b_n_tokens (fill_batch mem False (to_llama_batch b)) = length es"
    and "b_pos (fill_batch mem False (to_llama_batch b)) = map (\<lambda>k. p + int k) [0..<length es]"
    and "b_logits (fill_batch mem False (to_llama_batch b)) = map (snd \<circ> snd) es"
    and "i < length es \<Longrightarrow> b_ids (fill_batch mem False (to_llama_batch b)) i = [0]"
    and "bt_n_tokens (to_llama_batch b) = length es"
  using filled_withD [OF assms]
  by (simp_all add: fill_batch_def to_llama_batch_def Let_def fill_pos_def fill_logits_def b_ids_def fill_seq_id_def
      fill_n_seq_id_def consecutive_def entry_def case_prod_beta comp_def)

lemma filled_rows: "filled_with b es p \<Longrightarrow> input_rows_ok (to_llama_batch b)"
  by (simp add: input_rows_ok_def to_llama_batch_def Let_def filled_with_def entry_def case_prod_beta)

lemma filled_positions:
  assumes "filled_with b es p"
  shows "batch_positions (fill_batch mem False (to_llama_batch b)) 0 = {p..p + int (length es) - 1}"
    and "t \<noteq> 0 \<Longrightarrow> batch_positions (fill_batch mem False (to_llama_batch b)) t = {}"
proof -
  let ?b = "fill_batch mem False (to_llama_batch b)"
  note filled = filled [OF assms]
  have "batch_positions ?b 0 = (!) (b_pos ?b) ` {i. i < length es \<and> 0 \<in> set (b_ids ?b i)}"
    by (auto simp: batch_positions_def filled(1))
  also have "\<dots> = (\<lambda>k. p + int k) ` {..<length es}" by (rule image_cong) (auto simp: filled)
  finally have "batch_positions ?b 0 = (\<lambda>k. p + int k) ` {..<length es}" .
  moreover have "q \<in> (\<lambda>k. p + int k) ` {..<length es}" if "q \<in> {p..p + int (length es) - 1}" for q
    using that by (intro image_eqI [of _ _ "nat (q - p)"]) auto
  ultimately show "batch_positions ?b 0 = {p..p + int (length es) - 1}" by auto
  show "t \<noteq> 0 \<Longrightarrow> batch_positions ?b t = {}" by (auto simp: batch_positions_def filled)
qed

text \<open>The batch passes every check but the one against the positions in the memory.\<close>

lemma filled_init:
  assumes cb: "filled_with b es p"
    and "list_all (\<lambda>(t, _). 0 \<le> t \<and> t < int n_vocab) es" "0 < n_seq_max" "n_seq_max \<le> LLAMA_MAX_SEQ" "ba_n_pos_per_embd a = 1"
  shows "mem_last mem 0 + 1 = p \<Longrightarrow> \<exists>a'. ba_init n_vocab mem n_embd n_seq_max False (to_llama_batch b) a = Inr (True, a')"
    and "0 \<le> mem_last mem 0 \<Longrightarrow> mem_last mem 0 + 1 \<noteq> p \<Longrightarrow>
      \<exists>a'. ba_init n_vocab mem n_embd n_seq_max False (to_llama_batch b) a = Inr (False, a') \<and> ba_n_pos_per_embd a' = 1"
proof -
  let ?inp = "to_llama_batch b" let ?b = "fill_batch mem False ?inp" let ?a = "(ba_clear a)\<lparr>ba_batch := ?b\<rparr>"
  let ?r = "ba_stats n_embd n_seq_max ?a"
  note filled = filled [OF cb] and rows = filled_rows [OF cb] and positions = filled_positions [OF cb] and f = filled_withD [OF cb]
  note entries = f(1-3) and pos = f(4,5)
  have rows': "rows_ok (ba_batch ?a)" using rows_ok_fill [OF rows] by simp
  note r = ba_stats_result [OF rows', simplified, unfolded ba_clear_clean, simplified, of n_embd n_seq_max]
  have sp: "ba_seq_pos ?r s = {}" if "s \<noteq> 0" for s using positions(2) [OF that] by (simp add: r)
  have sp0: "ba_seq_pos ?r 0 = {p..p + int (length es) - 1}" using positions(1) by (simp add: r)
  have "check_coupled mem ?r"
  proof -
    have "\<not> ba_seq_cpl ?r s0 s1" for s0 s1 by (auto simp: r filled)
    then show ?thesis by (rule check_coupled_none)
  qed
  moreover have "check_seq_sets ?r"
    unfolding check_seq_sets_def using pos(2) by (intro check_sets_single) (auto simp: r filled)
  moreover have valid: "valid_tokens n_vocab ?inp" "valid_seq_ids n_seq_max ?inp = Inr True" "0 < bt_n_tokens ?inp"
    using assms(2,3) entries
    by (auto simp: valid_tokens_def valid_seq_ids_def to_llama_batch_def Let_def list_all_iff entry_def case_prod_beta)
  moreover have "check_positions mem ?r" if "mem_last mem 0 + 1 = p"
    using entries(3) assms(5) that by (intro check_positions_single [where n = "length es", OF _ _ sp sp0]) (simp_all add: r)
  ultimately show "\<exists>a'. ba_init n_vocab mem n_embd n_seq_max False ?inp a = Inr (True, a')" if "mem_last mem 0 + 1 = p"
    using assms(4) that unfolding ba_init_accepts [OF rows] by (simp add: Let_def)
  assume m: "0 \<le> mem_last mem 0" "mem_last mem 0 + 1 \<noteq> p"
  have "\<not> check_positions mem ?r"
  proof -
    have "p \<le> p + int (length es) - 1" using entries(3) by (cases es) auto
    then have "Min {p..p + int (length es) - 1} = p" "{p..p + int (length es) - 1} \<noteq> {}" by (auto intro: Min_eqI)
    then have "ba_seq_pos_min ?r 0 = p" "ba_seq_pos ?r 0 \<noteq> {}" by (simp_all add: ba_seq_pos_min_def sp0)
    then show ?thesis
      using m assms(3,5) unfolding check_positions_def list_all_iff by (intro notI) (drule bspec [where x = 0], auto simp: r Let_def)
  qed
  then show "\<exists>a'. ba_init n_vocab mem n_embd n_seq_max False ?inp a = Inr (False, a') \<and> ba_n_pos_per_embd a' = 1"
    using valid assms(4,5) r(4) by (simp add: ba_init_def Let_def ba_clear_clean)
qed

section \<open>A live session\<close>

lemma the_context_iff: "the_context s = Inr c \<longleftrightarrow> (\<exists>a. g_context s = Some a \<and> g_heap s a = Some (Context_obj c))"
  by (auto simp: the_context_def deref_def bind_outcome_Inr_iff split: option.splits obj.splits)

lemma the_batch_iff: "the_batch s = Inr b \<longleftrightarrow> (\<exists>a. g_batch s = Some a \<and> g_heap s a = Some (Batch_obj b))"
  by (auto simp: the_batch_def deref_def bind_outcome_Inr_iff split: option.splits obj.splits)

text \<open>Only the contents of objects differ.\<close>

definition same_globals :: "chat \<Rightarrow> chat \<Rightarrow> bool" where
  "same_globals s s' \<longleftrightarrow> (\<exists>h. s' = s\<lparr>g_heap := h\<rparr> \<and> (\<forall>a. map_option kind_of (h a) = map_option kind_of (g_heap s a)))"

lemma same_globals_refl [simp]: "same_globals s s"
proof -
  have "s = s\<lparr>g_heap := g_heap s\<rparr>" by simp
  then show ?thesis unfolding same_globals_def by blast
qed

lemma same_globals_trans: "same_globals s s' \<Longrightarrow> same_globals s' s'' \<Longrightarrow> same_globals s s''"
  unfolding same_globals_def by (elim exE conjE, simp) blast

lemma same_globals_position:
  assumes "same_globals s s'"
  shows "same_globals (s\<lparr>current_position := x\<rparr>) (s'\<lparr>current_position := x\<rparr>)"
proof -
  have "s\<lparr>g_heap := h, current_position := x\<rparr> = s\<lparr>current_position := x, g_heap := h\<rparr>" for h by (cases s) simp
  moreover obtain h where "s' = s\<lparr>g_heap := h\<rparr>" "\<forall>a. map_option kind_of (h a) = map_option kind_of (g_heap s a)"
    using assms by (auto simp: same_globals_def)
  ultimately show ?thesis unfolding same_globals_def by (intro exI [of _ h]) simp
qed

lemma same_globalsD:
  assumes "same_globals s s'"
  shows "current_position s' = current_position s" "system_prompt_position s' = system_prompt_position s"
    "stop_generation_position s' = stop_generation_position s" "cached_token_chars s' = cached_token_chars s"
    "assistant_ss s' = assistant_ss s" "g_sampler s' = g_sampler s" "g_model s' = g_model s" "g_context s' = g_context s"
    "g_chat_templates s' = g_chat_templates s" "g_batch s' = g_batch s" "g_batch_initialized s' = g_batch_initialized s"
    "g_runtime_batch_capacity s' = g_runtime_batch_capacity s" "g_direct_batch_capacity s' = g_direct_batch_capacity s"
    "g_runtime_n_ctx s' = g_runtime_n_ctx s" "chat_msgs s' = chat_msgs s"
  using assms by (auto simp: same_globals_def)

lemma owns_kinds:
  "owns sl h n \<longleftrightarrow> (\<forall>a k. map_option kind_of (h a) = Some k \<longrightarrow> a < n \<and> sl k = Some a) \<and>
     (\<forall>k a. sl k = Some a \<longrightarrow> map_option kind_of (h a) = Some k)"
  unfolding owns_def map_option_eq_Some by (rule arg_cong2 [where f = conj], blast, rule refl)

lemma same_globals_owned:
  assumes "same_globals s s'" "owned s"
  shows "owned s'"
proof -
  obtain h where h: "s' = s\<lparr>g_heap := h\<rparr>" "\<And>a. map_option kind_of (h a) = map_option kind_of (g_heap s a)"
    using assms(1) by (auto simp: same_globals_def)
  have "owns (slot s) h (g_next s)" using assms(2) unfolding owned_def owns_kinds h(2) by (rule conjunct1)
  then show ?thesis using assms(2) by (simp add: owned_def h(1))
qed

lemma deref_same_globals:
  assumes "same_globals s s'" "deref p s = Inr x"
  shows "\<exists>y. deref p s' = Inr y"
proof -
  obtain h where h: "s' = s\<lparr>g_heap := h\<rparr>" "\<And>a. map_option kind_of (h a) = map_option kind_of (g_heap s a)"
    using assms(1) by (auto simp: same_globals_def)
  obtain a where a: "p = Some a" "g_heap s a = Some x" using assms(2) by (auto simp: deref_def split: option.splits)
  then have "h a \<noteq> None" using h(2) [of a] by auto
  then show ?thesis using h(1) a(1) by (auto simp: deref_def)
qed

lemma put_context:
  assumes "the_context s = Inr c"
  shows "the_context (store (g_context s) (Context_obj c') s) = Inr c'"
    and "the_batch (store (g_context s) (Context_obj c') s) = the_batch s"
    and "same_globals s (store (g_context s) (Context_obj c') s)"
proof -
  obtain a where a: "g_context s = Some a" "g_heap s a = Some (Context_obj c)" using assms by (auto simp: the_context_iff)
  show "the_context (store (g_context s) (Context_obj c') s) = Inr c'" by (simp add: the_context_iff store_def a)
  show "the_batch (store (g_context s) (Context_obj c') s) = the_batch s"
    using a by (auto simp: store_def the_batch_def deref_def bind_outcome_def split: option.splits obj.splits)
  show "same_globals s (store (g_context s) (Context_obj c') s)" using a by (auto simp: store_def same_globals_def)
qed

lemma put_batch:
  assumes "the_batch s = Inr b"
  shows "the_batch (store (g_batch s) (Batch_obj b') s) = Inr b'"
    and "the_context (store (g_batch s) (Batch_obj b') s) = the_context s"
    and "same_globals s (store (g_batch s) (Batch_obj b') s)"
proof -
  obtain a where a: "g_batch s = Some a" "g_heap s a = Some (Batch_obj b)" using assms by (auto simp: the_batch_iff)
  show "the_batch (store (g_batch s) (Batch_obj b') s) = Inr b'" by (simp add: the_batch_iff store_def a)
  show "the_context (store (g_batch s) (Batch_obj b') s) = the_context s"
    using a by (auto simp: store_def the_context_def deref_def bind_outcome_def split: option.splits obj.splits)
  show "same_globals s (store (g_batch s) (Batch_obj b') s)" using a by (auto simp: store_def same_globals_def)
qed

text \<open>
  A context with \<open>V\<close> tokens in its vocabulary and a batch of capacity \<open>cap\<close> exist, and the cache
  holds the positions \<open>P\<close> of sequence 0; in a session these are the positions below \<open>n\<close>.
\<close>

definition holding :: "nat \<Rightarrow> nat \<Rightarrow> llama_pos set \<Rightarrow> chat \<Rightarrow> bool" where
  "holding V cap P s \<longleftrightarrow> (\<exists>c b. the_context s = Inr c \<and> the_batch s = Inr b \<and> ctx_ok c \<and> lc_n_vocab c = V \<and>
     batch_wf b \<and> sb_alloc b = cap \<and> 0 < cap \<and> cap \<le> lc_n_batch c \<and> kv_positions (lc_memory c) 0 = P)"

definition session :: "nat \<Rightarrow> nat \<Rightarrow> int \<Rightarrow> chat \<Rightarrow> bool" where
  "session V cap n s \<longleftrightarrow> holding V cap {0..<n} s \<and> 0 \<le> n"

definition cleared :: "chat \<Rightarrow> bool" where
  "cleared s \<longleftrightarrow> (\<exists>b. the_batch s = Inr b \<and> sb_n_tokens b = 0)"

definition has_logits :: "chat \<Rightarrow> bool" where
  "has_logits s \<longleftrightarrow> (\<exists>c. the_context s = Inr c \<and> fst (get_logits_ith (-1) (lc_out c)) \<noteq> None)"

text \<open>The free cells of the cache: how many tokens still fit.\<close>

definition free_slots :: "chat \<Rightarrow> nat" where
  "free_slots s = (case the_context s of Inr c \<Rightarrow> card (free_cells (lc_memory c)) | Inl _ \<Rightarrow> 0)"

text \<open>After an attempt to decode \<open>n\<close> tokens: success takes \<open>n\<close> cells, and only a full cache or a failing graph stop it.\<close>

definition takes_cells :: "'w engine \<Rightarrow> nat \<Rightarrow> chat \<Rightarrow> int \<Rightarrow> chat \<Rightarrow> bool" where
  "takes_cells e n s r s' \<longleftrightarrow> (r = 0 \<longrightarrow> free_slots s' + n = free_slots s) \<and> (never_fails e \<and> n \<le> free_slots s \<longrightarrow> r = 0)"

lemma takes_cells_simps [simp]: "takes_cells e 0 s 0 s"
  by (simp add: takes_cells_def)

lemma takes_cells_add: "takes_cells e m s 0 s1 \<Longrightarrow> takes_cells e n s1 r s2 \<Longrightarrow> takes_cells e (m + n) s r s2"
  by (auto simp: takes_cells_def)

lemma takes_cells_stop: "takes_cells e m s r s1 \<Longrightarrow> r \<noteq> 0 \<Longrightarrow> m \<le> n \<Longrightarrow> r' \<noteq> 0 \<Longrightarrow> takes_cells e n s r' s1"
  by (auto simp: takes_cells_def)

lemma takes_cells_from: "takes_cells e n s1 r s2 \<Longrightarrow> free_slots s1 = free_slots s \<Longrightarrow> takes_cells e n s r s2"
  by (simp add: takes_cells_def)

lemma batch_clear_session:
  assumes "session V cap n s"
  shows "\<exists>s'. batch_clear s = Inr s' \<and> same_globals s s' \<and> session V cap n s' \<and> cleared s' \<and> (has_logits s \<longrightarrow> has_logits s') \<and> free_slots s' = free_slots s"
proof -
  obtain c b where s: "the_context s = Inr c" "the_batch s = Inr b" "ctx_ok c" "lc_n_vocab c = V" "batch_wf b" "sb_alloc b = cap"
    "0 < cap" "cap \<le> lc_n_batch c" "kv_positions (lc_memory c) 0 = {0..<n}" "0 \<le> n"
    using assms by (auto simp: session_def holding_def)
  let ?s = "store (g_batch s) (Batch_obj (common_batch_clear b)) s"
  have "batch_clear s = Inr ?s" by (simp add: batch_clear_def s(2))
  moreover have "session V cap n ?s" using s put_batch(1,2) [OF s(2)] by (auto simp: session_def holding_def)
  moreover have "cleared ?s" using put_batch(1) [OF s(2)] by (auto simp: cleared_def common_batch_clear_def)
  ultimately show ?thesis using put_batch [OF s(2)] by (auto simp: has_logits_def free_slots_def)
qed

text \<open>The memory of a plain context reports the last position of sequence 0.\<close>

lemma ctx_seq0:
  assumes "ctx_ok c"
  shows "cache_inv (lc_memory c)" "0 < length (kc_seq_to_stream (lc_memory c))" "ctx_n_seq_max c \<le> LLAMA_MAX_SEQ"
    "valid_seq (lc_memory c) 0"
proof -
  note o = ctx_okD [OF assms]
  show inv: "cache_inv (lc_memory c)" using o(1) by (simp add: plain_cache_def)
  show len: "0 < length (kc_seq_to_stream (lc_memory c))" using o(6,7) by linarith
  show "ctx_n_seq_max c \<le> LLAMA_MAX_SEQ" using o(7) inv by (simp add: cache_inv_def)
  show "valid_seq (lc_memory c) 0" using len by (simp add: valid_seq_def)
qed

lemma session_mem_last:
  assumes "ctx_ok c" "kv_positions (lc_memory c) 0 = {0..<n}" "0 \<le> n"
  shows "mem_last (Some (kv_memory (lc_memory c))) 0 = n - 1"
proof -
  have "Max {0..<n} = n - 1" if "0 < n" using that by (intro Max_eqI) auto
  then show ?thesis
    using kv.view_max [OF ctx_seq0(1,2) [OF assms(1)]] assms(2,3) by (cases "n = 0") (auto simp: mem_last_def)
qed

text \<open>A batch that continues the cache is accepted, one that does not is refused.\<close>

lemma continues_accepted:
  assumes "ctx_ok c" "filled_with b es n" "kv_positions (lc_memory c) 0 = {0..<n}" "length es \<le> lc_n_batch c"
    and "list_all (\<lambda>(t, _). 0 \<le> t \<and> t < int (lc_n_vocab c)) es" "n + int (length es) \<le> LLAMA_POS_MAX"
  obtains a where "accepts c (to_llama_batch b) a" "sequential (ba_batch a)"
    "ba_batch a = fill_batch (Some (kv_memory (lc_memory c))) False (to_llama_batch b)"
proof -
  note o = ctx_okD [OF assms(1)] and f = filled_withD [OF assms(2)] and fl = filled [OF assms(2)]
  have "mem_last (Some (kv_memory (lc_memory c))) 0 + 1 = n" using session_mem_last [OF assms(1,3) f(5)] by simp
  then obtain a where a: "ba_init (lc_n_vocab c) (Some (kv_memory (lc_memory c))) (lc_n_embd c) (ctx_n_seq_max c) False (to_llama_batch b) (lc_balloc c) = Inr (True, a)"
    using filled_init(1) [OF assms(2,5) o(6) ctx_seq0(3) [OF assms(1)] o(5)] by blast
  have ba: "ba_batch a = fill_batch (Some (kv_memory (lc_memory c))) False (to_llama_batch b)"
    by (rule accepted_state(2) [OF filled_rows [OF assms(2)] a])
  have "accepts c (to_llama_batch b) a"
    unfolding accepts_def ba using a o(8) filled_rows [OF assms(2)] assms(4) f(5)
    by (simp add: fl batch_ok_def) (simp add: to_llama_batch_def Let_def)
  moreover have "sequential (ba_batch a)"
    unfolding ba sequential_def using assms(6) by (simp add: fl)
  ultimately show ?thesis using ba by (rule that)
qed

lemma gap_refused:
  assumes "ctx_ok c" "filled_with b es p" "kv_positions (lc_memory c) 0 = {0..<n}" "0 < n" "p \<noteq> n"
    and "list_all (\<lambda>(t, _). 0 \<le> t \<and> t < int (lc_n_vocab c)) es"
  shows "\<exists>a. decode e (to_llama_batch b) c w = Inr (-1, c\<lparr>lc_balloc := a\<rparr>, w) \<and> ba_n_pos_per_embd a = 1"
proof -
  note o = ctx_okD [OF assms(1)] and f = filled_withD [OF assms(2)]
  have m: "0 \<le> mem_last (Some (kv_memory (lc_memory c))) 0" "mem_last (Some (kv_memory (lc_memory c))) 0 + 1 \<noteq> p"
    using session_mem_last [OF assms(1,3)] assms(4,5) by simp_all
  obtain a where a: "ba_init (lc_n_vocab c) (Some (kv_memory (lc_memory c))) (lc_n_embd c) (ctx_n_seq_max c) False (to_llama_batch b) (lc_balloc c) = Inr (False, a)"
    "ba_n_pos_per_embd a = 1"
    using filled_init(2) [OF assms(2,6) o(6) ctx_seq0(3) [OF assms(1)] o(5) m] by blast
  have "0 < bt_n_tokens (to_llama_batch b)" "bt_token (to_llama_batch b) \<noteq> None" "bt_embd (to_llama_batch b) = None"
    using f(2,3) by (simp_all add: to_llama_batch_def Let_def)
  then show ?thesis using a o(8) by (intro exI [of _ a]) (simp add: decode_def)
qed

text \<open>Changes of other variables.\<close>

lemma frame_session:
  assumes "g_heap s' = g_heap s" "g_context s' = g_context s" "g_batch s' = g_batch s"
  shows "deref p s' = deref p s" "the_context s' = the_context s" "the_batch s' = the_batch s"
    "holding V cap P s' = holding V cap P s" "session V cap n s' = session V cap n s" "has_logits s' = has_logits s" "cleared s' = cleared s" "free_slots s' = free_slots s"
proof -
  show d: "deref p s' = deref p s" for p unfolding deref_def assms(1) ..
  show c: "the_context s' = the_context s" "the_batch s' = the_batch s"
    unfolding the_context_def the_batch_def d assms(2,3) by (rule refl)+
  show "holding V cap P s' = holding V cap P s" "has_logits s' = has_logits s" "cleared s' = cleared s" "free_slots s' = free_slots s"
    unfolding holding_def has_logits_def cleared_def free_slots_def c by (rule refl)+
  then show "session V cap n s' = session V cap n s" by (simp add: session_def holding_def c)
qed

section \<open>One step of a session\<close>

definition valid_token :: "nat \<Rightarrow> llama_token \<Rightarrow> bool" where
  "valid_token V t \<longleftrightarrow> 0 \<le> t \<and> t < int V"

text \<open>
  What the bridge relies on: the tokenizer and the sampler return tokens of the vocabulary, and
  the graph returns one row per output.
\<close>

definition native_ok :: "nat \<Rightarrow> 'w native \<Rightarrow> bool" where
  "native_ok V nv \<longleftrightarrow> computes_rows (nv_engine nv) \<and> (\<forall>str a p. list_all (valid_token V) (nv_tokenize nv str a p)) \<and>
     (\<forall>l w. valid_token V (fst (nv_sample nv l w)))"

lemma native_ok_mono: "native_ok V nv \<Longrightarrow> V \<le> V' \<Longrightarrow> native_ok V' nv"
proof -
  assume nv: "native_ok V nv" "V \<le> V'"
  then have "valid_token V t \<Longrightarrow> valid_token V' t" for t by (simp add: valid_token_def)
  then show ?thesis using nv(1) unfolding native_ok_def list_all_iff by blast
qed

lemma filled_prefix:
  assumes "filled_with b es p" "j \<le> length es"
  shows "prefix_positions (fill_batch mem False (to_llama_batch b)) j 0 = {p..<p + int j}"
proof -
  let ?b = "fill_batch mem False (to_llama_batch b)"
  have "prefix_positions ?b j 0 = (!) (b_pos ?b) ` {i. i < j \<and> 0 \<in> set (b_ids ?b i)}"
    by (auto simp: prefix_positions_def)
  also have "\<dots> = (\<lambda>k. p + int k) ` {..<j}" by (rule image_cong) (use assms(2) in \<open>auto simp: filled [OF assms(1)]\<close>)
  finally have "prefix_positions ?b j 0 = (\<lambda>k. p + int k) ` {..<j}" .
  moreover have "q \<in> (\<lambda>k. p + int k) ` {..<j}" if "q \<in> {p..<p + int j}" for q
    using that by (intro image_eqI [of _ _ "nat (q - p)"]) auto
  ultimately show ?thesis by auto
qed

lemma batch_add_filled:
  assumes "holding V cap P s" "cleared s" "es \<noteq> []" "length es \<le> cap" "consecutive p es" "0 \<le> p"
  obtains b s1 where "batch_add es s = Inr s1" "same_globals s s1" "the_batch s1 = Inr b" "filled_with b es p" "batch_wf b" "sb_alloc b = cap"
    "the_context s1 = the_context s" "holding V cap P s1"
proof -
  obtain c b where s: "the_context s = Inr c" "the_batch s = Inr b" "batch_wf b" "sb_alloc b = cap"
    using assms(1) by (auto simp: holding_def)
  have b: "sb_n_tokens b = 0" using assms(2) s(2) by (auto simp: cleared_def)
  then obtain b' where b': "add_entries es b = Inr b'" "batch_wf b'" "sb_alloc b' = cap" "sb_n_tokens b' = length es"
    "batch_entries b' = map entry es"
    using add_entries_ok [OF s(3), of es] s(4) assms(4) by (auto simp: batch_entries_def)
  let ?s = "store (g_batch s) (Batch_obj b') s"
  have "filled_with b' es p" using b' assms(3,5,6) by (simp add: filled_with_def)
  moreover have "holding V cap P ?s" using assms(1) put_batch(1,2) [OF s(2)] b'(2,3) by (auto simp: holding_def)
  moreover have "batch_add es s = Inr ?s" by (simp add: batch_add_def s(2) b'(1))
  ultimately show ?thesis using put_batch [OF s(2)] b'(2,3) that by blast
qed

lemma decode_step:
  fixes nv :: "'w native"
  assumes "session V cap n s" "cleared s" "computes_rows (nv_engine nv)"
    and es: "es \<noteq> []" "length es \<le> cap" "consecutive n es" "list_all (\<lambda>(t, _). valid_token V t) es" "n + int (length es) \<le> LLAMA_POS_MAX"
  shows "\<exists>s1 r s2 w' j. batch_add es s = Inr s1 \<and> chat_decode nv s1 w = Inr (r, s2, w') \<and> same_globals s s2 \<and> r \<in> {0, 1, 2, -2, -3} \<and>
    j \<le> length es \<and> session V cap (n + int j) s2 \<and> (r = 0 \<longleftrightarrow> j = length es) \<and> (r = 0 \<and> snd (snd (last es)) \<longrightarrow> has_logits s2) \<and>
    takes_cells (nv_engine nv) (length es) s r s2"
proof -
  have h: "holding V cap {0..<n} s" "0 \<le> n" using assms(1) by (simp_all add: session_def)
  obtain b s1 where s1: "batch_add es s = Inr s1" "same_globals s s1" "the_batch s1 = Inr b" "filled_with b es n" "batch_wf b" "sb_alloc b = cap"
    "the_context s1 = the_context s" by (rule batch_add_filled [OF h(1) assms(2) es(1-3) h(2)])
  obtain c where c: "the_context s1 = Inr c" "ctx_ok c" "lc_n_vocab c = V" "0 < cap" "cap \<le> lc_n_batch c"
    "kv_positions (lc_memory c) 0 = {0..<n}"
    using h(1) s1(7) by (auto simp: holding_def)
  have "length es \<le> lc_n_batch c" "list_all (\<lambda>(t, _). 0 \<le> t \<and> t < int (lc_n_vocab c)) es"
    using es(2,4) c(3,5) by (simp_all add: valid_token_def)
  from continues_accepted [OF c(2) s1(4) c(6) this es(5)]
  obtain a where a: "accepts c (to_llama_batch b) a" "sequential (ba_batch a)"
    "ba_batch a = fill_batch (Some (kv_memory (lc_memory c))) False (to_llama_batch b)" by blast
  note fl = filled [OF s1(4)]
  obtain r c' w' j where d: "decode (nv_engine nv) (to_llama_batch b) c w = Inr (r, c', w')" "ctx_ok c'" "same_settings c c'"
    "decode_result c (to_llama_batch b) (ba_batch a) r c' j" "never_fails (nv_engine nv) \<longrightarrow> r \<in> {0, 1}"
    using decode_outcome [OF c(2) a(1,2) assms(3), of w] by blast
  have r: "r \<in> {0, 1, 2, -2, -3}" "j \<le> length es" "r = 0 \<longleftrightarrow> j = length es"
    using d(4) unfolding decode_result_def fl(5) by (blast, blast, metis less_irrefl)
  let ?s2 = "store (g_context s1) (Context_obj c') s1"
  note p = put_context [OF c(1), of c']
  have "kv_positions (lc_memory c') 0 = {0..<n} \<union> prefix_positions (ba_batch a) j 0"
    using d(4) ctx_seq0(2) [OF c(2)] c(6) by (simp add: decode_result_def holds_prefix_def)
  then have "kv_positions (lc_memory c') 0 = {0..<n + int j}"
    using filled_prefix [OF s1(4) r(2)] h(2) unfolding a(3) by auto
  then have "session V cap (n + int j) ?s2"
    using p(1,2) s1(3,5,6) d(2) same_settingsD [OF d(3)] c(3-5) h(2) by (simp add: session_def holding_def)
  moreover have "has_logits ?s2" if "r = 0" "snd (snd (last es))"
  proof -
    have o: "outputs_of (lc_out c') (filter (\<lambda>i. b_logits (ba_batch a) ! i) [0..<length es])"
      using d(4) that(1) by (simp add: decode_result_def fl)
    have "b_logits (ba_batch a) ! (length es - 1)" using that(2) es(1) unfolding a(3) by (simp add: fl last_conv_nth)
    then have "filter (\<lambda>i. b_logits (ba_batch a) ! i) [0..<length es] \<noteq> []" using es(1) by (auto simp: filter_empty_conv)
    then show ?thesis using o p(1) by (auto simp: has_logits_def outputs_of_def)
  qed
  moreover have "takes_cells (nv_engine nv) (length es) s r ?s2"
    using d(4,5) p(1) c(1) s1(7) by (auto simp: takes_cells_def free_slots_def decode_result_def fl)
  moreover have "chat_decode nv s1 w = Inr (r, ?s2, w')" by (simp add: chat_decode_def c(1) s1(3) d(1))
  ultimately show ?thesis using s1(1) same_globals_trans [OF s1(2) p(3)] r by blast
qed

lemma decode_gap:
  assumes "session V cap n s" "cleared s" "0 < n" "p \<noteq> n" "0 \<le> p"
    and es: "es \<noteq> []" "length es \<le> cap" "consecutive p es" "list_all (\<lambda>(t, _). valid_token V t) es"
  shows "\<exists>s1 s2. batch_add es s = Inr s1 \<and> chat_decode nv s1 w = Inr (-1, s2, w) \<and> same_globals s s2 \<and> session V cap n s2"
proof -
  have h: "holding V cap {0..<n} s" "0 \<le> n" using assms(1) by (simp_all add: session_def)
  obtain b s1 where s1: "batch_add es s = Inr s1" "same_globals s s1" "the_batch s1 = Inr b" "filled_with b es p" "batch_wf b" "sb_alloc b = cap"
    "the_context s1 = the_context s" by (rule batch_add_filled [OF h(1) assms(2) es(1-3) assms(5)])
  obtain c where c: "the_context s1 = Inr c" "ctx_ok c" "lc_n_vocab c = V" "0 < cap" "cap \<le> lc_n_batch c"
    "kv_positions (lc_memory c) 0 = {0..<n}"
    using h(1) s1(7) by (auto simp: holding_def)
  have "list_all (\<lambda>(t, _). 0 \<le> t \<and> t < int (lc_n_vocab c)) es" using es(4) c(3) by (simp add: valid_token_def)
  from gap_refused [OF c(2) s1(4) c(6) assms(3,4) this, of "nv_engine nv" w]
  obtain a where a: "decode (nv_engine nv) (to_llama_batch b) c w = Inr (-1, c\<lparr>lc_balloc := a\<rparr>, w)" "ba_n_pos_per_embd a = 1" by blast
  let ?s2 = "store (g_context s1) (Context_obj (c\<lparr>lc_balloc := a\<rparr>)) s1"
  note p = put_context [OF c(1), of "c\<lparr>lc_balloc := a\<rparr>"]
  have "ctx_ok (c\<lparr>lc_balloc := a\<rparr>)" using c(2) a(2) by (auto simp: ctx_ok_def ctx_n_seq_max_def)
  then have "session V cap n ?s2" using p(1,2) s1(3,5,6) c h(2) by (simp add: session_def holding_def)
  moreover have "chat_decode nv s1 w = Inr (-1, ?s2, w)" by (simp add: chat_decode_def c(1) s1(3) a(1))
  ultimately show ?thesis using s1(1) same_globals_trans [OF s1(2) p(3)] by blast
qed

lemma sample_step:
  assumes "holding V cap P s" "has_logits s" "deref (g_sampler s) s = Inr x" "native_ok V nv"
  shows "\<exists>t s' w'. sample_token nv s w = Inr (t, s', w') \<and> same_globals s s' \<and> holding V cap P s' \<and> valid_token V t"
proof -
  obtain c b where s: "the_context s = Inr c" "the_batch s = Inr b" "ctx_ok c" "lc_n_vocab c = V" "batch_wf b" "sb_alloc b = cap"
    "0 < cap" "cap \<le> lc_n_batch c" "kv_positions (lc_memory c) 0 = P"
    using assms(1) by (auto simp: holding_def)
  obtain l where l: "get_logits_ith (-1) (lc_out c) = (Some l, output_reorder (lc_out c))"
    using assms(2) s(1) by (auto simp: has_logits_def get_logits_ith_def Let_def split: sum.splits if_splits)
  let ?s = "store (g_context s) (Context_obj (c\<lparr>lc_out := output_reorder (lc_out c)\<rparr>)) s"
  note p = put_context [OF s(1), of "c\<lparr>lc_out := output_reorder (lc_out c)\<rparr>"]
  obtain t w1 where t: "nv_sample nv l w = (t, w1)" by (metis prod.collapse)
  have "ctx_ok (c\<lparr>lc_out := output_reorder (lc_out c)\<rparr>)" using s(3) by (auto simp: ctx_ok_def ctx_n_seq_max_def output_reorder_def)
  then have "holding V cap P ?s" using p(1,2) s by (simp add: holding_def)
  moreover have "valid_token V t" using assms(4) t by (metis native_ok_def fst_conv)
  moreover have "sample_token nv s w = Inr (t, ?s, nv_accept nv t w1)" by (simp add: sample_token_def assms(3) s(1) l t)
  ultimately show ?thesis using p(3) by blast
qed

section \<open>Shifting the context\<close>

lemma on_memory_holding:
  assumes "holding V cap P s"
    and "\<And>k. cache_inv k \<Longrightarrow> valid_seq k 0 \<Longrightarrow> kc_n_pos_per_embd k = 1 \<Longrightarrow> kv_positions k 0 = P \<Longrightarrow>
      \<exists>k'. f k = Inr k' \<and> cache_inv k' \<and> same_frame k k' \<and> kv_positions k' 0 = Q"
  shows "\<exists>s'. on_memory f s = Inr s' \<and> same_globals s s' \<and> holding V cap Q s' \<and> (has_logits s \<longrightarrow> has_logits s') \<and> the_batch s' = the_batch s"
proof -
  obtain c b where s: "the_context s = Inr c" "the_batch s = Inr b" "ctx_ok c" "lc_n_vocab c = V" "batch_wf b" "sb_alloc b = cap"
    "0 < cap" "cap \<le> lc_n_batch c" "kv_positions (lc_memory c) 0 = P"
    using assms(1) by (auto simp: holding_def)
  note o = ctx_okD [OF s(3)]
  obtain k where k: "f (lc_memory c) = Inr k" "cache_inv k" "same_frame (lc_memory c) k" "kv_positions k 0 = Q"
    using assms(2) [OF ctx_seq0(1,4) [OF s(3)] o(4) s(9)] by blast
  let ?c = "c\<lparr>lc_memory := k\<rparr>" let ?s = "store (g_context s) (Context_obj ?c) s"
  note fr = same_frameD [OF k(3)] and p = put_context [OF s(1), of ?c]
  have "ctx_ok ?c" using s(3) k(2) fr by (auto simp: ctx_ok_def ctx_n_seq_max_def plain_cache_def kv_get_can_shift_def)
  then have "holding V cap Q ?s" using p(1,2) s k(4) by (simp add: holding_def)
  moreover have "on_memory f s = Inr ?s" by (simp add: on_memory_def s(1) k(1))
  moreover have "has_logits s \<longrightarrow> has_logits ?s" using s(1) p(1) by (auto simp: has_logits_def)
  ultimately show ?thesis using p by blast
qed

lemma shift_session:
  assumes "session V cap n s" "current_position s = n" "0 \<le> system_prompt_position s" "system_prompt_position s \<le> n" "n \<le> LLAMA_POS_MAX"
  defines "d \<equiv> (n - system_prompt_position s) div 2"
  shows "\<exists>s'. shift_context s = Inr s' \<and> same_globals (s\<lparr>current_position := n - d\<rparr>) s' \<and> session V cap (n - d) s' \<and>
    (has_logits s \<longrightarrow> has_logits s') \<and> the_batch s' = the_batch s"
proof -
  let ?sys = "system_prompt_position s"
  have d: "(n - ?sys) sdiv 2 = d" "0 \<le> d" "?sys + d \<le> n"
    using assms(4) by (simp_all add: d_def signed_divide_int_def sgn_if)
  have h: "holding V cap {0..<n} s" using assms(1) by (simp add: session_def)
  have rm: "\<exists>k'. bind_outcome (kv_seq_rm 0 ?sys (?sys + d) k) (\<lambda>(_, k). Inr k) = Inr k' \<and> cache_inv k' \<and> same_frame k k' \<and>
      kv_positions k' 0 = {0..<n} - {?sys..<?sys + d}"
    if "cache_inv k" "valid_seq k 0" "kv_positions k 0 = {0..<n}" for k
    using seq_rm_spec [OF that(1,2), of ?sys "?sys + d"] assms(3) d(2) that(3) by (auto simp: lo_bound_def hi_bound_def)
  obtain s1 where s1: "on_memory (\<lambda>k. bind_outcome (kv_seq_rm 0 ?sys (?sys + d) k) (\<lambda>(_, k). Inr k)) s = Inr s1" "same_globals s s1"
    "holding V cap ({0..<n} - {?sys..<?sys + d}) s1" "has_logits s \<longrightarrow> has_logits s1" "the_batch s1 = the_batch s"
    using on_memory_holding [OF h, of "\<lambda>k. bind_outcome (kv_seq_rm 0 ?sys (?sys + d) k) (\<lambda>(_, k). Inr k)"] rm by blast
  have eq: "({0..<n} - {?sys..<?sys + d} - {?sys + d..<n}) \<union>
      {p + - d | p. p \<in> ({0..<n} - {?sys..<?sys + d}) \<inter> {?sys + d..<n} \<and> 0 \<le> p + - d} = {0..<n - d}"
  proof -
    have "{p + - d | p. p \<in> ({0..<n} - {?sys..<?sys + d}) \<inter> {?sys + d..<n} \<and> 0 \<le> p + - d} = {?sys..<n - d}"
    proof (intro equalityI subsetI)
      fix q assume "q \<in> {?sys..<n - d}"
      then show "q \<in> {p + - d | p. p \<in> ({0..<n} - {?sys..<?sys + d}) \<inter> {?sys + d..<n} \<and> 0 \<le> p + - d}"
        using assms(3) d(2) by (intro CollectI exI [of _ "q + d"]) auto
    qed (use d(2) in auto)
    moreover have "{0..<n} - {?sys..<?sys + d} - {?sys + d..<n} = {0..<?sys}" using assms(3,4) d(2,3) by auto
    ultimately show ?thesis using assms(3) d(3) by auto
  qed
  have add: "\<exists>k'. kv_seq_add 0 (?sys + d) n (- d) k = Inr k' \<and> cache_inv k' \<and> same_frame k k' \<and> kv_positions k' 0 = {0..<n - d}"
    if k: "cache_inv k" "valid_seq k 0" "kc_n_pos_per_embd k = 1" "kv_positions k 0 = {0..<n} - {?sys..<?sys + d}" for k
  proof -
    have b: "lo_bound (?sys + d) = ?sys + d" "hi_bound n = n" using assms(3,4) d(2) by (simp_all add: lo_bound_def hi_bound_def)
    show ?thesis using seq_add_spec [OF k(1-3), of "?sys + d" n "- d"] unfolding b k(4) nat_0 eq by blast
  qed
  obtain s2 where s2: "on_memory (kv_seq_add 0 (?sys + d) n (- d)) s1 = Inr s2" "same_globals s1 s2" "holding V cap {0..<n - d} s2"
    "has_logits s1 \<longrightarrow> has_logits s2" "the_batch s2 = the_batch s1"
    using on_memory_holding [OF s1(3), of "kv_seq_add 0 (?sys + d) n (- d)"] add by blast
  let ?s3 = "s2\<lparr>current_position := n - d\<rparr>"
  have "shift_context s = Inr ?s3"
    using s1(1) s2(1) assms(2) by (simp add: shift_context_def Let_def d(1))
  moreover have c: "the_context ?s3 = the_context s2" "the_batch ?s3 = the_batch s2" by (rule frame_session; simp)+
  moreover have "holding V cap {0..<n - d} ?s3" using s2(3) by (simp add: holding_def c)
  moreover have "same_globals (s\<lparr>current_position := n - d\<rparr>) ?s3"
    by (rule same_globals_position [OF same_globals_trans [OF s1(2) s2(2)]])
  moreover have "0 \<le> n - d" using d(3) assms(3) by simp
  moreover have "has_logits s \<longrightarrow> has_logits ?s3" using s1(4) s2(4) by (simp add: has_logits_def c)
  ultimately show ?thesis using s1(5) s2(5) by (auto simp: session_def)
qed

lemma shift_noop:
  assumes "holding V cap P s" "0 \<le> system_prompt_position s" "system_prompt_position s \<le> current_position s"
    "current_position s < system_prompt_position s + 2"
  shows "\<exists>s'. shift_context s = Inr s' \<and> same_globals s s' \<and> holding V cap P s' \<and> the_batch s' = the_batch s"
proof -
  let ?sys = "system_prompt_position s" and ?n = "current_position s"
  have d: "(?n - ?sys) sdiv 2 = 0"
  proof -
    have "?n - ?sys = 0 \<or> ?n - ?sys = 1" using assms(3,4) by linarith
    then show ?thesis by (elim disjE) (simp_all add: signed_divide_int_def)
  qed
  have rm: "\<exists>k'. bind_outcome (kv_seq_rm 0 ?sys ?sys k) (\<lambda>(_, k). Inr k) = Inr k' \<and> cache_inv k' \<and> same_frame k k' \<and> kv_positions k' 0 = P"
    if "cache_inv k" "valid_seq k 0" "kc_n_pos_per_embd k = 1" "kv_positions k 0 = P" for k
    using seq_rm_spec [OF that(1,2), of ?sys ?sys] assms(2) that(4) by (auto simp: lo_bound_def hi_bound_def)
  obtain s1 where s1: "on_memory (\<lambda>k. bind_outcome (kv_seq_rm 0 ?sys ?sys k) (\<lambda>(_, k). Inr k)) s = Inr s1" "same_globals s s1"
    "holding V cap P s1" "the_batch s1 = the_batch s"
    using on_memory_holding [OF assms(1) rm] by blast
  have add: "\<exists>k'. kv_seq_add 0 ?sys ?n 0 k = Inr k' \<and> cache_inv k' \<and> same_frame k k' \<and> kv_positions k' 0 = P"
    if "cache_inv k" "valid_seq k 0" "kc_n_pos_per_embd k = 1" "kv_positions k 0 = P" for k
    using that by (intro exI [of _ k]) (simp add: kv_seq_add_def)
  obtain s2 where s2: "on_memory (kv_seq_add 0 ?sys ?n 0) s1 = Inr s2" "same_globals s1 s2" "holding V cap P s2" "the_batch s2 = the_batch s1"
    using on_memory_holding [OF s1(3) add] by blast
  note g = same_globals_trans [OF s1(2) s2(2)]
  have "s2\<lparr>current_position := ?n\<rparr> = s2" using same_globalsD(1) [OF g] by (cases s2) simp
  then have "shift_context s = Inr s2" using s1(1) s2(1) by (simp add: shift_context_def Let_def d)
  then show ?thesis using g s2(3,4) s1(4) by auto
qed

section \<open>Decoding a prompt\<close>

text \<open>No batch of a prompt of length \<open>len\<close> from \<open>p\<close> on triggers a shift, or the shift has nothing to discard.\<close>

definition no_shift :: "llama_pos \<Rightarrow> nat \<Rightarrow> chat \<Rightarrow> bool" where
  "no_shift p len s \<longleftrightarrow> p + int len < DEFAULT_CONTEXT_SIZE - OVERFLOW_HEADROOM \<or>
     0 \<le> system_prompt_position s \<and> system_prompt_position s \<le> current_position s \<and> current_position s < system_prompt_position s + 2"

lemma prompt_entries:
  fixes tokens :: "llama_token list" and p :: llama_pos and lg :: bool
  assumes "list_all (valid_token V) tokens" "0 < cur" "i + cur \<le> length tokens"
  defines "es \<equiv> map (\<lambda>j. (tokens ! (i + j), p + int i + int j, lg \<and> i + j = length tokens - 1)) [0..<cur]"
  shows "es \<noteq> []" "length es = cur" "consecutive (p + int i) es" "list_all (\<lambda>(t, _). valid_token V t) es"
    "snd (snd (last es)) \<longleftrightarrow> lg \<and> i + cur = length tokens"
  using assms(1-3) by (auto simp: es_def consecutive_def list_all_length last_map)

lemma decode_batches_fits:
  fixes nv :: "'w native"
  assumes "computes_rows (nv_engine nv)" "list_all (valid_token V) tokens" "pos0 + int (length tokens) \<le> LLAMA_POS_MAX" "max 1 cap' \<le> cap"
    and "session V cap (pos0 + int i) s" "no_shift pos0 (length tokens) s"
  shows "\<exists>r s' w' j. decode_batches_loop nv tokens pos0 lg cap' i s w = Inr (r, s', w') \<and> same_globals s s' \<and> r \<in> {0, 1} \<and>
    j \<le> length tokens - i \<and> session V cap (pos0 + int i + int j) s' \<and> (r = 0 \<longleftrightarrow> j = length tokens - i) \<and>
    (r = 0 \<and> lg \<and> i < length tokens \<longrightarrow> has_logits s') \<and>
    (pos0 + int (length tokens) < DEFAULT_CONTEXT_SIZE - OVERFLOW_HEADROOM \<longrightarrow> takes_cells (nv_engine nv) (length tokens - i) s r s')"
  using assms(5,6)
proof (induction "length tokens - i" arbitrary: i s w rule: less_induct)
  case less
  show ?case
  proof (cases "i < length tokens")
    case False
    then have "decode_batches_loop nv tokens pos0 lg cap' i s w = Inr (0, s, w)" by (simp add: decode_batches_loop.simps)
    then show ?thesis using False less.prems(1) by (intro exI [of _ 0] exI [of _ s]) simp
  next
    case True
    define cur where "cur = min (length tokens - i) (max 1 cap')"
    have cur: "0 < cur" "i + cur \<le> length tokens" "cur \<le> cap" using True assms(4) by (auto simp: cur_def)
    let ?es = "map (\<lambda>j. (tokens ! (i + j), pos0 + int i + int j, lg \<and> i + j = length tokens - 1)) [0..<cur]"
    note es = prompt_entries [OF assms(2) cur(1,2), of pos0 lg]
    let ?few = "pos0 + int (length tokens) < DEFAULT_CONTEXT_SIZE - OVERFLOW_HEADROOM"
    obtain s1 where s1: "batch_clear s = Inr s1" "same_globals s s1" "session V cap (pos0 + int i) s1" "cleared s1" "free_slots s1 = free_slots s"
      using batch_clear_session [OF less.prems(1)] by blast
    have quiet: "no_shift pos0 (length tokens) s1" using less.prems(2) same_globalsD [OF s1(2)] by (simp add: no_shift_def)
    obtain s2 where s2: "(if pos0 + int i + int cur \<ge> DEFAULT_CONTEXT_SIZE - OVERFLOW_HEADROOM then shift_context s1 else Inr s1) = Inr s2"
      "same_globals s1 s2" "session V cap (pos0 + int i) s2" "cleared s2" "?few \<longrightarrow> free_slots s2 = free_slots s"
    proof (cases "pos0 + int i + int cur \<ge> DEFAULT_CONTEXT_SIZE - OVERFLOW_HEADROOM")
      case True
      then have "0 \<le> system_prompt_position s1" "system_prompt_position s1 \<le> current_position s1" "current_position s1 < system_prompt_position s1 + 2"
        using quiet cur(2) by (auto simp: no_shift_def)
      from shift_noop [OF _ this, of V cap "{0..<pos0 + int i}"] obtain s2 where "shift_context s1 = Inr s2" "same_globals s1 s2"
        "holding V cap {0..<pos0 + int i} s2" "the_batch s2 = the_batch s1" using s1(3) by (auto simp: session_def)
      moreover have "\<not> ?few" using True cur(2) by linarith
      ultimately show ?thesis using True s1(3,4) that by (simp add: session_def cleared_def)
    qed (use s1 that in simp)
    have "pos0 + int i + int (length ?es) \<le> LLAMA_POS_MAX" "length ?es \<le> cap" using cur assms(3) by simp_all
    from decode_step [OF s2(3,4) assms(1) es(1) this(2) es(3,4) this(1), of w]
    obtain s3 r s4 w1 j where st: "batch_add ?es s2 = Inr s3" "chat_decode nv s3 w = Inr (r, s4, w1)" "same_globals s2 s4"
      "j \<le> cur" "session V cap (pos0 + int i + int j) s4" "r = 0 \<longleftrightarrow> j = cur" "r = 0 \<and> snd (snd (last ?es)) \<longrightarrow> has_logits s4"
      "takes_cells (nv_engine nv) cur s2 r s4"
      unfolding es(2) by blast
    have cells: "takes_cells (nv_engine nv) cur s r s4" if ?few using takes_cells_from [OF st(8)] s2(5) that by simp
    note g = same_globals_trans [OF s1(2) same_globals_trans [OF s2(2) st(3)]]
    have loop: "decode_batches_loop nv tokens pos0 lg cap' i s w = (if r \<noteq> 0 then Inr (1, s4, w1)
        else decode_batches_loop nv tokens pos0 lg cap' (i + max 1 cap') s4 w1)"
      unfolding decode_batches_loop.simps [of nv tokens pos0 lg cap' i s w]
      by (simp only: True if_True Let_def cur_def [symmetric] s1(1) bind_outcome_simps s2(1) st(1,2) prod.case)
    show ?thesis
    proof (cases "r = 0")
      case False
      then have "j < length tokens - i" using st(4,6) cur(2) by auto
      moreover have "takes_cells (nv_engine nv) (length tokens - i) s 1 s4" if ?few
        using takes_cells_stop [OF cells [OF that] False] cur(1,2) by simp
      ultimately show ?thesis using False loop g st(5) by (intro exI [of _ 1] exI [of _ s4] exI [of _ w1] exI [of _ j]) simp
    next
      case r: True
      then have j: "j = cur" using st(6) by simp
      show ?thesis
      proof (cases "i + max 1 cap' \<le> length tokens")
        case True
        then have c: "cur = max 1 cap'" by (auto simp: cur_def)
        have q: "no_shift pos0 (length tokens) s4" using less.prems(2) same_globalsD [OF g] by (simp add: no_shift_def)
        have ses: "session V cap (pos0 + int (i + max 1 cap')) s4" using st(5) j c by (simp add: add.assoc)
        have dec: "length tokens - (i + max 1 cap') < length tokens - i" using \<open>i < length tokens\<close> by simp
        from less.hyps [OF dec ses q, of w1] obtain r' s' w' j' where IH:
          "decode_batches_loop nv tokens pos0 lg cap' (i + max 1 cap') s4 w1 = Inr (r', s', w')" "same_globals s4 s'" "r' \<in> {0, 1}"
          "j' \<le> length tokens - (i + max 1 cap')" "session V cap (pos0 + int (i + max 1 cap') + int j') s'"
          "r' = 0 \<longleftrightarrow> j' = length tokens - (i + max 1 cap')" "r' = 0 \<and> lg \<and> i + max 1 cap' < length tokens \<longrightarrow> has_logits s'"
          "?few \<longrightarrow> takes_cells (nv_engine nv) (length tokens - (i + max 1 cap')) s4 r' s'"
          by blast
        have "takes_cells (nv_engine nv) (length tokens - i) s r' s'" if ?few
        proof -
          have "cur + (length tokens - (i + max 1 cap')) = length tokens - i" using True c by linarith
          then show ?thesis using takes_cells_add [OF _ IH(8) [rule_format, OF that]] cells [OF that] r by metis
        qed
        note total = this
        have "has_logits s'" if "r' = 0" "lg"
        proof (cases "i + max 1 cap' < length tokens")
          case False
          then have e: "i + cur = length tokens" using True c by simp
          then have "decode_batches_loop nv tokens pos0 lg cap' (i + max 1 cap') s4 w1 = Inr (0, s4, w1)"
            using c by (simp add: decode_batches_loop.simps)
          then show ?thesis using IH(1) st(7) r e that(2) es(5) by simp
        qed (use IH(7) that in simp)
        then show ?thesis
          using total loop r IH(1-7) same_globals_trans [OF g IH(2)] True c
          by (intro exI [of _ r'] exI [of _ s'] exI [of _ w'] exI [of _ "max 1 cap' + j'"]) (auto simp: add.assoc)
      next
        case False
        then have e: "i + cur = length tokens" using \<open>i < length tokens\<close> by (auto simp: cur_def)
        have "decode_batches_loop nv tokens pos0 lg cap' (i + max 1 cap') s4 w1 = Inr (0, s4, w1)"
          using False by (simp add: decode_batches_loop.simps)
        moreover have "length tokens - i = cur" using e by simp
        ultimately show ?thesis
          using cells loop r g st(5,7) j e es(5) by (intro exI [of _ 0] exI [of _ s4] exI [of _ w1] exI [of _ cur]) auto
      qed
    qed
  qed
qed

section \<open>Generating tokens\<close>

definition resources :: "chat \<Rightarrow> bool" where
  "resources s \<longleftrightarrow> (\<exists>x y z. deref (g_sampler s) s = Inr x \<and> deref (g_model s) s = Inr y \<and> deref (g_chat_templates s) s = Inr z)"

lemma resources_same:
  assumes "same_globals s s'" "resources s"
  shows "resources s'"
proof -
  note g = same_globalsD [OF assms(1)]
  obtain x y z where "deref (g_sampler s) s = Inr x" "deref (g_model s) s = Inr y" "deref (g_chat_templates s) s = Inr z"
    using assms(2) unfolding resources_def by blast
  note this [THEN deref_same_globals [OF assms(1)]]
  then show ?thesis unfolding resources_def g by blast
qed

lemma resources_frame:
  assumes "g_heap s' = g_heap s" "g_sampler s' = g_sampler s" "g_model s' = g_model s" "g_chat_templates s' = g_chat_templates s"
  shows "resources s' = resources s"
proof -
  have "deref p s' = deref p s" for p unfolding deref_def assms(1) ..
  then show ?thesis unfolding resources_def assms by simp
qed

text \<open>
  The state between two calls of the conversation: the cache holds exactly the positions below
  the current one. The bounds leave room for a prompt that fills the context to its last usable position.
\<close>

definition chat_ready :: "nat \<Rightarrow> nat \<Rightarrow> chat \<Rightarrow> bool" where
  "chat_ready V cap s \<longleftrightarrow> session V cap (current_position s) s \<and> resources s \<and>
     0 \<le> system_prompt_position s \<and> system_prompt_position s \<le> current_position s \<and>
     system_prompt_position s \<le> DEFAULT_CONTEXT_SIZE - OVERFLOW_HEADROOM \<and> current_position s \<le> DEFAULT_CONTEXT_SIZE - 2 \<and>
     max 1 (g_runtime_batch_capacity s) \<le> int cap"

lemma chat_ready_same:
  "chat_ready V cap s \<Longrightarrow> same_globals s s' \<Longrightarrow> session V cap (current_position s) s' \<Longrightarrow> chat_ready V cap s'"
  using resources_same by (auto simp: chat_ready_def same_globalsD)

text \<open>A state that differs in other variables only.\<close>

lemma chat_ready_frame:
  assumes "session V cap n s" "resources s" "g_heap s' = g_heap s" "g_context s' = g_context s" "g_batch s' = g_batch s"
    and "g_sampler s' = g_sampler s" "g_model s' = g_model s" "g_chat_templates s' = g_chat_templates s"
    and "current_position s' = n" "0 \<le> system_prompt_position s'" "system_prompt_position s' \<le> n"
    "system_prompt_position s' \<le> DEFAULT_CONTEXT_SIZE - OVERFLOW_HEADROOM" "n \<le> DEFAULT_CONTEXT_SIZE - 2"
    and "max 1 (g_runtime_batch_capacity s') \<le> int cap"
  shows "chat_ready V cap s'"
  using assms(1,2,9-14) frame_session(5) [OF assms(3-5)] resources_frame [OF assms(3,6-8)] by (simp add: chat_ready_def)

lemmas context_bounds = DEFAULT_CONTEXT_SIZE_def OVERFLOW_HEADROOM_def LLAMA_POS_MAX_def

text \<open>The shift at the start of a step keeps the state in order and makes room.\<close>

definition shifted :: "chat \<Rightarrow> llama_pos" where
  "shifted s = (if current_position s \<ge> DEFAULT_CONTEXT_SIZE - OVERFLOW_HEADROOM
     then current_position s - (current_position s - system_prompt_position s) div 2 else current_position s)"

lemma make_room:
  assumes "chat_ready V cap s"
  shows "\<exists>s'. (if current_position s \<ge> DEFAULT_CONTEXT_SIZE - OVERFLOW_HEADROOM then shift_context s else Inr s) = Inr s' \<and>
    same_globals (s\<lparr>current_position := shifted s\<rparr>) s' \<and> chat_ready V cap s' \<and> current_position s' = shifted s \<and>
    shifted s + 1 \<le> DEFAULT_CONTEXT_SIZE - 2 \<and> (has_logits s \<longrightarrow> has_logits s')"
proof (cases "current_position s \<ge> DEFAULT_CONTEXT_SIZE - OVERFLOW_HEADROOM")
  case False
  have "s\<lparr>current_position := current_position s\<rparr> = s" by simp
  then show ?thesis using False assms by (auto simp: shifted_def context_bounds)
next
  case True
  note c = assms [unfolded chat_ready_def]
  have le: "current_position s \<le> LLAMA_POS_MAX" using c by (simp add: context_bounds)
  obtain s' where s': "shift_context s = Inr s'" "same_globals (s\<lparr>current_position := shifted s\<rparr>) s'" "session V cap (shifted s) s'"
    "has_logits s \<longrightarrow> has_logits s'"
    using shift_session [of V cap "current_position s" s] c le True by (auto simp: shifted_def)
  have pos: "current_position s' = shifted s" "system_prompt_position s' = system_prompt_position s"
    "g_runtime_batch_capacity s' = g_runtime_batch_capacity s"
    using same_globalsD [OF s'(2)] by simp_all
  have "resources (s\<lparr>current_position := shifted s\<rparr>)" using c resources_frame [of "s\<lparr>current_position := shifted s\<rparr>" s] by simp
  then have "resources s'" using resources_same [OF s'(2)] by simp
  moreover have "system_prompt_position s \<le> shifted s" "shifted s + 1 \<le> DEFAULT_CONTEXT_SIZE - 2"
    using c True by (auto simp: shifted_def context_bounds)
  ultimately have "chat_ready V cap s'" using c pos s'(3) by (simp add: chat_ready_def)
  then show ?thesis using True s' pos \<open>shifted s + 1 \<le> _\<close> by simp
qed

end
