(* ===== verification/Conversation.thy ===== *)
theory Conversation
  imports Ai_Chat
begin

text \<open>
  What the calls of a conversation achieve: a system prompt, user prompts, and the generation of an
  answer token by token, as \<open>InferenceEngineImpl.kt\<close> makes them.
\<close>

section \<open>Generating\<close>

text \<open>The outcome of one call: the text returned, and the token that was decoded for it.\<close>

definition emitted :: "'w native \<Rightarrow> chat \<Rightarrow> llama_token \<Rightarrow> string \<Rightarrow> chat \<Rightarrow> bool" where
  "emitted nv s t out s' \<longleftrightarrow> (let cached = cached_token_chars s @ nv_piece nv t in
     if is_valid_utf8 (map of_char cached)
     then out = c_str cached \<and> cached_token_chars s' = [] \<and> assistant_ss s' = assistant_ss s @ cached
     else out = [] \<and> cached_token_chars s' = cached \<and> assistant_ss s' = assistant_ss s)"

lemma generate_step:
  fixes nv :: "'w native"
  assumes "native_ok V nv" "chat_ready V cap s" "has_logits s"
  shows "\<exists>r s' w'. generateNextToken nv s w = Inr (r, s', w') \<and> chat_ready V cap s' \<and>
    stop_generation_position s' = stop_generation_position s \<and> system_prompt_position s' = system_prompt_position s \<and>
    (shifted s \<ge> stop_generation_position s \<longrightarrow> r = None) \<and> (r = None \<longrightarrow> cached_token_chars s' = cached_token_chars s) \<and>
    (\<forall>out. r = Some out \<longrightarrow> has_logits s' \<and> current_position s' = shifted s + 1 \<and> shifted s < stop_generation_position s \<and>
      (\<exists>t. valid_token V t \<and> \<not> nv_is_eog nv t \<and> emitted nv s t out s'))"
proof -
  have rows: "computes_rows (nv_engine nv)" using assms(1) by (simp add: native_ok_def)
  obtain s1 where s1: "(if current_position s \<ge> DEFAULT_CONTEXT_SIZE - OVERFLOW_HEADROOM then shift_context s else Inr s) = Inr s1"
    "same_globals (s\<lparr>current_position := shifted s\<rparr>) s1" "chat_ready V cap s1" "current_position s1 = shifted s"
    "shifted s + 1 \<le> DEFAULT_CONTEXT_SIZE - 2" "has_logits s1"
    using make_room [OF assms(2)] assms(3) by blast
  note g1 = same_globalsD [OF s1(2), simplified]
  show ?thesis
  proof (cases "shifted s \<ge> stop_generation_position s")
    case True
    then have "generateNextToken nv s w = Inr (None, s1, w)" unfolding generateNextToken_def s1(1) using s1(4) g1 by simp
    then show ?thesis using s1(3) g1 True by auto
  next
    case False
    note c1 = s1(3) [unfolded chat_ready_def]
    obtain x where "deref (g_sampler s1) s1 = Inr x" using c1 by (auto simp: resources_def)
    then obtain t s2 w2 where s2: "sample_token nv s1 w = Inr (t, s2, w2)" "same_globals s1 s2" "session V cap (shifted s) s2" "valid_token V t"
      using sample_step [OF _ s1(6) _ assms(1), of cap "{0..<shifted s}" x w] c1 s1(4) by (auto simp: session_def)
    obtain s3 where s3: "batch_clear s2 = Inr s3" "same_globals s2 s3" "session V cap (shifted s) s3" "cleared s3"
      using batch_clear_session [OF s2(3)] by blast
    have p3: "current_position s3 = shifted s" using same_globalsD [OF s3(2)] same_globalsD [OF s2(2)] s1(4) by simp
    let ?es = "[(t, current_position s3, True)]"
    have es: "?es \<noteq> []" "length ?es \<le> cap" "consecutive (shifted s) ?es" "list_all (\<lambda>(t, _). valid_token V t) ?es"
      "shifted s + int (length ?es) \<le> LLAMA_POS_MAX"
      using s2(4) p3 c1 s1(5) by (simp_all add: consecutive_def context_bounds)
    from decode_step [OF s3(3,4) rows es, of w2]
    obtain s4 r s5 w5 j where s5': "batch_add ?es s3 = Inr s4" "chat_decode nv s4 w2 = Inr (r, s5, w5)" "same_globals s3 s5"
      "j \<le> length ?es" "session V cap (shifted s + int j) s5" "r = 0 \<longleftrightarrow> j = length ?es" "r = 0 \<and> snd (snd (last ?es)) \<longrightarrow> has_logits s5"
      by blast
    note s5 = s5'(1-3) s5'(4) [simplified] s5'(5) s5'(6,7) [simplified]
    note g5 = same_globals_trans [OF s2(2) same_globals_trans [OF s3(2) s5(3)]]
    note d5 = same_globalsD [OF g5]
    show ?thesis
    proof (cases "r = 0")
      case r: False
      then have "j = 0" using s5(4,6) by auto
      then have "chat_ready V cap s5" using chat_ready_same [OF s1(3) g5] s5(5) s1(4) by simp
      moreover have "generateNextToken nv s w = Inr (None, s5, w5)"
        unfolding generateNextToken_def s1(1) using False s1(4) g1 r s2(1) s3(1) s5(1,2) by simp
      ultimately show ?thesis using d5 g1 by auto
    next
      case r: True
      let ?s6 = "s5\<lparr>current_position := current_position s5 + 1\<rparr>"
      have p6: "current_position ?s6 = shifted s + 1" using d5 s1(4) by simp
      have "resources s5" using resources_same [OF g5] c1 by simp
      have ses: "session V cap (shifted s + 1) s5" "has_logits s5" using s5(5-7) r by simp_all
      have bounds: "0 \<le> system_prompt_position s5" "system_prompt_position s5 \<le> shifted s + 1"
        "system_prompt_position s5 \<le> DEFAULT_CONTEXT_SIZE - OVERFLOW_HEADROOM" "max 1 (g_runtime_batch_capacity s5) \<le> int cap"
        using c1 s1(4) d5 by simp_all
      obtain y z where yz: "deref (g_model ?s6) ?s6 = Inr y" "deref (g_chat_templates ?s6) ?s6 = Inr z"
        using \<open>resources s5\<close> resources_frame [of ?s6 s5] by (auto simp: resources_def)
      have gen: "generateNextToken nv s w = (if nv_is_eog nv t
          then bind_outcome (chat_add_and_format nv ''assistant'' (assistant_ss ?s6) ?s6 w5) (\<lambda>(_, s, w). Inr (None, s, w))
          else let (str, s) = emit_chars (nv_piece nv t) ?s6 in Inr (Some str, s, w5))"
        unfolding generateNextToken_def s1(1) using False s1(4) g1 r s2(1) s3(1) s5(1,2) yz(1) by (simp add: Let_def)
      show ?thesis
      proof (cases "nv_is_eog nv t")
        case True
        obtain str w6 where f: "nv_format nv (chat_msgs ?s6) (''assistant'', assistant_ss ?s6) False w5 = (str, w6)" by (metis prod.collapse)
        let ?s7 = "?s6\<lparr>chat_msgs := chat_msgs ?s6 @ [(''assistant'', assistant_ss ?s6)]\<rparr>"
        have "generateNextToken nv s w = Inr (None, ?s7, w6)"
          unfolding gen using True f yz(2) by (simp add: chat_add_and_format_def)
        moreover have "chat_ready V cap ?s7"
          by (rule chat_ready_frame [OF ses(1) \<open>resources s5\<close>]) (use bounds p6 s1(5) in simp_all)
        ultimately show ?thesis using d5 g1 by auto
      next
        case not_eog: False
        obtain out s7 where e: "emit_chars (nv_piece nv t) ?s6 = (out, s7)" by (metis prod.collapse)
        have s7: "\<exists>a cc. s7 = ?s6\<lparr>assistant_ss := a, cached_token_chars := cc\<rparr>"
          using e unfolding emit_chars_def Let_def by (cases s5) (auto split: if_splits)
        then obtain a cc where s7: "s7 = ?s6\<lparr>assistant_ss := a, cached_token_chars := cc\<rparr>" by blast
        have "chat_ready V cap s7"
          unfolding s7 by (rule chat_ready_frame [OF ses(1) \<open>resources s5\<close>]) (use bounds p6 s1(5) in simp_all)
        moreover have "has_logits s7" unfolding s7 using ses(2) frame_session(6) [of "?s6\<lparr>assistant_ss := a, cached_token_chars := cc\<rparr>" s5] by simp
        moreover have "emitted nv s t out s7"
          using e d5 g1 by (auto simp: emitted_def emit_chars_def Let_def split: if_splits)
        moreover have "generateNextToken nv s w = Inr (Some out, s7, w5)" unfolding gen using not_eog e by simp
        moreover have "stop_generation_position s7 = stop_generation_position s" "system_prompt_position s7 = system_prompt_position s"
          "current_position s7 = shifted s + 1" using d5 g1 p6 by (simp_all add: s7)
        ultimately show ?thesis using s2(4) not_eog False by auto
      qed
    qed
  qed
qed

text \<open>
  The caller's loop: \<open>generateNextToken\<close> until it returns null, at most \<open>n\<close> times. The result
  tells whether null was returned, and the texts before it.
\<close>

fun generate_all :: "'w native \<Rightarrow> nat \<Rightarrow> chat \<Rightarrow> 'w \<Rightarrow> (bool \<times> string list \<times> chat \<times> 'w) outcome" where
  "generate_all nv 0 s w = Inr (False, [], s, w)"
| "generate_all nv (Suc n) s w = bind_outcome (generateNextToken nv s w) (\<lambda>(r, s, w). case r of
     None \<Rightarrow> Inr (True, [], s, w)
   | Some out \<Rightarrow> bind_outcome (generate_all nv n s w) (\<lambda>(fin, outs, s, w). Inr (fin, out # outs, s, w)))"

definition no_zero :: "string \<Rightarrow> bool" where
  "no_zero cs \<longleftrightarrow> list_all (\<lambda>ch. ch \<noteq> CHR 0x00) cs"

lemma c_str_no_zero: "no_zero cs \<Longrightarrow> c_str cs = cs"
  by (simp add: c_str_def no_zero_def list_all_iff)

lemma emitted_text:
  assumes "emitted nv s t out s'" "no_zero (cached_token_chars s)" "no_zero (nv_piece nv t)"
  shows "out @ cached_token_chars s' = cached_token_chars s @ nv_piece nv t" "no_zero (cached_token_chars s')"
    "is_valid_utf8 (map of_char out)"
proof -
  have "no_zero (cached_token_chars s @ nv_piece nv t)" using assms(2,3) by (simp add: no_zero_def)
  note c = c_str_no_zero [OF this] this
  show "out @ cached_token_chars s' = cached_token_chars s @ nv_piece nv t" "no_zero (cached_token_chars s')"
    "is_valid_utf8 (map of_char out)"
    using assms(1) c by (auto simp: emitted_def Let_def no_zero_def split: if_splits)
qed

lemma generate_all_text:
  fixes nv :: "'w native"
  assumes "native_ok V nv" "\<forall>t. no_zero (nv_piece nv t)"
    and "chat_ready V cap s" "has_logits s" "no_zero (cached_token_chars s)"
    and "stop_generation_position s < DEFAULT_CONTEXT_SIZE - OVERFLOW_HEADROOM" "current_position s < DEFAULT_CONTEXT_SIZE - OVERFLOW_HEADROOM"
    and "k = nat (stop_generation_position s - current_position s)"
  shows "\<exists>outs s' w' ts. generate_all nv (Suc k) s w = Inr (True, outs, s', w') \<and> chat_ready V cap s' \<and>
    length outs \<le> k \<and> length ts = length outs \<and> list_all (\<lambda>t. valid_token V t \<and> \<not> nv_is_eog nv t) ts \<and>
    concat outs @ cached_token_chars s' = cached_token_chars s @ concat (map (nv_piece nv) ts) \<and>
    list_all (\<lambda>out. is_valid_utf8 (map of_char out)) outs"
  using assms(3-8)
proof (induction k arbitrary: s w)
  case 0
  then have "shifted s \<ge> stop_generation_position s" by (simp add: shifted_def)
  then obtain s' w' where "generateNextToken nv s w = Inr (None, s', w')" "chat_ready V cap s'" "cached_token_chars s' = cached_token_chars s"
    using generate_step [OF assms(1) 0(1,2), of w] by blast
  then show ?case by (intro exI [of _ "[]"] exI [of _ s'] exI [of _ w']) simp
next
  case (Suc k)
  have sh: "shifted s = current_position s" using Suc.prems(5) by (simp add: shifted_def)
  obtain r s1 w1 where g: "generateNextToken nv s w = Inr (r, s1, w1)" "chat_ready V cap s1"
    "stop_generation_position s1 = stop_generation_position s" "r = None \<longrightarrow> cached_token_chars s1 = cached_token_chars s"
    "\<And>out. r = Some out \<Longrightarrow> has_logits s1 \<and> current_position s1 = shifted s + 1 \<and> shifted s < stop_generation_position s \<and>
      (\<exists>t. valid_token V t \<and> \<not> nv_is_eog nv t \<and> emitted nv s t out s1)"
    using generate_step [OF assms(1) Suc.prems(1,2), of w] by blast
  show ?case
  proof (cases r)
    case None
    then show ?thesis using g by (intro exI [of _ "[]"] exI [of _ s1] exI [of _ w1]) simp
  next
    case (Some out)
    from g(5) [OF Some] obtain t where t: "has_logits s1" "current_position s1 = current_position s + 1" "current_position s < stop_generation_position s"
      "valid_token V t" "\<not> nv_is_eog nv t" "emitted nv s t out s1" unfolding sh by blast
    note e = emitted_text [OF t(6) Suc.prems(3) assms(2) [rule_format]]
    have "stop_generation_position s1 < DEFAULT_CONTEXT_SIZE - OVERFLOW_HEADROOM" "current_position s1 < DEFAULT_CONTEXT_SIZE - OVERFLOW_HEADROOM"
      "k = nat (stop_generation_position s1 - current_position s1)"
      using Suc.prems(4,6) t(2,3) g(3) by auto
    from Suc.IH [OF g(2) t(1) e(2) this, of w1]
    obtain outs s' w' ts where IH: "generate_all nv (Suc k) s1 w1 = Inr (True, outs, s', w')" "chat_ready V cap s'" "length outs \<le> k" "length ts = length outs"
      "list_all (\<lambda>t. valid_token V t \<and> \<not> nv_is_eog nv t) ts"
      "concat outs @ cached_token_chars s' = cached_token_chars s1 @ concat (map (nv_piece nv) ts)"
      "list_all (\<lambda>out. is_valid_utf8 (map of_char out)) outs" by blast
    have "generate_all nv (Suc (Suc k)) s w = Inr (True, out # outs, s', w')" using g(1) Some IH(1) by (simp del: generate_all.simps add: generate_all.simps(2) [of nv "Suc k" s w])
    moreover have "concat (out # outs) @ cached_token_chars s' = cached_token_chars s @ concat (map (nv_piece nv) (t # ts))"
      using IH(6) e(1) by simp
    ultimately show ?thesis
      using IH(2-5,7) t(4,5) e(3) by (intro exI [of _ "out # outs"] exI [of _ s'] exI [of _ w'] exI [of _ "t # ts"]) simp
  qed
qed


section \<open>Prompts\<close>

text \<open>An engine that is loaded and has a batch; nothing is known of the positions.\<close>

definition usable :: "nat \<Rightarrow> nat \<Rightarrow> chat \<Rightarrow> bool" where
  "usable V cap s \<longleftrightarrow> (\<exists>P. holding V cap P s) \<and> resources s \<and> max 1 (g_runtime_batch_capacity s) \<le> int cap"

lemma chat_ready_usable: "chat_ready V cap s \<Longrightarrow> usable V cap s"
  by (auto simp: chat_ready_def usable_def session_def)

lemma reset_session:
  assumes "holding V cap P s"
  shows "\<exists>s'. reset_long_term_states s = Inr s' \<and> session V cap 0 s' \<and>
    same_globals (s\<lparr>chat_msgs := [], system_prompt_position := 0, current_position := 0\<rparr>) s'"
proof -
  let ?s = "s\<lparr>chat_msgs := [], system_prompt_position := 0, current_position := 0\<rparr>"
  have h: "holding V cap P ?s" using assms frame_session(4) [of ?s s] by simp
  have "\<exists>k'. Inr (kv_clear k) = (Inr k' :: kv_cache outcome) \<and> cache_inv k' \<and> same_frame k k' \<and> kv_positions k' 0 = {}"
    if "cache_inv k" "valid_seq k 0" for k
    using kv_clear_spec [OF that(1)] that(2) by (auto simp: valid_seq_def)
  then obtain s' where "on_memory (\<lambda>k. Inr (kv_clear k)) ?s = Inr s'" "same_globals ?s s'" "holding V cap {} s'"
    using on_memory_holding [OF h, of "\<lambda>k. Inr (kv_clear k)" "{}"] by blast
  then show ?thesis by (simp add: reset_long_term_states_def session_def)
qed

lemma format_prompt_ok:
  assumes "resources s"
  shows "format_prompt nv role raw s w = Inr (fst (nv_format nv (chat_msgs s) (role, raw) (role = ''user'') w),
      s\<lparr>chat_msgs := chat_msgs s @ [(role, raw)]\<rparr>, snd (nv_format nv (chat_msgs s) (role, raw) (role = ''user'') w))"
    and "g_chat_templates s \<noteq> None"
proof -
  obtain z where z: "deref (g_chat_templates s) s = Inr z" using assms by (auto simp: resources_def)
  then show t: "g_chat_templates s \<noteq> None" by (auto simp: deref_def split: option.splits)
  show "format_prompt nv role raw s w = Inr (fst (nv_format nv (chat_msgs s) (role, raw) (role = ''user'') w),
      s\<lparr>chat_msgs := chat_msgs s @ [(role, raw)]\<rparr>, snd (nv_format nv (chat_msgs s) (role, raw) (role = ''user'') w))"
    using t z by (simp add: format_prompt_def chat_add_and_format_def case_prod_beta)
qed

text \<open>
  C27. A system prompt starts a new conversation, whatever was decoded before: the call
  returns 1 exactly when the prompt has more than 8188 tokens, 2 when a batch could not be
  decoded, and 0 otherwise. After 0 the cache holds exactly the positions of the prompt, and
  both positions are its length; after a failure the current position is still 0, although the
  batches decoded so far stay in the cache.
\<close>

theorem system_prompt_result:
  fixes nv :: "'w native"
  assumes "native_ok V nv" "usable V cap s"
    and tokens_def: "tokens = nv_tokenize nv (fst (nv_format nv [] (''system'', chars_or_empty prompt) False w)) True True"
  shows "\<exists>r s' w'. processSystemPrompt nv prompt s w = Inr (r, s', w') \<and> usable V cap s' \<and>
    chat_msgs s' = [(''system'', chars_or_empty prompt)] \<and> (r = 1 \<longleftrightarrow> 8188 < length tokens) \<and>
    (r = 0 \<and> chat_ready V cap s' \<and> system_prompt_position s' = int (length tokens) \<and> current_position s' = int (length tokens) \<or>
     r \<in> {1, 2} \<and> current_position s' = 0 \<and> (\<exists>j < max 1 (length tokens). session V cap (int j) s'))"
proof -
  have rows: "computes_rows (nv_engine nv)" and valid: "list_all (valid_token V) tokens"
    using assms(1) by (simp_all add: native_ok_def tokens_def)
  obtain P where u: "holding V cap P s" "resources s" "max 1 (g_runtime_batch_capacity s) \<le> int cap"
    using assms(2) by (auto simp: usable_def)
  let ?s0 = "s\<lparr>chat_msgs := [], system_prompt_position := 0, current_position := 0\<rparr>"
  obtain s1 where s1: "reset_long_term_states s = Inr s1" "session V cap 0 s1" "same_globals ?s0 s1"
    using reset_session [OF u(1)] by blast
  let ?w1 = "snd (nv_format nv [] (''system'', chars_or_empty prompt) False w)"
  define s2 where "s2 = (reset_short_term_states s1)\<lparr>chat_msgs := [(''system'', chars_or_empty prompt)]\<rparr>"
  have res0: "resources ?s0" using u(2) resources_frame [of ?s0 s] by simp
  have res1: "resources s1" by (rule resources_same [OF s1(3) res0])
  have res: "resources (reset_short_term_states s1)"
    using res1 resources_frame [of "reset_short_term_states s1" s1] by (simp add: reset_short_term_states_def)
  have res2: "resources s2" using res1 resources_frame [of s2 s1] by (simp add: s2_def reset_short_term_states_def)
  have ses: "session V cap 0 s2" using s1(2) frame_session(5) [of s2 s1] by (simp add: s2_def reset_short_term_states_def)
  note g1 = same_globalsD [OF s1(3), simplified]
  have g2: "current_position s2 = 0" "system_prompt_position s2 = 0" "chat_msgs s2 = [(''system'', chars_or_empty prompt)]"
    "max 1 (g_runtime_batch_capacity s2) \<le> int cap"
    using u(3) g1 by (simp_all add: s2_def reset_short_term_states_def)
  have fm: "chat_msgs (reset_short_term_states s1) = []" using g1 by (simp add: reset_short_term_states_def)
  obtain c where c: "the_context s2 = Inr c" using ses by (auto simp: session_def holding_def)
  have role: "(''system'' = ''user'') = False" by simp
  have tpl: "(g_chat_templates (reset_short_term_states s1) \<noteq> None) = True" using format_prompt_ok(2) [OF res] by simp
  have run: "processSystemPrompt nv prompt s w =
      (if int (length tokens) > DEFAULT_CONTEXT_SIZE - OVERFLOW_HEADROOM then Inr (1, s2, ?w1)
       else bind_outcome (decode_tokens_in_batches nv tokens 0 False s2 ?w1) (\<lambda>(r, s, w).
         if r \<noteq> 0 then Inr (2, s, w)
         else Inr (0, s\<lparr>system_prompt_position := int (length tokens), current_position := int (length tokens)\<rparr>, w)))"
    unfolding processSystemPrompt_def s1(1) bind_outcome_simps Let_def format_prompt_ok(1) [OF res] fm prod.case append_Nil
      role tpl tokens_def [symmetric] s2_def [symmetric] c g2(1) ..
  show ?thesis
  proof (cases "int (length tokens) > DEFAULT_CONTEXT_SIZE - OVERFLOW_HEADROOM")
    case True
    then have "processSystemPrompt nv prompt s w = Inr (1, s2, ?w1)" using run by simp
    moreover have "usable V cap s2" using ses res2 g2(4) by (auto simp: usable_def session_def)
    ultimately show ?thesis using True ses g2 by (auto simp: context_bounds intro!: exI [of _ 0])
  next
    case False
    have quiet: "no_shift 0 (length tokens) s2" using g2 by (simp add: no_shift_def)
    have fits: "(0::int) + int (length tokens) \<le> LLAMA_POS_MAX" using False by (simp add: context_bounds)
    have cap: "max 1 (nat (max 1 (g_runtime_batch_capacity s2))) \<le> cap" using g2(4) by linarith
    have ses0: "session V cap (0 + int 0) s2" using ses by simp
    obtain r s3 w3 j where d: "decode_tokens_in_batches nv tokens 0 False s2 ?w1 = Inr (r, s3, w3)" "same_globals s2 s3" "r \<in> {0, 1}"
      "j \<le> length tokens" "session V cap (int j) s3" "r = 0 \<longleftrightarrow> j = length tokens"
      using decode_batches_fits [OF rows valid fits cap ses0 quiet, of False ?w1] unfolding decode_tokens_in_batches_def by auto
    note g3 = same_globalsD [OF d(2)]
    note res3 = resources_same [OF d(2) res2]
    show ?thesis
    proof (cases "r = 0")
      case True
      let ?s4 = "s3\<lparr>system_prompt_position := int (length tokens), current_position := int (length tokens)\<rparr>"
      have s3: "session V cap (int (length tokens)) s3" using d(5,6) True by simp
      have ready: "chat_ready V cap ?s4"
        by (rule chat_ready_frame [OF s3 res3]) (use False g2(4) g3 in \<open>simp_all add: context_bounds\<close>)
      moreover have "processSystemPrompt nv prompt s w = Inr (0, ?s4, w3)" using run False d(1) True by simp
      ultimately show ?thesis
        using chat_ready_usable [OF ready] g2(3) g3 False by (intro exI [of _ 0] exI [of _ ?s4] exI [of _ w3]) (simp add: context_bounds)
    next
      case r: False
      have "processSystemPrompt nv prompt s w = Inr (2, s3, w3)" using run False d(1) r by simp
      moreover have "usable V cap s3" using d(5) res3 g2(4) g3 by (auto simp: usable_def session_def)
      moreover have "j < max 1 (length tokens)" using d(4,6) r by simp
      ultimately show ?thesis
        using d(5) g2 g3 False by (intro exI [of _ 2] exI [of _ s3] exI [of _ w3]) (auto simp: context_bounds)
    qed
  qed
qed


text \<open>A user prompt up to the decoding of its tokens, of which at most 8188 are kept.\<close>

lemma user_prompt_start:
  assumes "chat_ready V cap s"
    and tokens_def: "tokens = nv_tokenize nv (fst (nv_format nv (chat_msgs s) (''user'', chars_or_empty prompt) True w)) True True"
  obtains s2 w1 where "session V cap (current_position s) s2" "resources s2" "current_position s2 = current_position s"
    "system_prompt_position s2 = system_prompt_position s" "g_runtime_batch_capacity s2 = g_runtime_batch_capacity s"
    "max 1 (nat (max 1 (g_runtime_batch_capacity s2))) \<le> cap" "cached_token_chars s2 = []" "assistant_ss s2 = []" "free_slots s2 = free_slots s"
    "processUserPrompt nv prompt n_predict s w =
      (let ts = take (nat (DEFAULT_CONTEXT_SIZE - OVERFLOW_HEADROOM)) tokens; n = int (length ts) in
       bind_outcome (decode_tokens_in_batches nv ts (current_position s) True s2 w1) (\<lambda>(r, s, w).
         if r \<noteq> 0 then Inr (2, s, w)
         else Inr (0, s\<lparr>current_position := current_position s + n, stop_generation_position := current_position s + n + n + n_predict\<rparr>, w)))"
proof -
  note c = assms(1) [unfolded chat_ready_def]
  let ?s1 = "reset_short_term_states s"
  let ?w1 = "snd (nv_format nv (chat_msgs s) (''user'', chars_or_empty prompt) True w)"
  define s2 where "s2 = ?s1\<lparr>chat_msgs := chat_msgs s @ [(''user'', chars_or_empty prompt)]\<rparr>"
  have same: "g_heap s2 = g_heap s" "g_context s2 = g_context s" "g_batch s2 = g_batch s" "g_sampler s2 = g_sampler s"
    "g_model s2 = g_model s" "g_chat_templates s2 = g_chat_templates s"
    by (simp_all add: s2_def reset_short_term_states_def)
  have res: "resources ?s1" using c resources_frame [of ?s1 s] by (simp add: reset_short_term_states_def)
  have ses: "session V cap (current_position s) s2" using c frame_session(5) [of s2 s] same by simp
  obtain ctx where ctx: "the_context s2 = Inr ctx" using ses by (auto simp: session_def holding_def)
  have role: "(''user'' = ''user'') = True" by simp
  have tpl: "(g_chat_templates ?s1 \<noteq> None) = True" using format_prompt_ok(2) [OF res] by simp
  have fm: "chat_msgs ?s1 = chat_msgs s" by (simp add: reset_short_term_states_def)
  have cut: "(if int (length tokens) > m then take (nat m) tokens else tokens) = take (nat m) tokens" for m by simp
  have pos: "current_position s2 = current_position s" by (simp add: s2_def reset_short_term_states_def)
  show thesis
  proof (rule that)
    show "resources s2" using c resources_frame [of s2 s] same by simp
    show "free_slots s2 = free_slots s" using frame_session(8) [of s2 s] same by simp
    show "max 1 (nat (max 1 (g_runtime_batch_capacity s2))) \<le> cap" using c by (simp add: s2_def reset_short_term_states_def) linarith
    show "processUserPrompt nv prompt n_predict s w =
      (let ts = take (nat (DEFAULT_CONTEXT_SIZE - OVERFLOW_HEADROOM)) tokens; n = int (length ts) in
       bind_outcome (decode_tokens_in_batches nv ts (current_position s) True s2 ?w1) (\<lambda>(r, s, w).
         if r \<noteq> 0 then Inr (2, s, w)
         else Inr (0, s\<lparr>current_position := current_position s + n, stop_generation_position := current_position s + n + n + n_predict\<rparr>, w)))"
      unfolding processUserPrompt_def bind_outcome_simps Let_def format_prompt_ok(1) [OF res] fm prod.case
        role tpl tokens_def [symmetric] s2_def [symmetric] ctx pos cut ..
  qed (use ses pos in \<open>simp_all add: s2_def reset_short_term_states_def\<close>)
qed


text \<open>
  C29. A user prompt whose first batch would reach position 8188 fails when there is anything
  to discard: the context is shifted, but the batch keeps the positions it had before the shift,
  so the engine refuses it. The call returns 2 without having decoded a token, and half of the
  conversation after the system prompt is gone.
\<close>

theorem user_prompt_shift_fails:
  fixes nv :: "'w native"
  assumes "native_ok V nv" "chat_ready V cap s" "system_prompt_position s + 2 \<le> current_position s"
    and tokens_def: "tokens = nv_tokenize nv (fst (nv_format nv (chat_msgs s) (''user'', chars_or_empty prompt) True w)) True True"
    and full: "tokens \<noteq> []"
      "DEFAULT_CONTEXT_SIZE - OVERFLOW_HEADROOM \<le> current_position s + min (int (length tokens)) (max 1 (g_runtime_batch_capacity s))"
  shows "\<exists>s' w'. processUserPrompt nv prompt n_predict s w = Inr (2, s', w') \<and> chat_ready V cap s' \<and>
    current_position s' = current_position s - (current_position s - system_prompt_position s) div 2"
proof -
  have valid: "list_all (valid_token V) tokens" using assms(1) by (simp add: native_ok_def tokens_def)
  note c = assms(2) [unfolded chat_ready_def]
  obtain s2 w1 where s2: "session V cap (current_position s) s2" "resources s2" "current_position s2 = current_position s"
    "system_prompt_position s2 = system_prompt_position s" "g_runtime_batch_capacity s2 = g_runtime_batch_capacity s"
    "max 1 (nat (max 1 (g_runtime_batch_capacity s2))) \<le> cap"
    and run: "processUserPrompt nv prompt n_predict s w =
      (let ts = take (nat (DEFAULT_CONTEXT_SIZE - OVERFLOW_HEADROOM)) tokens; n = int (length ts) in
       bind_outcome (decode_tokens_in_batches nv ts (current_position s) True s2 w1) (\<lambda>(r, s, w).
         if r \<noteq> 0 then Inr (2, s, w)
         else Inr (0, s\<lparr>current_position := current_position s + n, stop_generation_position := current_position s + n + n + n_predict\<rparr>, w)))"
    by (rule user_prompt_start [OF assms(2) tokens_def])
  let ?n = "current_position s" let ?d = "(?n - system_prompt_position s) div 2"
  let ?ts = "take (nat (DEFAULT_CONTEXT_SIZE - OVERFLOW_HEADROOM)) tokens"
  let ?cap = "nat (max 1 (g_runtime_batch_capacity s2))"
  define cur where "cur = min (length ?ts) (max 1 ?cap)"
  have ts: "list_all (valid_token V) ?ts" "0 < length ?ts"
    using valid full(1) set_take_subset [of _ tokens] by (auto simp: list_all_iff context_bounds)
  have cur: "0 < cur" "0 + cur \<le> length ?ts" "cur \<le> cap" using ts(2) s2(6) by (auto simp: cur_def)
  have over: "?n + int 0 + int cur \<ge> DEFAULT_CONTEXT_SIZE - OVERFLOW_HEADROOM"
    using full(2) s2(5) c by (simp add: cur_def context_bounds) linarith
  let ?es = "map (\<lambda>j. (?ts ! (0 + j), ?n + int 0 + int j, True \<and> 0 + j = length ?ts - 1)) [0..<cur]"
  note es = prompt_entries [OF ts(1) cur(1,2), of ?n True]
  obtain s3 where s3: "batch_clear s2 = Inr s3" "same_globals s2 s3" "session V cap ?n s3" "cleared s3"
    using batch_clear_session [OF s2(1)] by blast
  note g3 = same_globalsD [OF s3(2)]
  have le: "0 \<le> system_prompt_position s3" "system_prompt_position s3 \<le> ?n" "?n \<le> LLAMA_POS_MAX"
    using c g3 s2 by (simp_all add: context_bounds)
  have p3: "current_position s3 = ?n" "system_prompt_position s3 = system_prompt_position s" using g3 s2 by simp_all
  obtain s4 where s4: "shift_context s3 = Inr s4" "same_globals (s3\<lparr>current_position := ?n - ?d\<rparr>) s4" "session V cap (?n - ?d) s4"
    "the_batch s4 = the_batch s3"
    using shift_session [OF s3(3) p3(1) le] unfolding p3(2) by blast
  have cl4: "cleared s4" using s3(4) s4(4) by (simp add: cleared_def)
  have d: "0 < ?d" "0 < ?n - ?d" "?n \<noteq> ?n - ?d" "0 \<le> ?n" using assms(3) c by linarith+
  have es': "?es \<noteq> []" "length ?es \<le> cap" "consecutive ?n ?es" using es(1-3) cur(3) by simp_all
  obtain s5 s6 where s6: "batch_add ?es s4 = Inr s5" "chat_decode nv s5 w1 = Inr (-1, s6, w1)" "same_globals s4 s6" "session V cap (?n - ?d) s6"
    using decode_gap [OF s4(3) cl4 d(2-4) es' es(4), of nv w1] by blast
  have loop: "decode_batches_loop nv ?ts ?n True ?cap 0 s2 w1 = Inr (1, s6, w1)"
    unfolding decode_batches_loop.simps [of nv ?ts ?n True ?cap 0 s2 w1] diff_zero Let_def cur_def [symmetric]
    using ts(2) s3(1) over s4(1) s6(1,2) by (simp only: if_True bind_outcome_simps prod.case) simp
  have "processUserPrompt nv prompt n_predict s w = Inr (2, s6, w1)"
    unfolding run Let_def decode_tokens_in_batches_def loop by simp
  moreover have "chat_ready V cap s6"
  proof -
    note g4 = same_globals_trans [OF s4(2) s6(3)]
    have "resources (s3\<lparr>current_position := ?n - ?d\<rparr>)"
      using resources_same [OF s3(2) s2(2)] resources_frame [of "s3\<lparr>current_position := ?n - ?d\<rparr>" s3] by simp
    then have "resources s6" by (rule resources_same [OF g4])
    then show ?thesis using s6(4) same_globalsD [OF g4] g3 s2 c d by (simp add: chat_ready_def)
  qed
  moreover have "current_position s6 = ?n - ?d" using same_globalsD [OF same_globals_trans [OF s4(2) s6(3)]] by simp
  ultimately show ?thesis by blast
qed


text \<open>
  C26. Generation ends: after a prompt whose stop position lies below 8188 (beyond it, the context is shifted again and again, and
  the stop position need not be reached), and with token texts without null bytes, calling
  \<open>generateNextToken\<close> returns null after at most as many texts as there are positions left.
  Every text is valid UTF-8, one text is returned per token of the vocabulary that does not
  end the generation, and all texts together with the bytes still kept back are the texts of
  these tokens, in order: no byte is lost or doubled where a character spans tokens. The
  conversation can go on afterwards.
\<close>

theorem generation_ends:
  fixes nv :: "'w native"
  assumes "native_ok V nv" "\<forall>t. no_zero (nv_piece nv t)" "chat_ready V cap s" "has_logits s" "cached_token_chars s = []"
    and "stop_generation_position s < DEFAULT_CONTEXT_SIZE - OVERFLOW_HEADROOM" "current_position s < DEFAULT_CONTEXT_SIZE - OVERFLOW_HEADROOM"
  shows "\<exists>outs s' w' ts. generate_all nv (Suc (nat (stop_generation_position s - current_position s))) s w = Inr (True, outs, s', w') \<and>
    chat_ready V cap s' \<and> length outs \<le> nat (stop_generation_position s - current_position s) \<and> length ts = length outs \<and>
    list_all (\<lambda>t. valid_token V t \<and> \<not> nv_is_eog nv t) ts \<and> concat outs @ cached_token_chars s' = concat (map (nv_piece nv) ts) \<and>
    list_all (\<lambda>out. is_valid_utf8 (map of_char out)) outs"
  using generate_all_text [OF assms(1-4) _ assms(6,7) refl, of w] assms(5) by (simp add: no_zero_def)

section \<open>Examples\<close>

text \<open>The small context after two tokens have been decoded.\<close>

lemma decoded_context:
  "\<exists>c. ctx_ok c \<and> lc_n_vocab c = 10 \<and> lc_n_batch c = 4 \<and> kv_positions (lc_memory c) 0 = {0..<2} \<and> fst (get_logits_ith (-1) (lc_out c)) \<noteq> None"
proof -
  have m: "lc_memory small_context = fresh_cache" by (simp add: small_context_def)
  obtain r c w j where d: "decode (graph GGML_STATUS_SUCCESS) two_tokens small_context () = Inr (r, c, w)" "ctx_ok c" "same_settings small_context c"
    "decode_result small_context two_tokens (ba_batch two_accepted) r c j" "never_fails (graph GGML_STATUS_SUCCESS :: unit engine) \<longrightarrow> r \<in> {0, 1}"
    using decode_outcome [OF small_context_ok(1-3) graph_rows, of GGML_STATUS_SUCCESS "()"] by blast
  have "r \<in> {0, 1}" using d(5) by (simp add: never_fails_def graph_def)
  moreover have "r \<noteq> 1" using d(4) by (simp add: decode_result_def m fresh_cache_plain(2) small_context_ok(4))
  ultimately have r: "r = 0" by simp
  have "b_logits (ba_batch two_accepted) ! 1" "prefix_positions (ba_batch two_accepted) 2 0 = {0, 1}"
  proof -
    show "b_logits (ba_batch two_accepted) ! 1" by code_simp
    have "b_pos (ba_batch two_accepted) = [0, 1]" "b_ids (ba_batch two_accepted) 0 = [0]" "b_ids (ba_batch two_accepted) 1 = [0]" by code_simp+
    then show "prefix_positions (ba_batch two_accepted) 2 0 = {0, 1}" by (auto simp: prefix_positions_def less_2_cases_iff intro: exI [of _ 0] exI [of _ 1])
  qed
  then have "kv_positions (lc_memory c) 0 = {0..<2}" "fst (get_logits_ith (-1) (lc_out c)) \<noteq> None"
    using d(4) r fresh_cache_plain(3) fresh_cache_plain(4) [of 0]
    by (auto simp: decode_result_def holds_prefix_def m small_context_ok(4) outputs_of_def filter_empty_conv)
  then show ?thesis using d(2) same_settingsD [OF d(3)] by (auto simp: small_context_def)
qed

definition demo_chat :: "llama_context \<Rightarrow> int \<Rightarrow> chat" where
  "demo_chat c cap = initial_chat\<lparr>g_heap := [0 \<mapsto> Model_obj, 1 \<mapsto> Context_obj c, 2 \<mapsto> Templates_obj, 3 \<mapsto> Sampler_obj,
     4 \<mapsto> Batch_obj (llama_batch_init (nat cap) 1)], g_next := 5, g_model := Some 0, g_context := Some 1, g_chat_templates := Some 2,
     g_sampler := Some 3, g_batch := Some 4, g_runtime_batch_capacity := cap, current_position := 2, stop_generation_position := 5\<rparr>"

lemma demo_native_ok: "native_ok 10 demo_native"
  by (auto simp: native_ok_def demo_native_def graph_rows valid_token_def list_all_iff split: list.splits)

lemma demo_session:
  assumes "ctx_ok c" "lc_n_vocab c = 10" "0 < cap" "cap \<le> int (lc_n_batch c)" "kv_positions (lc_memory c) 0 = {0..<2}"
  shows "chat_ready 10 (nat cap) (demo_chat c cap)" "fst (get_logits_ith (-1) (lc_out c)) \<noteq> None \<Longrightarrow> has_logits (demo_chat c cap)"
proof -
  have d: "the_context (demo_chat c cap) = Inr c" "the_batch (demo_chat c cap) = Inr (llama_batch_init (nat cap) 1)"
    by (simp_all add: demo_chat_def the_context_def the_batch_def deref_def)
  show "fst (get_logits_ith (-1) (lc_out c)) \<noteq> None \<Longrightarrow> has_logits (demo_chat c cap)" by (simp add: has_logits_def d)
  have "session 10 (nat cap) 2 (demo_chat c cap)"
    using assms by (simp add: session_def holding_def d llama_batch_init_def batch_wf_def)
  moreover have "resources (demo_chat c cap)" by (simp add: resources_def demo_chat_def deref_def)
  ultimately show "chat_ready 10 (nat cap) (demo_chat c cap)"
    using assms(3) by (simp add: chat_ready_def context_bounds) (simp add: demo_chat_def initial_chat_def)
qed

lemma demo_simps [simp]:
  "current_position (demo_chat c cap) = 2" "system_prompt_position (demo_chat c cap) = 0" "stop_generation_position (demo_chat c cap) = 5"
  "cached_token_chars (demo_chat c cap) = []" "g_runtime_batch_capacity (demo_chat c cap) = cap" "chat_msgs (demo_chat c cap) = []"
  by (simp_all add: demo_chat_def initial_chat_def)

lemma demo_tokens: "nv_tokenize demo_native (fst (nv_format demo_native msgs (role, str) b w)) True True = map (\<lambda>ch. of_char ch mod 8) str"
  by (simp add: demo_native_def)

theorem system_prompt_result_witness:
  "\<exists>s r s' w'. chat_ready 10 4 s \<and> processSystemPrompt demo_native (Some ''hello'') s [] = Inr (r, s', w') \<and> r \<noteq> 1 \<and>
    (r = 0 \<longrightarrow> system_prompt_position s' = 5)"
proof -
  obtain c where c: "ctx_ok c" "lc_n_vocab c = 10" "lc_n_batch c = 4" "kv_positions (lc_memory c) 0 = {0..<2}" using decoded_context by blast
  have r: "chat_ready 10 4 (demo_chat c 4)" using demo_session(1) [OF c(1,2) _ _ c(4), of 4] c(3) by simp
  show ?thesis
    using system_prompt_result [OF demo_native_ok chat_ready_usable [OF r] refl, of "Some ''hello''" "[]"] r
    unfolding demo_tokens chars_or_empty_def by fastforce
qed


theorem user_prompt_shift_fails_witness:
  "\<exists>s s' w'. processUserPrompt demo_native (Some (replicate 8186 CHR ''a'')) 3 s [] = Inr (2, s', w') \<and> current_position s = 2 \<and>
    current_position s' = 1"
proof -
  obtain c where c: "ctx_ok c" "lc_n_vocab c = 10" "kv_positions (lc_memory c) 0 = {0..<2}" using decoded_context by blast
  define c' where "c' = c\<lparr>lc_n_batch := 9000, lc_out := lc_out small_context\<rparr>"
  have "ctx_ok c'" using c(1) by (auto simp: ctx_ok_def c'_def ctx_n_seq_max_def small_context_def split: if_splits)
  then have "chat_ready 10 9000 (demo_chat c' 9000)" using demo_session(1) [of c' 9000] c(2,3) by (simp add: c'_def)
  from user_prompt_shift_fails [OF demo_native_ok this _ refl, of "Some (replicate 8186 CHR ''a'')" "[]" 3]
  show ?thesis unfolding demo_tokens chars_or_empty_def by (fastforce simp: context_bounds)
qed

theorem generation_ends_witness:
  "\<exists>s outs s' w'. generate_all demo_native 4 s [3, 1, 4] = Inr (True, outs, s', w') \<and> has_logits s \<and> length outs \<le> 3 \<and> chat_ready 10 4 s'"
proof -
  obtain c where c: "ctx_ok c" "lc_n_vocab c = 10" "lc_n_batch c = 4" "kv_positions (lc_memory c) 0 = {0..<2}"
    "fst (get_logits_ith (-1) (lc_out c)) \<noteq> None" using decoded_context by blast
  have r: "chat_ready 10 4 (demo_chat c 4)" "has_logits (demo_chat c 4)" using demo_session [OF c(1,2) _ _ c(4), of 4] c(3,5) by simp_all
  have n: "Suc (nat (5 - 2)) = 4" by simp
  have "\<forall>t. no_zero (nv_piece demo_native t)" by (simp add: demo_native_def no_zero_def)
  from generation_ends [OF demo_native_ok this r, of "[3, 1, 4]"] show ?thesis
    unfolding demo_simps n using r(2) by (fastforce simp: context_bounds)
qed

end
