(* ===== verification/Json_Scan.thy ===== *)
theory Json_Scan
  imports Prelude
begin

text \<open>
  The extraction of a JSON object from generated text, \<open>try_extract_complete_json_object\<close> of
  \<open>ai_chat.cpp\<close>: one pass over the text that counts braces outside string literals and
  returns the first object that is complete. The reference is a printer of JSON values: the
  scanner finds exactly what was printed.
\<close>

section \<open>The scanner\<close>

text \<open>The loop at index \<open>i\<close> with the rest of the text; the variables are those of the code.\<close>

fun json_scan :: "string \<Rightarrow> nat \<Rightarrow> int \<Rightarrow> int \<Rightarrow> bool \<Rightarrow> bool \<Rightarrow> string \<Rightarrow> string option" where
  "json_scan str i start depth in_string escaped [] = None"
| "json_scan str i start depth in_string escaped (ch # cs) =
     (if escaped then json_scan str (i + 1) start depth in_string False cs
      else if ch = CHR 0x5C \<and> in_string then json_scan str (i + 1) start depth in_string True cs
      else if ch = CHR 0x22 then json_scan str (i + 1) start depth (\<not> in_string) escaped cs
      else if in_string then json_scan str (i + 1) start depth in_string escaped cs
      else if ch = CHR ''{'' then
        json_scan str (i + 1) (if depth = 0 then int i else start) (depth + 1) in_string escaped cs
      else if ch = CHR ''}'' then
        (if depth = 0 then json_scan str (i + 1) start depth in_string escaped cs
         else if depth - 1 = 0 \<and> start \<ge> 0 then Some (take (i - nat start + 1) (drop (nat start) str))
         else json_scan str (i + 1) start (depth - 1) in_string escaped cs)
      else json_scan str (i + 1) start depth in_string escaped cs)"

definition try_extract_complete_json_object :: "string \<Rightarrow> string option" where
  "try_extract_complete_json_object str = json_scan str 0 (-1) 0 False False str"

section \<open>What is returned\<close>

text \<open>Inside an object the start is the index of its opening brace.\<close>

definition scan_inv :: "string \<Rightarrow> nat \<Rightarrow> int \<Rightarrow> int \<Rightarrow> bool" where
  "scan_inv str i start depth \<longleftrightarrow> 0 \<le> depth \<and> (0 < depth \<longrightarrow> 0 \<le> start \<and> nat start < i \<and> str ! nat start = CHR ''{'')"

lemma scan_inv_step:
  assumes "scan_inv str i start depth"
  shows "scan_inv str (Suc i) start depth"
    "str ! i = CHR ''{'' \<Longrightarrow> scan_inv str (Suc i) (if depth = 0 then int i else start) (depth + 1)"
    "depth \<noteq> 0 \<Longrightarrow> scan_inv str (Suc i) start (depth - 1)"
  using assms by (auto simp: scan_inv_def)

lemma drop_eq_Cons:
  assumes "drop i xs = y # ys"
  shows "i < length xs" "xs ! i = y" "drop (Suc i) xs = ys"
proof -
  show i: "i < length xs" using assms by (metis drop_all linorder_not_less list.distinct(1))
  show "xs ! i = y" "drop (Suc i) xs = ys" using Cons_nth_drop_Suc [OF i] assms by simp_all
qed

lemma json_scan_object:
  assumes "json_scan str i start depth in_string escaped cs = Some obj" "scan_inv str i start depth" "drop i str = cs"
  shows "\<exists>pre post. str = pre @ obj @ post \<and> obj \<noteq> [] \<and> hd obj = CHR ''{'' \<and> last obj = CHR ''}''"
  using assms
proof (induction str i start depth in_string escaped cs rule: json_scan.induct)
  case (2 str i start depth in_string escaped ch cs)
  note i = drop_eq_Cons [OF "2.prems"(3)] and inv = scan_inv_step [OF "2.prems"(2)]
  show ?case
  proof (cases "\<not> escaped \<and> \<not> in_string \<and> ch = CHR ''}'' \<and> depth - 1 = 0 \<and> start \<ge> 0")
    case True
    let ?s = "nat start"
    have "obj = take (i - ?s + 1) (drop ?s str)" using True "2.prems"(1) by simp
    moreover have s: "?s < i" "str ! ?s = CHR ''{''" using "2.prems"(2) True by (auto simp: scan_inv_def)
    ultimately have len: "length obj = i - ?s + 1" and nth: "\<And>k. k < i - ?s + 1 \<Longrightarrow> obj ! k = str ! (?s + k)"
      using i(1) by simp_all
    have "str = take ?s str @ obj @ drop (i + 1) str"
      using s(1) \<open>obj = _\<close> by (metis Suc_diff_le Suc_eq_plus1 append_assoc append_take_drop_id drop_drop le_add_diff_inverse2 less_imp_le plus_1_eq_Suc add_Suc_right)
    moreover have "obj \<noteq> []" using len by auto
    moreover from this have "hd obj = CHR ''{''" "last obj = CHR ''}''"
      using len nth [of 0] nth [of "i - ?s"] s i(2) True by (simp_all add: hd_conv_nth last_conv_nth)
    ultimately show ?thesis by blast
  next
    case False
    then show ?thesis
      using 2 inv i by (auto split: if_splits)
  qed
qed simp

lemma json_scan_append:
  assumes "json_scan str i start depth in_string escaped cs = Some obj" "scan_inv str i start depth" "drop i str = cs"
  shows "json_scan (str @ more) i start depth in_string escaped (cs @ more) = Some obj"
  using assms
proof (induction str i start depth in_string escaped cs rule: json_scan.induct)
  case (2 str i start depth in_string escaped ch cs)
  note i = drop_eq_Cons [OF "2.prems"(3)] and inv = scan_inv_step [OF "2.prems"(2)]
  have sub: "take (i - nat start + 1) (drop (nat start) (str @ more)) = take (i - nat start + 1) (drop (nat start) str)"
    if "nat start < i" using that i(1) by simp
  show ?case
    using 2 inv i sub by (auto simp: scan_inv_def [of str i] split: if_splits)
qed simp

section \<open>The reference: printed JSON\<close>

datatype json = JNull | JBool bool | JNum string | JStr string | JArr "json list" | JObj "(string \<times> json) list"

definition escape_char :: "char \<Rightarrow> string" where
  "escape_char ch = (if ch = CHR 0x22 \<or> ch = CHR 0x5C then [CHR 0x5C, ch] else [ch])"

definition string_text :: "string \<Rightarrow> string" where
  "string_text s = [CHR 0x22] @ concat (map escape_char s) @ [CHR 0x22]"

fun commas :: "string list \<Rightarrow> string" where
  "commas [] = []"
| "commas [x] = x"
| "commas (x # y # xs) = x @ '','' @ commas (y # xs)"

fun json_text :: "json \<Rightarrow> string" where
  "json_text JNull = ''null''"
| "json_text (JBool b) = (if b then ''true'' else ''false'')"
| "json_text (JNum ds) = ds"
| "json_text (JStr s) = string_text s"
| "json_text (JArr js) = ''['' @ commas (map json_text js) @ '']''"
| "json_text (JObj kvs) = ''{'' @ commas (map (\<lambda>(k, v). string_text k @ '':'' @ json_text v) kvs) @ ''}''"

text \<open>Characters that the scanner passes over outside strings.\<close>

definition plain_char :: "char \<Rightarrow> bool" where
  "plain_char ch \<longleftrightarrow> ch \<noteq> CHR 0x22 \<and> ch \<noteq> CHR ''{'' \<and> ch \<noteq> CHR ''}''"

fun json_ok :: "json \<Rightarrow> bool" where
  "json_ok (JNum ds) = list_all plain_char ds"
| "json_ok (JArr js) = list_all json_ok js"
| "json_ok (JObj kvs) = list_all (\<lambda>(k, v). json_ok v) kvs"
| "json_ok _ = True"

text \<open>A text that the scanner passes over at depth \<open>d\<close>.\<close>

definition passes :: "int \<Rightarrow> string \<Rightarrow> bool" where
  "passes d xs \<longleftrightarrow> (\<forall>str i start rest. json_scan str i start d False False (xs @ rest) =
     json_scan str (i + length xs) start d False False rest)"

lemma passes_Nil [simp]: "passes d []"
  by (simp add: passes_def)

lemma passes_append: "passes d xs \<Longrightarrow> passes d ys \<Longrightarrow> passes d (xs @ ys)"
  by (simp add: passes_def add.assoc)

lemma passes_plain: "list_all plain_char xs \<Longrightarrow> passes d xs"
proof (induction xs)
  case (Cons x xs)
  have "passes d [x]" using Cons.prems by (simp add: passes_def plain_char_def)
  then show ?case using Cons passes_append [of d "[x]" xs] by simp
qed simp

lemma scan_inside_string:
  "json_scan str i start d True False (concat (map escape_char s) @ [CHR 0x22] @ rest) =
   json_scan str (i + length (concat (map escape_char s)) + 1) start d False False rest"
  by (induction s arbitrary: i) (auto simp: escape_char_def add_ac)

lemma passes_string: "passes d (string_text s)"
  using scan_inside_string unfolding passes_def string_text_def by (simp add: add_ac)

lemma passes_commas: "\<forall>x \<in> set xs. passes d x \<Longrightarrow> passes d (commas xs)"
proof (induction xs rule: commas.induct)
  case (3 x y xs)
  have "passes d '',''" by (rule passes_plain) (simp add: plain_char_def)
  then show ?case unfolding commas.simps using 3 by (intro passes_append) auto
qed simp_all

lemma passes_braces:
  assumes "passes (d + 1) xs" "0 < d"
  shows "passes d (''{'' @ xs @ ''}'')"
  using assms by (auto simp: passes_def add_ac)

lemma passes_json:
  assumes "json_ok j" "0 < d"
  shows "passes d (json_text j)"
  using assms
proof (induction j arbitrary: d rule: json_text.induct)
  case (5 js)
  have "passes d ''[''" "passes d '']''" by (rule passes_plain; simp add: plain_char_def)+
  moreover have "passes d (commas (map json_text js))" using 5 by (intro passes_commas) (auto simp: list_all_iff)
  ultimately show ?case by (simp only: json_text.simps passes_append)
next
  case (6 kvs)
  have "passes (d + 1) (commas (map (\<lambda>(k, v). string_text k @ '':'' @ json_text v) kvs))"
  proof (intro passes_commas ballI)
    fix x assume "x \<in> set (map (\<lambda>(k, v). string_text k @ '':'' @ json_text v) kvs)"
    then obtain k v where kv: "(k, v) \<in> set kvs" "x = string_text k @ '':'' @ json_text v" by auto
    have "passes (d + 1) (json_text v)" using 6 kv(1) by (fastforce simp: list_all_iff)
    moreover have "passes (d + 1) '':''" by (rule passes_plain) (simp add: plain_char_def)
    ultimately show "passes (d + 1) x" unfolding kv(2) by (intro passes_append passes_string)
  qed
  then show ?case using passes_braces [OF _ 6(3)] by (simp only: json_text.simps)
qed (auto intro: passes_plain passes_string simp: plain_char_def)

text \<open>
  C33. Whatever JSON object the model printed, after any text without quotes and opening braces
  and followed by anything, the scanner returns exactly the text of that object.
\<close>

theorem extract_printed_object:
  assumes "json_ok (JObj kvs)" "list_all (\<lambda>ch. ch \<noteq> CHR 0x22 \<and> ch \<noteq> CHR ''{'') pre"
  shows "try_extract_complete_json_object (pre @ json_text (JObj kvs) @ post) = Some (json_text (JObj kvs))"
proof -
  let ?o = "json_text (JObj kvs)"
  define body where "body = commas (map (\<lambda>(k, v). string_text k @ '':'' @ json_text v) kvs)"
  have o: "?o = ''{'' @ body @ ''}''" by (simp add: body_def)
  have before: "json_scan str i (-1) 0 False False (xs @ rest) = json_scan str (i + length xs) (-1) 0 False False rest"
    if "list_all (\<lambda>ch. ch \<noteq> CHR 0x22 \<and> ch \<noteq> CHR ''{'') xs" for str i xs rest
    using that by (induction xs arbitrary: i) auto
  have "passes 1 body"
  proof (unfold body_def, intro passes_commas ballI)
    fix x assume "x \<in> set (map (\<lambda>(k, v). string_text k @ '':'' @ json_text v) kvs)"
    then obtain k v where kv: "(k, v) \<in> set kvs" "x = string_text k @ '':'' @ json_text v" by auto
    have "passes 1 (json_text v)" using assms(1) kv(1) by (intro passes_json) (auto simp: list_all_iff)
    moreover have "passes 1 '':''" by (rule passes_plain) (simp add: plain_char_def)
    ultimately show "passes 1 x" unfolding kv(2) by (intro passes_append passes_string)
  qed
  then have body: "json_scan str i start 1 False False (body @ rest) = json_scan str (i + length body) start 1 False False rest"
    for str i start rest unfolding passes_def by blast
  have "json_scan str 0 (-1) 0 False False (pre @ ?o @ post) =
      Some (take (length body + 2) (drop (length pre) str))" for str
    unfolding before [OF assms(2)] o using body [of str "Suc (length pre)" "int (length pre)" "''}'' @ post"] by simp
  moreover have "take (length body + 2) (drop (length pre) (pre @ ?o @ post)) = ?o" unfolding o by simp
  ultimately show ?thesis unfolding try_extract_complete_json_object_def by metis
qed

theorem extract_printed_object_witness:
  "try_extract_complete_json_object (''} ok: '' @ json_text (JObj [(''a}'', JArr [JNum ''1'', JObj []])]) @ ''{'') =
     Some ''{\"a}\":[1,{}]}''"
proof -
  have t: "json_text (JObj [(''a}'', JArr [JNum ''1'', JObj []])]) = ''{\"a}\":[1,{}]}''"
    by (simp add: string_text_def escape_char_def)
  have "json_ok (JObj [(''a}'', JArr [JNum ''1'', JObj []])])" "list_all (\<lambda>ch. ch \<noteq> CHR 0x22 \<and> ch \<noteq> CHR ''{'') ''} ok: ''"
    by (simp_all add: plain_char_def)
  from extract_printed_object [OF this, of "''{''"] show ?thesis unfolding t .
qed

text \<open>
  What the scanner returns is a piece of the text that starts with an opening and ends
  with a closing brace, and it does not depend on what is generated afterwards.
\<close>

theorem extract_stable:
  assumes "try_extract_complete_json_object str = Some obj"
  shows "(\<forall>more. try_extract_complete_json_object (str @ more) = Some obj) \<and>
    (\<exists>pre post. str = pre @ obj @ post) \<and> obj \<noteq> [] \<and> hd obj = CHR ''{'' \<and> last obj = CHR ''}''"
proof -
  have inv: "scan_inv str 0 (-1) 0" by (simp add: scan_inv_def)
  show ?thesis
    using json_scan_object [OF assms [unfolded try_extract_complete_json_object_def] inv]
      json_scan_append [OF assms [unfolded try_extract_complete_json_object_def] inv]
    unfolding try_extract_complete_json_object_def by auto
qed

theorem extract_stable_witness:
  "try_extract_complete_json_object (''x {} {'' @ ''} y'') = Some ''{}''"
proof -
  have "try_extract_complete_json_object ''x {} {'' = Some ''{}''" by code_simp
  from extract_stable [OF this] show ?thesis by blast
qed

end
