(* ===== verification/Direct_Bridge.thy ===== *)
theory Direct_Bridge
  imports Conversation Json_Scan
begin

text \<open>
  The direct bridge of \<open>ai_chat.cpp\<close>: \<open>nativeInfer\<close> answers a prompt in one call. It
  decodes the prompt in small batches and generates at most \<open>n_predict\<close> tokens, looks at the
  clock and at the cancel flag before every step, and stops early when the text holds a complete
  JSON object. Every failure is a text with the prefix \<open>__DIRECT_LLM_ERROR__\<close>.
\<close>

section \<open>The direct bridge\<close>

definition direct_error :: "string \<Rightarrow> string" where
  "direct_error msg = ''__DIRECT_LLM_ERROR__: '' @ msg"

definition is_timed_out :: "'w native \<Rightarrow> int \<Rightarrow> int \<Rightarrow> 'w \<Rightarrow> bool \<times> 'w" where
  "is_timed_out nv timeout_ms started w =
     (if timeout_ms \<le> 0 then (False, w) else let (now, w) = nv_now nv w in (now - started \<ge> timeout_ms, w))"

text \<open>Reading the atomic flag: another thread may have called \<open>nativeCancel\<close> in the meantime.\<close>

definition cancel_requested :: "'w native \<Rightarrow> chat \<Rightarrow> 'w \<Rightarrow> bool \<times> chat \<times> 'w" where
  "cancel_requested nv s w = (let (c, w) = nv_cancel nv w; s = (if c then nativeCancel s else s)
     in (g_direct_cancel_requested s, s, w))"

definition check_abort :: "'w native \<Rightarrow> int \<Rightarrow> int \<Rightarrow> chat \<Rightarrow> 'w \<Rightarrow> string option \<times> chat \<times> 'w" where
  "check_abort nv timeout_ms started s w =
     (let (c, s, w) = cancel_requested nv s w
      in if c then (Some (direct_error ''cancelled''), s, w)
         else let (t, w) = is_timed_out nv timeout_ms started w
           in (if t then Some (direct_error ''timeout'') else None, s, w))"

function prefill_loop :: "'w native \<Rightarrow> int \<Rightarrow> int \<Rightarrow> llama_token list \<Rightarrow> nat \<Rightarrow> nat \<Rightarrow> chat \<Rightarrow> 'w \<Rightarrow>
    (string option \<times> chat \<times> 'w) outcome" where
  "prefill_loop nv timeout_ms started tokens chunk i s w =
     (if i < length tokens then
        case check_abort nv timeout_ms started s w of
          (Some e, s, w) \<Rightarrow> Inr (Some e, s, w)
        | (None, s, w) \<Rightarrow>
            let cur = min (max 1 chunk) (length tokens - i)
            in bind_outcome (batch_clear s) (\<lambda>s.
               bind_outcome (batch_add (map (\<lambda>j. (tokens ! (i + j), int (i + j), i + j = length tokens - 1)) [0..<cur]) s) (\<lambda>s.
               bind_outcome (chat_decode nv s w) (\<lambda>(r, s, w).
                 if r \<noteq> 0 then Inr (Some (direct_error ''prefill decode failed''), s, w)
                 else let (t, w) = is_timed_out nv timeout_ms started w
                   in if t then Inr (Some (direct_error ''timeout''), s, w)
                      else prefill_loop nv timeout_ms started tokens chunk (i + max 1 chunk) s w)))
      else Inr (None, s, w))"
  by pat_completeness auto
termination
  by (relation "measure (\<lambda>(nv, timeout_ms, started, tokens, chunk, i, s, w). length tokens - i)") auto

declare prefill_loop.simps [simp del]

text \<open>The result of the loop over the steps: an error text or the output.\<close>

fun generate_loop :: "'w native \<Rightarrow> int \<Rightarrow> int \<Rightarrow> nat \<Rightarrow> string \<Rightarrow> chat \<Rightarrow> 'w \<Rightarrow> ((string + string) \<times> chat \<times> 'w) outcome" where
  "generate_loop nv timeout_ms started 0 output s w = Inr (Inr output, s, w)"
| "generate_loop nv timeout_ms started (Suc n) output s w =
     (case check_abort nv timeout_ms started s w of
        (Some e, s, w) \<Rightarrow> Inr (Inl e, s, w)
      | (None, s, w) \<Rightarrow>
          bind_outcome (sample_token nv s w) (\<lambda>(new_token_id, s, w).
          bind_outcome (deref (g_model s) s) (\<lambda>_.
            if nv_is_eog nv new_token_id then Inr (Inr output, s, w)
            else let output = output @ nv_piece nv new_token_id
              in case try_extract_complete_json_object output of
                   Some completed_json \<Rightarrow> Inr (Inr completed_json, s, w)
                 | None \<Rightarrow>
                     bind_outcome (batch_clear s) (\<lambda>s. bind_outcome (batch_add [(new_token_id, current_position s, True)] s) (\<lambda>s.
                     bind_outcome (chat_decode nv s w) (\<lambda>(r, s, w).
                       let s = s\<lparr>current_position := current_position s + 1\<rparr>
                       in if r \<noteq> 0 then Inr (Inl (direct_error ''token decode failed''), s, w)
                          else generate_loop nv timeout_ms started n output s w))))))"

definition direct_prompt :: "'w native \<Rightarrow> string \<Rightarrow> string \<Rightarrow> chat \<Rightarrow> 'w \<Rightarrow> (string \<times> chat \<times> 'w) outcome" where
  "direct_prompt nv sys usr s w =
     bind_outcome (if sys \<noteq> [] then chat_add_and_format nv ''system'' sys s w else Inr ([], s, w)) (\<lambda>(p1, s, w).
     bind_outcome (if usr \<noteq> [] then chat_add_and_format nv ''user'' usr s w else Inr ([], s, w)) (\<lambda>(p2, s, w).
       let prompt = p1 @ p2 in Inr (if prompt = [] then usr else prompt, s, w)))"

text \<open>The part of \<open>nativeInfer\<close> after the prompt was built and the clock started.\<close>

definition infer_prompt :: "'w native \<Rightarrow> string \<Rightarrow> int \<Rightarrow> int \<Rightarrow> int \<Rightarrow> chat \<Rightarrow> 'w \<Rightarrow> (string \<times> chat \<times> 'w) outcome" where
  "infer_prompt nv prompt n_predict timeout_ms started s w =
     (case check_abort nv timeout_ms started s w of (Some e, s, w) \<Rightarrow> Inr (e, s, w) | (None, s, w) \<Rightarrow>
      bind_outcome (on_memory (\<lambda>k. Inr (kv_clear k)) s) (\<lambda>s. let w = nv_reset nv w in
      case check_abort nv timeout_ms started s w of (Some e, s, w) \<Rightarrow> Inr (e, s, w) | (None, s, w) \<Rightarrow>
      let tokens = nv_tokenize nv prompt True True in
      if tokens = [] then Inr (direct_error ''tokenization failed'', s, w)
      else if int (length tokens) \<ge> g_runtime_n_ctx s then Inr (direct_error ''prompt too large'', s, w)
      else if \<not> g_batch_initialized s then Inr (direct_error ''batch not initialized'', s, w)
      else let chunk = max 1 (min DIRECT_PREFILL_CHUNK (min (int (length tokens)) (g_direct_batch_capacity s))) in
        bind_outcome (prefill_loop nv timeout_ms started tokens (nat chunk) 0 s w) (\<lambda>(e, s, w). case e of
          Some e \<Rightarrow> Inr (e, s, w)
        | None \<Rightarrow> bind_outcome (generate_loop nv timeout_ms started (nat n_predict) [] (s\<lparr>current_position := int (length tokens)\<rparr>) w)
            (\<lambda>(r, s, w). Inr (case r of Inl e \<Rightarrow> e | Inr output \<Rightarrow> c_str output, s, w)))))"

definition nativeInfer :: "'w native \<Rightarrow> string option \<Rightarrow> string option \<Rightarrow> int \<Rightarrow> int \<Rightarrow> chat \<Rightarrow> 'w \<Rightarrow> (string \<times> chat \<times> 'w) outcome" where
  "nativeInfer nv sys usr n_predict timeout_ms s w =
     (if g_model s = None \<or> g_context s = None \<or> g_sampler s = None then Inr (direct_error ''model not loaded'', s, w)
      else bind_outcome (reset_long_term_states (s\<lparr>g_direct_cancel_requested := False\<rparr>)) (\<lambda>s.
           bind_outcome (direct_prompt nv (chars_or_empty sys) (chars_or_empty usr) s w) (\<lambda>(prompt, s, w).
             let (started, w) = nv_now nv w in infer_prompt nv prompt n_predict timeout_ms started s w)))"


section \<open>What a call leaves in place\<close>

text \<open>No object is created or freed and every pointer stays; positions, messages and contents may differ.\<close>

definition same_objects :: "chat \<Rightarrow> chat \<Rightarrow> bool" where
  "same_objects s s' \<longleftrightarrow> (\<forall>a. map_option kind_of (g_heap s' a) = map_option kind_of (g_heap s a)) \<and> g_next s' = g_next s \<and>
     g_model s' = g_model s \<and> g_context s' = g_context s \<and> g_batch s' = g_batch s \<and> g_chat_templates s' = g_chat_templates s \<and>
     g_sampler s' = g_sampler s \<and> g_batch_initialized s' = g_batch_initialized s \<and>
     g_direct_batch_capacity s' = g_direct_batch_capacity s \<and> g_runtime_n_ctx s' = g_runtime_n_ctx s"

lemma same_objects_globals: "same_globals s s' \<Longrightarrow> same_objects s s'"
  by (auto simp: same_globals_def same_objects_def)

lemma same_objects_trans: "same_objects s s' \<Longrightarrow> same_objects s' s'' \<Longrightarrow> same_objects s s''"
  by (simp add: same_objects_def)

lemma same_objects_owned:
  assumes "same_objects s s'" "owned s"
  shows "owned s'"
proof -
  have h: "map_option kind_of (g_heap s' a) = map_option kind_of (g_heap s a)" for a using assms(1) by (simp add: same_objects_def)
  have eq: "g_next s' = g_next s" "g_batch s' = g_batch s" "g_batch_initialized s' = g_batch_initialized s" "slot s' = slot s"
    using assms(1) by (simp_all add: same_objects_def slot_def fun_eq_iff split: kind.split)
  show ?thesis using assms(2) unfolding owned_def owns_kinds h eq .
qed

lemma same_objects_deref:
  assumes "same_objects s s'" "deref p s = Inr x"
  shows "\<exists>y. deref p s' = Inr y"
proof -
  obtain a where a: "p = Some a" "g_heap s a = Some x" using assms(2) by (auto simp: deref_def split: option.splits)
  then have "map_option kind_of (g_heap s' a) \<noteq> None" using assms(1) by (simp add: same_objects_def)
  then show ?thesis using a(1) by (auto simp: deref_def)
qed

lemma same_objects_resources:
  assumes "same_objects s s'" "resources s"
  shows "resources s'"
proof -
  obtain x y z where "deref (g_sampler s) s = Inr x" "deref (g_model s) s = Inr y" "deref (g_chat_templates s) s = Inr z"
    using assms(2) unfolding resources_def by blast
  note this [THEN same_objects_deref [OF assms(1)]]
  moreover have "g_sampler s' = g_sampler s" "g_model s' = g_model s" "g_chat_templates s' = g_chat_templates s"
    using assms(1) by (simp_all add: same_objects_def)
  ultimately show ?thesis unfolding resources_def by simp
qed

section \<open>The steps of an answer\<close>

text \<open>The texts of the errors that a loaded engine can report.\<close>

definition infer_errors :: "string set" where
  "infer_errors = direct_error ` {''cancelled'', ''timeout'', ''tokenization failed'', ''prompt too large'', ''prefill decode failed'', ''token decode failed''}"

lemma check_abort_result:
  "\<exists>e f w'. check_abort nv timeout_ms started s w = (e, s\<lparr>g_direct_cancel_requested := f\<rparr>, w') \<and> (\<forall>x. e = Some x \<longrightarrow> x \<in> infer_errors)"
proof -
  obtain c w1 where c: "nv_cancel nv w = (c, w1)" by (metis prod.collapse)
  obtain t w2 where t: "is_timed_out nv timeout_ms started w1 = (t, w2)" by (metis prod.collapse)
  let ?f = "c \<or> g_direct_cancel_requested s"
  have "(if c then nativeCancel s else s) = s\<lparr>g_direct_cancel_requested := ?f\<rparr>" by (simp add: nativeCancel_def)
  then have "cancel_requested nv s w = (?f, s\<lparr>g_direct_cancel_requested := ?f\<rparr>, w1)" by (simp add: cancel_requested_def c)
  then have "check_abort nv timeout_ms started s w = (if ?f then (Some (direct_error ''cancelled''), s\<lparr>g_direct_cancel_requested := ?f\<rparr>, w1)
      else (if t then Some (direct_error ''timeout'') else None, s\<lparr>g_direct_cancel_requested := ?f\<rparr>, w2))"
    unfolding check_abort_def by (simp only: prod.case Let_def t)
  moreover have "direct_error ''cancelled'' \<in> infer_errors" "direct_error ''timeout'' \<in> infer_errors" by (simp_all add: infer_errors_def)
  ultimately show ?thesis by (cases ?f; cases t) (simp_all only: if_True if_False, blast+)
qed

lemma cancel_flag_frame:
  "same_objects s (s\<lparr>g_direct_cancel_requested := f\<rparr>)" "holding V cap P (s\<lparr>g_direct_cancel_requested := f\<rparr>) = holding V cap P s"
  "session V cap n (s\<lparr>g_direct_cancel_requested := f\<rparr>) = session V cap n s"
  "has_logits (s\<lparr>g_direct_cancel_requested := f\<rparr>) = has_logits s"
  by (simp add: same_objects_def) (rule frame_session; simp)+

lemma check_abort_cases:
  obtains (stop) x f w1 where "check_abort nv timeout_ms started s w = (Some x, s\<lparr>g_direct_cancel_requested := f\<rparr>, w1)" "x \<in> infer_errors"
  | (go) f w1 where "check_abort nv timeout_ms started s w = (None, s\<lparr>g_direct_cancel_requested := f\<rparr>, w1)"
proof -
  obtain e f w1 where a: "check_abort nv timeout_ms started s w = (e, s\<lparr>g_direct_cancel_requested := f\<rparr>, w1)" "\<forall>x. e = Some x \<longrightarrow> x \<in> infer_errors"
    using check_abort_result [of nv timeout_ms started s w] by (elim exE conjE)
  show thesis
  proof (cases e)
    case None
    from go [OF a(1) [unfolded None]] show thesis .
  next
    case (Some x)
    have "x \<in> infer_errors" using a(2) Some by simp
    from stop [OF a(1) [unfolded Some] this] show thesis .
  qed
qed

lemma prefill_result:
  fixes nv :: "'w native"
  assumes "computes_rows (nv_engine nv)" "list_all (valid_token V) tokens" "int (length tokens) \<le> LLAMA_POS_MAX" "max 1 chunk \<le> cap"
    and "session V cap (int i) s" "i \<le> length tokens"
  shows "\<exists>e s' w'. prefill_loop nv timeout_ms started tokens chunk i s w = Inr (e, s', w') \<and> same_objects s s' \<and>
    (\<exists>m. session V cap m s') \<and> (\<forall>x. e = Some x \<longrightarrow> x \<in> infer_errors) \<and>
    (e = None \<longrightarrow> session V cap (int (length tokens)) s' \<and> (i < length tokens \<longrightarrow> has_logits s'))"
  using assms(5,6)
proof (induction "length tokens - i" arbitrary: i s w rule: less_induct)
  case less
  show ?case
  proof (cases "i < length tokens")
    case False
    then have "prefill_loop nv timeout_ms started tokens chunk i s w = Inr (None, s, w)" by (simp add: prefill_loop.simps)
    then show ?thesis using False less.prems by (auto simp: same_objects_def)
  next
    case True
    show ?thesis
    proof (cases rule: check_abort_cases [of nv timeout_ms started s w])
      case (stop x f w1)
      then have "prefill_loop nv timeout_ms started tokens chunk i s w = Inr (Some x, s\<lparr>g_direct_cancel_requested := f\<rparr>, w1)"
        using True by (simp add: prefill_loop.simps)
      then show ?thesis using stop(2) less.prems(1) cancel_flag_frame(1) [where s = s and f = f] cancel_flag_frame(3) [where s = s and f = f] by auto
    next
      case (go f w1)
      let ?s1 = "s\<lparr>g_direct_cancel_requested := f\<rparr>"
      have s1: "session V cap (int i) ?s1" using less.prems(1) cancel_flag_frame(3) by blast
      define cur where "cur = min (max 1 chunk) (length tokens - i)"
      have cur: "0 < cur" "i + cur \<le> length tokens" "cur \<le> cap" using True assms(4) by (auto simp: cur_def)
      let ?es = "map (\<lambda>j. (tokens ! (i + j), int (i + j), i + j = length tokens - 1)) [0..<cur]"
      have es: "?es \<noteq> []" "length ?es = cur" "consecutive (int i) ?es" "list_all (\<lambda>(t, _). valid_token V t) ?es"
        "snd (snd (last ?es)) \<longleftrightarrow> i + cur = length tokens"
        using prompt_entries [OF assms(2) cur(1,2), of 0 True] by (simp_all only: add_0 of_nat_add simp_thms)
      obtain s2 where s2: "batch_clear ?s1 = Inr s2" "same_globals ?s1 s2" "session V cap (int i) s2" "cleared s2"
        using batch_clear_session [OF s1] by blast
      have "int i + int (length ?es) \<le> LLAMA_POS_MAX" "length ?es \<le> cap" using cur assms(3) by simp_all
      from decode_step [OF s2(3,4) assms(1) es(1) this(2) es(3,4) this(1), of w1]
      obtain s3 r s4 w2 j where st: "batch_add ?es s2 = Inr s3" "chat_decode nv s3 w1 = Inr (r, s4, w2)" "same_globals s2 s4"
        "session V cap (int i + int j) s4" "r = 0 \<longleftrightarrow> j = cur" "r = 0 \<and> snd (snd (last ?es)) \<longrightarrow> has_logits s4"
        unfolding es(2) by blast
      have g: "same_objects s s4"
        using cancel_flag_frame(1) same_objects_globals [OF same_globals_trans [OF s2(2) st(3)]] by (rule same_objects_trans)
      obtain t w3 where t: "is_timed_out nv timeout_ms started w2 = (t, w3)" by (metis prod.collapse)
      have loop: "prefill_loop nv timeout_ms started tokens chunk i s w =
          (if r \<noteq> 0 then Inr (Some (direct_error ''prefill decode failed''), s4, w2)
           else if t then Inr (Some (direct_error ''timeout''), s4, w3)
           else prefill_loop nv timeout_ms started tokens chunk (i + max 1 chunk) s4 w3)"
        unfolding prefill_loop.simps [of nv timeout_ms started tokens chunk i s w]
        by (simp only: True if_True go prod.case option.case Let_def cur_def [symmetric] s2(1) bind_outcome_simps st(1,2) t)
      show ?thesis
      proof (cases "r = 0 \<and> \<not> t")
        case False
        then show ?thesis using loop g st(4) by (auto simp: infer_errors_def)
      next
        case ok: True
        then have j: "j = cur" using st(5) by simp
        have next_loop: "prefill_loop nv timeout_ms started tokens chunk i s w = prefill_loop nv timeout_ms started tokens chunk (i + max 1 chunk) s4 w3"
          using loop ok by simp
        show ?thesis
        proof (cases "i + max 1 chunk < length tokens")
          case True
          then have c: "cur = max 1 chunk" by (simp add: cur_def)
          have "session V cap (int (i + max 1 chunk)) s4" "length tokens - (i + max 1 chunk) < length tokens - i" "i + max 1 chunk \<le> length tokens"
            using st(4) j c True by simp_all
          from less.hyps [OF this(2,1,3), of w3] show ?thesis unfolding next_loop using same_objects_trans [OF g] True by blast
        next
          case False
          then have e: "i + cur = length tokens" using \<open>i < length tokens\<close> by (auto simp: cur_def)
          have "prefill_loop nv timeout_ms started tokens chunk (i + max 1 chunk) s4 w3 = Inr (None, s4, w3)"
            using False by (simp add: prefill_loop.simps)
          then show ?thesis unfolding next_loop using g st(4,6) j e es(5) ok by (auto simp flip: of_nat_add)
        qed
      qed
    qed
  qed
qed

text \<open>The text of tokens, and the answer it stands for: its first complete object, or all of it.\<close>

definition text_of :: "'w native \<Rightarrow> llama_token list \<Rightarrow> string" where
  "text_of nv ts = concat (map (nv_piece nv) ts)"

definition answer_of :: "string \<Rightarrow> string" where
  "answer_of output = (case try_extract_complete_json_object output of None \<Rightarrow> output | Some json \<Rightarrow> json)"

lemma generate_result:
  fixes nv :: "'w native"
  assumes "native_ok V nv"
    and "session V cap (current_position s) s" "has_logits s" "resources s" "current_position s + int n \<le> LLAMA_POS_MAX"
    and "try_extract_complete_json_object output = None"
  shows "\<exists>r s' w'. generate_loop nv timeout_ms started n output s w = Inr (r, s', w') \<and> same_objects s s' \<and> (\<exists>m. session V cap m s') \<and>
    (case r of Inl e \<Rightarrow> e \<in> infer_errors
     | Inr out \<Rightarrow> \<exists>ts. length ts \<le> n \<and> list_all (\<lambda>t. valid_token V t \<and> \<not> nv_is_eog nv t) ts \<and>
         (\<forall>k < length ts. try_extract_complete_json_object (output @ text_of nv (take k ts)) = None) \<and> out = answer_of (output @ text_of nv ts))"
  using assms(2-6)
proof (induction n arbitrary: "output" s w)
  case 0
  then show ?case by (intro exI [of _ "Inr output"] exI [of _ s] exI [of _ w]) (auto simp: same_objects_def text_of_def answer_of_def)
next
  case (Suc n)
  have rows: "computes_rows (nv_engine nv)" using assms(1) by (simp add: native_ok_def)
  show ?case
  proof (cases rule: check_abort_cases [of nv timeout_ms started s w])
    case (stop x f w1)
    let ?s1 = "s\<lparr>g_direct_cancel_requested := f\<rparr>"
    have "generate_loop nv timeout_ms started (Suc n) output s w = Inr (Inl x, ?s1, w1)" using stop(1) by simp
    then show ?thesis using stop(2) Suc.prems(1) cancel_flag_frame(1) [where s = s and f = f] cancel_flag_frame(3) [where s = s and f = f]
      by (intro exI [of _ "Inl x"] exI [of _ ?s1] exI [of _ w1]) auto
  next
    case (go f w1)
    let ?s1 = "s\<lparr>g_direct_cancel_requested := f\<rparr>"
    have s1: "session V cap (current_position s) ?s1" "has_logits ?s1" "same_objects s ?s1"
      using Suc.prems(1,2) cancel_flag_frame by blast+
    have res1: "resources ?s1" by (rule same_objects_resources [OF s1(3) Suc.prems(3)])
    obtain x where "deref (g_sampler ?s1) ?s1 = Inr x" using res1 unfolding resources_def by blast
    from sample_step [OF _ s1(2) this assms(1), of cap "{0..<current_position s}" w1] s1(1)
    obtain t s2 w2 where s2: "sample_token nv ?s1 w1 = Inr (t, s2, w2)" "same_globals ?s1 s2" "holding V cap {0..<current_position s} s2" "valid_token V t"
      by (auto simp: session_def)
    note o2 = same_objects_trans [OF s1(3) same_objects_globals [OF s2(2)]]
    have ses2: "session V cap (current_position s) s2" using s2(3) s1(1) by (simp add: session_def)
    obtain y where y: "deref (g_model s2) s2 = Inr y" using same_objects_resources [OF o2 Suc.prems(3)] unfolding resources_def by blast
    let ?out = "output @ nv_piece nv t"
    let ?rest = "bind_outcome (batch_clear s2) (\<lambda>s. bind_outcome (batch_add [(t, current_position s, True)] s) (\<lambda>s.
        bind_outcome (chat_decode nv s w2) (\<lambda>(r, s, w). let s = s\<lparr>current_position := current_position s + 1\<rparr>
          in if r \<noteq> 0 then Inr (Inl (direct_error ''token decode failed''), s, w) else generate_loop nv timeout_ms started n ?out s w)))"
    have run: "generate_loop nv timeout_ms started (Suc n) output s w =
      (if nv_is_eog nv t then Inr (Inr output, s2, w2)
       else case try_extract_complete_json_object ?out of Some j \<Rightarrow> Inr (Inr j, s2, w2) | None \<Rightarrow> ?rest)"
      unfolding generate_loop.simps(2) go prod.case option.case s2(1) bind_outcome_simps y Let_def ..
    consider (eog) "nv_is_eog nv t" | (json) j where "\<not> nv_is_eog nv t" "try_extract_complete_json_object ?out = Some j"
      | (on) "\<not> nv_is_eog nv t" "try_extract_complete_json_object ?out = None" by (cases "try_extract_complete_json_object ?out") auto
    then show ?thesis
    proof cases
      case eog
      then have "generate_loop nv timeout_ms started (Suc n) output s w = Inr (Inr output, s2, w2)" using run by simp
      moreover have "output = answer_of (output @ text_of nv [])" using Suc.prems(5) by (simp add: answer_of_def text_of_def)
      ultimately show ?thesis using o2 ses2 by (intro exI [of _ "Inr output"] exI [of _ s2] exI [of _ w2]) (auto intro!: exI [of _ "[]"])
    next
      case json
      then have "generate_loop nv timeout_ms started (Suc n) output s w = Inr (Inr j, s2, w2)" using run by simp
      moreover have "j = answer_of (output @ text_of nv [t])" "try_extract_complete_json_object (output @ text_of nv []) = None"
        using json Suc.prems(5) by (simp_all add: answer_of_def text_of_def)
      ultimately show ?thesis using o2 ses2 s2(4) json(1)
        by (intro exI [of _ "Inr j"] exI [of _ s2] exI [of _ w2]) (auto intro!: exI [of _ "[t]"])
    next
      case on
      obtain s3 where s3: "batch_clear s2 = Inr s3" "same_globals s2 s3" "session V cap (current_position s) s3" "cleared s3"
        using batch_clear_session [OF ses2] by blast
      have p3: "current_position s3 = current_position s" using same_globalsD(1) [OF s3(2)] same_globalsD(1) [OF s2(2)] by simp
      let ?es = "[(t, current_position s3, True)]"
      have cap: "0 < cap" using ses2 by (auto simp: session_def holding_def)
      have es: "?es \<noteq> []" "length ?es \<le> cap" "consecutive (current_position s) ?es" "list_all (\<lambda>(t, _). valid_token V t) ?es"
        "current_position s + int (length ?es) \<le> LLAMA_POS_MAX"
        using s2(4) p3 cap Suc.prems(4) by (simp_all add: consecutive_def)
      from decode_step [OF s3(3,4) rows es, of w2]
      obtain s4 r s5 w5 j where s5: "batch_add ?es s3 = Inr s4" "chat_decode nv s4 w2 = Inr (r, s5, w5)" "same_globals s3 s5"
        "session V cap (current_position s + int j) s5" "r = 0 \<longleftrightarrow> j = length ?es" "r = 0 \<and> snd (snd (last ?es)) \<longrightarrow> has_logits s5"
        by blast
      let ?s6 = "s5\<lparr>current_position := current_position s5 + 1\<rparr>"
      have p6: "current_position ?s6 = current_position s + 1" using same_globalsD(1) [OF s5(3)] p3 by simp
      have o6: "same_objects s ?s6"
        using same_objects_trans [OF o2 same_objects_globals [OF same_globals_trans [OF s3(2) s5(3)]]] by (simp add: same_objects_def)
      have ses6: "session V cap (current_position s + int j) ?s6" using s5(4) frame_session(5) [of ?s6 s5] by simp
      have run': "generate_loop nv timeout_ms started (Suc n) output s w =
          (if r \<noteq> 0 then Inr (Inl (direct_error ''token decode failed''), ?s6, w5) else generate_loop nv timeout_ms started n ?out ?s6 w5)"
        using run on s3(1) s5(1,2) by (simp del: generate_loop.simps add: Let_def)
      show ?thesis
      proof (cases "r = 0")
        case False
        then have "generate_loop nv timeout_ms started (Suc n) output s w = Inr (Inl (direct_error ''token decode failed''), ?s6, w5)" using run' by simp
        then show ?thesis using o6 ses6
          by (intro exI [of _ "Inl (direct_error ''token decode failed'')"] exI [of _ ?s6] exI [of _ w5]) (auto simp: infer_errors_def)
      next
        case True
        have "session V cap (current_position ?s6) ?s6" "has_logits ?s6" "current_position ?s6 + int n \<le> LLAMA_POS_MAX"
          using True ses6 s5(5,6) p6 frame_session(6) [of ?s6 s5] Suc.prems(4) by simp_all
        from Suc.IH [OF this(1,2) same_objects_resources [OF o6 Suc.prems(3)] this(3) on(2), of w5]
        obtain q s' w' where IH: "generate_loop nv timeout_ms started n ?out ?s6 w5 = Inr (q, s', w')" "same_objects ?s6 s'" "\<exists>m. session V cap m s'"
          "case q of Inl e \<Rightarrow> e \<in> infer_errors
           | Inr out \<Rightarrow> \<exists>ts. length ts \<le> n \<and> list_all (\<lambda>t. valid_token V t \<and> \<not> nv_is_eog nv t) ts \<and>
               (\<forall>k < length ts. try_extract_complete_json_object (?out @ text_of nv (take k ts)) = None) \<and> out = answer_of (?out @ text_of nv ts)"
          by blast
        have res: "generate_loop nv timeout_ms started (Suc n) output s w = Inr (q, s', w')" using run' True IH(1) by simp
        show ?thesis
        proof (cases q)
          case (Inl e)
          then show ?thesis using res IH(3,4) same_objects_trans [OF o6 IH(2)] by (intro exI [of _ "Inl e"] exI [of _ s'] exI [of _ w']) auto
        next
          case (Inr out)
          then obtain ts where ts: "length ts \<le> n" "list_all (\<lambda>t. valid_token V t \<and> \<not> nv_is_eog nv t) ts"
            "\<forall>k < length ts. try_extract_complete_json_object (?out @ text_of nv (take k ts)) = None" "out = answer_of (?out @ text_of nv ts)"
            using IH(4) by auto
          have "try_extract_complete_json_object (output @ text_of nv (take k (t # ts))) = None" if "k < length (t # ts)" for k
            using that ts(3) Suc.prems(5) by (cases k) (auto simp: text_of_def)
          moreover have "out = answer_of (output @ text_of nv (t # ts))" using ts(4) by (simp add: text_of_def)
          ultimately show ?thesis using res IH(3) Inr same_objects_trans [OF o6 IH(2)] ts(1,2) s2(4) on(1)
            by (intro exI [of _ "Inr out"] exI [of _ s'] exI [of _ w']) (auto intro!: exI [of _ "t # ts"])
        qed
      qed
    qed
  qed
qed

section \<open>An answer\<close>

text \<open>An engine after a successful \<open>nativeLoadModel\<close>, at any later time.\<close>

definition loaded :: "nat \<Rightarrow> nat \<Rightarrow> chat \<Rightarrow> bool" where
  "loaded V cap s \<longleftrightarrow> (\<exists>P. holding V cap P s) \<and> resources s \<and> g_batch_initialized s"

lemma deref_not_null: "deref p s = Inr x \<Longrightarrow> p \<noteq> None"
  by (auto simp: deref_def split: option.splits)

lemma loaded_session: "same_objects s0 s \<Longrightarrow> loaded V cap s0 \<Longrightarrow> session V cap n s \<Longrightarrow> loaded V cap s"
  using same_objects_resources by (auto simp: loaded_def session_def same_objects_def)

lemma direct_prompt_ok:
  assumes "resources s"
  shows "\<exists>p m w'. direct_prompt nv sys usr s w = Inr (p, s\<lparr>chat_msgs := m\<rparr>, w')"
proof -
  obtain z where z: "deref (g_chat_templates s) s = Inr z" using assms unfolding resources_def by blast
  have add: "\<exists>p m' w'. chat_add_and_format nv role str (s\<lparr>chat_msgs := m\<rparr>) w = Inr (p, s\<lparr>chat_msgs := m'\<rparr>, w')" for role str m w
  proof -
    have h: "g_heap (s\<lparr>chat_msgs := m\<rparr>) = g_heap s" by simp
    have "deref (g_chat_templates s) (s\<lparr>chat_msgs := m\<rparr>) = Inr z" using z unfolding deref_def h .
    then show ?thesis by (simp add: chat_add_and_format_def case_prod_beta) (rule exI, rule refl)
  qed
  have opt: "\<exists>p m' w'. (if str \<noteq> [] then chat_add_and_format nv role str (s\<lparr>chat_msgs := m\<rparr>) w else Inr ([], s\<lparr>chat_msgs := m\<rparr>, w)) =
      Inr (p, s\<lparr>chat_msgs := m'\<rparr>, w')" for role str m w
    using add [of role str m w] by (cases "str = []") auto
  have "s\<lparr>chat_msgs := chat_msgs s\<rparr> = s" by simp
  then obtain p1 m1 w1 where 1: "(if sys \<noteq> [] then chat_add_and_format nv ''system'' sys s w else Inr ([], s, w)) = Inr (p1, s\<lparr>chat_msgs := m1\<rparr>, w1)"
    using opt [of sys "''system''" "chat_msgs s" w] by metis
  obtain p2 m2 w2 where 2: "(if usr \<noteq> [] then chat_add_and_format nv ''user'' usr (s\<lparr>chat_msgs := m1\<rparr>) w1 else Inr ([], s\<lparr>chat_msgs := m1\<rparr>, w1)) =
      Inr (p2, s\<lparr>chat_msgs := m2\<rparr>, w2)" using opt [of usr "''user''" m1 w1] by blast
  show ?thesis unfolding direct_prompt_def 1 bind_outcome_simps prod.case 2 Let_def by blast
qed

definition is_answer :: "'w native \<Rightarrow> nat \<Rightarrow> int \<Rightarrow> string \<Rightarrow> bool" where
  "is_answer nv V n_predict out \<longleftrightarrow> (\<exists>ts. int (length ts) \<le> max 0 n_predict \<and> list_all (\<lambda>t. valid_token V t \<and> \<not> nv_is_eog nv t) ts \<and>
     (\<forall>k < length ts. try_extract_complete_json_object (text_of nv (take k ts)) = None) \<and> out = c_str (answer_of (text_of nv ts)))"

lemma infer_prompt_result:
  fixes nv :: "'w native"
  assumes "native_ok V nv" "session V cap n s" "loaded V cap s" "g_runtime_n_ctx s + max 0 n_predict \<le> LLAMA_POS_MAX"
  shows "\<exists>out s' w'. infer_prompt nv prompt n_predict timeout_ms started s w = Inr (out, s', w') \<and> same_objects s s' \<and> loaded V cap s' \<and>
    (out \<in> infer_errors \<or> is_answer nv V n_predict out)"
proof -
  let ?goal = "\<lambda>r. \<exists>out s' w'. r = Inr (out, s', w') \<and> same_objects s s' \<and> loaded V cap s' \<and> (out \<in> infer_errors \<or> is_answer nv V n_predict out)"
  have finish: "?goal (Inr (out, s', w'))" if "same_objects s s'" "session V cap m s'" "out \<in> infer_errors \<or> is_answer nv V n_predict out"
    for out s' w' m using that loaded_session [OF that(1) assms(3) that(2)] by blast
  have rows: "computes_rows (nv_engine nv)" using assms(1) by (simp add: native_ok_def)
  show "?goal (infer_prompt nv prompt n_predict timeout_ms started s w)"
  proof (cases rule: check_abort_cases [of nv timeout_ms started s w])
    case (stop x f w1)
    have "infer_prompt nv prompt n_predict timeout_ms started s w = Inr (x, s\<lparr>g_direct_cancel_requested := f\<rparr>, w1)"
      unfolding infer_prompt_def stop(1) prod.case option.case ..
    then show ?thesis using finish [OF cancel_flag_frame(1)] cancel_flag_frame(3) assms(2) stop(2) by metis
  next
    case (go f w1)
    let ?s1 = "s\<lparr>g_direct_cancel_requested := f\<rparr>"
    have h1: "holding V cap {0..<n} ?s1" using assms(2) cancel_flag_frame(2) unfolding session_def by blast
    have clear: "\<exists>k'. Inr (kv_clear k) = (Inr k' :: kv_cache outcome) \<and> cache_inv k' \<and> same_frame k k' \<and> kv_positions k' 0 = {}"
      if "cache_inv k" "valid_seq k 0" for k using kv_clear_spec [OF that(1)] that(2) by (auto simp: valid_seq_def)
    obtain s2 where s2: "on_memory (\<lambda>k. Inr (kv_clear k)) ?s1 = Inr s2" "same_globals ?s1 s2" "holding V cap {} s2"
      using on_memory_holding [OF h1, of "\<lambda>k. Inr (kv_clear k)" "{}"] clear by blast
    note o2 = same_objects_trans [OF cancel_flag_frame(1) same_objects_globals [OF s2(2)]]
    have ses2: "session V cap 0 s2" using s2(3) by (simp add: session_def)
    show ?thesis
    proof (cases rule: check_abort_cases [of nv timeout_ms started s2 "nv_reset nv w1"])
      case (stop x f2 w2)
      have "infer_prompt nv prompt n_predict timeout_ms started s w = Inr (x, s2\<lparr>g_direct_cancel_requested := f2\<rparr>, w2)"
        unfolding infer_prompt_def go prod.case option.case s2(1) bind_outcome_simps Let_def stop(1) ..
      then show ?thesis using finish [OF same_objects_trans [OF o2 cancel_flag_frame(1)]] cancel_flag_frame(3) ses2 stop(2) by metis
    next
      case (go f2 w2)
      let ?s3 = "s2\<lparr>g_direct_cancel_requested := f2\<rparr>"
      note o3 = same_objects_trans [OF o2 cancel_flag_frame(1) [where f = f2]]
      have ses3: "session V cap 0 ?s3" using ses2 cancel_flag_frame(3) by blast
      define tokens where "tokens = nv_tokenize nv prompt True True"
      have valid: "list_all (valid_token V) tokens" using assms(1) by (simp add: native_ok_def tokens_def)
      have n_ctx: "g_runtime_n_ctx ?s3 = g_runtime_n_ctx s" "g_batch_initialized ?s3"
        using o3 assms(3) unfolding same_objects_def loaded_def by blast+
      define chunk where "chunk = nat (max 1 (min DIRECT_PREFILL_CHUNK (min (int (length tokens)) (g_direct_batch_capacity ?s3))))"
      let ?rest = "bind_outcome (prefill_loop nv timeout_ms started tokens chunk 0 ?s3 w2) (\<lambda>(e, s, w). case e of
          Some e \<Rightarrow> Inr (e, s, w)
        | None \<Rightarrow> bind_outcome (generate_loop nv timeout_ms started (nat n_predict) [] (s\<lparr>current_position := int (length tokens)\<rparr>) w)
            (\<lambda>(r, s, w). Inr (case r of Inl e \<Rightarrow> e | Inr output \<Rightarrow> c_str output, s, w)))"
      have run: "infer_prompt nv prompt n_predict timeout_ms started s w =
         (if tokens = [] then Inr (direct_error ''tokenization failed'', ?s3, w2)
          else if int (length tokens) \<ge> g_runtime_n_ctx s then Inr (direct_error ''prompt too large'', ?s3, w2)
          else ?rest)"
        unfolding infer_prompt_def \<open>check_abort nv timeout_ms started s w = _\<close> prod.case option.case s2(1) bind_outcome_simps Let_def go
          n_ctx(1) tokens_def [symmetric] chunk_def using n_ctx(2) by simp
      consider (err) x where "infer_prompt nv prompt n_predict timeout_ms started s w = Inr (direct_error x, ?s3, w2)" "direct_error x \<in> infer_errors"
        | (ok) "tokens \<noteq> []" "int (length tokens) < g_runtime_n_ctx s" "infer_prompt nv prompt n_predict timeout_ms started s w = ?rest"
        using run by (auto simp: infer_errors_def split: if_splits)
      then show ?thesis
      proof cases
        case (err x)
        then show ?thesis using finish [OF o3 ses3] by metis
      next
        case ok
        have cap: "max 1 chunk \<le> cap"
          using ses3 by (auto simp: chunk_def DIRECT_PREFILL_CHUNK_def session_def holding_def)
        have len: "int (length tokens) \<le> LLAMA_POS_MAX" using ok(2) assms(4) by linarith
        have ses0: "session V cap (int 0) ?s3" "0 \<le> length tokens" using ses3 by simp_all
        obtain e s4 w4 where pf: "prefill_loop nv timeout_ms started tokens chunk 0 ?s3 w2 = Inr (e, s4, w4)" "same_objects ?s3 s4"
          "\<exists>m. session V cap m s4" "\<forall>x. e = Some x \<longrightarrow> x \<in> infer_errors"
          "e = None \<longrightarrow> session V cap (int (length tokens)) s4 \<and> (0 < length tokens \<longrightarrow> has_logits s4)"
          using prefill_result [OF rows valid len cap ses0, of timeout_ms started w2] by blast
        note o4 = same_objects_trans [OF o3 pf(2)]
        show ?thesis
        proof (cases e)
          case (Some x)
          then have "infer_prompt nv prompt n_predict timeout_ms started s w = Inr (x, s4, w4)" using ok(3) pf(1) by simp
          then show ?thesis using finish [OF o4] pf(3,4) Some by metis
        next
          case None
          let ?s5 = "s4\<lparr>current_position := int (length tokens)\<rparr>"
          have o5: "same_objects s ?s5" using o4 by (simp add: same_objects_def)
          have ses5: "session V cap (current_position ?s5) ?s5" "has_logits ?s5"
            using pf(5) None ok(1) frame_session(5,6) [of ?s5 s4] by simp_all
          have res5: "resources ?s5" using same_objects_resources [OF o5] assms(3) by (simp add: loaded_def)
          have bound: "current_position ?s5 + int (nat n_predict) \<le> LLAMA_POS_MAX" using ok(2) assms(4) by simp linarith
          have j0: "try_extract_complete_json_object [] = None" by (simp add: try_extract_complete_json_object_def)
          obtain q s6 w6 where g: "generate_loop nv timeout_ms started (nat n_predict) [] ?s5 w4 = Inr (q, s6, w6)" "same_objects ?s5 s6"
            "\<exists>m. session V cap m s6"
            "case q of Inl e \<Rightarrow> e \<in> infer_errors
             | Inr out \<Rightarrow> \<exists>ts. length ts \<le> nat n_predict \<and> list_all (\<lambda>t. valid_token V t \<and> \<not> nv_is_eog nv t) ts \<and>
                 (\<forall>k < length ts. try_extract_complete_json_object ([] @ text_of nv (take k ts)) = None) \<and> out = answer_of ([] @ text_of nv ts)"
            using generate_result [OF assms(1) ses5 res5 bound j0, of timeout_ms started w4] by blast
          have "infer_prompt nv prompt n_predict timeout_ms started s w = Inr (case q of Inl e \<Rightarrow> e | Inr output \<Rightarrow> c_str output, s6, w6)"
            using ok(3) pf(1) None g(1) by simp
          moreover have "(case q of Inl e \<Rightarrow> e | Inr output \<Rightarrow> c_str output) \<in> infer_errors \<or>
              is_answer nv V n_predict (case q of Inl e \<Rightarrow> e | Inr output \<Rightarrow> c_str output)"
          proof (cases q)
            case (Inr out)
            then obtain ts where "length ts \<le> nat n_predict" "list_all (\<lambda>t. valid_token V t \<and> \<not> nv_is_eog nv t) ts"
              "\<forall>k < length ts. try_extract_complete_json_object (text_of nv (take k ts)) = None" "out = answer_of (text_of nv ts)"
              using g(4) by auto
            then show ?thesis unfolding Inr is_answer_def by (intro disjI2 exI [of _ ts]) auto
          qed (use g(4) in simp)
          ultimately show ?thesis using finish [OF same_objects_trans [OF o5 g(2)]] g(3) by metis
        qed
      qed
    qed
  qed
qed

lemma infer_loaded:
  fixes nv :: "'w native"
  assumes "native_ok V nv" "loaded V cap s" "g_runtime_n_ctx s + max 0 n_predict \<le> LLAMA_POS_MAX"
  shows "\<exists>out s' w'. nativeInfer nv sys usr n_predict timeout_ms s w = Inr (out, s', w') \<and> same_objects s s' \<and> loaded V cap s' \<and>
    (out \<in> infer_errors \<or> is_answer nv V n_predict out)"
proof -
  let ?s0 = "s\<lparr>g_direct_cancel_requested := False\<rparr>"
  obtain P where P: "holding V cap P s" "resources s" using assms(2) by (auto simp: loaded_def)
  have h0: "holding V cap P ?s0" using P(1) cancel_flag_frame(2) by blast
  obtain s1 where s1: "reset_long_term_states ?s0 = Inr s1" "session V cap 0 s1"
    "same_globals (?s0\<lparr>chat_msgs := [], system_prompt_position := 0, current_position := 0\<rparr>) s1"
    using reset_session [OF h0] by blast
  have o1: "same_objects s s1" using same_objects_globals [OF s1(3)] by (simp add: same_objects_def)
  obtain p m w1 where p: "direct_prompt nv (chars_or_empty sys) (chars_or_empty usr) s1 w = Inr (p, s1\<lparr>chat_msgs := m\<rparr>, w1)"
    using direct_prompt_ok [OF same_objects_resources [OF o1 P(2)], of nv "chars_or_empty sys" "chars_or_empty usr" w] by (elim exE)
  let ?s2 = "s1\<lparr>chat_msgs := m\<rparr>"
  have o2: "same_objects s ?s2" using o1 by (simp add: same_objects_def)
  have ses: "session V cap 0 ?s2" using s1(2) frame_session(5) [of ?s2 s1] by simp
  have n: "g_runtime_n_ctx ?s2 + max 0 n_predict \<le> LLAMA_POS_MAX" using o2 assms(3) by (simp add: same_objects_def)
  obtain now w2 where now: "nv_now nv w1 = (now, w2)" by (metis prod.collapse)
  have live: "\<not> (g_model s = None \<or> g_context s = None \<or> g_sampler s = None)"
    using P deref_not_null by (auto simp: holding_def the_context_iff resources_def)
  have "nativeInfer nv sys usr n_predict timeout_ms s w = infer_prompt nv p n_predict timeout_ms now ?s2 w2"
    by (simp only: nativeInfer_def live if_False s1(1) bind_outcome_simps p prod.case now Let_def)
  then show ?thesis
    using infer_prompt_result [OF assms(1) ses loaded_session [OF o2 assms(2) ses] n, of p timeout_ms now w2] same_objects_trans [OF o2] by metis
qed

text \<open>
  C4. \<open>nativeInfer\<close> on a loaded engine (on an unloaded one it returns a seventh text) always returns, and never touches a freed object: it
  returns one of six error texts, or the text of at most \<open>n_predict\<close> tokens none of which ends
  the generation. If that text has a complete JSON object, the answer is the object, and no token
  was generated after the object was complete. No object is created or freed, and the
  engine is ready for the next call, also after an error.
\<close>

theorem infer_answer:
  fixes nv :: "'w native"
  assumes "native_ok V nv" "loaded V cap s" "g_runtime_n_ctx s + max 0 n_predict \<le> LLAMA_POS_MAX"
  shows "\<exists>out s' w'. nativeInfer nv sys usr n_predict timeout_ms s w = Inr (out, s', w') \<and> same_objects s s' \<and> loaded V cap s' \<and>
    (out \<in> infer_errors \<or> (\<exists>ts. int (length ts) \<le> max 0 n_predict \<and> list_all (\<lambda>t. valid_token V t \<and> \<not> nv_is_eog nv t) ts \<and>
       (\<forall>k < length ts. try_extract_complete_json_object (text_of nv (take k ts)) = None) \<and> out = c_str (answer_of (text_of nv ts))))"
  using infer_loaded [OF assms, of sys usr timeout_ms w] unfolding is_answer_def .

section \<open>The life of the bridge\<close>

text \<open>
  What the engine promises about the contexts it creates, for models whose cache has one stream and no sliding window:
  the vocabulary has all the tokens that tokenizer and sampler return, and the batch has the size that was asked for, cut to the
  size of the context (\<open>llama-context.cpp\<close>: \<open>std::min(cparams.n_ctx, params.n_batch)\<close>). A state of the bridge is reachable by
  the calls a client can make, in any order and with any arguments that fit 32-bit positions.
\<close>

definition contexts_ok :: "nat \<Rightarrow> 'w native \<Rightarrow> bool" where
  "contexts_ok V nv \<longleftrightarrow> (\<forall>n_ctx n_batch n_threads w c w'. nv_new_context nv n_ctx n_batch n_threads w = (Some c, w') \<longrightarrow>
     ctx_ok c \<and> V \<le> lc_n_vocab c \<and> (0 < n_ctx \<longrightarrow> min n_ctx n_batch \<le> int (lc_n_batch c)))"

inductive direct_reach :: "'w native \<Rightarrow> chat \<Rightarrow> bool" for nv :: "'w native" where
  start: "direct_reach nv initial_chat"
| load: "direct_reach nv s \<Longrightarrow> nativeLoadModel nv path n_ctx temp tmin tmax s w = Inr (r, s', w') \<Longrightarrow> direct_reach nv s'"
| cancel: "direct_reach nv s \<Longrightarrow> direct_reach nv (nativeCancel s)"
| infer: "direct_reach nv s \<Longrightarrow> g_runtime_n_ctx s + max 0 n_predict \<le> LLAMA_POS_MAX \<Longrightarrow>
    nativeInfer nv sys usr n_predict timeout_ms s w = Inr (out, s', w') \<Longrightarrow> direct_reach nv s'"
| unload: "direct_reach nv s \<Longrightarrow> nativeUnload s = Inr s' \<Longrightarrow> direct_reach nv s'"

definition direct_inv :: "nat \<Rightarrow> chat \<Rightarrow> bool" where
  "direct_inv V s \<longleftrightarrow> owned s \<and> (all_released s \<or> (\<exists>V' \<ge> V. \<exists>cap. loaded V' cap s))"

lemma all_loaded_loaded:
  assumes "owned s" "all_loaded s c cap" "ctx_ok c" "lc_n_vocab c = V" "cap \<le> int (lc_n_batch c)" "0 < cap"
  shows "loaded V (nat cap) s"
proof -
  have "holding V (nat cap) (kv_positions (lc_memory c) 0) s"
    using assms(2-6) by (simp add: holding_def all_loaded_def llama_batch_init_def batch_wf_def)
  moreover have "\<exists>x. deref p s = Inr x" if "slot s k = p" "p \<noteq> None" for k p
    using owns_target [of "slot s" "g_heap s" "g_next s" k] assms(1) that by (auto simp: owned_def deref_def)
  then have "resources s"
    using assms(2) by (simp add: resources_def all_loaded_def) (metis slot_kinds(1,3,4))
  moreover have "g_batch_initialized s" using assms(2) by (simp add: all_loaded_def)
  ultimately show ?thesis by (auto simp: loaded_def)
qed

lemma infer_inv:
  assumes "native_ok V nv" "direct_inv V s" "g_runtime_n_ctx s + max 0 n_predict \<le> LLAMA_POS_MAX"
  shows "\<exists>out s' w'. nativeInfer nv sys usr n_predict timeout_ms s w = Inr (out, s', w') \<and> direct_inv V s'"
proof (cases "all_released s")
  case True
  then have "nativeInfer nv sys usr n_predict timeout_ms s w = Inr (direct_error ''model not loaded'', s, w)"
    by (simp add: nativeInfer_def all_released_def)
  then show ?thesis using assms(2) by blast
next
  case False
  then obtain V' cap where l: "loaded V' cap s" "owned s" "V \<le> V'" using assms(2) by (auto simp: direct_inv_def)
  obtain out s' w' where "nativeInfer nv sys usr n_predict timeout_ms s w = Inr (out, s', w')" "same_objects s s'" "loaded V' cap s'"
    using infer_loaded [OF native_ok_mono [OF assms(1) l(3)] l(1) assms(3)] by blast
  then show ?thesis using same_objects_owned [OF _ l(2)] l(3) unfolding direct_inv_def by blast
qed

lemma load_inv:
  assumes "contexts_ok V nv" "direct_inv V s"
  shows "\<exists>r s' w'. nativeLoadModel nv path n_ctx temp tmin tmax s w = Inr (r, s', w') \<and> direct_inv V s'"
proof -
  define cap where "cap = max 16 (min DIRECT_MOBILE_BATCH_MAX (max 128 n_ctx))"
  have o: "owned s" using assms(2) by (simp add: direct_inv_def)
  obtain r s' w' where r: "nativeLoadModel nv path n_ctx temp tmin tmax s w = Inr (r, s', w')" "owned s'"
    "r = 0 \<and> (\<exists>c thr w1 w2. nv_new_context nv (max 128 n_ctx) cap thr w1 = (Some c, w2) \<and> all_loaded s' c cap) \<or>
     0 < r \<and> r \<le> 4 \<and> all_released s'"
    using load_outcome [OF o cap_def, of nv path temp tmin tmax w] by (elim exE conjE)
  have "\<exists>V' \<ge> V. \<exists>cap. loaded V' cap s'" if "nv_new_context nv (max 128 n_ctx) cap thr w1 = (Some c, w2)" "all_loaded s' c cap" for c thr w1 w2
  proof -
    have "ctx_ok c \<and> V \<le> lc_n_vocab c \<and> (0 < max 128 n_ctx \<longrightarrow> min (max 128 n_ctx) cap \<le> int (lc_n_batch c))"
      using assms(1) that(1) unfolding contexts_ok_def by blast
    moreover have "0 < cap" "min (max 128 n_ctx) cap = cap" by (simp_all add: cap_def)
    ultimately show ?thesis using all_loaded_loaded [OF r(2) that(2) _ refl] by auto
  qed
  then show ?thesis using r unfolding direct_inv_def by blast
qed

lemma direct_reach_inv:
  assumes "native_ok V nv" "contexts_ok V nv" "direct_reach nv s"
  shows "direct_inv V s"
  using assms(3)
proof (induction rule: direct_reach.induct)
  case start
  show ?case by (simp add: direct_inv_def initial_owned) (simp add: all_released_def initial_chat_def)
next
  case (load s path n_ctx temp tmin tmax w r s' w')
  obtain r2 s2 w2 where "nativeLoadModel nv path n_ctx temp tmin tmax s w = Inr (r2, s2, w2)" "direct_inv V s2"
    using load_inv [OF assms(2) load.IH, of path n_ctx temp tmin tmax w] by blast
  then show ?case using load.hyps by simp
next
  case (cancel s)
  have e: "nativeCancel s = s\<lparr>g_direct_cancel_requested := True\<rparr>" by (simp add: nativeCancel_def)
  have o: "same_objects s (nativeCancel s)" unfolding e by (rule cancel_flag_frame)
  have "all_released (nativeCancel s) = all_released s" by (simp add: e all_released_def)
  moreover have "loaded V' cap (nativeCancel s)" if "loaded V' cap s" for V' cap
    using that same_objects_resources [OF o] o cancel_flag_frame(2) unfolding loaded_def e same_objects_def by blast
  ultimately show ?case using cancel.IH same_objects_owned [OF o] unfolding direct_inv_def by blast
next
  case (infer s n_predict sys usr timeout_ms w out s' w')
  obtain out2 s2 w2 where "nativeInfer nv sys usr n_predict timeout_ms s w = Inr (out2, s2, w2)" "direct_inv V s2"
    using infer_inv [OF assms(1) infer.IH infer.hyps(2), of sys usr timeout_ms w] by blast
  then show ?case using infer.hyps(3) by simp
next
  case (unload s s')
  have "only {} s'" using nativeUnload_only [of s] unload unfolding direct_inv_def by auto
  then show ?case using only_none unfolding direct_inv_def only_def by blast
qed

text \<open>
  C2. Whatever a client of the direct bridge does, in whatever order and whatever the engine, the
  model file, the clock and the other threads answer: every call returns. No call uses or frees an object
  that is gone, no assertion fails, and at every moment either the model, a context, the templates, the sampler
  and a batch exist and are all usable, or no object exists at all. This is for models with a plain cache (one stream, no sliding
  window, one position per token), whose vocabularies, all of at least \<open>V\<close> tokens, have every token that the tokenizer
  and the sampler return, and for calls whose positions fit 32 bits.
\<close>

theorem direct_never_faults:
  assumes "native_ok V nv" "contexts_ok V nv" "direct_reach nv s"
  shows "owned s \<and> (all_released s \<or> (\<exists>V' \<ge> V. \<exists>cap. loaded V' cap s)) \<and>
    (\<exists>r s' w'. nativeLoadModel nv path n_ctx temp tmin tmax s w = Inr (r, s', w') \<and> direct_reach nv s') \<and>
    (\<exists>s'. nativeUnload s = Inr s' \<and> direct_reach nv s') \<and>
    (g_runtime_n_ctx s + max 0 n_predict \<le> LLAMA_POS_MAX \<longrightarrow>
      (\<exists>out s' w'. nativeInfer nv sys usr n_predict timeout_ms s w = Inr (out, s', w') \<and> direct_reach nv s'))"
proof -
  note inv = direct_reach_inv [OF assms]
  have "\<exists>r s' w'. nativeLoadModel nv path n_ctx temp tmin tmax s w = Inr (r, s', w') \<and> direct_reach nv s'"
    using load_inv [OF assms(2) inv, of path n_ctx temp tmin tmax w] direct_reach.load [OF assms(3)] by blast
  moreover have "\<exists>s'. nativeUnload s = Inr s' \<and> direct_reach nv s'"
    using nativeUnload_only [of s] inv direct_reach.unload [OF assms(3)] unfolding direct_inv_def by blast
  moreover have "\<exists>out s' w'. nativeInfer nv sys usr n_predict timeout_ms s w = Inr (out, s', w') \<and> direct_reach nv s'"
    if n: "g_runtime_n_ctx s + max 0 n_predict \<le> LLAMA_POS_MAX"
    using infer_inv [OF assms(1) inv n, of sys usr timeout_ms w] direct_reach.infer [OF assms(3) n] by blast
  ultimately show ?thesis using inv unfolding direct_inv_def by blast
qed

section \<open>Examples\<close>

theorem infer_answer_witness:
  "\<exists>s out s' w'. loaded 10 4 s \<and> nativeInfer demo_native (Some ''sys'') (Some ''hello'') 3 0 s [3, 1, 2] = Inr (out, s', w') \<and>
    loaded 10 4 s' \<and> (out \<in> infer_errors \<or> (\<exists>ts. length ts \<le> 3 \<and> out = c_str (answer_of (text_of demo_native ts))))"
proof -
  obtain c where c: "ctx_ok c" "lc_n_vocab c = 10" "lc_n_batch c = 4" "kv_positions (lc_memory c) 0 = {0..<2}" using decoded_context by blast
  let ?s = "(demo_chat c 4)\<lparr>g_batch_initialized := True\<rparr>"
  have "chat_ready 10 4 (demo_chat c 4)" using demo_session(1) [OF c(1,2) _ _ c(4), of 4] c(3) by simp
  then have h: "holding 10 4 {0..<2} (demo_chat c 4)" "resources (demo_chat c 4)" by (simp_all add: chat_ready_def session_def)
  have l: "loaded 10 4 ?s" unfolding loaded_def
    using h frame_session(4) [of ?s "demo_chat c 4"] resources_frame [of ?s "demo_chat c 4"] by auto
  have n: "g_runtime_n_ctx ?s + max 0 3 \<le> LLAMA_POS_MAX" by (simp add: demo_chat_def initial_chat_def context_bounds)
  obtain out s' w' where r: "nativeInfer demo_native (Some ''sys'') (Some ''hello'') 3 0 ?s [3, 1, 2] = Inr (out, s', w')" "loaded 10 4 s'"
    "out \<in> infer_errors \<or> (\<exists>ts. int (length ts) \<le> max 0 3 \<and> list_all (\<lambda>t. valid_token 10 t \<and> \<not> nv_is_eog demo_native t) ts \<and>
       (\<forall>k < length ts. try_extract_complete_json_object (text_of demo_native (take k ts)) = None) \<and> out = c_str (answer_of (text_of demo_native ts)))"
    using infer_answer [OF demo_native_ok l n, of "Some ''sys''" "Some ''hello''" 0 "[3, 1, 2]"] by blast
  have "out \<in> infer_errors \<or> (\<exists>ts. length ts \<le> 3 \<and> out = c_str (answer_of (text_of demo_native ts)))" using r(3) by fastforce
  then show ?thesis using l r(1,2) by blast
qed

lemma demo_contexts_ok: "contexts_ok 10 demo_native"
proof -
  have "ctx_ok (small_context\<lparr>lc_n_batch := n\<rparr>)" for n
    using small_context_ok(1) by (simp add: ctx_ok_def ctx_n_seq_max_def small_context_def)
  then show ?thesis by (simp add: contexts_ok_def demo_native_def) (simp add: small_context_def)
qed

theorem direct_never_faults_witness:
  "\<exists>r s w' out s' w''. nativeLoadModel demo_native ''m.gguf'' 512 0 1 4 initial_chat [] = Inr (r, s, w') \<and>
    nativeInfer demo_native (Some ''sys'') (Some ''hello'') 3 0 s [3, 1, 2] = Inr (out, s', w'') \<and> (\<exists>s''. nativeUnload s' = Inr s'')"
proof -
  obtain r s w' where l: "nativeLoadModel demo_native ''m.gguf'' 512 0 1 4 initial_chat [] = Inr (r, s, w')" "direct_reach demo_native s"
    using direct_never_faults [OF demo_native_ok demo_contexts_ok direct_reach.start] by blast
  obtain n where "nativeLoadModel demo_native ''m.gguf'' 512 0 1 4 initial_chat [] = Inr n" "g_runtime_n_ctx (fst (snd n)) = 512"
    using load_outcome [OF initial_owned refl, of demo_native "''m.gguf''" 512 0 1 4 "[]"] by auto
  then have "g_runtime_n_ctx s + max 0 3 \<le> LLAMA_POS_MAX" using l(1) by (auto simp: context_bounds)
  then obtain out s' w'' where i: "nativeInfer demo_native (Some ''sys'') (Some ''hello'') 3 0 s [3, 1, 2] = Inr (out, s', w'')" "direct_reach demo_native s'"
    using direct_never_faults [OF demo_native_ok demo_contexts_ok l(2)] by blast
  then obtain s'' where "nativeUnload s' = Inr s''"
    using direct_never_faults [OF demo_native_ok demo_contexts_ok i(2)] by blast
  then show ?thesis using l(1) i(1) by blast
qed

end
