(* ===== verification/Kq_Mask.thy ===== *)
theory Kq_Mask
  imports Kv_Cache
begin

text \<open>
  The attention mask, \<open>set_input_kq_mask\<close> of \<open>llama-kv-cache.cpp\<close>: for every token of the
  micro-batch and every cell, whether the token may attend to the cell. The code computes
  a full row only for the first token of a sequence and patches copies of it for the
  others; the reference is the mask computed entry by entry, and the two are shown equal.

  The tensor is a list of rows, one per token. A float is either minus infinity or an
  integral bias (0 without ALiBi).
\<close>

datatype mask_val = Neg_inf | Bias int

record mask_args =
  ma_causal :: bool
  ma_alibi :: bool
  ma_n_swa :: nat
  ma_swa_type :: llama_swa_type
  ma_ubatch :: ubatch
  ma_v_cells :: "kv_cells list"
  ma_seq_to_stream :: "nat list"
  ma_n_kv :: nat

text \<open>The template arguments that the code dispatches on.\<close>

definition ma_swa :: "mask_args \<Rightarrow> bool" where
  "ma_swa g \<longleftrightarrow> ma_swa_type g \<noteq> SWA_NONE"

definition ma_is_2d :: "mask_args \<Rightarrow> bool" where
  "ma_is_2d g \<longleftrightarrow> is_pos_2d (ma_ubatch g)"

definition INT32_MAX :: int where
  "INT32_MAX = 2147483647"

text \<open>The least position of each sequence in the micro-batch.\<close>

definition mask_seq :: "mask_args \<Rightarrow> nat \<Rightarrow> llama_seq_id" where
  "mask_seq g i = ub_seq_id (ma_ubatch g) ! i ! 0"

definition mask_min_step :: "mask_args \<Rightarrow> nat \<Rightarrow> (llama_seq_id \<Rightarrow> llama_pos) \<Rightarrow> llama_seq_id \<Rightarrow> llama_pos" where
  "mask_min_step g i m = m(mask_seq g i := min (m (mask_seq g i)) (ub_pos (ma_ubatch g) ! i))"

definition mask_pos_min :: "mask_args \<Rightarrow> llama_seq_id \<Rightarrow> llama_pos" where
  "mask_pos_min g = fold (mask_min_step g) [0..<ub_n_tokens (ma_ubatch g)] (\<lambda>_. INT32_MAX)"

definition mask_cells :: "mask_args \<Rightarrow> nat \<Rightarrow> kv_cells" where
  "mask_cells g i = ma_v_cells g ! (ma_seq_to_stream g ! mask_seq g i)"

text \<open>The entry of token \<open>i\<close> and cell \<open>j\<close>: the body of the innermost loop up to \<open>skip\<close>.\<close>

definition mask_entry :: "mask_args \<Rightarrow> nat \<Rightarrow> nat \<Rightarrow> mask_val" where
  "mask_entry g i j =
     (let u = ma_ubatch g; c = mask_cells g i; p1 = ub_pos u ! i;
          p1_x = (if ma_is_2d g then ub_pos u ! (i + ub_n_tokens u * 2) else 0);
          p1_y = (if ma_is_2d g then ub_pos u ! (i + ub_n_tokens u) else 0)
      in if cells_is_empty c j then Neg_inf
         else if \<not> cells_seq_has c j (mask_seq g i) then Neg_inf
         else let p0 = cells_pos_get c j
           in if ma_causal g \<and> p0 > p1 then Neg_inf
              else if ma_causal g \<and> ma_is_2d g \<and> p0 = p1 \<and> is_2d_gt (cells_ext_get c j) p1_x p1_y then Neg_inf
              else if ma_swa g \<and> is_masked_swa (ma_n_swa g) (ma_swa_type g) p0 p1 then Neg_inf
              else if ma_alibi g then Bias (- \<bar>p0 - p1\<bar>)
              else Bias 0)"

text \<open>Whether the first pass over a sequence records cell \<open>j\<close> for its later tokens.\<close>

definition mask_records :: "mask_args \<Rightarrow> nat \<Rightarrow> nat \<Rightarrow> bool" where
  "mask_records g i j \<longleftrightarrow> (let c = mask_cells g i in
     \<not> cells_is_empty c j \<and> cells_seq_has c j (mask_seq g i) \<and>
     cells_pos_get c j + int (ma_n_swa g + 32) \<ge> mask_pos_min g (mask_seq g i))"

record mask_state =
  ms_srct :: "llama_seq_id \<rightharpoonup> nat"
  ms_idxs :: "llama_seq_id \<Rightarrow> nat list"
  ms_data :: "mask_val list list"

text \<open>A full row, and the row of an earlier token with the recorded cells patched.\<close>

definition mask_full_row :: "mask_args \<Rightarrow> nat \<Rightarrow> mask_val list \<Rightarrow> mask_val list" where
  "mask_full_row g i row = fold (\<lambda>j row. row[j := mask_entry g i j]) [0..<ma_n_kv g] row"

definition mask_patch_row :: "mask_args \<Rightarrow> nat \<Rightarrow> nat list \<Rightarrow> mask_val list \<Rightarrow> mask_val list" where
  "mask_patch_row g i idxs row =
     fold (\<lambda>jj row. row[idxs ! jj := mask_entry g i (idxs ! jj)]) [0..<min (ma_n_kv g) (length idxs)] row"

definition mask_token :: "mask_args \<Rightarrow> nat \<Rightarrow> mask_state \<Rightarrow> mask_state" where
  "mask_token g i st =
     (let s = mask_seq g i in
      if ma_alibi g then st\<lparr>ms_data := (ms_data st)[i := mask_full_row g i (ms_data st ! i)]\<rparr>
      else case ms_srct st s of
        Some srct \<Rightarrow> st\<lparr>ms_data := (ms_data st)[i := mask_patch_row g i (ms_idxs st s) (ms_data st ! srct)]\<rparr>
      | None \<Rightarrow> st\<lparr>ms_srct := (ms_srct st)(s \<mapsto> i),
            ms_idxs := (ms_idxs st)(s := filter (mask_records g i) [0..<ma_n_kv g]),
            ms_data := (ms_data st)[i := mask_full_row g i (ms_data st ! i)]\<rparr>)"

definition mask_stream :: "mask_args \<Rightarrow> nat \<Rightarrow> nat \<Rightarrow> mask_val list list \<Rightarrow> mask_val list list" where
  "mask_stream g n_tps s data = ms_data (fold (\<lambda>ii. mask_token g (s * n_tps + ii)) [0..<n_tps]
     \<lparr>ms_srct = Map.empty, ms_idxs = (\<lambda>_. []), ms_data = data\<rparr>)"

definition set_input_kq_mask :: "mask_args \<Rightarrow> nat \<Rightarrow> mask_val list list \<Rightarrow> mask_val list list outcome" where
  "set_input_kq_mask g n_stream data =
     (let n_tokens = ub_n_tokens (ma_ubatch g)
      in if n_tokens mod n_stream \<noteq> 0 then Inl Assert_failed
         else Inr (fold (mask_stream g (n_tokens div n_stream)) [0..<n_stream] data))"

section \<open>The shortcut computes the same mask\<close>

definition mask_reference :: "mask_args \<Rightarrow> mask_val list list" where
  "mask_reference g = map (\<lambda>i. map (mask_entry g i) [0..<ma_n_kv g]) [0..<ub_n_tokens (ma_ubatch g)]"

lemma mask_full_row_eq:
  "length row = ma_n_kv g \<Longrightarrow> mask_full_row g i row = map (mask_entry g i) [0..<ma_n_kv g]"
proof -
  have "fold (\<lambda>j row. row[j := mask_entry g i j]) [0..<n] row = map (mask_entry g i) [0..<n] @ drop n row"
    if "n \<le> length row" for n
    using that
  proof (induction n)
    case (Suc n)
    then have "n < length row" by simp
    then show ?case using Suc by (simp add: list_update_append Cons_nth_drop_Suc [symmetric])
  qed simp
  then show "length row = ma_n_kv g \<Longrightarrow> ?thesis" by (simp add: mask_full_row_def)
qed

lemma mask_patch_row_nth:
  assumes "length idxs \<le> ma_n_kv g" "j < length row"
  shows "mask_patch_row g i idxs row ! j = (if j \<in> set idxs then mask_entry g i j else row ! j)"
    and "length (mask_patch_row g i idxs row) = length row"
proof -
  have fold_nth: "fold (\<lambda>jj row. row[idxs ! jj := mask_entry g i (idxs ! jj)]) [0..<length idxs] row =
      fold (\<lambda>k row. row[k := mask_entry g i k]) idxs row"
  proof -
    have "fold (\<lambda>k row. row[k := mask_entry g i k]) (map ((!) idxs) [0..<length idxs]) row =
        fold (\<lambda>jj row. row[idxs ! jj := mask_entry g i (idxs ! jj)]) [0..<length idxs] row"
      by (simp only: fold_map comp_def)
    then show ?thesis by (simp only: map_nth)
  qed
  have "fold (\<lambda>k row. row[k := mask_entry g i k]) ks row ! j = (if j \<in> set ks then mask_entry g i j else row ! j) \<and>
      length (fold (\<lambda>k row. row[k := mask_entry g i k]) ks row) = length row" if "j < length row" for ks row
    using that by (induction ks arbitrary: row) (auto simp: nth_list_update)
  from this [OF assms(2), of idxs]
  show "mask_patch_row g i idxs row ! j = (if j \<in> set idxs then mask_entry g i j else row ! j)"
    "length (mask_patch_row g i idxs row) = length row"
    using assms(1) by (simp_all add: mask_patch_row_def fold_nth min_absorb2)
qed

lemma mask_pos_min_le:
  assumes "i < ub_n_tokens (ma_ubatch g)"
  shows "mask_pos_min g (mask_seq g i) \<le> ub_pos (ma_ubatch g) ! i"
proof -
  have mono: "fold (mask_min_step g) xs m s \<le> m s" for xs s m
  proof (induction xs arbitrary: m)
    case (Cons x xs)
    have "mask_min_step g x m s \<le> m s" by (simp add: mask_min_step_def)
    then show ?case using Cons.IH [of "mask_min_step g x m"] by simp
  qed simp
  have "i \<in> set xs \<Longrightarrow> fold (mask_min_step g) xs m (mask_seq g i) \<le> ub_pos (ma_ubatch g) ! i" for xs m
  proof (induction xs arbitrary: m)
    case (Cons x xs)
    have "mask_min_step g i m (mask_seq g i) \<le> ub_pos (ma_ubatch g) ! i" by (simp add: mask_min_step_def)
    then show ?case
      using Cons mono [of xs "mask_min_step g i m" "mask_seq g i"] by (cases "x = i") auto
  qed simp
  then show ?thesis using assms by (simp add: mask_pos_min_def)
qed

text \<open>Far behind every token of its sequence, a cell is masked for all of them or for none.\<close>

lemma swa_far_behind:
  assumes "p0 + int (n + 32) < m" "m \<le> p1" "m \<le> p2"
  shows "is_masked_swa n t p0 p1 = is_masked_swa n t p0 p2"
proof (cases t)
  case SWA_CHUNKED
  have "p0 < (p div int n) * int n" if "m \<le> p" "0 < n" for p
  proof -
    have "p mod int n < int n" using that(2) by simp
    then have "p - int n < (p div int n) * int n" using div_mult_mod_eq [of p "int n"] by linarith
    then show ?thesis using assms(1) that(1) by linarith
  qed
  then show ?thesis using assms(2,3) by (cases "n = 0") (simp_all add: is_masked_swa_def SWA_CHUNKED)
next
  case SWA_SYMMETRIC
  have "int (n div 2) < p - p0" if "m \<le> p" for p using assms(1) that by linarith
  then show ?thesis using assms(2,3) by (simp add: is_masked_swa_def SWA_SYMMETRIC Let_def)
qed (use assms in \<open>simp_all add: is_masked_swa_def\<close>)

lemma mask_entry_shared:
  assumes "\<not> ma_alibi g" "mask_seq g i = mask_seq g i0" "\<not> mask_records g i0 j"
    and "i < ub_n_tokens (ma_ubatch g)" "i0 < ub_n_tokens (ma_ubatch g)"
  shows "mask_entry g i j = mask_entry g i0 j"
proof -
  have c: "mask_cells g i = mask_cells g i0" using assms(2) by (simp add: mask_cells_def)
  show ?thesis
  proof (cases "cells_is_empty (mask_cells g i0) j \<or> \<not> cells_seq_has (mask_cells g i0) j (mask_seq g i0)")
    case True
    then show ?thesis by (auto simp: mask_entry_def Let_def c assms(2))
  next
    case False
    let ?p0 = "cells_pos_get (mask_cells g i0) j" and ?m = "mask_pos_min g (mask_seq g i0)"
    have far: "?p0 + int (ma_n_swa g + 32) < ?m"
      using assms(3) False by (simp add: mask_records_def Let_def not_le)
    have "?m \<le> ub_pos (ma_ubatch g) ! i" "?m \<le> ub_pos (ma_ubatch g) ! i0"
      using mask_pos_min_le [OF assms(4)] mask_pos_min_le [OF assms(5)] assms(2) by simp_all
    moreover from this have "\<not> ?p0 > ub_pos (ma_ubatch g) ! i" "\<not> ?p0 > ub_pos (ma_ubatch g) ! i0"
      "?p0 \<noteq> ub_pos (ma_ubatch g) ! i" "?p0 \<noteq> ub_pos (ma_ubatch g) ! i0" using far by linarith+
    ultimately show ?thesis
      using swa_far_behind [OF far, of "ub_pos (ma_ubatch g) ! i" "ub_pos (ma_ubatch g) ! i0"] assms(1)
      by (simp add: mask_entry_def Let_def c assms(2))
  qed
qed

text \<open>The state between two tokens of a stream: the rows of \<open>fin\<close> are final, and what is
  remembered of a sequence stems from one of them.\<close>

definition mask_inv :: "mask_args \<Rightarrow> nat set \<Rightarrow> mask_val list list \<Rightarrow> mask_state \<Rightarrow> bool" where
  "mask_inv g fin data st \<longleftrightarrow> length (ms_data st) = length data \<and>
     (\<forall>i < length data. ms_data st ! i = (if i \<in> fin then map (mask_entry g i) [0..<ma_n_kv g] else data ! i)) \<and>
     (\<not> ma_alibi g \<longrightarrow> (\<forall>s i0. ms_srct st s = Some i0 \<longrightarrow> i0 \<in> fin \<and> i0 < length data \<and> mask_seq g i0 = s \<and>
        ms_idxs st s = filter (mask_records g i0) [0..<ma_n_kv g]))"

lemma mask_token_inv:
  assumes "mask_inv g fin data st" "i < length data" "length data = ub_n_tokens (ma_ubatch g)"
    and "\<forall>i < length data. length (data ! i) = ma_n_kv g"
  shows "mask_inv g (insert i fin) data (mask_token g i st)"
proof -
  have st: "length (ms_data st) = length data"
    "\<And>k. k < length data \<Longrightarrow> ms_data st ! k = (if k \<in> fin then map (mask_entry g k) [0..<ma_n_kv g] else data ! k)"
    using assms(1) unfolding mask_inv_def by blast+
  have full: "mask_full_row g i (ms_data st ! i) = map (mask_entry g i) [0..<ma_n_kv g]"
    using st(2) [OF assms(2)] assms(2,4) by (intro mask_full_row_eq) simp
  have upd: "length (xs[i := map (mask_entry g i) [0..<ma_n_kv g]]) = length data \<and>
      (\<forall>k < length data. xs[i := map (mask_entry g i) [0..<ma_n_kv g]] ! k =
        (if k \<in> insert i fin then map (mask_entry g k) [0..<ma_n_kv g] else data ! k))"
    if "xs = ms_data st" for xs
    using st assms(2) that by (auto simp: nth_list_update)
  show ?thesis
  proof (cases "ma_alibi g")
    case True
    then show ?thesis using upd by (simp add: mask_inv_def mask_token_def Let_def full)
  next
    case False
    then have mem: "\<And>s i0. ms_srct st s = Some i0 \<Longrightarrow> i0 \<in> fin \<and> i0 < length data \<and> mask_seq g i0 = s \<and>
        ms_idxs st s = filter (mask_records g i0) [0..<ma_n_kv g]"
      using assms(1) by (simp add: mask_inv_def)
    show ?thesis
    proof (cases "ms_srct st (mask_seq g i)")
      case None
      then show ?thesis
        using upd False mem assms(2) by (auto simp: mask_inv_def mask_token_def Let_def full)
    next
      case (Some i0)
      let ?idxs = "filter (mask_records g i0) [0..<ma_n_kv g]"
      note m = mem [OF Some]
      have row: "ms_data st ! i0 = map (mask_entry g i0) [0..<ma_n_kv g]" using st(2) m by simp
      have len: "length ?idxs \<le> ma_n_kv g" using length_filter_le [of "mask_records g i0" "[0..<ma_n_kv g]"] by simp
      have "mask_patch_row g i ?idxs (ms_data st ! i0) = map (mask_entry g i) [0..<ma_n_kv g]"
      proof (rule nth_equalityI)
        show "length (mask_patch_row g i ?idxs (ms_data st ! i0)) = length (map (mask_entry g i) [0..<ma_n_kv g])"
          using mask_patch_row_nth(2) [OF len, of 0 "ms_data st ! i0" i] row
          by (cases "ma_n_kv g = 0") (simp_all add: mask_patch_row_def)
        fix j assume "j < length (mask_patch_row g i ?idxs (ms_data st ! i0))"
        then have j: "j < ma_n_kv g"
          using mask_patch_row_nth(2) [OF len, of 0 "ms_data st ! i0" i] row
          by (cases "ma_n_kv g = 0") (simp_all add: mask_patch_row_def)
        then show "mask_patch_row g i ?idxs (ms_data st ! i0) ! j = map (mask_entry g i) [0..<ma_n_kv g] ! j"
          using mask_patch_row_nth(1) [OF len, of j "ms_data st ! i0" i] row
            mask_entry_shared [OF False, of i i0 j] m assms(2,3) by auto
      qed
      then show ?thesis
        using upd False mem Some m by (auto simp: mask_inv_def mask_token_def Let_def)
    qed
  qed
qed

lemma mask_stream_eq:
  assumes "length data = ub_n_tokens (ma_ubatch g)" "\<forall>i < length data. length (data ! i) = ma_n_kv g"
    and "s * n + n \<le> length data"
  shows "length (mask_stream g n s data) = length data \<and>
    (\<forall>i < length data. mask_stream g n s data ! i =
      (if s * n \<le> i \<and> i < s * n + n then map (mask_entry g i) [0..<ma_n_kv g] else data ! i))"
proof -
  let ?st = "\<lambda>m. fold (\<lambda>ii. mask_token g (s * n + ii)) [0..<m] \<lparr>ms_srct = Map.empty, ms_idxs = (\<lambda>_. []), ms_data = data\<rparr>"
  have "mask_inv g {s * n..<s * n + m} data (?st m)" if "m \<le> n" for m
    using that
  proof (induction m)
    case 0
    then show ?case using assms(2) by (simp add: mask_inv_def)
  next
    case (Suc m)
    have "mask_inv g (insert (s * n + m) {s * n..<s * n + m}) data (mask_token g (s * n + m) (?st m))"
      using Suc assms by (intro mask_token_inv) auto
    moreover have "insert (s * n + m) {s * n..<s * n + m} = {s * n..<s * n + Suc m}" by auto
    ultimately show ?case by simp
  qed
  from this [of n] show ?thesis by (simp add: mask_stream_def mask_inv_def)
qed

lemma mask_streams_eq:
  assumes "length data = ub_n_tokens (ma_ubatch g)" "\<forall>i < length data. length (data ! i) = ma_n_kv g"
    and "m * n \<le> length data"
  defines "r \<equiv> fold (mask_stream g n) [0..<m] data"
  shows "length r = length data \<and>
    (\<forall>i < length data. r ! i = (if i < m * n then map (mask_entry g i) [0..<ma_n_kv g] else data ! i))"
  using assms(3) unfolding r_def
proof (induction m)
  case (Suc m)
  let ?r = "fold (mask_stream g n) [0..<m] data"
  have IH: "length ?r = length data"
    "\<forall>i < length data. ?r ! i = (if i < m * n then map (mask_entry g i) [0..<ma_n_kv g] else data ! i)"
    using Suc by simp_all
  then have "length (mask_stream g n m ?r) = length ?r \<and> (\<forall>i < length ?r. mask_stream g n m ?r ! i =
      (if m * n \<le> i \<and> i < m * n + n then map (mask_entry g i) [0..<ma_n_kv g] else ?r ! i))"
    using assms(1,2) Suc.prems by (intro mask_stream_eq) auto
  then show ?case using IH by (auto simp: add.commute)
qed simp

text \<open>
  C5. The attention mask that \<open>set_input_kq_mask\<close> writes, with its reuse of the row of the
  first token of each sequence, is the mask computed entry by entry: for every token and
  cell, causal, sliding-window, two-dimensional and ALiBi masking included. In particular
  the 32 extra positions the code keeps updating are enough for every window type.
\<close>

theorem kq_mask_is_reference:
  assumes "length data = ub_n_tokens (ma_ubatch g)" "\<forall>row \<in> set data. length row = ma_n_kv g"
    and "n_stream dvd ub_n_tokens (ma_ubatch g)"
  shows "set_input_kq_mask g n_stream data = Inr (mask_reference g)"
proof -
  let ?n = "ub_n_tokens (ma_ubatch g)"
  have d: "n_stream * (?n div n_stream) = ?n" using assms(3) by simp
  note r = mask_streams_eq [of data g n_stream "?n div n_stream"]
  have "fold (mask_stream g (?n div n_stream)) [0..<n_stream] data = mask_reference g"
    using r assms(1,2) d by (intro nth_equalityI) (auto simp: mask_reference_def)
  then show ?thesis using assms(3) by (simp add: set_input_kq_mask_def Let_def dvd_eq_mod_eq_0)
qed

definition sample_mask :: mask_args where
  "sample_mask = \<lparr>ma_causal = True, ma_alibi = False, ma_n_swa = 4, ma_swa_type = SWA_STANDARD,
     ma_ubatch = ubatch_none\<lparr>ub_n_tokens := 2, ub_n_pos := 1, ub_pos := [9, 10], ub_seq_id := [[1], [1]]\<rparr>,
     ma_v_cells = [sample_cells], ma_seq_to_stream = [0, 0], ma_n_kv = 3\<rparr>"

theorem kq_mask_is_reference_witness:
  "set_input_kq_mask sample_mask 1 [[Bias 7, Bias 7, Bias 7], [Bias 7, Bias 7, Bias 7]] =
     Inr [[Neg_inf, Neg_inf, Bias 0], [Neg_inf, Neg_inf, Bias 0]]"
proof -
  have "mask_reference sample_mask = [[Neg_inf, Neg_inf, Bias 0], [Neg_inf, Neg_inf, Bias 0]]" by code_simp
  then show ?thesis
    using kq_mask_is_reference [of "[[Bias 7, Bias 7, Bias 7], [Bias 7, Bias 7, Bias 7]]" sample_mask 1]
    by (simp add: sample_mask_def)
qed

end
