(* ===== verification/Grammar.thy ===== *)
theory Grammar
  imports Utf8
begin

text \<open>
  Grammar-constrained sampling, \<open>llama-grammar.cpp\<close>: a grammar is compiled to rules of
  elements, and the state of the sampler is a list of pushdown stacks. \<open>advance_stack\<close> expands
  rule references until the top of every stack is a terminal, \<open>accept\<close> consumes a code point,
  and \<open>reject_candidates\<close> finds the tokens that no stack can consume.

  A pointer to an element is the pair of its rule and its index; a stack is a list of pointers
  with its top first (the code keeps the top last). The element behind the last one of a rule is never
  read in a rule that ends properly (\<open>rules_ok\<close>); reading there gives an end element. The recursion depth of
  \<open>advance_stack\<close> is bounded by fuel; running out is the fault \<open>Diverged\<close>.
\<close>

section \<open>Rules\<close>

datatype llama_gretype = GRETYPE_END | GRETYPE_ALT | GRETYPE_RULE_REF | GRETYPE_CHAR | GRETYPE_CHAR_NOT | GRETYPE_CHAR_RNG_UPPER
  | GRETYPE_CHAR_ALT | GRETYPE_CHAR_ANY | GRETYPE_TOKEN | GRETYPE_TOKEN_NOT

record llama_grammar_element =
  ge_type :: llama_gretype
  ge_value :: nat

type_synonym llama_grammar_rule = "llama_grammar_element list"
type_synonym llama_grammar_rules = "llama_grammar_rule list"
type_synonym element_ptr = "nat \<times> nat"
type_synonym llama_grammar_stack = "element_ptr list"

definition elem_at :: "llama_grammar_rules \<Rightarrow> element_ptr \<Rightarrow> llama_grammar_element" where
  "elem_at rules pos = (case pos of (r, i) \<Rightarrow> if r < length rules \<and> i < length (rules ! r) then rules ! r ! i else \<lparr>ge_type = GRETYPE_END, ge_value = 0\<rparr>)"

definition ptr_add :: "element_ptr \<Rightarrow> nat \<Rightarrow> element_ptr" where
  "ptr_add pos k = (fst pos, snd pos + k)"

abbreviation type_at :: "llama_grammar_rules \<Rightarrow> element_ptr \<Rightarrow> llama_gretype" where
  "type_at rules pos \<equiv> ge_type (elem_at rules pos)"

abbreviation value_at :: "llama_grammar_rules \<Rightarrow> element_ptr \<Rightarrow> nat" where
  "value_at rules pos \<equiv> ge_value (elem_at rules pos)"

definition is_end_of_sequence :: "llama_grammar_element \<Rightarrow> bool" where
  "is_end_of_sequence e = (case ge_type e of GRETYPE_END \<Rightarrow> True | GRETYPE_ALT \<Rightarrow> True | _ \<Rightarrow> False)"

abbreviation ends_at :: "llama_grammar_rules \<Rightarrow> element_ptr \<Rightarrow> bool" where
  "ends_at rules pos \<equiv> is_end_of_sequence (elem_at rules pos)"

lemma type_beyond: "i \<ge> length (rules ! r) \<Longrightarrow> type_at rules (r, i) = GRETYPE_END"
  by (simp add: elem_at_def)

lemma ends_beyond: "i \<ge> length (rules ! r) \<Longrightarrow> ends_at rules (r, i)"
  by (simp add: elem_at_def is_end_of_sequence_def)

section \<open>Matching\<close>

text \<open>The loop over the alternatives of a character class.\<close>

function match_char_loop :: "llama_grammar_rules \<Rightarrow> nat \<Rightarrow> bool \<Rightarrow> element_ptr \<Rightarrow> bool \<times> element_ptr" where
  "match_char_loop rules chr found pos =
     (let (found, next) =
        (if type_at rules (ptr_add pos 1) = GRETYPE_CHAR_RNG_UPPER
         then (found \<or> value_at rules pos \<le> chr \<and> chr \<le> value_at rules (ptr_add pos 1), ptr_add pos 2)
         else if type_at rules pos = GRETYPE_CHAR_ANY then (True, ptr_add pos 1)
         else (found \<or> value_at rules pos = chr, ptr_add pos 1))
      in if type_at rules next = GRETYPE_CHAR_ALT then match_char_loop rules chr found next else (found, next))"
  by pat_completeness auto
termination
  by (relation "measure (\<lambda>(rules, chr, found, pos). length (rules ! fst pos) - snd pos)")
    (auto simp: ptr_add_def elem_at_def Let_def split: if_splits prod.splits)

declare match_char_loop.simps [simp del]

definition is_char_class :: "llama_gretype \<Rightarrow> bool" where
  "is_char_class t \<longleftrightarrow> t \<in> {GRETYPE_CHAR, GRETYPE_CHAR_ANY, GRETYPE_CHAR_NOT}"

definition match_char :: "llama_grammar_rules \<Rightarrow> element_ptr \<Rightarrow> nat \<Rightarrow> (bool \<times> element_ptr) outcome" where
  "match_char rules pos chr =
     (let t = type_at rules pos; is_positive_char = (t = GRETYPE_CHAR \<or> t = GRETYPE_CHAR_ANY)
      in bind_outcome (guard (is_positive_char \<or> t = GRETYPE_CHAR_NOT)) (\<lambda>_.
         let (found, next) = match_char_loop rules chr False pos in Inr (found = is_positive_char, next)))"

text \<open>Whether some alternative meets the range \<open>low\<close> to \<open>high\<close>: \<open>None\<close> for the class of any character.\<close>

function match_partial_loop :: "llama_grammar_rules \<Rightarrow> bool \<Rightarrow> nat \<Rightarrow> nat \<Rightarrow> element_ptr \<Rightarrow> bool" where
  "match_partial_loop rules is_positive_char low high pos =
     (if type_at rules (ptr_add pos 1) = GRETYPE_CHAR_RNG_UPPER then
        if value_at rules pos \<le> high \<and> low \<le> value_at rules (ptr_add pos 1) then is_positive_char
        else if type_at rules (ptr_add pos 2) = GRETYPE_CHAR_ALT
          then match_partial_loop rules is_positive_char low high (ptr_add pos 2) else \<not> is_positive_char
      else if type_at rules pos = GRETYPE_CHAR_ANY then True
      else if low \<le> value_at rules pos \<and> value_at rules pos \<le> high then is_positive_char
      else if type_at rules (ptr_add pos 1) = GRETYPE_CHAR_ALT
        then match_partial_loop rules is_positive_char low high (ptr_add pos 1) else \<not> is_positive_char)"
  by pat_completeness auto
termination
  by (relation "measure (\<lambda>(rules, p, low, high, pos). length (rules ! fst pos) - snd pos)")
    (auto simp: ptr_add_def elem_at_def Let_def split: if_splits prod.splits)

declare match_partial_loop.simps [simp del]

definition partial_low :: "llama_partial_utf8 \<Rightarrow> nat" where
  "partial_low p = (let low = pu_value p * 2 ^ (nat (pu_n_remain p) * 6) mod 2 ^ 32
     in if low = 0 then if pu_n_remain p = 2 then 2 ^ 11 else if pu_n_remain p = 3 then 2 ^ 16 else low else low)"

definition partial_high :: "llama_partial_utf8 \<Rightarrow> nat" where
  "partial_high p = or (pu_value p * 2 ^ (nat (pu_n_remain p) * 6) mod 2 ^ 32) (2 ^ (nat (pu_n_remain p) * 6) - 1)"

definition match_partial_char :: "llama_grammar_rules \<Rightarrow> element_ptr \<Rightarrow> llama_partial_utf8 \<Rightarrow> bool outcome" where
  "match_partial_char rules pos p =
     (let t = type_at rules pos; is_positive_char = (t = GRETYPE_CHAR \<or> t = GRETYPE_CHAR_ANY)
      in bind_outcome (guard (is_positive_char \<or> t = GRETYPE_CHAR_NOT)) (\<lambda>_.
         if pu_n_remain p < 0 \<or> pu_n_remain p = 1 \<and> pu_value p < 2 then Inr False
         else Inr (match_partial_loop rules is_positive_char (partial_low p) (partial_high p) pos)))"

definition match_token :: "llama_grammar_rules \<Rightarrow> element_ptr \<Rightarrow> nat \<Rightarrow> bool outcome" where
  "match_token rules pos token =
     (case type_at rules pos of GRETYPE_TOKEN \<Rightarrow> Inr (value_at rules pos = token)
      | GRETYPE_TOKEN_NOT \<Rightarrow> Inr (value_at rules pos \<noteq> token) | _ \<Rightarrow> Inl Assert_failed)"

section \<open>Stacks\<close>

text \<open>The starts of the alternates of a rule, from index \<open>i\<close> on.\<close>

function scan_end :: "llama_grammar_rules \<Rightarrow> element_ptr \<Rightarrow> element_ptr" where
  "scan_end rules pos = (if ends_at rules pos then pos else scan_end rules (ptr_add pos 1))"
  by pat_completeness auto
termination
  by (relation "measure (\<lambda>(rules, pos). length (rules ! fst pos) - snd pos)")
    (auto simp: ptr_add_def elem_at_def is_end_of_sequence_def split: if_splits prod.splits)

declare scan_end.simps [simp del]

lemma scan_end_ge: "fst (scan_end rules pos) = fst pos \<and> snd pos \<le> snd (scan_end rules pos)"
proof (induction rules pos rule: scan_end.induct)
  case (1 rules pos)
  then show ?case by (auto simp: scan_end.simps [of rules pos] ptr_add_def)
qed

function alt_starts :: "llama_grammar_rules \<Rightarrow> element_ptr \<Rightarrow> element_ptr list" where
  "alt_starts rules pos = pos # (if type_at rules (scan_end rules pos) = GRETYPE_ALT
     then alt_starts rules (ptr_add (scan_end rules pos) 1) else [])"
  by pat_completeness auto
termination
proof (relation "measure (\<lambda>(rules, pos). length (rules ! fst pos) - snd pos)")
  fix rules pos assume "type_at rules (scan_end rules pos) = GRETYPE_ALT"
  then show "((rules, ptr_add (scan_end rules pos) 1), rules, pos) \<in> measure (\<lambda>(rules, pos). length (rules ! fst pos) - snd pos)"
    using scan_end_ge [of rules pos] by (auto simp: ptr_add_def elem_at_def split: if_splits prod.splits)
qed simp

declare alt_starts.simps [simp del]

definition push_unless_end :: "llama_grammar_rules \<Rightarrow> element_ptr \<Rightarrow> llama_grammar_stack \<Rightarrow> llama_grammar_stack" where
  "push_unless_end rules pos stack = (if ends_at rules pos then stack else pos # stack)"

definition add_stack :: "llama_grammar_stack \<Rightarrow> llama_grammar_stack list \<Rightarrow> llama_grammar_stack list" where
  "add_stack stack stacks = (if stack \<in> set stacks then stacks else stacks @ [stack])"

primrec fold_outcome :: "('a \<Rightarrow> 'b \<Rightarrow> 'b outcome) \<Rightarrow> 'a list \<Rightarrow> 'b \<Rightarrow> 'b outcome" where
  "fold_outcome f [] b = Inr b"
| "fold_outcome f (x # xs) b = bind_outcome (f x b) (fold_outcome f xs)"

primrec advance_stack :: "nat \<Rightarrow> llama_grammar_rules \<Rightarrow> llama_grammar_stack \<Rightarrow> llama_grammar_stack list \<Rightarrow> llama_grammar_stack list outcome" where
  "advance_stack 0 rules stack new_stacks = Inl Diverged"
| "advance_stack (Suc n) rules stack new_stacks = (case stack of
     [] \<Rightarrow> Inr (add_stack [] new_stacks)
   | pos # rest \<Rightarrow> (case type_at rules pos of
       GRETYPE_RULE_REF \<Rightarrow> fold_outcome (\<lambda>subpos. advance_stack n rules
         (push_unless_end rules subpos (push_unless_end rules (ptr_add pos 1) rest))) (alt_starts rules (value_at rules pos, 0)) new_stacks
     | GRETYPE_CHAR \<Rightarrow> Inr (add_stack stack new_stacks)
     | GRETYPE_CHAR_NOT \<Rightarrow> Inr (add_stack stack new_stacks)
     | GRETYPE_CHAR_ANY \<Rightarrow> Inr (add_stack stack new_stacks)
     | GRETYPE_TOKEN \<Rightarrow> Inr (add_stack stack new_stacks)
     | GRETYPE_TOKEN_NOT \<Rightarrow> Inr (add_stack stack new_stacks)
     | _ \<Rightarrow> Inl Aborted))"

section \<open>Accepting\<close>

definition is_token_type :: "llama_gretype \<Rightarrow> bool" where
  "is_token_type t \<longleftrightarrow> t = GRETYPE_TOKEN \<or> t = GRETYPE_TOKEN_NOT"

definition accept_chr :: "nat \<Rightarrow> llama_grammar_rules \<Rightarrow> nat \<Rightarrow> llama_grammar_stack \<Rightarrow> llama_grammar_stack list \<Rightarrow> llama_grammar_stack list outcome" where
  "accept_chr n rules chr stack new_stacks = (case stack of
     [] \<Rightarrow> Inr new_stacks
   | pos # rest \<Rightarrow>
       if is_token_type (type_at rules pos) then Inr new_stacks
       else bind_outcome (match_char rules pos chr) (\<lambda>(ok, next).
         if ok then advance_stack n rules (push_unless_end rules next rest) new_stacks else Inr new_stacks))"

definition accept_stacks :: "nat \<Rightarrow> llama_grammar_rules \<Rightarrow> nat \<Rightarrow> llama_grammar_stack list \<Rightarrow> llama_grammar_stack list outcome" where
  "accept_stacks n rules chr stacks = fold_outcome (accept_chr n rules chr) stacks []"

text \<open>A piece of text is accepted code point by code point; the last decoded entry is the terminating zero.\<close>

definition accept_chrs :: "nat \<Rightarrow> llama_grammar_rules \<Rightarrow> nat list \<Rightarrow> llama_grammar_stack list \<Rightarrow> llama_grammar_stack list outcome" where
  "accept_chrs n rules chrs stacks = fold_outcome (accept_stacks n rules) chrs stacks"

section \<open>Rejecting\<close>

text \<open>A candidate points into its decoded text, whose last entry is 0.\<close>

record llama_grammar_candidate =
  gc_index :: nat
  gc_code_points :: "nat list"
  gc_at :: nat
  gc_partial_utf8 :: llama_partial_utf8
  gc_id :: nat

definition gc_chr :: "llama_grammar_candidate \<Rightarrow> nat" where
  "gc_chr tok = gc_code_points tok ! gc_at tok"

definition reject_step :: "llama_grammar_rules \<Rightarrow> element_ptr \<Rightarrow> llama_grammar_candidate \<Rightarrow>
    llama_grammar_candidate list \<times> llama_grammar_candidate list \<Rightarrow> (llama_grammar_candidate list \<times> llama_grammar_candidate list) outcome" where
  "reject_step rules pos tok = (\<lambda>(rejects, next_candidates).
     if gc_chr tok = 0 then
       bind_outcome (if pu_n_remain (gc_partial_utf8 tok) \<noteq> 0 then match_partial_char rules pos (gc_partial_utf8 tok) else Inr True)
         (\<lambda>ok. Inr (if ok then rejects else rejects @ [tok], next_candidates))
     else bind_outcome (match_char rules pos (gc_chr tok)) (\<lambda>(ok, _).
       Inr (if ok then (rejects, next_candidates @ [tok\<lparr>gc_at := gc_at tok + 1\<rparr>]) else (rejects @ [tok], next_candidates))))"

definition reject_token_step :: "llama_grammar_rules \<Rightarrow> element_ptr \<Rightarrow> llama_grammar_candidate \<Rightarrow>
    llama_grammar_candidate list \<Rightarrow> llama_grammar_candidate list outcome" where
  "reject_token_step rules pos tok rejects =
     (if gc_chr tok = 0 then Inr (if pu_n_remain (gc_partial_utf8 tok) \<noteq> 0 then rejects @ [tok] else rejects)
      else bind_outcome (match_token rules pos (gc_id tok)) (\<lambda>ok. Inr (if ok then rejects else rejects @ [tok])))"

text \<open>The first argument of \<open>reject_for_stack\<close> is the recursive call of \<open>reject_candidates\<close>.\<close>

definition reject_for_stack :: "(llama_grammar_stack list \<Rightarrow> llama_grammar_candidate list \<Rightarrow> llama_grammar_candidate list outcome) \<Rightarrow>
    nat \<Rightarrow> llama_grammar_rules \<Rightarrow> llama_grammar_stack \<Rightarrow> llama_grammar_candidate list \<Rightarrow> llama_grammar_candidate list outcome" where
  "reject_for_stack recurse n rules stack candidates = (case stack of
     [] \<Rightarrow> Inr (filter (\<lambda>tok. gc_chr tok \<noteq> 0 \<or> pu_n_remain (gc_partial_utf8 tok) \<noteq> 0) candidates)
   | pos # rest \<Rightarrow>
       if is_token_type (type_at rules pos) then fold_outcome (reject_token_step rules pos) candidates []
       else bind_outcome (fold_outcome (reject_step rules pos) candidates ([], [])) (\<lambda>(rejects, next_candidates).
            bind_outcome (match_char rules pos 0) (\<lambda>(_, after).
            bind_outcome (advance_stack n rules (push_unless_end rules after rest) []) (\<lambda>next_stacks.
            bind_outcome (recurse next_stacks next_candidates) (\<lambda>next_rejects.
              Inr (rejects @ map (\<lambda>tok. tok\<lparr>gc_at := gc_at tok - 1\<rparr>) next_rejects))))))"

primrec reject_candidates :: "nat \<Rightarrow> nat \<Rightarrow> llama_grammar_rules \<Rightarrow> llama_grammar_stack list \<Rightarrow>
    llama_grammar_candidate list \<Rightarrow> llama_grammar_candidate list outcome" where
  "reject_candidates 0 n rules stacks candidates = Inl Diverged"
| "reject_candidates (Suc m) n rules stacks candidates =
     bind_outcome (guard (stacks \<noteq> [])) (\<lambda>_.
       if candidates = [] then Inr []
       else fold_outcome (reject_for_stack (reject_candidates m n rules) n rules) stacks candidates)"

section \<open>Left recursion\<close>

record lr_state =
  rules_visited :: "bool list"
  rules_in_progress :: "bool list"
  rules_may_be_empty :: "bool list"

text \<open>The first loop of \<open>detect_left_recursion\<close>: whether some alternate has no element.\<close>

fun has_empty_alternate :: "llama_grammar_rule \<Rightarrow> bool \<Rightarrow> bool" where
  "has_empty_alternate [] at_rule_start = False"
| "has_empty_alternate (e # es) at_rule_start =
     (if is_end_of_sequence e then at_rule_start \<or> has_empty_alternate es True else has_empty_alternate es False)"

text \<open>The second loop; its first argument is the recursive call.\<close>

fun scan_leftmost :: "(nat \<Rightarrow> lr_state \<Rightarrow> (bool \<times> lr_state) outcome) \<Rightarrow> llama_grammar_rule \<Rightarrow> bool \<Rightarrow> lr_state \<Rightarrow> (bool \<times> lr_state) outcome" where
  "scan_leftmost recurse [] into st = Inr (False, st)"
| "scan_leftmost recurse (e # es) into st =
     (if ge_type e = GRETYPE_RULE_REF \<and> into then
        bind_outcome (recurse (ge_value e) st) (\<lambda>(found, st).
          if found then Inr (True, st)
          else scan_leftmost recurse es (rules_may_be_empty st ! ge_value e) st)
      else scan_leftmost recurse es (is_end_of_sequence e) st)"

primrec detect_left_recursion :: "nat \<Rightarrow> llama_grammar_rules \<Rightarrow> nat \<Rightarrow> lr_state \<Rightarrow> (bool \<times> lr_state) outcome" where
  "detect_left_recursion 0 rules r st = Inl Diverged"
| "detect_left_recursion (Suc n) rules r st =
     (if rules_in_progress st ! r then Inr (True, st)
      else let st = st\<lparr>rules_in_progress := (rules_in_progress st)[r := True]\<rparr>;
               st = (if has_empty_alternate (rules ! r) True then st\<lparr>rules_may_be_empty := (rules_may_be_empty st)[r := True]\<rparr> else st)
           in bind_outcome (scan_leftmost (detect_left_recursion n rules) (rules ! r) True st) (\<lambda>(found, st).
             if found then Inr (True, st)
             else Inr (False, st\<lparr>rules_in_progress := (rules_in_progress st)[r := False], rules_visited := (rules_visited st)[r := True]\<rparr>)))"

text \<open>The check of all rules at the start of \<open>init\<close>. A rule in progress ends a recursion, so it is at most one level deeper than there are rules.\<close>

fun check_rules :: "llama_grammar_rules \<Rightarrow> nat list \<Rightarrow> lr_state \<Rightarrow> (bool \<times> lr_state) outcome" where
  "check_rules rules [] st = Inr (False, st)"
| "check_rules rules (i # is) st =
     (if rules_visited st ! i then check_rules rules is st
      else bind_outcome (detect_left_recursion (length rules + 1) rules i st) (\<lambda>(found, st).
        if found then Inr (True, st) else check_rules rules is st))"

definition left_recursion_found :: "llama_grammar_rules \<Rightarrow> bool outcome" where
  "left_recursion_found rules = (let b = replicate (length rules) False
     in bind_outcome (check_rules rules [0..<length rules] \<lparr>rules_visited = b, rules_in_progress = b, rules_may_be_empty = b\<rparr>)
       (\<lambda>(found, _). Inr found))"

section \<open>The grammar of a sampler\<close>

record llama_grammar =
  gr_rules :: llama_grammar_rules
  gr_stacks :: "llama_grammar_stack list"
  gr_partial_utf8 :: llama_partial_utf8
  gr_lazy :: bool
  gr_awaiting_trigger :: bool
  gr_trigger_buffer :: bytes
  gr_trigger_buffer_positions :: "(nat \<times> nat \<times> nat) list"
  gr_trigger_tokens :: "nat list"
  gr_trigger_patterns :: "(bytes \<Rightarrow> nat option) list"

text \<open>What a grammar asks the vocabulary: the text of a token and whether it ends the generation.\<close>

record grammar_vocab =
  gv_piece :: "nat \<Rightarrow> bytes"
  gv_is_eog :: "nat \<Rightarrow> bool"

text \<open>The rules are copied up to their end element; \<open>None\<close> is the null pointer.\<close>

definition copy_rule :: "llama_grammar_rule \<Rightarrow> llama_grammar_rule" where
  "copy_rule rule = takeWhile (\<lambda>e. ge_type e \<noteq> GRETYPE_END) rule @ [\<lparr>ge_type = GRETYPE_END, ge_value = 0\<rparr>]"

text \<open>The loop over the alternates of the start rule.\<close>

definition initial_stacks :: "nat \<Rightarrow> llama_grammar_rules \<Rightarrow> nat \<Rightarrow> llama_grammar_stack list outcome" where
  "initial_stacks n rules start =
     (if start < length rules
      then fold_outcome (\<lambda>pos. advance_stack n rules (push_unless_end rules pos [])) (alt_starts rules (start, 0)) []
      else Inl Out_of_bounds)"

definition grammar_init :: "nat \<Rightarrow> llama_grammar_rules \<Rightarrow> nat \<Rightarrow> bool \<Rightarrow> nat list \<Rightarrow> (bytes \<Rightarrow> nat option) list \<Rightarrow> llama_grammar option outcome" where
  "grammar_init n rules start lazy trigger_tokens trigger_patterns =
     (let vec_rules = map copy_rule rules
      in bind_outcome (left_recursion_found vec_rules) (\<lambda>found.
         if found then Inr None
         else bind_outcome (initial_stacks n vec_rules start) (\<lambda>stacks.
           Inr (Some \<lparr>gr_rules = vec_rules, gr_stacks = stacks, gr_partial_utf8 = \<lparr>pu_value = 0, pu_n_remain = 0\<rparr>, gr_lazy = lazy,
             gr_awaiting_trigger = lazy, gr_trigger_buffer = [], gr_trigger_buffer_positions = [], gr_trigger_tokens = trigger_tokens,
             gr_trigger_patterns = trigger_patterns\<rparr>))))"

primrec accept_run :: "nat \<Rightarrow> llama_grammar_rules \<Rightarrow> nat list \<Rightarrow> llama_grammar_stack list \<Rightarrow> llama_grammar_stack list outcome" where
  "accept_run n rules [] stacks = Inr stacks"
| "accept_run n rules (c # cs) stacks = bind_outcome (accept_stacks n rules c stacks) (\<lambda>stacks.
     if stacks = [] then Inr stacks else accept_run n rules cs stacks)"

definition accept_token_stack :: "nat \<Rightarrow> llama_grammar_rules \<Rightarrow> nat \<Rightarrow> nat list \<Rightarrow> llama_grammar_stack \<Rightarrow> llama_grammar_stack list \<Rightarrow> llama_grammar_stack list outcome" where
  "accept_token_stack n rules token chrs stack new_stacks = (case stack of
     [] \<Rightarrow> Inr new_stacks
   | pos # rest \<Rightarrow>
       if is_token_type (type_at rules pos) then
         bind_outcome (match_token rules pos token) (\<lambda>ok.
           if ok then advance_stack n rules (push_unless_end rules (ptr_add pos 1) rest) new_stacks else Inr new_stacks)
       else bind_outcome (accept_run n rules chrs [stack]) (\<lambda>surviving. Inr (fold add_stack surviving new_stacks)))"

fun to_decimal :: "nat \<Rightarrow> string" where
  "to_decimal n = (if n < 10 then [char_of (48 + n)] else to_decimal (n div 10) @ [char_of (48 + n mod 10)])"

declare to_decimal.simps [simp del]

definition empty_stack_error :: "bytes \<Rightarrow> string \<Rightarrow> fault" where
  "empty_stack_error piece suffix = Runtime_error (''Unexpected empty grammar stack after accepting piece: '' @ map char_of piece @ suffix)"

text \<open>
  The exception for an empty stack ends the use of the sampler: the source has stored the empty stacks and the partial
  character by then, which the result \<open>Inl\<close> does not show.
\<close>

definition grammar_accept_token :: "nat \<Rightarrow> llama_grammar \<Rightarrow> nat \<Rightarrow> bytes \<Rightarrow> llama_grammar outcome" where
  "grammar_accept_token n g token piece =
     (let (code_points, partial) = decode_utf8 piece (gr_partial_utf8 g)
      in bind_outcome (fold_outcome (accept_token_stack n (gr_rules g) token (butlast code_points)) (gr_stacks g) []) (\<lambda>stacks.
         if stacks = [] then Inl (empty_stack_error piece ('' ('' @ to_decimal token @ '')''))
         else Inr (g\<lparr>gr_stacks := stacks, gr_partial_utf8 := partial\<rparr>)))"

definition grammar_accept_str :: "nat \<Rightarrow> llama_grammar \<Rightarrow> bytes \<Rightarrow> llama_grammar outcome" where
  "grammar_accept_str n g piece =
     (let (code_points, partial) = decode_utf8 piece (gr_partial_utf8 g)
      in bind_outcome (accept_chrs n (gr_rules g) (butlast code_points) (gr_stacks g)) (\<lambda>stacks.
         if stacks = [] then Inl (empty_stack_error piece [])
         else Inr (g\<lparr>gr_stacks := stacks, gr_partial_utf8 := partial\<rparr>)))"

text \<open>Replaying the buffered tokens that reach beyond \<open>start\<close>.\<close>

fun replay :: "nat \<Rightarrow> nat \<Rightarrow> (nat \<times> nat \<times> nat) list \<Rightarrow> llama_grammar \<Rightarrow> llama_grammar outcome" where
  "replay n start [] g = Inr g"
| "replay n start ((tok, tok_start, tok_end) # toks) g =
     (if tok_end \<le> start then replay n start toks g
      else let piece_start = (if tok_start < start then start else tok_start)
        in bind_outcome (grammar_accept_token n g tok (take (tok_end - piece_start) (drop piece_start (gr_trigger_buffer g)))) (replay n start toks))"

fun first_trigger :: "(bytes \<Rightarrow> nat option) list \<Rightarrow> bytes \<Rightarrow> nat option" where
  "first_trigger [] buffer = None"
| "first_trigger (p # ps) buffer = (case p buffer of None \<Rightarrow> first_trigger ps buffer | Some start \<Rightarrow> Some start)"

definition grammar_accept :: "nat \<Rightarrow> grammar_vocab \<Rightarrow> llama_grammar \<Rightarrow> nat \<Rightarrow> llama_grammar outcome" where
  "grammar_accept n v g token =
     (let piece = gv_piece v token in
      if gr_awaiting_trigger g then
        if token \<in> set (gr_trigger_tokens g)
        then grammar_accept_token n (g\<lparr>gr_awaiting_trigger := False, gr_trigger_buffer := []\<rparr>) token piece
        else let at = length (gr_trigger_buffer g);
                 g = g\<lparr>gr_trigger_buffer_positions := gr_trigger_buffer_positions g @ [(token, at, at + length piece)],
                       gr_trigger_buffer := gr_trigger_buffer g @ piece\<rparr>
          in case first_trigger (gr_trigger_patterns g) (gr_trigger_buffer g) of
               None \<Rightarrow> Inr g
             | Some start \<Rightarrow>
                 bind_outcome (replay n start (gr_trigger_buffer_positions g) (g\<lparr>gr_awaiting_trigger := False\<rparr>)) (\<lambda>g.
                   Inr (g\<lparr>gr_trigger_buffer := [], gr_trigger_buffer_positions := []\<rparr>))
      else if gv_is_eog v token then (if [] \<in> set (gr_stacks g) then Inr g else Inl Aborted)
      else grammar_accept_token n g token piece)"

text \<open>\<open>apply\<close>: which of the tokens, given by their ids, get the logit minus infinity.\<close>

fun apply_candidates :: "grammar_vocab \<Rightarrow> llama_grammar \<Rightarrow> bool \<Rightarrow> nat \<Rightarrow> nat list \<Rightarrow> nat set \<times> llama_grammar_candidate list" where
  "apply_candidates v g allow_eog i [] = ({}, [])"
| "apply_candidates v g allow_eog i (tok # toks) =
     (let (banned, candidates) = apply_candidates v g allow_eog (i + 1) toks; piece = gv_piece v tok
      in if gv_is_eog v tok then (if allow_eog then banned else insert i banned, candidates)
         else if piece = [] \<or> hd piece = 0 then (insert i banned, candidates)
         else let (code_points, partial) = decode_utf8 piece (gr_partial_utf8 g)
           in (banned, \<lparr>gc_index = i, gc_code_points = code_points, gc_at = 0, gc_partial_utf8 = partial, gc_id = tok\<rparr> # candidates))"

definition grammar_apply :: "nat \<Rightarrow> nat \<Rightarrow> grammar_vocab \<Rightarrow> llama_grammar \<Rightarrow> nat list \<Rightarrow> nat set outcome" where
  "grammar_apply m n v g toks =
     (if gr_awaiting_trigger g then Inr {}
      else let (banned, candidates) = apply_candidates v g ([] \<in> set (gr_stacks g)) 0 toks
        in bind_outcome (reject_candidates m n (gr_rules g) (gr_stacks g) candidates) (\<lambda>rejects.
             Inr (banned \<union> gc_index ` set rejects)))"

lemma initial_stacks_in_range: "start < length rules \<Longrightarrow> initial_stacks n rules start =
    fold_outcome (\<lambda>pos. advance_stack n rules (push_unless_end rules pos [])) (alt_starts rules (start, 0)) []"
  by (simp add: initial_stacks_def)

section \<open>Well-formed rules\<close>

text \<open>Which element may follow which, and where the end element stands. The parser builds only such rules.\<close>

definition adjacent_ok :: "llama_gretype \<Rightarrow> llama_gretype \<Rightarrow> bool" where
  "adjacent_ok p t \<longleftrightarrow> (t = GRETYPE_CHAR_RNG_UPPER \<longrightarrow> p \<in> {GRETYPE_CHAR, GRETYPE_CHAR_NOT, GRETYPE_CHAR_ALT}) \<and>
     (t = GRETYPE_CHAR_ALT \<longrightarrow> p \<in> {GRETYPE_CHAR, GRETYPE_CHAR_NOT, GRETYPE_CHAR_ALT, GRETYPE_CHAR_RNG_UPPER})"

definition rule_ok :: "nat \<Rightarrow> llama_grammar_rule \<Rightarrow> bool" where
  "rule_ok n_rules rule \<longleftrightarrow> rule \<noteq> [] \<and> last rule = \<lparr>ge_type = GRETYPE_END, ge_value = 0\<rparr> \<and> list_all (\<lambda>e. ge_type e \<noteq> GRETYPE_END) (butlast rule) \<and>
     list_all (\<lambda>e. ge_type e = GRETYPE_RULE_REF \<longrightarrow> ge_value e < n_rules) rule \<and>
     list_all (\<lambda>i. adjacent_ok (if i = 0 then GRETYPE_ALT else ge_type (rule ! (i - 1))) (ge_type (rule ! i))) [0..<length rule]"

definition rules_ok :: "llama_grammar_rules \<Rightarrow> bool" where
  "rules_ok rules \<longleftrightarrow> list_all (rule_ok (length rules)) rules"

lemma copy_rule_ok: "rule_ok n rule \<Longrightarrow> copy_rule rule = rule"
  by (cases rule rule: rev_cases) (auto simp: rule_ok_def copy_rule_def list_all_iff takeWhile_append)

lemma copy_rules_ok: "rules_ok rules \<Longrightarrow> map copy_rule rules = rules"
  unfolding rules_ok_def list_all_iff by (intro map_idI copy_rule_ok) blast

text \<open>An element at which a stack may stand, or the end of an alternate.\<close>

definition proper :: "llama_grammar_rules \<Rightarrow> element_ptr \<Rightarrow> bool" where
  "proper rules pos \<longleftrightarrow> type_at rules pos \<notin> {GRETYPE_CHAR_ALT, GRETYPE_CHAR_RNG_UPPER}"

definition stack_ok :: "llama_grammar_rules \<Rightarrow> llama_grammar_stack \<Rightarrow> bool" where
  "stack_ok rules stack \<longleftrightarrow> list_all (\<lambda>pos. proper rules pos \<and> \<not> ends_at rules pos) stack"

lemma stack_ok_simps [simp]:
  "stack_ok rules []" "stack_ok rules (pos # rest) \<longleftrightarrow> proper rules pos \<and> \<not> ends_at rules pos \<and> stack_ok rules rest"
  by (auto simp: stack_ok_def)

lemma stack_ok_push: "proper rules pos \<Longrightarrow> stack_ok rules rest \<Longrightarrow> stack_ok rules (push_unless_end rules pos rest)"
  by (simp add: push_unless_end_def)

lemma rule_ok_adjacent:
  "rule_ok n rule \<Longrightarrow> k < length rule \<Longrightarrow> adjacent_ok (if k = 0 then GRETYPE_ALT else ge_type (rule ! (k - 1))) (ge_type (rule ! k))"
  unfolding rule_ok_def list_all_iff by (elim conjE) (erule bspec, simp)

lemma adjacent_elements:
  assumes "rules_ok rules"
  shows "adjacent_ok (type_at rules pos) (type_at rules (ptr_add pos 1))" "adjacent_ok GRETYPE_ALT (type_at rules (r, 0))"
proof -
  have rule: "rule_ok (length rules) (rules ! q)" if "q < length rules" for q using assms that by (simp add: rules_ok_def list_all_length)
  obtain q i where pos: "pos = (q, i)" by (cases pos)
  have "adjacent_ok (type_at rules (q, i)) (type_at rules (q, Suc i))"
    using rule_ok_adjacent [OF rule [of q], of "Suc i"] by (auto simp: elem_at_def) (auto simp: adjacent_ok_def)
  then show "adjacent_ok (type_at rules pos) (type_at rules (ptr_add pos 1))" by (simp add: pos ptr_add_def)
  show "adjacent_ok GRETYPE_ALT (type_at rules (r, 0))"
    using rule_ok_adjacent [OF rule [of r], of 0] by (auto simp: elem_at_def) (auto simp: adjacent_ok_def)
qed

lemma ref_in_range: "rules_ok rules \<Longrightarrow> type_at rules pos = GRETYPE_RULE_REF \<Longrightarrow> value_at rules pos < length rules"
  by (auto simp: rules_ok_def rule_ok_def list_all_length elem_at_def split: if_splits prod.splits)

lemma proper_next:
  "rules_ok rules \<Longrightarrow> type_at rules pos \<notin> {GRETYPE_CHAR, GRETYPE_CHAR_NOT, GRETYPE_CHAR_ALT, GRETYPE_CHAR_RNG_UPPER} \<Longrightarrow>
   proper rules (ptr_add pos 1)"
  using adjacent_elements(1) [of rules pos] by (auto simp: adjacent_ok_def proper_def)

lemma proper_alternates: "rules_ok rules \<Longrightarrow> proper rules pos \<Longrightarrow> sub \<in> set (alt_starts rules pos) \<Longrightarrow> proper rules sub"
proof (induction rules pos rule: alt_starts.induct)
  case (1 rules pos)
  show ?case
  proof (cases "sub = pos")
    case False
    then have "type_at rules (scan_end rules pos) = GRETYPE_ALT" "sub \<in> set (alt_starts rules (ptr_add (scan_end rules pos) 1))"
      using "1.prems"(3) by (auto simp: alt_starts.simps [of rules pos] split: if_splits)
    then show ?thesis using "1.IH" "1.prems"(1) proper_next [of rules "scan_end rules pos"] by simp
  qed (use "1.prems" in simp)
qed

lemma proper_start: "rules_ok rules \<Longrightarrow> proper rules (r, 0)"
  using adjacent_elements(2) [of rules r] by (auto simp: adjacent_ok_def proper_def)

lemma alt_starts_nonempty [simp]: "alt_starts rules pos \<noteq> []"
  by (subst alt_starts.simps) simp

text \<open>The element after a class does not depend on the character.\<close>

lemma match_char_next: "snd (match_char_loop rules chr found pos) = snd (match_char_loop rules chr' found' pos)"
proof (induction rules chr found pos arbitrary: found' rule: match_char_loop.induct)
  case (1 rules chr found pos)
  show ?case
    by (subst (1 2) match_char_loop.simps) (use "1.IH" in \<open>auto simp: Let_def split: if_splits\<close>)
qed

lemma match_char_proper:
  assumes "rules_ok rules"
  shows "proper rules (snd (match_char_loop rules chr found pos))"
  using assms
proof (induction rules chr found pos rule: match_char_loop.induct)
  case (1 rules chr found pos)
  have two: "ptr_add pos 2 = ptr_add (ptr_add pos 1) 1" by (simp add: ptr_add_def)
  have "type_at rules (ptr_add pos 2) \<noteq> GRETYPE_CHAR_RNG_UPPER" if "type_at rules (ptr_add pos 1) = GRETYPE_CHAR_RNG_UPPER"
    using adjacent_elements(1) [OF "1.prems", of "ptr_add pos 1"] that unfolding two by (auto simp: adjacent_ok_def)
  then show ?case
    using "1.IH" "1.prems" by (subst match_char_loop.simps) (auto simp: Let_def proper_def split: if_splits)
qed

section \<open>Expanding stacks\<close>

text \<open>The stacks that \<open>advance_stack\<close> collects: every way of replacing references by alternates until a terminal is on top.\<close>

definition ready :: "llama_grammar_rules \<Rightarrow> llama_grammar_stack \<Rightarrow> bool" where
  "ready rules stack \<longleftrightarrow> (case stack of [] \<Rightarrow> True | pos # _ \<Rightarrow> is_char_class (type_at rules pos) \<or> is_token_type (type_at rules pos))"

inductive expands :: "llama_grammar_rules \<Rightarrow> llama_grammar_stack \<Rightarrow> llama_grammar_stack \<Rightarrow> bool" for rules where
  expands_ready: "ready rules stack \<Longrightarrow> expands rules stack stack"
| expands_ref: "type_at rules pos = GRETYPE_RULE_REF \<Longrightarrow> sub \<in> set (alt_starts rules (value_at rules pos, 0)) \<Longrightarrow>
    expands rules (push_unless_end rules sub (push_unless_end rules (ptr_add pos 1) rest)) stack' \<Longrightarrow> expands rules (pos # rest) stack'"

inductive_simps expands_Nil: "expands rules [] stack'"
inductive_simps expands_Cons: "expands rules (pos # rest) stack'"

lemma expands_is_ready: "expands rules stack stack' \<Longrightarrow> ready rules stack'"
  by (induction rule: expands.induct) auto

lemma set_add_stack [simp]: "set (add_stack stack stacks) = insert stack (set stacks)"
  by (auto simp: add_stack_def)

lemma fold_outcome_union:
  assumes "\<And>x b b'. x \<in> set xs \<Longrightarrow> f x b = Inr b' \<Longrightarrow> set b' = set b \<union> R x" "fold_outcome f xs b = Inr b'"
  shows "set b' = set b \<union> (\<Union>x \<in> set xs. R x)"
  using assms
proof (induction xs arbitrary: b)
  case (Cons x xs)
  obtain c where c: "f x b = Inr c" "fold_outcome f xs c = Inr b'" using Cons.prems(2) by (auto simp: bind_outcome_Inr_iff)
  have "set b' = set c \<union> (\<Union>x \<in> set xs. R x)" using Cons.IH [OF _ c(2)] Cons.prems(1) by auto
  then show ?case using Cons.prems(1) [OF _ c(1)] by auto
qed simp

lemma fold_outcome_total:
  assumes "\<And>x b. x \<in> set xs \<Longrightarrow> \<exists>b'. f x b = Inr b'"
  shows "\<exists>b'. fold_outcome f xs b = Inr b'"
  using assms
proof (induction xs arbitrary: b)
  case (Cons x xs)
  obtain c where "f x b = Inr c" using Cons.prems by auto
  then show ?case using Cons.IH [of c] Cons.prems by simp
qed simp

lemma advance_stack_ready: "ready rules stack \<Longrightarrow> advance_stack (Suc n) rules stack new_stacks = Inr (add_stack stack new_stacks)"
  by (auto simp: ready_def is_char_class_def is_token_type_def split: list.splits)

lemma advance_stack_set: "advance_stack n rules stack new_stacks = Inr new' \<Longrightarrow> set new' = set new_stacks \<union> {s. expands rules stack s}"
proof (induction n arbitrary: stack new_stacks new')
  case (Suc n)
  show ?case
  proof (cases "ready rules stack")
    case True
    have "{s. expands rules stack s} = {stack}"
      using True by (cases stack) (auto simp: expands_Nil expands_Cons ready_def is_char_class_def is_token_type_def)
    moreover have "new' = add_stack stack new_stacks" using Suc.prems unfolding advance_stack_ready [OF True] by simp
    ultimately show ?thesis by simp
  next
    case False
    then obtain pos rest where stack: "stack = pos # rest" by (cases stack) (auto simp: ready_def)
    have ref: "type_at rules pos = GRETYPE_RULE_REF"
      using Suc.prems False unfolding stack by (auto simp: ready_def is_char_class_def is_token_type_def split: llama_gretype.splits)
    let ?push = "\<lambda>sub. push_unless_end rules sub (push_unless_end rules (ptr_add pos 1) rest)"
    have "fold_outcome (\<lambda>sub. advance_stack n rules (?push sub)) (alt_starts rules (value_at rules pos, 0)) new_stacks = Inr new'"
      using Suc.prems by (simp add: stack ref)
    then have "set new' = set new_stacks \<union> (\<Union>sub \<in> set (alt_starts rules (value_at rules pos, 0)). {s. expands rules (?push sub) s})"
      by (rule fold_outcome_union [rotated]) (rule Suc.IH)
    moreover have "{s. expands rules stack s} = (\<Union>sub \<in> set (alt_starts rules (value_at rules pos, 0)). {s. expands rules (?push sub) s})"
      using False ref unfolding stack by (auto simp: expands_Cons)
    ultimately show ?thesis by simp
  qed
qed simp

lemma expands_ok:
  assumes "rules_ok rules"
  shows "expands rules stack stack' \<Longrightarrow> stack_ok rules stack \<Longrightarrow> stack_ok rules stack'"
proof (induction rule: expands.induct)
  case (expands_ref pos sub rest stack')
  have "proper rules sub" using proper_alternates [OF assms proper_start [OF assms] expands_ref.hyps(2)] .
  moreover have "proper rules (ptr_add pos 1)" by (rule proper_next [OF assms]) (simp add: expands_ref.hyps(1))
  ultimately show ?case using expands_ref by (simp add: stack_ok_push)
qed

section \<open>Consuming code points\<close>

definition consumes :: "llama_grammar_rules \<Rightarrow> nat \<Rightarrow> llama_grammar_stack \<Rightarrow> llama_grammar_stack \<Rightarrow> bool" where
  "consumes rules c stack stack' \<longleftrightarrow> (\<exists>pos rest next. stack = pos # rest \<and> match_char rules pos c = Inr (True, next) \<and>
     expands rules (push_unless_end rules next rest) stack')"

fun consumes_all :: "llama_grammar_rules \<Rightarrow> nat list \<Rightarrow> llama_grammar_stack \<Rightarrow> llama_grammar_stack \<Rightarrow> bool" where
  "consumes_all rules [] stack stack' \<longleftrightarrow> stack' = stack"
| "consumes_all rules (c # cs) stack stack' \<longleftrightarrow> (\<exists>s. consumes rules c stack s \<and> consumes_all rules cs s stack')"

lemma consumes_Nil [simp]: "\<not> consumes rules c [] stack'"
  by (simp add: consumes_def)

lemma match_char_class: "match_char rules pos c = Inr r \<Longrightarrow> is_char_class (type_at rules pos)"
  by (auto simp: match_char_def Let_def is_char_class_def guard_def split: if_splits)

lemma match_char_total: "is_char_class (type_at rules pos) \<Longrightarrow> \<exists>ok next. match_char rules pos c = Inr (ok, next)"
  by (auto simp: match_char_def Let_def is_char_class_def split: prod.split)

lemma match_char_after:
  "match_char rules pos c = Inr (ok, next) \<Longrightarrow> \<exists>ok'. match_char rules pos c' = Inr (ok', next)"
  using match_char_next [of rules c False pos c' False]
  by (auto simp: match_char_def Let_def guard_def split: if_splits prod.splits)

lemma match_char_next_proper: "rules_ok rules \<Longrightarrow> match_char rules pos c = Inr (ok, next) \<Longrightarrow> proper rules next"
  using match_char_proper [of rules c False pos] by (auto simp: match_char_def Let_def guard_def split: if_splits prod.splits)

lemma consumes_Cons:
  assumes "match_char rules pos c = Inr (ok, nxt)"
  shows "consumes rules c (pos # rest) s \<longleftrightarrow> ok \<and> expands rules (push_unless_end rules nxt rest) s"
proof
  assume "consumes rules c (pos # rest) s"
  then obtain p r n where "pos # rest = p # r" "match_char rules p c = Inr (True, n)" "expands rules (push_unless_end rules n r) s"
    unfolding consumes_def by blast
  then show "ok \<and> expands rules (push_unless_end rules nxt rest) s" using assms by simp
next
  assume "ok \<and> expands rules (push_unless_end rules nxt rest) s"
  then show "consumes rules c (pos # rest) s" using assms unfolding consumes_def by (intro exI [of _ pos] exI [of _ rest] exI [of _ nxt]) simp
qed

lemma consumes_E:
  assumes "consumes rules c stack s"
  obtains pos rest nxt where "stack = pos # rest" "match_char rules pos c = Inr (True, nxt)" "expands rules (push_unless_end rules nxt rest) s"
  using assms unfolding consumes_def by blast

lemma consumes_ready: "consumes rules c stack stack' \<Longrightarrow> ready rules stack'"
  using expands_is_ready by (auto simp: consumes_def)

lemma consumes_ok:
  assumes "rules_ok rules" "consumes rules c stack stack'" "stack_ok rules stack"
  shows "stack_ok rules stack'"
  using assms(2)
proof (rule consumes_E)
  fix pos rest nxt assume "stack = pos # rest" "match_char rules pos c = Inr (True, nxt)" "expands rules (push_unless_end rules nxt rest) stack'"
  moreover from this have "stack_ok rules (push_unless_end rules nxt rest)"
    using assms(3) match_char_next_proper [OF assms(1)] by (intro stack_ok_push) simp_all
  ultimately show "stack_ok rules stack'" using expands_ok [OF assms(1)] by blast
qed

lemma accept_chr_set:
  assumes "ready rules stack" "accept_chr n rules c stack new_stacks = Inr new'"
  shows "set new' = set new_stacks \<union> {s. consumes rules c stack s}"
proof (cases stack)
  case Nil
  then show ?thesis using assms(2) by (simp add: accept_chr_def)
next
  case (Cons pos rest)
  show ?thesis
  proof (cases "is_token_type (type_at rules pos)")
    case True
    then have "\<not> is_char_class (type_at rules pos)" by (auto simp: is_token_type_def is_char_class_def)
    then have "\<not> consumes rules c stack s" for s using match_char_class [of rules pos c] by (auto simp: consumes_def Cons)
    then show ?thesis using assms(2) True Cons by (simp add: accept_chr_def)
  next
    case False
    then have "is_char_class (type_at rules pos)" using assms(1) by (simp add: Cons ready_def)
    then obtain ok nxt where m: "match_char rules pos c = Inr (ok, nxt)" using match_char_total by blast
    have "consumes rules c stack s \<longleftrightarrow> ok \<and> expands rules (push_unless_end rules nxt rest) s" for s
      unfolding Cons by (rule consumes_Cons [OF m])
    then show ?thesis using assms(2) False m advance_stack_set [of n rules "push_unless_end rules nxt rest" new_stacks]
      by (auto simp: accept_chr_def Cons split: if_splits)
  qed
qed

lemma accept_stacks_set:
  assumes "\<forall>s \<in> set stacks. ready rules s" "accept_stacks n rules c stacks = Inr new'"
  shows "set new' = {s'. \<exists>s \<in> set stacks. consumes rules c s s'}"
proof -
  have "set new' = set [] \<union> (\<Union>s \<in> set stacks. {s'. consumes rules c s s'})"
  proof (rule fold_outcome_union [OF _ assms(2) [unfolded accept_stacks_def]])
    show "set b' = set b \<union> {s'. consumes rules c s s'}" if "s \<in> set stacks" "accept_chr n rules c s b = Inr b'" for s b b'
      using accept_chr_set [OF _ that(2)] that(1) assms(1) by blast
  qed
  then show ?thesis by auto
qed

lemma accept_chrs_set:
  "\<forall>s \<in> set stacks. ready rules s \<Longrightarrow> accept_chrs n rules cs stacks = Inr new' \<Longrightarrow>
   set new' = {s'. \<exists>s \<in> set stacks. consumes_all rules cs s s'}"
proof (induction cs arbitrary: stacks)
  case (Cons c cs)
  obtain mid where mid: "accept_stacks n rules c stacks = Inr mid" "accept_chrs n rules cs mid = Inr new'"
    using Cons.prems(2) by (auto simp: accept_chrs_def bind_outcome_Inr_iff)
  note m = accept_stacks_set [OF Cons.prems(1) mid(1)]
  have "\<forall>s \<in> set mid. ready rules s" using consumes_ready unfolding m by blast
  from Cons.IH [OF this mid(2)] show ?case unfolding m by auto
qed (simp add: accept_chrs_def)

section \<open>The language of a grammar\<close>

text \<open>
  The meaning of rules, without stacks: the texts that the rest of an alternate derives, and the texts of a rule.
\<close>

inductive seq_lang :: "llama_grammar_rules \<Rightarrow> element_ptr \<Rightarrow> nat list \<Rightarrow> bool" for rules where
  seq_end: "ends_at rules pos \<Longrightarrow> seq_lang rules pos []"
| seq_ref: "type_at rules pos = GRETYPE_RULE_REF \<Longrightarrow> sub \<in> set (alt_starts rules (value_at rules pos, 0)) \<Longrightarrow>
    seq_lang rules sub u \<Longrightarrow> seq_lang rules (ptr_add pos 1) v \<Longrightarrow> seq_lang rules pos (u @ v)"
| seq_chr: "match_char rules pos c = Inr (True, next) \<Longrightarrow> seq_lang rules next w \<Longrightarrow> seq_lang rules pos (c # w)"

definition rule_lang :: "llama_grammar_rules \<Rightarrow> nat \<Rightarrow> nat list \<Rightarrow> bool" where
  "rule_lang rules r w \<longleftrightarrow> (\<exists>sub \<in> set (alt_starts rules (r, 0)). seq_lang rules sub w)"

definition stack_lang :: "llama_grammar_rules \<Rightarrow> llama_grammar_stack \<Rightarrow> nat list \<Rightarrow> bool" where
  "stack_lang rules stack w \<longleftrightarrow> (\<exists>ws. list_all2 (seq_lang rules) stack ws \<and> w = concat ws)"

lemma stack_lang_Nil [simp]: "stack_lang rules [] w \<longleftrightarrow> w = []"
  by (simp add: stack_lang_def)

lemma stack_lang_Cons: "stack_lang rules (pos # rest) w \<longleftrightarrow> (\<exists>u v. w = u @ v \<and> seq_lang rules pos u \<and> stack_lang rules rest v)"
proof
  assume "\<exists>u v. w = u @ v \<and> seq_lang rules pos u \<and> stack_lang rules rest v"
  then obtain u ws where "w = u @ concat ws" "seq_lang rules pos u" "list_all2 (seq_lang rules) rest ws" by (auto simp: stack_lang_def)
  then show "stack_lang rules (pos # rest) w" unfolding stack_lang_def by (intro exI [of _ "u # ws"]) simp
next
  assume "stack_lang rules (pos # rest) w"
  then obtain u ws where "w = concat (u # ws)" "seq_lang rules pos u" "list_all2 (seq_lang rules) rest ws"
    unfolding stack_lang_def list_all2_Cons1 by blast
  then show "\<exists>u v. w = u @ v \<and> seq_lang rules pos u \<and> stack_lang rules rest v" unfolding stack_lang_def
    by (intro exI [of _ u] exI [of _ "concat ws"]) auto
qed

lemma seq_lang_end:
  assumes "ends_at rules pos"
  shows "seq_lang rules pos w \<longleftrightarrow> w = []"
proof -
  have "type_at rules pos \<noteq> GRETYPE_RULE_REF" "\<not> is_char_class (type_at rules pos)"
    using assms by (auto simp: is_end_of_sequence_def is_char_class_def)
  then show ?thesis using assms match_char_class [of rules pos] by (metis seq_end seq_lang.cases)
qed

lemma stack_lang_push: "stack_lang rules (push_unless_end rules pos rest) w \<longleftrightarrow> (\<exists>u v. w = u @ v \<and> seq_lang rules pos u \<and> stack_lang rules rest v)"
  by (simp add: push_unless_end_def stack_lang_Cons seq_lang_end)

lemma seq_lang_ref:
  assumes "type_at rules pos = GRETYPE_RULE_REF"
  shows "seq_lang rules pos w \<longleftrightarrow> (\<exists>sub \<in> set (alt_starts rules (value_at rules pos, 0)). \<exists>u v. w = u @ v \<and> seq_lang rules sub u \<and> seq_lang rules (ptr_add pos 1) v)"
proof
  assume "seq_lang rules pos w"
  then show "\<exists>sub \<in> set (alt_starts rules (value_at rules pos, 0)). \<exists>u v. w = u @ v \<and> seq_lang rules sub u \<and> seq_lang rules (ptr_add pos 1) v"
  proof cases
    case seq_end
    then show ?thesis using assms by (simp add: is_end_of_sequence_def)
  next
    case (seq_chr c nxt w)
    then show ?thesis using assms match_char_class [of rules pos c] by (auto simp: is_char_class_def)
  qed blast
qed (use assms seq_ref in blast)

lemma seq_lang_terminal:
  assumes "type_at rules pos \<noteq> GRETYPE_RULE_REF" "\<not> ends_at rules pos"
  shows "seq_lang rules pos w \<longleftrightarrow> (\<exists>c u nxt. w = c # u \<and> match_char rules pos c = Inr (True, nxt) \<and> seq_lang rules nxt u)"
  using assms by (metis seq_lang.simps)

lemma stack_lang_ref:
  assumes "type_at rules pos = GRETYPE_RULE_REF"
  shows "stack_lang rules (pos # rest) w \<longleftrightarrow> (\<exists>sub \<in> set (alt_starts rules (value_at rules pos, 0)).
    stack_lang rules (push_unless_end rules sub (push_unless_end rules (ptr_add pos 1) rest)) w)"
proof
  assume "stack_lang rules (pos # rest) w"
  then obtain sub a b v where "sub \<in> set (alt_starts rules (value_at rules pos, 0))" "w = (a @ b) @ v" "seq_lang rules sub a"
    "seq_lang rules (ptr_add pos 1) b" "stack_lang rules rest v"
    unfolding stack_lang_Cons seq_lang_ref [OF assms] by blast
  moreover from this have "w = a @ (b @ v)" by simp
  ultimately show "\<exists>sub \<in> set (alt_starts rules (value_at rules pos, 0)).
      stack_lang rules (push_unless_end rules sub (push_unless_end rules (ptr_add pos 1) rest)) w" unfolding stack_lang_push by blast
next
  assume "\<exists>sub \<in> set (alt_starts rules (value_at rules pos, 0)).
      stack_lang rules (push_unless_end rules sub (push_unless_end rules (ptr_add pos 1) rest)) w"
  then obtain sub a b v where "sub \<in> set (alt_starts rules (value_at rules pos, 0))" "w = a @ (b @ v)" "seq_lang rules sub a"
    "seq_lang rules (ptr_add pos 1) b" "stack_lang rules rest v" unfolding stack_lang_push by blast
  moreover from this have "w = (a @ b) @ v" by simp
  ultimately show "stack_lang rules (pos # rest) w" unfolding stack_lang_Cons seq_lang_ref [OF assms] by blast
qed

lemma expands_lang: "expands rules stack stack' \<Longrightarrow> stack_lang rules stack' w \<Longrightarrow> stack_lang rules stack w"
  by (induction rule: expands.induct) (use stack_lang_ref in blast)+

lemma seq_lang_expands:
  assumes "seq_lang rules pos u"
  shows "(\<exists>s. expands rules rest s \<and> stack_lang rules s v) \<Longrightarrow>
    \<exists>s. expands rules (push_unless_end rules pos rest) s \<and> stack_lang rules s (u @ v)"
  using assms
proof (induction arbitrary: rest v)
  case (seq_end pos)
  then show ?case by (simp add: push_unless_end_def)
next
  case (seq_ref pos sub u1 v1)
  have "push_unless_end rules pos rest = pos # rest" using seq_ref.hyps(1) by (simp add: push_unless_end_def is_end_of_sequence_def)
  moreover obtain s where "expands rules (push_unless_end rules sub (push_unless_end rules (ptr_add pos 1) rest)) s" "stack_lang rules s (u1 @ v1 @ v)"
    using seq_ref.IH(1) [OF seq_ref.IH(2) [OF seq_ref.prems]] by blast
  ultimately show ?case using expands_ref [OF seq_ref.hyps(1,2)] by auto
next
  case (seq_chr pos c nxt w)
  have c: "is_char_class (type_at rules pos)" by (rule match_char_class [OF seq_chr.hyps(1)])
  then have "push_unless_end rules pos rest = pos # rest" by (auto simp: push_unless_end_def is_end_of_sequence_def is_char_class_def)
  moreover have "expands rules (pos # rest) (pos # rest)" using c by (intro expands_ready) (simp add: ready_def)
  moreover have "stack_lang rules rest v" using seq_chr.prems expands_lang by blast
  then have "stack_lang rules (pos # rest) ((c # w) @ v)" unfolding stack_lang_Cons
    using seq_lang.seq_chr [OF seq_chr.hyps(1,2)] by blast
  ultimately show ?case by auto
qed

lemma stack_lang_expands: "stack_ok rules stack \<Longrightarrow> stack_lang rules stack w \<longleftrightarrow> (\<exists>s. expands rules stack s \<and> stack_lang rules s w)"
proof
  show "stack_ok rules stack \<Longrightarrow> stack_lang rules stack w \<Longrightarrow> \<exists>s. expands rules stack s \<and> stack_lang rules s w"
  proof (induction stack arbitrary: w)
    case Nil
    then show ?case by (intro exI [of _ "[]"]) (simp add: expands_Nil ready_def)
  next
    case (Cons pos rest)
    obtain u v where w: "w = u @ v" "seq_lang rules pos u" "stack_lang rules rest v" using Cons.prems(2) unfolding stack_lang_Cons by blast
    have "push_unless_end rules pos rest = pos # rest" using Cons.prems(1) by (simp add: push_unless_end_def)
    then show ?case using seq_lang_expands [OF w(2) Cons.IH [OF _ w(3)]] Cons.prems(1) w(1) by simp
  qed
qed (use expands_lang in blast)

lemma push_lang_expands:
  assumes "proper rules pos" "stack_ok rules rest"
  shows "(\<exists>u v. w = u @ v \<and> seq_lang rules pos u \<and> stack_lang rules rest v) \<longleftrightarrow>
    (\<exists>s. expands rules (push_unless_end rules pos rest) s \<and> stack_lang rules s w)"
  using stack_lang_expands [OF stack_ok_push [OF assms], of w] unfolding stack_lang_push .

text \<open>What a stack accepts after one code point is what the stacks behind that code point accept.\<close>

lemma ready_terminal: "ready rules (pos # rest) \<Longrightarrow> type_at rules pos \<noteq> GRETYPE_RULE_REF \<and> \<not> ends_at rules pos"
  by (auto simp: ready_def is_char_class_def is_token_type_def is_end_of_sequence_def)

lemma stack_lang_step:
  assumes "rules_ok rules" "stack_ok rules stack" "ready rules stack"
  shows "stack_lang rules stack (c # w) \<longleftrightarrow> (\<exists>s. consumes rules c stack s \<and> stack_lang rules s w)"
proof (cases stack)
  case (Cons pos rest)
  note t = ready_terminal [OF assms(3) [unfolded Cons]]
  have ok: "stack_ok rules rest" using assms(2) by (simp add: Cons)
  have "stack_lang rules stack (c # w) \<longleftrightarrow> (\<exists>nxt. match_char rules pos c = Inr (True, nxt) \<and>
      (\<exists>u v. w = u @ v \<and> seq_lang rules nxt u \<and> stack_lang rules rest v))"
  proof
    assume "stack_lang rules stack (c # w)"
    then obtain u v where u: "c # w = u @ v" "seq_lang rules pos u" "stack_lang rules rest v" unfolding Cons stack_lang_Cons by blast
    then obtain d u' nxt where d: "u = d # u'" "match_char rules pos d = Inr (True, nxt)" "seq_lang rules nxt u'"
      unfolding seq_lang_terminal [OF conjunct1 [OF t] conjunct2 [OF t]] by blast
    then have "w = u' @ v" "d = c" using u(1) by simp_all
    then show "\<exists>nxt. match_char rules pos c = Inr (True, nxt) \<and> (\<exists>u v. w = u @ v \<and> seq_lang rules nxt u \<and> stack_lang rules rest v)"
      using d u(3) by blast
  next
    assume "\<exists>nxt. match_char rules pos c = Inr (True, nxt) \<and> (\<exists>u v. w = u @ v \<and> seq_lang rules nxt u \<and> stack_lang rules rest v)"
    then obtain nxt u v where u: "match_char rules pos c = Inr (True, nxt)" "w = u @ v" "seq_lang rules nxt u" "stack_lang rules rest v" by blast
    then have "c # w = (c # u) @ v" by simp
    then show "stack_lang rules stack (c # w)" unfolding Cons stack_lang_Cons using seq_chr [OF u(1,3)] u(4) by blast
  qed
  also have "\<dots> \<longleftrightarrow> (\<exists>nxt. match_char rules pos c = Inr (True, nxt) \<and>
      (\<exists>s. expands rules (push_unless_end rules nxt rest) s \<and> stack_lang rules s w))"
    by (intro ex_cong1 conj_cong refl push_lang_expands match_char_next_proper [OF assms(1)] ok)
  also have "\<dots> \<longleftrightarrow> (\<exists>s. consumes rules c stack s \<and> stack_lang rules s w)"
    unfolding consumes_def Cons list.inject by blast
  finally show ?thesis .
qed simp

lemma stack_lang_done:
  assumes "ready rules stack"
  shows "stack_lang rules stack [] \<longleftrightarrow> stack = []"
proof (cases stack)
  case (Cons pos rest)
  note t = ready_terminal [OF assms [unfolded Cons]]
  have "\<not> seq_lang rules pos []" unfolding seq_lang_terminal [OF conjunct1 [OF t] conjunct2 [OF t]] by blast
  then show ?thesis by (simp add: Cons stack_lang_Cons)
qed simp

lemma stack_lang_consumes_all:
  assumes "rules_ok rules" "stack_ok rules stack" "ready rules stack"
  shows "stack_lang rules stack (cs @ w) \<longleftrightarrow> (\<exists>s. consumes_all rules cs stack s \<and> stack_lang rules s w)"
  using assms(2,3)
proof (induction cs arbitrary: stack)
  case (Cons c cs)
  have "stack_lang rules stack ((c # cs) @ w) \<longleftrightarrow> (\<exists>s. consumes rules c stack s \<and> stack_lang rules s (cs @ w))"
    using stack_lang_step [OF assms(1) Cons.prems] by simp
  also have "\<dots> \<longleftrightarrow> (\<exists>s. consumes rules c stack s \<and> (\<exists>s'. consumes_all rules cs s s' \<and> stack_lang rules s' w))"
    using Cons.IH consumes_ok [OF assms(1) _ Cons.prems(1)] consumes_ready by blast
  finally show ?case by auto
qed simp

lemma consumes_all_ok:
  assumes "rules_ok rules"
  shows "consumes_all rules cs stack s \<Longrightarrow> stack_ok rules stack \<Longrightarrow> ready rules stack \<Longrightarrow> stack_ok rules s \<and> ready rules s"
  by (induction cs arbitrary: stack) (auto dest: consumes_ok [OF assms] consumes_ready)

lemma stack_lang_word:
  assumes "rules_ok rules" "stack_ok rules stack" "ready rules stack"
  shows "stack_lang rules stack cs \<longleftrightarrow> consumes_all rules cs stack []"
proof -
  have "stack_lang rules stack cs \<longleftrightarrow> (\<exists>s. consumes_all rules cs stack s \<and> stack_lang rules s [])"
    using stack_lang_consumes_all [OF assms, of cs "[]"] by simp
  also have "\<dots> \<longleftrightarrow> (\<exists>s. consumes_all rules cs stack s \<and> s = [])"
    using stack_lang_done consumes_all_ok [OF assms(1) _ assms(2,3)] by blast
  finally show ?thesis by simp
qed

end
