(* ===== verification/Grammar_Check.thy ===== *)
theory Grammar_Check
  imports Grammar
begin

text \<open>
  When \<open>advance_stack\<close> of \<open>llama-grammar.cpp\<close> ends, and what the check for left recursion at the start of
  \<open>llama_grammar_init_impl\<close> guarantees.
\<close>

section \<open>When expanding ends\<close>

text \<open>
  For a set \<open>N\<close> of rules that may derive the empty text and a bound \<open>D\<close> for every rule: whether the rest of
  an alternate can vanish, and how deep its expansion goes before a terminal is on top.
\<close>

function vanishes :: "llama_grammar_rules \<Rightarrow> nat set \<Rightarrow> element_ptr \<Rightarrow> bool" where
  "vanishes rules N pos = (if type_at rules pos = GRETYPE_RULE_REF
     then if value_at rules pos \<in> N then vanishes rules N (ptr_add pos 1) else False else ends_at rules pos)"
  by pat_completeness auto
termination
  by (relation "measure (\<lambda>(rules, N, pos). length (rules ! fst pos) - snd pos)")
    (auto simp: ptr_add_def elem_at_def is_end_of_sequence_def split: if_splits prod.splits)

declare vanishes.simps [simp del]

function depth :: "llama_grammar_rules \<Rightarrow> nat set \<Rightarrow> (nat \<Rightarrow> nat) \<Rightarrow> element_ptr \<Rightarrow> nat" where
  "depth rules N D pos = (if type_at rules pos = GRETYPE_RULE_REF
     then 1 + D (value_at rules pos) + (if value_at rules pos \<in> N then depth rules N D (ptr_add pos 1) else 0) else 0)"
  by pat_completeness auto
termination
  by (relation "measure (\<lambda>(rules, N, D, pos). length (rules ! fst pos) - snd pos)")
    (auto simp: ptr_add_def elem_at_def split: if_splits prod.splits)

declare depth.simps [simp del]

fun stack_depth :: "llama_grammar_rules \<Rightarrow> nat set \<Rightarrow> (nat \<Rightarrow> nat) \<Rightarrow> llama_grammar_stack \<Rightarrow> nat" where
  "stack_depth rules N D [] = 0"
| "stack_depth rules N D (pos # rest) = depth rules N D pos + (if vanishes rules N pos then stack_depth rules N D rest else 0)"

text \<open>The bounds are consistent with the rules: the grammar has no left recursion.\<close>

definition left_bounded :: "llama_grammar_rules \<Rightarrow> nat set \<Rightarrow> (nat \<Rightarrow> nat) \<Rightarrow> bool" where
  "left_bounded rules N D \<longleftrightarrow> (\<forall>r < length rules. \<forall>sub \<in> set (alt_starts rules (r, 0)).
     depth rules N D sub \<le> D r \<and> (vanishes rules N sub \<longrightarrow> r \<in> N))"

lemma stack_depth_push:
  "stack_depth rules N D (push_unless_end rules pos rest) = depth rules N D pos + (if vanishes rules N pos then stack_depth rules N D rest else 0)"
proof (cases "ends_at rules pos")
  case True
  then have "type_at rules pos \<noteq> GRETYPE_RULE_REF" by (auto simp: is_end_of_sequence_def)
  then show ?thesis using True by (simp add: push_unless_end_def depth.simps [of rules N D pos] vanishes.simps [of rules N pos])
qed (simp add: push_unless_end_def)

lemma advance_stack_ends:
  assumes "rules_ok rules" "left_bounded rules N D"
  shows "stack_ok rules stack \<Longrightarrow> stack_depth rules N D stack < n \<Longrightarrow> \<exists>new'. advance_stack n rules stack new_stacks = Inr new'"
proof (induction n arbitrary: stack new_stacks)
  case (Suc n)
  show ?case
  proof (cases "ready rules stack")
    case True
    then show ?thesis unfolding advance_stack_ready [OF True] by blast
  next
    case False
    then obtain pos rest where stack: "stack = pos # rest" by (cases stack) (auto simp: ready_def)
    have pos: "proper rules pos" "\<not> ends_at rules pos" "stack_ok rules rest" using Suc.prems(1) by (simp_all add: stack)
    have ref: "type_at rules pos = GRETYPE_RULE_REF"
      using pos(1,2) False by (cases "type_at rules pos") (auto simp: stack proper_def is_end_of_sequence_def ready_def is_char_class_def is_token_type_def)
    note step = depth.simps [of rules N D pos] vanishes.simps [of rules N pos]
    have "\<exists>b'. advance_stack n rules (push_unless_end rules sub (push_unless_end rules (ptr_add pos 1) rest)) b = Inr b'"
      if sub: "sub \<in> set (alt_starts rules (value_at rules pos, 0))" for sub b
    proof (rule Suc.IH)
      have "proper rules sub" using proper_alternates [OF assms(1) proper_start [OF assms(1)] sub] .
      moreover have "proper rules (ptr_add pos 1)" by (rule proper_next [OF assms(1)]) (simp add: ref)
      ultimately show "stack_ok rules (push_unless_end rules sub (push_unless_end rules (ptr_add pos 1) rest))"
        using pos(3) by (intro stack_ok_push)
      have b: "depth rules N D sub \<le> D (value_at rules pos)" "vanishes rules N sub \<longrightarrow> value_at rules pos \<in> N"
        using assms(2) sub ref_in_range [OF assms(1) ref] unfolding left_bounded_def by blast+
      then show "stack_depth rules N D (push_unless_end rules sub (push_unless_end rules (ptr_add pos 1) rest)) < n"
        using Suc.prems(2) ref step pos(2) unfolding stack stack_depth_push stack_depth.simps by (auto split: if_splits)
    qed
    then have "\<exists>new'. fold_outcome (\<lambda>sub. advance_stack n rules (push_unless_end rules sub (push_unless_end rules (ptr_add pos 1) rest)))
        (alt_starts rules (value_at rules pos, 0)) new_stacks = Inr new'" by (rule fold_outcome_total)
    then show ?thesis by (simp add: stack ref)
  qed
qed simp

section \<open>The check for left recursion\<close>

text \<open>The rules with an empty alternate, and the references that can come first in the rest of an alternate.\<close>

definition directly_empty :: "llama_grammar_rules \<Rightarrow> nat set" where
  "directly_empty rules = set (filter (\<lambda>r. has_empty_alternate (rules ! r) True) [0..<length rules])"

function leftmost_refs :: "llama_grammar_rules \<Rightarrow> nat set \<Rightarrow> element_ptr \<Rightarrow> nat list" where
  "leftmost_refs rules N pos = (if type_at rules pos = GRETYPE_RULE_REF
     then value_at rules pos # (if value_at rules pos \<in> N then leftmost_refs rules N (ptr_add pos 1) else []) else [])"
  by pat_completeness auto
termination
  by (relation "measure (\<lambda>(rules, N, pos). length (rules ! fst pos) - snd pos)")
    (auto simp: ptr_add_def elem_at_def split: if_splits prod.splits)

declare leftmost_refs.simps [simp del]

definition left_edge :: "llama_grammar_rules \<Rightarrow> nat set \<Rightarrow> nat \<Rightarrow> nat \<Rightarrow> bool" where
  "left_edge rules N r q \<longleftrightarrow> (\<exists>sub \<in> set (alt_starts rules (r, 0)). q \<in> set (leftmost_refs rules N sub))"

inductive grounded :: "llama_grammar_rules \<Rightarrow> nat set \<Rightarrow> nat \<Rightarrow> bool" for rules N where
  "(\<And>q. left_edge rules N r q \<Longrightarrow> grounded rules N q) \<Longrightarrow> grounded rules N r"

text \<open>Grounded rules have bounds: iterating the depth becomes stable.\<close>

lemma depth_cong: "(\<And>q. q \<in> set (leftmost_refs rules N pos) \<Longrightarrow> D q = D' q) \<Longrightarrow> depth rules N D pos = depth rules N D' pos"
proof (induction rules N D pos rule: depth.induct)
  case (1 rules N D pos)
  note step = depth.simps [of rules N _ pos] leftmost_refs.simps [of rules N pos]
  show ?case
  proof (cases "type_at rules pos = GRETYPE_RULE_REF")
    case True
    then have "D (value_at rules pos) = D' (value_at rules pos)" using "1.prems" step(2) by simp
    moreover have "depth rules N D (ptr_add pos 1) = depth rules N D' (ptr_add pos 1)" if "value_at rules pos \<in> N"
      using "1.IH" [OF True that] "1.prems" step(2) True that by simp
    ultimately show ?thesis by (simp add: step(1))
  qed (simp add: step(1))
qed

fun depth_iter :: "llama_grammar_rules \<Rightarrow> nat set \<Rightarrow> nat \<Rightarrow> nat \<Rightarrow> nat" where
  "depth_iter rules N 0 r = 0"
| "depth_iter rules N (Suc k) r = Max (depth rules N (depth_iter rules N k) ` set (alt_starts rules (r, 0)))"

definition stable_depth :: "llama_grammar_rules \<Rightarrow> nat set \<Rightarrow> nat \<Rightarrow> nat \<Rightarrow> bool" where
  "stable_depth rules N r K \<longleftrightarrow> (\<forall>k \<ge> K. depth_iter rules N k r = depth_iter rules N K r)"

lemma stableD: "stable_depth rules N r K \<Longrightarrow> K \<le> k \<Longrightarrow> depth_iter rules N k r = depth_iter rules N K r"
  unfolding stable_depth_def by blast

lemma stable_mono: "stable_depth rules N r K \<Longrightarrow> K \<le> K' \<Longrightarrow> stable_depth rules N r K'"
proof -
  assume st: "stable_depth rules N r K" and le: "K \<le> K'"
  have "depth_iter rules N k r = depth_iter rules N K' r" if "K' \<le> k" for k
  proof -
    have "depth_iter rules N k r = depth_iter rules N K r" by (rule stableD [OF st]) (use that le in linarith)
    also have "\<dots> = depth_iter rules N K' r" by (rule stableD [OF st le, symmetric])
    finally show ?thesis .
  qed
  then show ?thesis unfolding stable_depth_def by blast
qed

lemma stable_all:
  assumes "finite E" "\<forall>q \<in> E. \<exists>K. stable_depth rules N q K"
  shows "\<exists>K. \<forall>q \<in> E. stable_depth rules N q K"
  using assms
proof (induction rule: finite_induct)
  case (insert q E)
  then obtain K1 K2 where "\<forall>q \<in> E. stable_depth rules N q K1" "stable_depth rules N q K2" by blast
  then have "stable_depth rules N p (max K1 K2)" if "p \<in> insert q E" for p
    using that stable_mono [of rules N p K1 "max K1 K2"] stable_mono [of rules N p K2 "max K1 K2"] by auto
  then show ?case by blast
qed simp

lemma grounded_stable: "grounded rules N r \<Longrightarrow> \<exists>K. stable_depth rules N r K"
proof (induction rule: grounded.induct)
  case (1 r)
  let ?E = "\<Union>sub \<in> set (alt_starts rules (r, 0)). set (leftmost_refs rules N sub)"
  have "\<forall>q \<in> ?E. \<exists>K. stable_depth rules N q K" using "1.IH" by (auto simp: left_edge_def)
  then obtain K where K: "\<forall>q \<in> ?E. stable_depth rules N q K" using stable_all [of ?E rules N] by blast
  have "depth_iter rules N (Suc k) r = depth_iter rules N (Suc K) r" if k: "K \<le> k" for k
  proof -
    have "depth rules N (depth_iter rules N k) sub = depth rules N (depth_iter rules N K) sub" if "sub \<in> set (alt_starts rules (r, 0))" for sub
    proof (rule depth_cong)
      fix q assume "q \<in> set (leftmost_refs rules N sub)"
      then have "stable_depth rules N q K" using K that by blast
      then show "depth_iter rules N k q = depth_iter rules N K q" using k by (rule stableD)
    qed
    then show ?thesis unfolding depth_iter.simps(2) by (rule arg_cong [OF image_cong [OF refl]])
  qed
  note step = this
  have "depth_iter rules N k r = depth_iter rules N (Suc K) r" if k: "Suc K \<le> k" for k
  proof -
    obtain k' where k': "k = Suc k'" using k by (cases k) simp_all
    show ?thesis unfolding k' by (rule step) (use k k' in simp)
  qed
  then have "stable_depth rules N r (Suc K)" unfolding stable_depth_def by blast
  then show ?case by blast
qed

lemma grounded_bounded:
  assumes "\<And>r. r < length rules \<Longrightarrow> grounded rules N r"
    and "\<And>r sub. r < length rules \<Longrightarrow> sub \<in> set (alt_starts rules (r, 0)) \<Longrightarrow> vanishes rules N sub \<Longrightarrow> r \<in> N"
  shows "\<exists>D. left_bounded rules N D"
proof -
  obtain K where K: "\<forall>r \<in> {..<length rules}. stable_depth rules N r K"
    using stable_all [of "{..<length rules}" rules N] grounded_stable assms(1) by auto
  have "depth rules N (depth_iter rules N K) sub \<le> depth_iter rules N K r"
    if "r < length rules" "sub \<in> set (alt_starts rules (r, 0))" for r sub
  proof -
    have "stable_depth rules N r K" using K that(1) by simp
    then have "depth_iter rules N (Suc K) r = depth_iter rules N K r" by (rule stableD) simp
    moreover have "depth rules N (depth_iter rules N K) sub \<le> depth_iter rules N (Suc K) r" using that(2) by simp
    ultimately show ?thesis by simp
  qed
  then show ?thesis using assms(2) unfolding left_bounded_def by blast
qed

text \<open>The references that the second loop of \<open>detect_left_recursion\<close> follows.\<close>

fun scan_refs :: "nat set \<Rightarrow> llama_grammar_rule \<Rightarrow> bool \<Rightarrow> nat list" where
  "scan_refs N [] into = []"
| "scan_refs N (e # es) into = (if ge_type e = GRETYPE_RULE_REF \<and> into then ge_value e # scan_refs N es (ge_value e \<in> N)
     else scan_refs N es (is_end_of_sequence e))"

abbreviation rest_of :: "llama_grammar_rules \<Rightarrow> element_ptr \<Rightarrow> llama_grammar_rule" where
  "rest_of rules pos \<equiv> drop (snd pos) (rules ! fst pos)"

lemma rest_of_step:
  assumes "fst pos < length rules" "snd pos < length (rules ! fst pos)"
  shows "rest_of rules pos = elem_at rules pos # rest_of rules (ptr_add pos 1)"
  using assms by (cases pos) (simp add: elem_at_def ptr_add_def Cons_nth_drop_Suc)

lemma not_end_in_range: "type_at rules pos \<noteq> GRETYPE_END \<Longrightarrow> fst pos < length rules \<and> snd pos < length (rules ! fst pos)"
  by (auto simp: elem_at_def split: prod.splits if_splits)

lemma leftmost_refs_scanned: "set (leftmost_refs rules N pos) \<subseteq> set (scan_refs N (rest_of rules pos) True)"
proof (induction rules N pos rule: leftmost_refs.induct)
  case (1 rules N pos)
  show ?case
  proof (cases "type_at rules pos = GRETYPE_RULE_REF")
    case True
    then have "rest_of rules pos = elem_at rules pos # rest_of rules (ptr_add pos 1)"
      using not_end_in_range [of rules pos] by (intro rest_of_step) simp_all
    then show ?thesis using True "1.IH" by (auto simp: leftmost_refs.simps [of rules N pos])
  qed (simp add: leftmost_refs.simps [of rules N pos])
qed

lemma scan_end_scanned:
  "type_at rules (scan_end rules pos) = GRETYPE_ALT \<Longrightarrow>
   set (scan_refs N (rest_of rules (ptr_add (scan_end rules pos) 1)) True) \<subseteq> set (scan_refs N (rest_of rules pos) into)"
proof (induction rules pos arbitrary: into rule: scan_end.induct)
  case (1 rules pos)
  have "\<not> ends_at rules pos \<or> type_at rules pos = GRETYPE_ALT" using "1.prems" by (auto simp: scan_end.simps [of rules pos])
  then have "type_at rules pos \<noteq> GRETYPE_END" by (auto simp: is_end_of_sequence_def)
  then have split: "rest_of rules pos = elem_at rules pos # rest_of rules (ptr_add pos 1)"
    using not_end_in_range [of rules pos] by (intro rest_of_step) simp_all
  show ?case
  proof (cases "ends_at rules pos")
    case True
    then have "scan_end rules pos = pos" by (simp add: scan_end.simps [of rules pos])
    then show ?thesis using True split by (auto simp: is_end_of_sequence_def)
  next
    case False
    then have eq: "scan_end rules pos = scan_end rules (ptr_add pos 1)" by (simp add: scan_end.simps [of rules pos])
    show ?thesis using "1.IH" [OF False] "1.prems" unfolding eq split scan_refs.simps by (auto split: if_splits)
  qed
qed

lemma alternates_scanned:
  "sub \<in> set (alt_starts rules pos) \<Longrightarrow> set (leftmost_refs rules N sub) \<subseteq> set (scan_refs N (rest_of rules pos) True)"
proof (induction rules pos rule: alt_starts.induct)
  case (1 rules pos)
  show ?case
  proof (cases "sub = pos")
    case True
    then show ?thesis using leftmost_refs_scanned by simp
  next
    case False
    then have alt: "type_at rules (scan_end rules pos) = GRETYPE_ALT" "sub \<in> set (alt_starts rules (ptr_add (scan_end rules pos) 1))"
      using "1.prems" by (auto simp: alt_starts.simps [of rules pos] split: if_splits)
    then show ?thesis using "1.IH" scan_end_scanned [OF alt(1)] by blast
  qed
qed

lemma left_edge_scanned: "left_edge rules N r q \<Longrightarrow> q \<in> set (scan_refs N (rules ! r) True)"
  using alternates_scanned [of _ rules "(r, 0)" N] by (auto simp: left_edge_def)

text \<open>The invariant of the check, and what a call that finds nothing has shown.\<close>

definition lr_ok :: "llama_grammar_rules \<Rightarrow> lr_state \<Rightarrow> bool" where
  "lr_ok rules st \<longleftrightarrow> length (rules_visited st) = length rules \<and> length (rules_in_progress st) = length rules \<and>
     length (rules_may_be_empty st) = length rules \<and>
     (\<forall>q < length rules. (rules_may_be_empty st ! q \<longrightarrow> q \<in> directly_empty rules) \<and>
        (rules_visited st ! q \<longrightarrow> grounded rules (directly_empty rules) q))"

definition lr_clean :: "llama_grammar_rules \<Rightarrow> lr_state \<Rightarrow> lr_state \<Rightarrow> bool" where
  "lr_clean rules st st' \<longleftrightarrow> lr_ok rules st' \<and> rules_in_progress st' = rules_in_progress st \<and>
     (\<forall>q < length rules. rules_may_be_empty st ! q \<longrightarrow> rules_may_be_empty st' ! q)"

definition lr_done :: "llama_grammar_rules \<Rightarrow> nat \<Rightarrow> lr_state \<Rightarrow> bool" where
  "lr_done rules r st' \<longleftrightarrow> (r \<in> directly_empty rules \<longrightarrow> rules_may_be_empty st' ! r) \<and> grounded rules (directly_empty rules) r"

lemma lr_clean_refl: "lr_ok rules st \<Longrightarrow> lr_clean rules st st"
  by (simp add: lr_clean_def)

lemma lr_clean_trans: "lr_clean rules a b \<Longrightarrow> lr_clean rules b c \<Longrightarrow> lr_clean rules a c"
  by (simp add: lr_clean_def)

lemma lr_done_may_be_empty: "lr_ok rules st \<Longrightarrow> lr_done rules q st \<Longrightarrow> q < length rules \<Longrightarrow> rules_may_be_empty st ! q \<longleftrightarrow> q \<in> directly_empty rules"
  by (auto simp: lr_ok_def lr_done_def)

text \<open>A call of the check ends, with left recursion found or with this result.\<close>

definition lr_result :: "llama_grammar_rules \<Rightarrow> nat set \<Rightarrow> lr_state \<Rightarrow> (bool \<times> lr_state) outcome \<Rightarrow> bool" where
  "lr_result rules R st res \<longleftrightarrow> (\<exists>found st'. res = Inr (found, st') \<and> (\<not> found \<longrightarrow> lr_clean rules st st' \<and> (\<forall>q \<in> R. lr_done rules q st')))"

lemma lr_result_found [simp]: "lr_result rules R st (Inr (True, st'))"
  unfolding lr_result_def by blast

lemma lr_result_clean [simp]: "lr_result rules R st (Inr (False, st')) \<longleftrightarrow> lr_clean rules st st' \<and> (\<forall>q \<in> R. lr_done rules q st')"
  unfolding lr_result_def by auto

definition refs_below :: "nat \<Rightarrow> llama_grammar_rule \<Rightarrow> bool" where
  "refs_below n es \<longleftrightarrow> list_all (\<lambda>e. ge_type e = GRETYPE_RULE_REF \<longrightarrow> ge_value e < n) es"

lemma refs_below_rule: "rules_ok rules \<Longrightarrow> r < length rules \<Longrightarrow> refs_below (length rules) (rules ! r)"
  by (simp add: rules_ok_def refs_below_def list_all_length rule_ok_def)

lemma lr_done_mono: "lr_done rules q a \<Longrightarrow> q < length rules \<Longrightarrow> lr_clean rules a b \<Longrightarrow> lr_done rules q b"
  by (auto simp: lr_done_def lr_clean_def)

lemma scan_refs_below: "refs_below n es \<Longrightarrow> q \<in> set (scan_refs N es into) \<Longrightarrow> q < n"
  by (induction N es into rule: scan_refs.induct) (auto simp: refs_below_def split: if_splits)

lemma scan_leftmost_result:
  assumes recurse: "\<And>q st. q < length rules \<Longrightarrow> lr_ok rules st \<Longrightarrow> rules_in_progress st = ps \<Longrightarrow> lr_result rules {q} st (recurse q st)"
  shows "refs_below (length rules) es \<Longrightarrow> lr_ok rules st \<Longrightarrow> rules_in_progress st = ps \<Longrightarrow>
    lr_result rules (set (scan_refs (directly_empty rules) es into)) st (scan_leftmost recurse es into st)"
proof (induction es arbitrary: into st)
  case Nil
  have "lr_clean rules st st" using Nil.prems(2) by (rule lr_clean_refl)
  then show ?case by simp
next
  case (Cons e es)
  let ?v = "ge_value e"
  have es: "refs_below (length rules) es" using Cons.prems(1) by (simp add: refs_below_def)
  show ?case
  proof (cases "ge_type e = GRETYPE_RULE_REF \<and> into")
    case True
    have v: "?v < length rules" using Cons.prems(1) True by (simp add: refs_below_def)
    obtain found st1 where r1: "recurse ?v st = Inr (found, st1)" "\<not> found \<longrightarrow> lr_clean rules st st1 \<and> lr_done rules ?v st1"
      using recurse [OF v Cons.prems(2,3)] unfolding lr_result_def by auto
    show ?thesis
    proof (cases found)
      case True2: True
      then have "scan_leftmost recurse (e # es) into st = Inr (True, st1)" using True r1(1) by simp
      then show ?thesis by simp
    next
      case False
      then have c: "lr_clean rules st st1" "lr_done rules ?v st1" using r1(2) by blast+
      have ok1: "lr_ok rules st1" "rules_in_progress st1 = ps" using c(1) Cons.prems(3) by (simp_all add: lr_clean_def)
      have eq: "scan_leftmost recurse (e # es) into st = scan_leftmost recurse es (?v \<in> directly_empty rules) st1"
        using True False r1(1) lr_done_may_be_empty [OF ok1(1) c(2) v] by simp
      obtain found2 st2 where r2: "scan_leftmost recurse es (?v \<in> directly_empty rules) st1 = Inr (found2, st2)"
        "\<not> found2 \<longrightarrow> lr_clean rules st1 st2 \<and> (\<forall>q \<in> set (scan_refs (directly_empty rules) es (?v \<in> directly_empty rules)). lr_done rules q st2)"
        using Cons.IH [OF es ok1, of "?v \<in> directly_empty rules"] unfolding lr_result_def by blast
      then show ?thesis unfolding lr_result_def eq
        using True lr_clean_trans [OF c(1)] lr_done_mono [OF c(2) v] by auto
    qed
  next
    case False
    show ?thesis unfolding scan_leftmost.simps scan_refs.simps if_not_P [OF False] by (rule Cons.IH [OF es Cons.prems(2,3)])
  qed
qed

lemma count_unset: "r < length bs \<Longrightarrow> \<not> bs ! r \<Longrightarrow> Suc (length (filter Not (bs[r := True]))) = length (filter Not bs)"
proof (induction bs arbitrary: r)
  case (Cons b bs)
  then show ?case by (cases r) auto
qed simp

lemma lr_ok_enter: "lr_ok rules st \<Longrightarrow> lr_ok rules (st\<lparr>rules_in_progress := (rules_in_progress st)[r := b]\<rparr>)"
  by (simp add: lr_ok_def)

lemma nth_set_imp: "q < length bs \<Longrightarrow> bs[r := True] ! q \<Longrightarrow> q = r \<or> bs ! q"
  by (cases "q = r") simp_all

lemma lr_ok_mark: "lr_ok rules st \<Longrightarrow> r \<in> directly_empty rules \<Longrightarrow> lr_ok rules (st\<lparr>rules_may_be_empty := (rules_may_be_empty st)[r := True]\<rparr>)"
  by (auto simp: lr_ok_def dest: nth_set_imp [rotated])

lemma lr_ok_visit: "lr_ok rules st \<Longrightarrow> grounded rules (directly_empty rules) r \<Longrightarrow> lr_ok rules (st\<lparr>rules_visited := (rules_visited st)[r := True]\<rparr>)"
  by (auto simp: lr_ok_def dest: nth_set_imp [rotated])

lemma detect_result:
  assumes "rules_ok rules"
  shows "r < length rules \<Longrightarrow> lr_ok rules st \<Longrightarrow> length (filter Not (rules_in_progress st)) < n \<Longrightarrow>
    lr_result rules {r} st (detect_left_recursion n rules r st)"
proof (induction n arbitrary: r st)
  case (Suc n)
  show ?case
  proof (cases "rules_in_progress st ! r")
    case True
    then show ?thesis by simp
  next
    case False
    let ?ps = "(rules_in_progress st)[r := True]"
    define st1 where "st1 = st\<lparr>rules_in_progress := ?ps\<rparr>"
    define st2 where "st2 = (if has_empty_alternate (rules ! r) True then st1\<lparr>rules_may_be_empty := (rules_may_be_empty st1)[r := True]\<rparr> else st1)"
    have len: "length (rules_in_progress st) = length rules" "length (rules_may_be_empty st) = length rules" using Suc.prems(2) by (simp_all add: lr_ok_def)
    have ok2: "lr_ok rules st2" "rules_in_progress st2 = ?ps"
      using lr_ok_mark [OF lr_ok_enter [OF Suc.prems(2)], of r r True] lr_ok_enter [OF Suc.prems(2)] Suc.prems(1)
      by (simp_all add: st2_def st1_def directly_empty_def)
    have mark: "r \<in> directly_empty rules \<longrightarrow> rules_may_be_empty st2 ! r"
      "\<forall>q < length rules. rules_may_be_empty st ! q \<longrightarrow> rules_may_be_empty st2 ! q"
      using Suc.prems(1) len by (auto simp: st2_def st1_def directly_empty_def nth_list_update)
    have "length (filter Not ?ps) < n"
      using count_unset [of r "rules_in_progress st"] False Suc.prems(1,3) len by simp
    then have rec: "lr_result rules {q} s (detect_left_recursion n rules q s)" if "q < length rules" "lr_ok rules s" "rules_in_progress s = ?ps" for q s
      using that by (intro Suc.IH) simp_all
    obtain found st3 where r3: "scan_leftmost (detect_left_recursion n rules) (rules ! r) True st2 = Inr (found, st3)"
      "\<not> found \<longrightarrow> lr_clean rules st2 st3 \<and> (\<forall>q \<in> set (scan_refs (directly_empty rules) (rules ! r) True). lr_done rules q st3)"
      using scan_leftmost_result [OF rec refs_below_rule [OF assms Suc.prems(1)] ok2, where into = True] unfolding lr_result_def by blast
    have eq: "detect_left_recursion (Suc n) rules r st = (if found then Inr (True, st3)
        else Inr (False, st3\<lparr>rules_in_progress := (rules_in_progress st3)[r := False], rules_visited := (rules_visited st3)[r := True]\<rparr>))"
      using False r3(1) by (cases "has_empty_alternate (rules ! r) True") (simp_all add: st2_def st1_def Let_def)
    show ?thesis
    proof (cases found)
      case True
      then show ?thesis unfolding eq by simp
    next
      case False2: False
      define st4 where "st4 = st3\<lparr>rules_in_progress := (rules_in_progress st3)[r := False], rules_visited := (rules_visited st3)[r := True]\<rparr>"
      have c: "lr_clean rules st2 st3" "\<forall>q \<in> set (scan_refs (directly_empty rules) (rules ! r) True). lr_done rules q st3" using r3(2) False2 by blast+
      have "grounded rules (directly_empty rules) r"
        by (rule grounded.intros) (use c(2) left_edge_scanned in \<open>unfold lr_done_def, blast\<close>)
      moreover have "rules_in_progress st4 = rules_in_progress st"
        using c(1) ok2(2) False len(1) Suc.prems(1) by (simp add: st4_def lr_clean_def list_update_same_conv)
      moreover have "lr_ok rules st3" using c(1) by (simp add: lr_clean_def)
      then have "lr_ok rules st4" using lr_ok_visit [OF lr_ok_enter calculation(1), of st3 r False] by (simp add: st4_def)
      ultimately have "lr_clean rules st st4 \<and> lr_done rules r st4"
        using c(1) mark Suc.prems(1) by (simp add: lr_clean_def lr_done_def st4_def)
      then show ?thesis using False2 unfolding eq st4_def [symmetric] by simp
    qed
  qed
qed simp

lemma check_rules_result:
  assumes "rules_ok rules"
  shows "list_all (\<lambda>r. r < length rules) is \<Longrightarrow> lr_ok rules st \<Longrightarrow>
    \<exists>found st'. check_rules rules is st = Inr (found, st') \<and> (\<not> found \<longrightarrow> list_all (grounded rules (directly_empty rules)) is)"
proof (induction "is" arbitrary: st)
  case (Cons i "is")
  have i: "i < length rules" "list_all (\<lambda>r. r < length rules) is" using Cons.prems(1) by simp_all
  show ?case
  proof (cases "rules_visited st ! i")
    case True
    then have "grounded rules (directly_empty rules) i" using Cons.prems(2) i(1) by (simp add: lr_ok_def)
    then show ?thesis using Cons.IH [OF i(2) Cons.prems(2)] True by simp
  next
    case False
    have "length (filter Not (rules_in_progress st)) < length rules + 1"
      using Cons.prems(2) length_filter_le [of Not "rules_in_progress st"] by (simp add: lr_ok_def)
    then have "lr_result rules {i} st (detect_left_recursion (length rules + 1) rules i st)" by (rule detect_result [OF assms i(1) Cons.prems(2)])
    then obtain found st1 where r1: "detect_left_recursion (length rules + 1) rules i st = Inr (found, st1)"
      "\<not> found \<longrightarrow> lr_clean rules st st1 \<and> lr_done rules i st1" unfolding lr_result_def by blast
    have eq: "check_rules rules (i # is) st = (if found then Inr (True, st1) else check_rules rules is st1)"
      using False r1(1) by (simp del: detect_left_recursion.simps)
    show ?thesis
    proof (cases found)
      case False2: False
      then have "lr_ok rules st1" "grounded rules (directly_empty rules) i" using r1(2) by (simp_all add: lr_clean_def lr_done_def)
      then show ?thesis using Cons.IH [OF i(2)] False2 unfolding eq by simp
    next
      case True
      then show ?thesis unfolding eq by (intro exI [of _ True]) simp
    qed
  qed
qed (intro exI [of _ False], simp)

lemma check_grounded:
  assumes "rules_ok rules"
  shows "\<exists>found. left_recursion_found rules = Inr found \<and> (\<not> found \<longrightarrow> (\<forall>r < length rules. grounded rules (directly_empty rules) r))"
proof -
  define b where "b = replicate (length rules) False"
  let ?st = "\<lparr>rules_visited = b, rules_in_progress = b, rules_may_be_empty = b\<rparr>"
  have ok: "lr_ok rules ?st" by (simp add: lr_ok_def b_def)
  obtain found st' where r: "check_rules rules [0..<length rules] ?st = Inr (found, st')"
    "\<not> found \<longrightarrow> list_all (grounded rules (directly_empty rules)) [0..<length rules]"
    using check_rules_result [OF assms _ ok, of "[0..<length rules]"] by (auto simp: list_all_iff)
  have "left_recursion_found rules = Inr found" using r(1) by (simp add: left_recursion_found_def b_def)
  then show ?thesis using r(2) by (simp add: list_all_iff)
qed

text \<open>Every rule with an alternate that can vanish also has an empty alternate.\<close>

definition direct_nulls :: "llama_grammar_rules \<Rightarrow> bool" where
  "direct_nulls rules \<longleftrightarrow> list_all (\<lambda>r. list_all (\<lambda>sub. vanishes rules (directly_empty rules) sub \<longrightarrow> r \<in> directly_empty rules)
     (alt_starts rules (r, 0))) [0..<length rules]"

lemma check_bounded:
  assumes "rules_ok rules" "left_recursion_found rules = Inr False" "direct_nulls rules"
  shows "\<exists>D. left_bounded rules (directly_empty rules) D"
proof (rule grounded_bounded)
  show "grounded rules (directly_empty rules) r" if "r < length rules" for r
    using check_grounded [OF assms(1)] assms(2) that by auto
  show "r \<in> directly_empty rules" if "r < length rules" "sub \<in> set (alt_starts rules (r, 0))" "vanishes rules (directly_empty rules) sub" for r sub
    using assms(3) that by (auto simp: direct_nulls_def list_all_iff)
qed


text \<open>Conversely every reference that the check follows is a first reference, and what it reports is a cycle of them.\<close>

lemma next_alternate: "a \<in> set (alt_starts rules pos) \<Longrightarrow> type_at rules (scan_end rules a) = GRETYPE_ALT \<Longrightarrow>
  ptr_add (scan_end rules a) 1 \<in> set (alt_starts rules pos)"
proof (induction rules pos rule: alt_starts.induct)
  case (1 rules pos)
  show ?case
  proof (cases "a = pos")
    case True
    have "p \<in> set (alt_starts rules p)" for p by (subst alt_starts.simps) simp
    then show ?thesis using "1.prems"(2) True by (subst alt_starts.simps) simp
  next
    case False
    then have alt: "type_at rules (scan_end rules pos) = GRETYPE_ALT" "a \<in> set (alt_starts rules (ptr_add (scan_end rules pos) 1))"
      using "1.prems" by (auto simp: alt_starts.simps [of rules pos] split: if_splits)
    then show ?thesis using "1.IH" "1.prems"(2) by (subst alt_starts.simps) simp
  qed
qed

lemma end_is_last:
  assumes "rules_ok rules" "r < length rules" "i < length (rules ! r)" "type_at rules (r, i) = GRETYPE_END"
  shows "Suc i = length (rules ! r)"
proof (rule ccontr)
  assume "Suc i \<noteq> length (rules ! r)"
  then have "i < length (butlast (rules ! r))" using assms(3) by simp
  moreover have "list_all (\<lambda>e. ge_type e \<noteq> GRETYPE_END) (butlast (rules ! r))" using assms(1,2) by (simp add: rules_ok_def list_all_length rule_ok_def)
  ultimately have "ge_type (butlast (rules ! r) ! i) \<noteq> GRETYPE_END" by (simp add: list_all_length)
  then show False using assms(2-4) \<open>i < length (butlast (rules ! r))\<close> by (simp add: elem_at_def nth_butlast)
qed

lemma scanned_left_edge:
  assumes "rules_ok rules" "r < length rules"
  shows "a \<in> set (alt_starts rules (r, 0)) \<Longrightarrow> scan_end rules a = scan_end rules (r, i) \<Longrightarrow>
    (into \<longrightarrow> set (leftmost_refs rules N (r, i)) \<subseteq> set (leftmost_refs rules N a)) \<Longrightarrow>
    q \<in> set (scan_refs N (drop i (rules ! r)) into) \<Longrightarrow> left_edge rules N r q"
proof (induction "length (rules ! r) - i" arbitrary: i a into)
  case 0
  then show ?case by simp
next
  case (Suc k)
  let ?e = "elem_at rules (r, i)"
  have i: "i < length (rules ! r)" "k = length (rules ! r) - Suc i" using Suc.hyps(2) by simp_all
  have split: "drop i (rules ! r) = ?e # drop (Suc i) (rules ! r)" using rest_of_step [of "(r, i)" rules] assms(2) i(1) by (simp add: ptr_add_def)
  have step: "leftmost_refs rules N (r, i) = (if ge_type ?e = GRETYPE_RULE_REF
     then ge_value ?e # (if ge_value ?e \<in> N then leftmost_refs rules N (r, Suc i) else []) else [])"
    by (subst leftmost_refs.simps) (simp add: ptr_add_def)
  have inside: "scan_end rules a = scan_end rules (r, Suc i)" if "\<not> ends_at rules (r, i)"
    using Suc.prems(2) that by (simp add: scan_end.simps [of rules "(r, i)"] ptr_add_def)
  consider (ref) "ge_type ?e = GRETYPE_RULE_REF" "into" | (alt) "ge_type ?e = GRETYPE_ALT" | (finish) "ge_type ?e = GRETYPE_END"
    | (other) "\<not> (ge_type ?e = GRETYPE_RULE_REF \<and> into)" "\<not> ends_at rules (r, i)"
    by (cases "ge_type ?e") (auto simp: is_end_of_sequence_def)
  then show ?case
  proof cases
    case ref
    have sub: "set (leftmost_refs rules N (r, i)) \<subseteq> set (leftmost_refs rules N a)" using Suc.prems(3) ref(2) by blast
    have q: "q = ge_value ?e \<or> q \<in> set (scan_refs N (drop (Suc i) (rules ! r)) (ge_value ?e \<in> N))"
      using Suc.prems(4) unfolding split by (simp add: ref)
    have "ge_value ?e \<in> set (leftmost_refs rules N a)" using sub step ref(1) by auto
    then have "left_edge rules N r (ge_value ?e)" using Suc.prems(1) unfolding left_edge_def by blast
    moreover have "left_edge rules N r q" if "q \<in> set (scan_refs N (drop (Suc i) (rules ! r)) (ge_value ?e \<in> N))"
    proof (rule Suc.hyps(1) [OF i(2) Suc.prems(1) inside _ that])
      show "\<not> ends_at rules (r, i)" using ref(1) by (simp add: is_end_of_sequence_def)
      show "ge_value ?e \<in> N \<longrightarrow> set (leftmost_refs rules N (r, Suc i)) \<subseteq> set (leftmost_refs rules N a)" using sub step ref(1) by auto
    qed
    ultimately show ?thesis using q by blast
  next
    case alt
    then have "ends_at rules (r, i)" by (simp add: is_end_of_sequence_def)
    then have here: "scan_end rules a = (r, i)" using Suc.prems(2) by (simp add: scan_end.simps [of rules "(r, i)"])
    have "(r, Suc i) \<in> set (alt_starts rules (r, 0))" using next_alternate [OF Suc.prems(1)] alt by (simp add: here ptr_add_def)
    moreover have "q \<in> set (scan_refs N (drop (Suc i) (rules ! r)) True)"
      using Suc.prems(4) alt unfolding split by (simp add: is_end_of_sequence_def)
    ultimately show ?thesis using Suc.hyps(1) [OF i(2)] by blast
  next
    case finish
    then have "drop (Suc i) (rules ! r) = []" using end_is_last [OF assms i(1)] by simp
    then show ?thesis using Suc.prems(4) finish unfolding split by simp
  next
    case other
    then have "q \<in> set (scan_refs N (drop (Suc i) (rules ! r)) False)"
      using Suc.prems(4) unfolding split scan_refs.simps if_not_P [OF other(1)] by simp
    then show ?thesis using Suc.hyps(1) [OF i(2) Suc.prems(1) inside [OF other(2)], of False] by simp
  qed
qed

lemma scan_refs_left_edge:
  assumes "rules_ok rules" "r < length rules"
  shows "q \<in> set (scan_refs N (rules ! r) True) \<longleftrightarrow> left_edge rules N r q"
proof
  assume "q \<in> set (scan_refs N (rules ! r) True)"
  moreover have "(r, 0) \<in> set (alt_starts rules (r, 0))" by (subst alt_starts.simps) simp
  ultimately show "left_edge rules N r q" using scanned_left_edge [OF assms, of "(r, 0)" 0 True N q] by simp
qed (rule left_edge_scanned)

abbreviation leads_to :: "llama_grammar_rules \<Rightarrow> nat \<Rightarrow> nat \<Rightarrow> bool" where
  "leads_to rules \<equiv> (left_edge rules (directly_empty rules))\<^sup>+\<^sup>+"

lemma scan_leftmost_found:
  assumes recurse: "\<And>q st. q < length rules \<Longrightarrow> lr_ok rules st \<Longrightarrow> rules_in_progress st = ps \<Longrightarrow> lr_result rules {q} st (recurse q st)"
  shows "refs_below (length rules) es \<Longrightarrow> lr_ok rules st \<Longrightarrow> rules_in_progress st = ps \<Longrightarrow>
    scan_leftmost recurse es into st = Inr (True, st') \<Longrightarrow>
    \<exists>q s. q \<in> set (scan_refs (directly_empty rules) es into) \<and> lr_ok rules s \<and> rules_in_progress s = ps \<and> recurse q s = Inr (True, st')"
proof (induction es arbitrary: into st)
  case (Cons e es)
  let ?v = "ge_value e"
  have es: "refs_below (length rules) es" using Cons.prems(1) by (simp add: refs_below_def)
  show ?case
  proof (cases "ge_type e = GRETYPE_RULE_REF \<and> into")
    case True
    have v: "?v < length rules" using Cons.prems(1) True by (simp add: refs_below_def)
    obtain found st1 where r1: "recurse ?v st = Inr (found, st1)" "\<not> found \<longrightarrow> lr_clean rules st st1 \<and> lr_done rules ?v st1"
      using recurse [OF v Cons.prems(2,3)] unfolding lr_result_def by auto
    show ?thesis
    proof (cases found)
      case True2: True
      then have "st1 = st'" using Cons.prems(4) True r1(1) by simp
      then have "recurse ?v st = Inr (True, st')" using r1(1) True2 by simp
      then show ?thesis using True Cons.prems(2,3) by (intro exI [of _ ?v] exI [of _ st]) simp
    next
      case False
      then have c: "lr_clean rules st st1" "lr_done rules ?v st1" using r1(2) by blast+
      have ok1: "lr_ok rules st1" "rules_in_progress st1 = ps" using c(1) Cons.prems(3) by (simp_all add: lr_clean_def)
      have "scan_leftmost recurse es (?v \<in> directly_empty rules) st1 = Inr (True, st')"
        using Cons.prems(4) True False r1(1) lr_done_may_be_empty [OF ok1(1) c(2) v] by simp
      from Cons.IH [OF es ok1 this] show ?thesis using True by auto
    qed
  next
    case False
    show ?thesis using Cons.IH [OF es Cons.prems(2,3)] Cons.prems(4) unfolding scan_leftmost.simps scan_refs.simps if_not_P [OF False] by blast
  qed
qed simp

lemma detect_found:
  assumes "rules_ok rules"
  shows "r < length rules \<Longrightarrow> lr_ok rules st \<Longrightarrow> length (filter Not (rules_in_progress st)) < n \<Longrightarrow>
    \<forall>p < length rules. rules_in_progress st ! p \<longrightarrow> leads_to rules p r \<Longrightarrow>
    detect_left_recursion n rules r st = Inr (True, st') \<Longrightarrow> \<exists>q. leads_to rules q q"
proof (induction n arbitrary: r st)
  case (Suc n)
  show ?case
  proof (cases "rules_in_progress st ! r")
    case True
    then show ?thesis using Suc.prems(1,4) by blast
  next
    case False
    let ?ps = "(rules_in_progress st)[r := True]"
    define st1 where "st1 = st\<lparr>rules_in_progress := ?ps\<rparr>"
    define st2 where "st2 = (if has_empty_alternate (rules ! r) True then st1\<lparr>rules_may_be_empty := (rules_may_be_empty st1)[r := True]\<rparr> else st1)"
    have len: "length (rules_in_progress st) = length rules" using Suc.prems(2) by (simp add: lr_ok_def)
    have ok2: "lr_ok rules st2" "rules_in_progress st2 = ?ps"
      using lr_ok_mark [OF lr_ok_enter [OF Suc.prems(2)], of r r True] lr_ok_enter [OF Suc.prems(2)] Suc.prems(1)
      by (simp_all add: st2_def st1_def directly_empty_def)
    have fuel: "length (filter Not ?ps) < n"
      using count_unset [of r "rules_in_progress st"] False Suc.prems(1,3) len by simp
    have "scan_leftmost (detect_left_recursion n rules) (rules ! r) True st2 = Inr (True, st')"
      using Suc.prems(5) False by (cases "has_empty_alternate (rules ! r) True")
        (auto simp: st2_def st1_def Let_def bind_outcome_Inr_iff split: if_splits)
    moreover have "lr_result rules {q} s (detect_left_recursion n rules q s)" if "q < length rules" "lr_ok rules s" "rules_in_progress s = ?ps" for q s
      using that fuel by (intro detect_result [OF assms]) simp_all
    ultimately obtain q s where q: "q \<in> set (scan_refs (directly_empty rules) (rules ! r) True)" "lr_ok rules s" "rules_in_progress s = ?ps"
      "detect_left_recursion n rules q s = Inr (True, st')"
      using scan_leftmost_found [OF _ refs_below_rule [OF assms Suc.prems(1)] ok2] by blast
    have edge: "left_edge rules (directly_empty rules) r q" using q(1) scan_refs_left_edge [OF assms Suc.prems(1)] by blast
    have "leads_to rules p q" if "p < length rules" "?ps ! p" for p
      using edge nth_set_imp [of p "rules_in_progress st" r] that Suc.prems(4) len tranclp.trancl_into_trancl [of "left_edge rules (directly_empty rules)" p r q] by auto
    then show ?thesis
      using Suc.IH [OF scan_refs_below [OF refs_below_rule [OF assms Suc.prems(1)] q(1)] q(2) _ _ q(4)] fuel q(3) by simp
  qed
qed simp

lemma grounded_acyclic: "grounded rules N r \<Longrightarrow> \<not> (left_edge rules N)\<^sup>+\<^sup>+ r r"
proof (induction rule: grounded.induct)
  case (1 r)
  show ?case
  proof
    assume "(left_edge rules N)\<^sup>+\<^sup>+ r r"
    then obtain q where q: "left_edge rules N r q" "(left_edge rules N)\<^sup>*\<^sup>* q r" by (meson tranclpD)
    then have "(left_edge rules N)\<^sup>+\<^sup>+ q q" by (meson rtranclp_into_tranclp1)
    then show False using "1.IH" [OF q(1)] by blast
  qed
qed

lemma left_edge_in_range: "left_edge rules N r q \<Longrightarrow> r < length rules"
proof (rule ccontr)
  assume e: "left_edge rules N r q" and "\<not> r < length rules"
  then have end_: "elem_at rules (r, i) = \<lparr>ge_type = GRETYPE_END, ge_value = 0\<rparr>" for i by (simp add: elem_at_def)
  then have "alt_starts rules (r, 0) = [(r, 0)]"
    by (subst alt_starts.simps) (simp add: scan_end.simps [of rules "(r, 0)"] is_end_of_sequence_def)
  then show False using e end_ by (simp add: left_edge_def leftmost_refs.simps [of rules N "(r, 0)"])
qed

lemma check_rules_found:
  assumes "rules_ok rules"
  shows "list_all (\<lambda>r. r < length rules) is \<Longrightarrow> lr_ok rules st \<Longrightarrow> \<not> True \<in> set (rules_in_progress st) \<Longrightarrow>
    check_rules rules is st = Inr (True, st') \<Longrightarrow> \<exists>q. leads_to rules q q"
proof (induction "is" arbitrary: st)
  case (Cons i "is")
  have i: "i < length rules" "list_all (\<lambda>r. r < length rules) is" using Cons.prems(1) by simp_all
  show ?case
  proof (cases "rules_visited st ! i")
    case True
    then show ?thesis using Cons.IH [OF i(2) Cons.prems(2,3)] Cons.prems(4) by simp
  next
    case False
    have len: "length (rules_in_progress st) = length rules" using Cons.prems(2) by (simp add: lr_ok_def)
    then have fuel: "length (filter Not (rules_in_progress st)) < length rules + 1"
      using length_filter_le [of Not "rules_in_progress st"] by simp
    obtain found st1 where r1: "detect_left_recursion (length rules + 1) rules i st = Inr (found, st1)"
      "\<not> found \<longrightarrow> lr_clean rules st st1 \<and> lr_done rules i st1"
      using detect_result [OF assms i(1) Cons.prems(2) fuel] unfolding lr_result_def by blast
    have eq: "check_rules rules (i # is) st = (if found then Inr (True, st1) else check_rules rules is st1)"
      using False r1(1) by (simp del: detect_left_recursion.simps)
    have idle: "\<forall>p < length rules. rules_in_progress st ! p \<longrightarrow> leads_to rules p i"
      using Cons.prems(3) len by (metis nth_mem)
    show ?thesis
    proof (cases found)
      case True2: True
      then show ?thesis using detect_found [OF assms i(1) Cons.prems(2) fuel idle] r1(1) by simp
    next
      case False
      then have "lr_ok rules st1" "rules_in_progress st1 = rules_in_progress st" using r1(2) by (simp_all add: lr_clean_def)
      then show ?thesis using Cons.IH [OF i(2)] Cons.prems(3,4) False unfolding eq by simp
    qed
  qed
qed simp

lemma check_is_exact:
  assumes "rules_ok rules"
  shows "left_recursion_found rules = Inr (\<exists>r. leads_to rules r r)"
proof -
  obtain found where f: "left_recursion_found rules = Inr found" "\<not> found \<longrightarrow> (\<forall>r < length rules. grounded rules (directly_empty rules) r)"
    using check_grounded [OF assms] by blast
  have "\<exists>r. leads_to rules r r" if "found"
  proof -
    define b where "b = replicate (length rules) False"
    let ?st = "\<lparr>rules_visited = b, rules_in_progress = b, rules_may_be_empty = b\<rparr>"
    have ok: "lr_ok rules ?st" "\<not> True \<in> set (rules_in_progress ?st)" by (simp_all add: lr_ok_def b_def)
    have True_: "found = True" using that by simp
    obtain st' where "check_rules rules [0..<length rules] ?st = Inr (True, st')"
      using f(1) [unfolded True_] by (auto simp: left_recursion_found_def b_def Let_def bind_outcome_Inr_iff)
    then show ?thesis using check_rules_found [OF assms _ ok, of "[0..<length rules]" st'] by (simp add: list_all_iff)
  qed
  moreover have "\<not> leads_to rules r r" if "\<not> found" for r
  proof
    assume cycle: "leads_to rules r r"
    then obtain q where "left_edge rules (directly_empty rules) r q" by (meson tranclpD)
    then have "r < length rules" by (rule left_edge_in_range)
    then show False using f(2) that grounded_acyclic [of rules "directly_empty rules" r] cycle by blast
  qed
  ultimately have "found = (\<exists>r. leads_to rules r r)" by blast
  then show ?thesis using f(1) by simp
qed

section \<open>Results\<close>

abbreviation elem :: "llama_gretype \<Rightarrow> nat \<Rightarrow> llama_grammar_element" where
  "elem t v \<equiv> \<lparr>ge_type = t, ge_value = v\<rparr>"

text \<open>
  C24. The check for left recursion at the start of \<open>init\<close> always ends, and it reports left recursion exactly when
  some rule leads to itself through first references, where a reference counts as first when all references
  before it in its alternate go to rules with an empty alternate.
\<close>

theorem left_recursion_check_exact:
  assumes "rules_ok rules"
  shows "left_recursion_found rules = Inr (\<exists>r. (left_edge rules (directly_empty rules))\<^sup>+\<^sup>+ r r)"
  using assms by (rule check_is_exact)

definition left_recursive_rules :: llama_grammar_rules where
  "left_recursive_rules = [[elem GRETYPE_RULE_REF 1, elem GRETYPE_CHAR 120, elem GRETYPE_END 0],
     [elem GRETYPE_CHAR 121, elem GRETYPE_ALT 0, elem GRETYPE_RULE_REF 2, elem GRETYPE_RULE_REF 0, elem GRETYPE_END 0],
     [elem GRETYPE_CHAR 122, elem GRETYPE_ALT 0, elem GRETYPE_END 0]]"

theorem left_recursion_check_exact_witness:
  "\<exists>r. (left_edge left_recursive_rules (directly_empty left_recursive_rules))\<^sup>+\<^sup>+ r r"
proof -
  have "rules_ok left_recursive_rules" by code_simp
  then have "left_recursion_found left_recursive_rules = Inr (\<exists>r. (left_edge left_recursive_rules (directly_empty left_recursive_rules))\<^sup>+\<^sup>+ r r)"
    by (rule left_recursion_check_exact)
  moreover have "left_recursion_found left_recursive_rules = Inr True" by code_simp
  ultimately show ?thesis by simp
qed

text \<open>
  C25. If the check finds no left recursion, and every rule with an alternate that can vanish also has an
  empty alternate, then \<open>advance_stack\<close> returns: for every stack there is a recursion depth that is enough.
\<close>

theorem advance_stack_terminates:
  assumes "rules_ok rules" "left_recursion_found rules = Inr False" "direct_nulls rules" "stack_ok rules stack"
  shows "\<exists>depth. \<forall>n \<ge> depth. \<forall>new_stacks. \<exists>stacks. advance_stack n rules stack new_stacks = Inr stacks"
proof -
  obtain D where D: "left_bounded rules (directly_empty rules) D" using check_bounded [OF assms(1-3)] by blast
  show ?thesis
    using advance_stack_ends [OF assms(1) D assms(4)] by (intro exI [of _ "Suc (stack_depth rules (directly_empty rules) D stack)"]) auto
qed

definition list_rules :: llama_grammar_rules where
  "list_rules = [[elem GRETYPE_RULE_REF 1, elem GRETYPE_CHAR 120, elem GRETYPE_RULE_REF 0, elem GRETYPE_ALT 0, elem GRETYPE_END 0],
     [elem GRETYPE_CHAR 45, elem GRETYPE_ALT 0, elem GRETYPE_END 0]]"

theorem advance_stack_terminates_witness:
  "\<exists>depth. \<forall>n \<ge> depth. \<forall>new_stacks. \<exists>stacks. advance_stack n list_rules [(0, 0)] new_stacks = Inr stacks"
proof (rule advance_stack_terminates)
  show "rules_ok list_rules" by code_simp
  show "left_recursion_found list_rules = Inr False" by code_simp
  show "direct_nulls list_rules" by code_simp
  show "stack_ok list_rules [(0, 0)]" by code_simp
qed

definition missed_rules :: llama_grammar_rules where
  "missed_rules = [[elem GRETYPE_RULE_REF 1, elem GRETYPE_RULE_REF 0, elem GRETYPE_CHAR 120, elem GRETYPE_END 0],
     [elem GRETYPE_RULE_REF 2, elem GRETYPE_END 0], [elem GRETYPE_END 0]]"

lemma missed_elements:
  "elem_at missed_rules (0, 0) = elem GRETYPE_RULE_REF 1" "elem_at missed_rules (0, Suc 0) = elem GRETYPE_RULE_REF 0"
  "elem_at missed_rules (0, Suc (Suc 0)) = elem GRETYPE_CHAR 120" "elem_at missed_rules (Suc 0, 0) = elem GRETYPE_RULE_REF 2"
  "elem_at missed_rules (Suc 0, Suc 0) = elem GRETYPE_END 0" "elem_at missed_rules (2, 0) = elem GRETYPE_END 0"
  by (simp_all add: missed_rules_def elem_at_def)

lemma missed_alternates: "alt_starts missed_rules (0, 0) = [(0, 0)]" "alt_starts missed_rules (Suc 0, 0) = [(Suc 0, 0)]" "alt_starts missed_rules (2, 0) = [(2, 0)]"
  by code_simp+

lemma missed_diverges: "advance_stack n missed_rules ((0, 0) # rest) new_stacks = Inl Diverged"
proof (induction n arbitrary: rest rule: less_induct)
  case (less n)
  note rules = missed_elements missed_alternates push_unless_end_def is_end_of_sequence_def ptr_add_def
  show ?case
  proof (cases "n < 3")
    case True
    then consider "n = 0" | "n = Suc 0" | "n = Suc (Suc 0)" by linarith
    then show ?thesis by cases (simp_all add: rules)
  next
    case False
    then obtain k where k: "n = Suc (Suc (Suc k))" by (intro that [of "n - 3"]) simp
    then have "advance_stack k missed_rules ((0, 0) # (0, Suc (Suc 0)) # rest) new_stacks = Inl Diverged" using less.IH by simp
    then show ?thesis by (simp add: k rules)
  qed
qed

text \<open>
  C38. The check misses left recursion behind a rule that is empty only through another rule:
  for \<open>root ::= a root "x"\<close>, \<open>a ::= b\<close>, \<open>b ::= ""\<close> it finds nothing, and then building the initial stacks
  recurses without end, whatever the depth allowed.
\<close>

theorem left_recursion_missed:
  "rules_ok missed_rules \<and> left_recursion_found missed_rules = Inr False \<and> (\<forall>n. grammar_init n missed_rules 0 False [] [] = Inl Diverged)"
proof -
  have ok: "rules_ok missed_rules" by code_simp
  have [simp]: "missed_rules \<noteq> []" by (simp add: missed_rules_def)
  have "left_recursion_found missed_rules = Inr False" by code_simp
  moreover have "grammar_init n missed_rules 0 False [] [] = Inl Diverged" for n
    unfolding grammar_init_def copy_rules_ok [OF ok] Let_def
    by (simp add: calculation initial_stacks_in_range missed_alternates push_unless_end_def missed_elements is_end_of_sequence_def missed_diverges)
  ultimately show ?thesis using ok by blast
qed

end
