(* ===== verification/Grammar_Sampling.thy ===== *)
theory Grammar_Sampling
  imports Grammar_Check
begin

text \<open>
  What the grammar sampler of \<open>llama-grammar.cpp\<close> achieves: its stacks accept exactly the language of the
  grammar, and a token is rejected exactly when accepting it would fail.
\<close>

section \<open>Enough recursion depth\<close>

text \<open>The conditions under which expanding ends.\<close>

definition grammar_ok :: "llama_grammar_rules \<Rightarrow> bool" where
  "grammar_ok rules \<longleftrightarrow> rules_ok rules \<and> left_recursion_found rules = Inr False \<and> direct_nulls rules"

definition deep_enough :: "llama_grammar_rules \<Rightarrow> nat \<Rightarrow> llama_grammar_stack \<Rightarrow> bool" where
  "deep_enough rules n stack \<longleftrightarrow> (\<forall>new_stacks. \<exists>stacks. advance_stack n rules stack new_stacks = Inr stacks)"

lemma deep_enough_exists: "grammar_ok rules \<Longrightarrow> stack_ok rules stack \<Longrightarrow> \<exists>F. \<forall>n \<ge> F. deep_enough rules n stack"
proof -
  assume ok: "grammar_ok rules" "stack_ok rules stack"
  obtain D where D: "left_bounded rules (directly_empty rules) D" using check_bounded ok(1) unfolding grammar_ok_def by blast
  have "deep_enough rules n stack" if "Suc (stack_depth rules (directly_empty rules) D stack) \<le> n" for n
    using advance_stack_ends [OF _ D ok(2), of n] ok(1) that unfolding deep_enough_def grammar_ok_def by auto
  then show ?thesis by blast
qed

lemma common_depth: "finite S \<Longrightarrow> \<forall>s \<in> S. \<exists>F. \<forall>n \<ge> F. P s n \<Longrightarrow> \<exists>F. \<forall>n \<ge> (F::nat). \<forall>s \<in> S. P s n"
proof (induction rule: finite_induct)
  case (insert s S)
  obtain F1 F2 where "\<forall>n \<ge> F1. P s n" "\<forall>n \<ge> F2. \<forall>s \<in> S. P s n" using insert by auto
  then have "\<forall>n \<ge> max F1 F2. \<forall>t \<in> insert s S. P t n" by simp
  then show ?case by blast
qed simp

lemma expands_exists:
  "advance_stack n rules stack new_stacks = Inr stacks \<Longrightarrow> \<exists>s. expands rules stack s"
proof (induction n arbitrary: stack new_stacks stacks)
  case (Suc n)
  show ?case
  proof (cases "ready rules stack")
    case True
    then show ?thesis using expands_ready by blast
  next
    case False
    then obtain pos rest where stack: "stack = pos # rest" by (cases stack) (auto simp: ready_def)
    have ref: "type_at rules pos = GRETYPE_RULE_REF"
      using Suc.prems False unfolding stack by (auto simp: ready_def is_char_class_def is_token_type_def split: llama_gretype.splits)
    obtain sub subs where alts: "alt_starts rules (value_at rules pos, 0) = sub # subs"
      using alt_starts_nonempty by (meson neq_Nil_conv)
    obtain mid where "advance_stack n rules (push_unless_end rules sub (push_unless_end rules (ptr_add pos 1) rest)) new_stacks = Inr mid"
      using Suc.prems unfolding stack by (auto simp: ref alts bind_outcome_Inr_iff)
    from Suc.IH [OF this] obtain s where "expands rules (push_unless_end rules sub (push_unless_end rules (ptr_add pos 1) rest)) s" by blast
    then have "expands rules (pos # rest) s" by (rule expands_ref [OF ref, rotated]) (simp add: alts)
    then show ?thesis unfolding stack by blast
  qed
qed simp

text \<open>Accepting a code point never fails for lack of depth once the depth is enough for the successors of every stack.\<close>

definition accept_deep :: "llama_grammar_rules \<Rightarrow> nat \<Rightarrow> llama_grammar_stack \<Rightarrow> bool" where
  "accept_deep rules n stack \<longleftrightarrow> (\<forall>pos rest c ok nxt. stack = pos # rest \<longrightarrow> match_char rules pos c = Inr (ok, nxt) \<longrightarrow>
     deep_enough rules n (push_unless_end rules nxt rest))"

lemma accept_deep_exists:
  assumes "grammar_ok rules" "stack_ok rules stack"
  shows "\<exists>F. \<forall>n \<ge> F. accept_deep rules n stack"
proof (cases "\<exists>pos rest ok nxt. stack = pos # rest \<and> match_char rules pos 0 = Inr (ok, nxt)")
  case True
  then obtain pos rest ok nxt where s: "stack = pos # rest" "match_char rules pos 0 = Inr (ok, nxt)" by blast
  have r: "rules_ok rules" using assms(1) by (simp add: grammar_ok_def)
  have "stack_ok rules (push_unless_end rules nxt rest)"
    using match_char_next_proper [OF r s(2)] assms(2) s(1) by (intro stack_ok_push) simp_all
  then obtain F where F: "\<forall>n \<ge> F. deep_enough rules n (push_unless_end rules nxt rest)" using deep_enough_exists assms(1) by blast
  have "nxt' = nxt" if "match_char rules pos c = Inr (ok', nxt')" for c ok' nxt'
    using match_char_after [OF that, of 0] s(2) by auto
  then have "accept_deep rules n stack" if "F \<le> n" for n using F that s(1) unfolding accept_deep_def by blast
  then show ?thesis by blast
next
  case False
  have "accept_deep rules n stack" for n unfolding accept_deep_def
  proof (intro allI impI)
    fix pos rest c ok nxt assume "stack = pos # rest" "match_char rules pos c = Inr (ok, nxt)"
    then show "deep_enough rules n (push_unless_end rules nxt rest)" using False match_char_after [of rules pos c ok nxt 0] by blast
  qed
  then show ?thesis by blast
qed

lemma accept_chr_total:
  assumes "accept_deep rules n stack" "ready rules stack"
  shows "\<exists>out. accept_chr n rules c stack new_stacks = Inr out"
proof (cases stack)
  case (Cons pos rest)
  show ?thesis
  proof (cases "is_token_type (type_at rules pos)")
    case False
    then have "is_char_class (type_at rules pos)" using assms(2) by (simp add: Cons ready_def)
    then obtain ok nxt where m: "match_char rules pos c = Inr (ok, nxt)" using match_char_total by blast
    then have "deep_enough rules n (push_unless_end rules nxt rest)" using assms(1) Cons unfolding accept_deep_def by blast
    then show ?thesis using False m by (simp add: accept_chr_def Cons deep_enough_def)
  qed (simp add: accept_chr_def Cons)
qed (simp add: accept_chr_def)

lemma accept_stacks_total:
  assumes "\<forall>s \<in> set stacks. accept_deep rules n s \<and> ready rules s"
  shows "\<exists>out. accept_stacks n rules c stacks = Inr out"
  unfolding accept_stacks_def by (rule fold_outcome_total) (use assms accept_chr_total in blast)

definition good_stacks :: "llama_grammar_rules \<Rightarrow> llama_grammar_stack set \<Rightarrow> bool" where
  "good_stacks rules S \<longleftrightarrow> (\<forall>s \<in> S. stack_ok rules s \<and> ready rules s)"

lemma good_ready: "good_stacks rules S \<Longrightarrow> \<forall>s \<in> S. ready rules s"
  by (simp add: good_stacks_def)

text \<open>Also for a text: the depth that is enough depends on the set of stacks and the text only.\<close>

lemma consumed_finite:
  assumes "grammar_ok rules" "finite S" "good_stacks rules S"
  shows "finite {s'. \<exists>s \<in> S. consumes rules c s s'}"
proof -
  obtain stacks where S: "set stacks = S" using assms(2) finite_list by blast
  have "\<forall>s \<in> S. \<exists>F. \<forall>n \<ge> F. accept_deep rules n s" using accept_deep_exists assms(1,3) unfolding good_stacks_def by blast
  then obtain F where "\<forall>n \<ge> F. \<forall>s \<in> S. accept_deep rules n s" using common_depth [where P = "\<lambda>s n. accept_deep rules n s", OF assms(2)] by blast
  then obtain out where "accept_stacks F rules c stacks = Inr out"
    using accept_stacks_total [of stacks rules F c] good_ready [OF assms(3)] S by auto
  then have "set out = {s'. \<exists>s \<in> S. consumes rules c s s'}"
    using accept_stacks_set [of stacks rules F c out] good_ready [OF assms(3)] unfolding S by simp
  then show ?thesis by (metis List.finite_set)
qed

lemma good_consumed:
  "grammar_ok rules \<Longrightarrow> good_stacks rules S \<Longrightarrow> good_stacks rules {s'. \<exists>s \<in> S. consumes rules c s s'}"
  using consumes_ok consumes_ready unfolding good_stacks_def grammar_ok_def by blast

lemma accept_chrs_total:
  "grammar_ok rules \<Longrightarrow> finite S \<Longrightarrow> good_stacks rules S \<Longrightarrow>
   \<exists>F. \<forall>n \<ge> F. \<forall>stacks. set stacks = S \<longrightarrow> (\<exists>out. accept_chrs n rules cs stacks = Inr out)"
proof (induction cs arbitrary: S)
  case Nil
  then show ?case by (simp add: accept_chrs_def)
next
  case (Cons c cs)
  have "\<forall>s \<in> S. \<exists>F. \<forall>n \<ge> F. accept_deep rules n s" using accept_deep_exists Cons.prems unfolding good_stacks_def by blast
  then obtain F1 where F1: "\<forall>n \<ge> F1. \<forall>s \<in> S. accept_deep rules n s" using common_depth [where P = "\<lambda>s n. accept_deep rules n s", OF Cons.prems(2)] by blast
  let ?S = "{s'. \<exists>s \<in> S. consumes rules c s s'}"
  obtain F2 where F2: "\<forall>n \<ge> F2. \<forall>stacks. set stacks = ?S \<longrightarrow> (\<exists>out. accept_chrs n rules cs stacks = Inr out)"
    using Cons.IH [OF Cons.prems(1) consumed_finite [OF Cons.prems] good_consumed [OF Cons.prems(1,3)]] by blast
  have "\<exists>out. accept_chrs n rules (c # cs) stacks = Inr out" if n: "max F1 F2 \<le> n" and st: "set stacks = S" for n stacks
  proof -
    obtain mid where mid: "accept_stacks n rules c stacks = Inr mid"
      using accept_stacks_total [of stacks rules n c] F1 good_ready [OF Cons.prems(3)] n st by auto
    have "set mid = ?S" using accept_stacks_set [OF _ mid] good_ready [OF Cons.prems(3)] unfolding st by blast
    then have "\<exists>out. accept_chrs n rules cs mid = Inr out" using F2 n by simp
    then show ?thesis using mid by (simp add: accept_chrs_def)
  qed
  then show ?case by blast
qed

section \<open>The language accepted\<close>

definition start_stacks :: "llama_grammar_rules \<Rightarrow> nat \<Rightarrow> llama_grammar_stack set" where
  "start_stacks rules start = {s. \<exists>sub \<in> set (alt_starts rules (start, 0)). expands rules (push_unless_end rules sub []) s}"

lemma init_expand:
  assumes "grammar_ok rules" "start < length rules"
  shows "\<exists>F. \<forall>n \<ge> F. \<exists>stacks. initial_stacks n rules start = Inr stacks \<and>
    set stacks = start_stacks rules start"
proof -
  let ?A = "set (alt_starts rules (start, 0))"
  have ok: "stack_ok rules (push_unless_end rules sub [])" if "sub \<in> ?A" for sub
    using assms(1) proper_alternates [OF _ proper_start that] by (intro stack_ok_push) (simp_all add: grammar_ok_def)
  have "\<forall>sub \<in> ?A. \<exists>F. \<forall>n \<ge> F. deep_enough rules n (push_unless_end rules sub [])" using deep_enough_exists [OF assms(1) ok] by blast
  then obtain F where F: "\<forall>n \<ge> F. \<forall>sub \<in> ?A. deep_enough rules n (push_unless_end rules sub [])"
    using common_depth [where P = "\<lambda>sub n. deep_enough rules n (push_unless_end rules sub [])", of ?A] by blast
  have "\<exists>stacks. initial_stacks n rules start = Inr stacks" if "F \<le> n" for n unfolding initial_stacks_in_range [OF assms(2)]
    by (rule fold_outcome_total) (use F that in \<open>unfold deep_enough_def, blast\<close>)
  moreover have "set stacks = start_stacks rules start" if "initial_stacks n rules start = Inr stacks" for n stacks
  proof -
    have "set stacks = set [] \<union> (\<Union>sub \<in> ?A. {s. expands rules (push_unless_end rules sub []) s})"
      by (rule fold_outcome_union [OF _ that [unfolded initial_stacks_in_range [OF assms(2)]]]) (rule advance_stack_set)
    then show ?thesis by (auto simp: start_stacks_def)
  qed
  ultimately show ?thesis by blast
qed

lemma initial_good:
  assumes "grammar_ok rules"
  shows "good_stacks rules (start_stacks rules start)"
  unfolding good_stacks_def
proof (intro ballI)
  fix s assume "s \<in> start_stacks rules start"
  then obtain sub where sub: "sub \<in> set (alt_starts rules (start, 0))" "expands rules (push_unless_end rules sub []) s" unfolding start_stacks_def by blast
  have r: "rules_ok rules" using assms by (simp add: grammar_ok_def)
  have "stack_ok rules (push_unless_end rules sub [])" using proper_alternates [OF r proper_start [OF r] sub(1)] by (intro stack_ok_push) simp_all
  then show "stack_ok rules s \<and> ready rules s" using expands_ok [OF r sub(2)] expands_is_ready [OF sub(2)] by blast
qed

lemma initial_lang:
  assumes "grammar_ok rules"
  shows "(\<exists>s \<in> start_stacks rules start. consumes_all rules cs s []) \<longleftrightarrow> rule_lang rules start cs"
proof -
  have r: "rules_ok rules" using assms by (simp add: grammar_ok_def)
  have "(\<exists>s. expands rules (push_unless_end rules sub []) s \<and> consumes_all rules cs s []) \<longleftrightarrow> seq_lang rules sub cs"
    if sub: "sub \<in> set (alt_starts rules (start, 0))" for sub
  proof -
    have ok: "stack_ok rules (push_unless_end rules sub [])" using proper_alternates [OF r proper_start [OF r] sub] by (intro stack_ok_push) simp_all
    have "(\<exists>s. expands rules (push_unless_end rules sub []) s \<and> consumes_all rules cs s []) \<longleftrightarrow>
        (\<exists>s. expands rules (push_unless_end rules sub []) s \<and> stack_lang rules s cs)"
      using stack_lang_word [OF r expands_ok [OF r _ ok] expands_is_ready] by blast
    also have "\<dots> \<longleftrightarrow> seq_lang rules sub cs" unfolding stack_lang_expands [OF ok, symmetric] stack_lang_push by simp
    finally show ?thesis .
  qed
  then show ?thesis unfolding rule_lang_def start_stacks_def by blast
qed

text \<open>
  C20. The sampler's stacks accept exactly the language of the grammar: with enough recursion depth, \<open>init\<close> gives a
  grammar, consuming any text code point by code point returns, and afterwards an empty stack is among
  the stacks if and only if the start rule derives the text.
\<close>

theorem grammar_accepts_language:
  assumes "grammar_ok rules" "start < length rules"
  shows "\<exists>depth. \<forall>n \<ge> depth. \<exists>g stacks. grammar_init n rules start False [] [] = Inr (Some g) \<and>
    accept_chrs n (gr_rules g) cs (gr_stacks g) = Inr stacks \<and> ([] \<in> set stacks \<longleftrightarrow> rule_lang rules start cs)"
proof -
  let ?S = "start_stacks rules start"
  have r: "map copy_rule rules = rules" "left_recursion_found rules = Inr False" using assms(1) copy_rules_ok by (simp_all add: grammar_ok_def)
  obtain F1 where F1: "\<forall>n \<ge> F1. \<exists>stacks. initial_stacks n rules start = Inr stacks \<and> set stacks = ?S"
    using init_expand [OF assms] by blast
  have "finite ?S" using F1 by (metis List.finite_set order_refl)
  then obtain F2 where F2: "\<forall>n \<ge> F2. \<forall>stacks. set stacks = ?S \<longrightarrow> (\<exists>out. accept_chrs n rules cs stacks = Inr out)"
    using accept_chrs_total [OF assms(1) _ initial_good [OF assms(1)]] by blast
  have "\<exists>g stacks. grammar_init n rules start False [] [] = Inr (Some g) \<and>
    accept_chrs n (gr_rules g) cs (gr_stacks g) = Inr stacks \<and> ([] \<in> set stacks \<longleftrightarrow> rule_lang rules start cs)" if n: "max F1 F2 \<le> n" for n
  proof -
    obtain init where init: "initial_stacks n rules start = Inr init" "set init = ?S"
      using F1 n by auto
    then obtain out where out: "accept_chrs n rules cs init = Inr out" using F2 [rule_format, of n init] n by auto
    have "set out = {s'. \<exists>s \<in> set init. consumes_all rules cs s s'}"
      using accept_chrs_set [OF _ out] good_ready [OF initial_good [OF assms(1), of start]] unfolding init(2) by blast
    then have "[] \<in> set out \<longleftrightarrow> rule_lang rules start cs" using initial_lang [OF assms(1), of start cs] unfolding init(2) by simp
    then show ?thesis using init(1) out r by (simp add: grammar_init_def)
  qed
  then show ?thesis by blast
qed

theorem grammar_accepts_language_witness:
  "\<exists>depth. \<forall>n \<ge> depth. \<exists>g stacks. grammar_init n list_rules 0 False [] [] = Inr (Some g) \<and>
    accept_chrs n (gr_rules g) [45, 120] (gr_stacks g) = Inr stacks \<and> ([] \<in> set stacks \<longleftrightarrow> rule_lang list_rules 0 [45, 120])"
proof -
  have "grammar_ok list_rules" by code_simp
  moreover have "0 < length list_rules" by code_simp
  ultimately show ?thesis by (rule grammar_accepts_language)
qed

section \<open>Rejecting tokens\<close>

text \<open>A candidate whose text ends with a whole character, and the code points it has left.\<close>

definition whole_candidate :: "llama_grammar_candidate \<Rightarrow> bool" where
  "whole_candidate tok \<longleftrightarrow> pu_n_remain (gc_partial_utf8 tok) = 0 \<and> (\<exists>ws. gc_code_points tok = ws @ [0] \<and> 0 \<notin> set ws \<and> gc_at tok \<le> length ws)"

definition left_over :: "llama_grammar_candidate \<Rightarrow> nat list" where
  "left_over tok = drop (gc_at tok) (butlast (gc_code_points tok))"

abbreviation next_candidate :: "llama_grammar_candidate \<Rightarrow> llama_grammar_candidate" where
  "next_candidate tok \<equiv> tok\<lparr>gc_at := gc_at tok + 1\<rparr>"

lemma left_over_cases:
  assumes "whole_candidate tok"
  shows "(gc_chr tok = 0 \<and> left_over tok = []) \<or>
    (gc_chr tok \<noteq> 0 \<and> whole_candidate (next_candidate tok) \<and> left_over tok = gc_chr tok # left_over (next_candidate tok))"
proof -
  obtain ws where ws: "gc_code_points tok = ws @ [0]" "0 \<notin> set ws" "gc_at tok \<le> length ws" "pu_n_remain (gc_partial_utf8 tok) = 0"
    using assms unfolding whole_candidate_def by blast
  show ?thesis
  proof (cases "gc_at tok = length ws")
    case True
    then show ?thesis using ws by (simp add: gc_chr_def left_over_def)
  next
    case False
    then have lt: "gc_at tok < length ws" using ws(3) by simp
    then have "ws ! gc_at tok \<noteq> 0" using ws(2) by (metis nth_mem)
    moreover have "whole_candidate (next_candidate tok)" unfolding whole_candidate_def using ws lt by (intro conjI exI [of _ ws]) simp_all
    ultimately show ?thesis using ws lt by (simp add: gc_chr_def left_over_def nth_append Cons_nth_drop_Suc)
  qed
qed

definition can_match :: "llama_grammar_rules \<Rightarrow> element_ptr \<Rightarrow> llama_grammar_candidate \<Rightarrow> bool" where
  "can_match rules pos tok \<longleftrightarrow> (\<exists>nxt. match_char rules pos (gc_chr tok) = Inr (True, nxt))"

lemma reject_steps:
  "is_char_class (type_at rules pos) \<Longrightarrow> \<forall>tok \<in> set toks. whole_candidate tok \<Longrightarrow> fold_outcome (reject_step rules pos) toks (rejects, nexts) =
     Inr (rejects @ filter (\<lambda>tok. gc_chr tok \<noteq> 0 \<and> \<not> can_match rules pos tok) toks,
          nexts @ map next_candidate (filter (\<lambda>tok. gc_chr tok \<noteq> 0 \<and> can_match rules pos tok) toks))"
proof (induction toks arbitrary: rejects nexts)
  case (Cons tok toks)
  have part: "pu_n_remain (gc_partial_utf8 tok) = 0" using Cons.prems(2) by (simp add: whole_candidate_def)
  obtain ok nxt where m: "match_char rules pos (gc_chr tok) = Inr (ok, nxt)" using match_char_total [OF Cons.prems(1)] by blast
  then have "can_match rules pos tok \<longleftrightarrow> ok" by (auto simp: can_match_def)
  then show ?case using Cons.IH [OF Cons.prems(1)] Cons.prems(2) m part by (simp add: reject_step_def)
qed simp

text \<open>Whether a stack can consume all that is left of a candidate.\<close>

definition stack_takes :: "llama_grammar_rules \<Rightarrow> nat list \<Rightarrow> llama_grammar_stack \<Rightarrow> bool" where
  "stack_takes rules w stack \<longleftrightarrow> (\<exists>s'. consumes_all rules w stack s')"

lemma stack_takes_simps [simp]:
  "stack_takes rules [] stack" "stack_takes rules (c # w) stack \<longleftrightarrow> (\<exists>s. consumes rules c stack s \<and> stack_takes rules w s)"
  by (auto simp: stack_takes_def)

definition no_token_rules :: "llama_grammar_rules \<Rightarrow> bool" where
  "no_token_rules rules \<longleftrightarrow> list_all (list_all (\<lambda>e. \<not> is_token_type (ge_type e))) rules"

lemma no_token_at: "no_token_rules rules \<Longrightarrow> \<not> is_token_type (type_at rules pos)"
  by (cases pos) (auto simp: no_token_rules_def elem_at_def list_all_length is_token_type_def)

lemma ready_class: "no_token_rules rules \<Longrightarrow> ready rules (pos # rest) \<Longrightarrow> is_char_class (type_at rules pos)"
  using no_token_at [of rules pos] by (simp add: ready_def)

definition whole_candidates :: "nat \<Rightarrow> llama_grammar_candidate list \<Rightarrow> bool" where
  "whole_candidates L toks \<longleftrightarrow> (\<forall>tok \<in> set toks. whole_candidate tok \<and> length (left_over tok) < L)"

lemma reject_for_stack_set:
  assumes "no_token_rules rules" "ready rules stack" "whole_candidates (Suc L) toks"
    and recurse: "\<And>stacks toks out. \<forall>s \<in> set stacks. ready rules s \<Longrightarrow> whole_candidates L toks \<Longrightarrow> recurse stacks toks = Inr out \<Longrightarrow>
      set out = {tok \<in> set toks. \<not> (\<exists>s \<in> set stacks. stack_takes rules (left_over tok) s)}"
    and "reject_for_stack recurse n rules stack toks = Inr out"
  shows "set out = {tok \<in> set toks. \<not> stack_takes rules (left_over tok) stack}"
proof (cases stack)
  case Nil
  have "gc_chr tok \<noteq> 0 \<or> pu_n_remain (gc_partial_utf8 tok) \<noteq> 0 \<longleftrightarrow> \<not> stack_takes rules (left_over tok) []" if "tok \<in> set toks" for tok
  proof -
    have w: "whole_candidate tok" using assms(3) that by (simp add: whole_candidates_def)
    then have "pu_n_remain (gc_partial_utf8 tok) = 0" by (simp add: whole_candidate_def)
    then show ?thesis using left_over_cases [OF w] by auto
  qed
  note same = this
  have "set out = {tok \<in> set toks. gc_chr tok \<noteq> 0 \<or> pu_n_remain (gc_partial_utf8 tok) \<noteq> 0}" using assms(5) by (auto simp: reject_for_stack_def Nil)
  also have "\<dots> = {tok \<in> set toks. \<not> stack_takes rules (left_over tok) stack}" using same unfolding Nil by (intro Collect_cong conj_cong refl) 
  finally show ?thesis .
next
  case (Cons pos rest)
  note cls = ready_class [OF assms(1,2) [unfolded Cons]]
  have whole: "\<forall>tok \<in> set toks. whole_candidate tok" using assms(3) by (simp add: whole_candidates_def)
  let ?nexts = "filter (\<lambda>tok. gc_chr tok \<noteq> 0 \<and> can_match rules pos tok) toks"
  obtain ok after where m: "match_char rules pos 0 = Inr (ok, after)" using match_char_total [OF cls] by blast
  obtain next_stacks next_rejects where r: "advance_stack n rules (push_unless_end rules after rest) [] = Inr next_stacks"
    "recurse next_stacks (map next_candidate ?nexts) = Inr next_rejects"
    "out = filter (\<lambda>tok. gc_chr tok \<noteq> 0 \<and> \<not> can_match rules pos tok) toks @ map (\<lambda>tok. tok\<lparr>gc_at := gc_at tok - 1\<rparr>) next_rejects"
    using assms(5) reject_steps [OF cls whole, of "[]" "[]"] m no_token_at [OF assms(1), of pos]
    by (auto simp: reject_for_stack_def Cons bind_outcome_Inr_iff)
  have ns: "set next_stacks = {s. expands rules (push_unless_end rules after rest) s}" using advance_stack_set [OF r(1)] by simp
  have "whole_candidates L (map next_candidate ?nexts)" using assms(3) left_over_cases unfolding whole_candidates_def by fastforce
  moreover have "\<forall>s \<in> set next_stacks. ready rules s" using ns expands_is_ready by blast
  ultimately have nr: "set next_rejects = {tok \<in> set (map next_candidate ?nexts). \<not> (\<exists>s \<in> set next_stacks. stack_takes rules (left_over tok) s)}"
    using recurse r(2) by blast
  have takes: "stack_takes rules (left_over tok) stack \<longleftrightarrow> gc_chr tok = 0 \<or> can_match rules pos tok \<and> (\<exists>s \<in> set next_stacks. stack_takes rules (left_over (next_candidate tok)) s)"
    if "tok \<in> set toks" for tok
  proof (cases "gc_chr tok = 0")
    case True
    then show ?thesis using left_over_cases [of tok] whole that by auto
  next
    case False
    then have l: "left_over tok = gc_chr tok # left_over (next_candidate tok)" using left_over_cases [of tok] whole that by auto
    obtain ok' where m': "match_char rules pos (gc_chr tok) = Inr (ok', after)" using match_char_after [OF m] by blast
    then have ok: "can_match rules pos tok \<longleftrightarrow> ok'" by (simp add: can_match_def)
    show ?thesis unfolding l stack_takes_simps Cons consumes_Cons [OF m'] ok ns using False by blast
  qed
  have undo: "(next_candidate tok)\<lparr>gc_at := gc_at (next_candidate tok) - 1\<rparr> = tok" for tok by simp
  have "set (map (\<lambda>tok. tok\<lparr>gc_at := gc_at tok - 1\<rparr>) next_rejects) =
      {tok \<in> set ?nexts. \<not> (\<exists>s \<in> set next_stacks. stack_takes rules (left_over (next_candidate tok)) s)}" (is "?A = ?B")
  proof
    show "?A \<subseteq> ?B"
    proof
      fix x assume "x \<in> ?A"
      then obtain tok where "tok \<in> set ?nexts" "x = (next_candidate tok)\<lparr>gc_at := gc_at (next_candidate tok) - 1\<rparr>"
        "\<not> (\<exists>s \<in> set next_stacks. stack_takes rules (left_over (next_candidate tok)) s)" unfolding set_map nr by blast
      then show "x \<in> ?B" unfolding undo by blast
    qed
    show "?B \<subseteq> ?A"
    proof
      fix x assume x: "x \<in> ?B"
      then have "next_candidate x \<in> set next_rejects" unfolding nr by auto
      then have "(next_candidate x)\<lparr>gc_at := gc_at (next_candidate x) - 1\<rparr> \<in> ?A" unfolding set_map by (rule imageI)
      then show "x \<in> ?A" unfolding undo .
    qed
  qed
  then have "set out = {tok \<in> set toks. gc_chr tok \<noteq> 0 \<and> \<not> can_match rules pos tok} \<union>
      {tok \<in> set ?nexts. \<not> (\<exists>s \<in> set next_stacks. stack_takes rules (left_over (next_candidate tok)) s)}" unfolding r(3) by simp
  also have "\<dots> = {tok \<in> set toks. \<not> stack_takes rules (left_over tok) stack}" using takes by auto
  finally show ?thesis .
qed

lemma fold_outcome_filter:
  assumes "\<And>x b b'. x \<in> set xs \<Longrightarrow> set b \<subseteq> C \<Longrightarrow> f x b = Inr b' \<Longrightarrow> set b' = {t \<in> set b. \<not> P x t}"
  shows "set b \<subseteq> C \<Longrightarrow> fold_outcome f xs b = Inr b' \<Longrightarrow> set b' = {t \<in> set b. \<not> (\<exists>x \<in> set xs. P x t)}"
  using assms
proof (induction xs arbitrary: b)
  case (Cons x xs)
  obtain c where c: "f x b = Inr c" "fold_outcome f xs c = Inr b'" using Cons.prems(2) by (auto simp: bind_outcome_Inr_iff)
  have set_c: "set c = {t \<in> set b. \<not> P x t}" using Cons.prems(3) [OF _ Cons.prems(1) c(1)] by simp
  then have "set c \<subseteq> C" using Cons.prems(1) by blast
  from Cons.IH [OF this c(2)] have "set b' = {t \<in> set c. \<not> (\<exists>x \<in> set xs. P x t)}" using Cons.prems(3) by simp
  then show ?case unfolding set_c by auto
qed simp

lemma reject_candidates_set:
  assumes "no_token_rules rules"
  shows "\<forall>s \<in> set stacks. ready rules s \<Longrightarrow> whole_candidates L toks \<Longrightarrow> reject_candidates m n rules stacks toks = Inr out \<Longrightarrow>
    set out = {tok \<in> set toks. \<not> (\<exists>s \<in> set stacks. stack_takes rules (left_over tok) s)}"
proof (induction m arbitrary: L stacks toks out)
  case (Suc m)
  show ?case
  proof (cases "toks = []")
    case True
    then show ?thesis using Suc.prems(3) by (auto simp: bind_outcome_Inr_iff)
  next
    case False
    then obtain L' where L: "L = Suc L'" using Suc.prems(2) by (cases L) (auto simp: whole_candidates_def)
    have "fold_outcome (reject_for_stack (reject_candidates m n rules) n rules) stacks toks = Inr out"
      using Suc.prems(3) False by (auto simp: bind_outcome_Inr_iff)
    then show ?thesis
    proof (rule fold_outcome_filter [where C = "{tok. whole_candidate tok \<and> length (left_over tok) < L}", rotated 2])
      show "set toks \<subseteq> {tok. whole_candidate tok \<and> length (left_over tok) < L}" using Suc.prems(2) by (auto simp: whole_candidates_def)
    next
      fix s b b' assume s: "s \<in> set stacks" "set b \<subseteq> {tok. whole_candidate tok \<and> length (left_over tok) < L}"
        "reject_for_stack (reject_candidates m n rules) n rules s b = Inr b'"
      have "whole_candidates (Suc L') b" using s(2) by (auto simp: whole_candidates_def L)
      then show "set b' = {tok \<in> set b. \<not> stack_takes rules (left_over tok) s}"
        using Suc.prems(1) s(1) by (intro reject_for_stack_set [OF assms _ _ Suc.IH s(3)]) simp_all
    qed
  qed
qed simp

text \<open>Enough depth for rejecting.\<close>

lemma fold_outcome_inv:
  assumes "\<And>x b. x \<in> set xs \<Longrightarrow> I b \<Longrightarrow> \<exists>b'. f x b = Inr b' \<and> I b'"
  shows "I b \<Longrightarrow> \<exists>b'. fold_outcome f xs b = Inr b' \<and> I b'"
  using assms
proof (induction xs arbitrary: b)
  case (Cons x xs)
  obtain c where "f x b = Inr c" "I c" using Cons.prems by auto
  then show ?case using Cons.IH [of c] Cons.prems by simp
qed simp

lemma reject_for_stack_total:
  assumes "no_token_rules rules" "ready rules stack" "whole_candidates (Suc L) toks"
    and "\<And>pos rest nxt. stack = pos # rest \<Longrightarrow> match_char rules pos 0 = Inr nxt \<Longrightarrow>
      \<exists>next_stacks. advance_stack n rules (push_unless_end rules (snd nxt) rest) [] = Inr next_stacks \<and>
        (\<forall>toks. whole_candidates L toks \<longrightarrow> (\<exists>out. recurse next_stacks toks = Inr out))"
  shows "\<exists>out. reject_for_stack recurse n rules stack toks = Inr out"
proof (cases stack)
  case (Cons pos rest)
  note cls = ready_class [OF assms(1,2) [unfolded Cons]]
  have whole: "\<forall>tok \<in> set toks. whole_candidate tok" using assms(3) by (simp add: whole_candidates_def)
  let ?nexts = "filter (\<lambda>tok. gc_chr tok \<noteq> 0 \<and> can_match rules pos tok) toks"
  obtain ok after where m: "match_char rules pos 0 = Inr (ok, after)" using match_char_total [OF cls] by blast
  obtain next_stacks where n: "advance_stack n rules (push_unless_end rules after rest) [] = Inr next_stacks"
    "\<forall>toks. whole_candidates L toks \<longrightarrow> (\<exists>out. recurse next_stacks toks = Inr out)" using assms(4) [OF Cons m] by auto
  have "whole_candidates L (map next_candidate ?nexts)" using assms(3) left_over_cases unfolding whole_candidates_def by fastforce
  then obtain next_rejects where "recurse next_stacks (map next_candidate ?nexts) = Inr next_rejects" using n(2) by blast
  then show ?thesis using reject_steps [OF cls whole, of "[]" "[]"] m n(1) no_token_at [OF assms(1), of pos]
    by (simp add: reject_for_stack_def Cons)
qed (simp add: reject_for_stack_def)

lemma after_class_stacks:
  assumes "grammar_ok rules" "stack_ok rules (pos # rest)" "match_char rules pos c = Inr (ok, after)"
  shows "\<exists>S F. finite S \<and> good_stacks rules S \<and> S \<noteq> {} \<and>
    (\<forall>n \<ge> F. \<exists>next_stacks. advance_stack n rules (push_unless_end rules after rest) [] = Inr next_stacks \<and> set next_stacks = S)"
proof -
  let ?s = "push_unless_end rules after rest"
  have r: "rules_ok rules" using assms(1) by (simp add: grammar_ok_def)
  have ok: "stack_ok rules ?s" using match_char_next_proper [OF r assms(3)] assms(2) by (intro stack_ok_push) simp_all
  obtain F where F: "\<forall>n \<ge> F. deep_enough rules n ?s" using deep_enough_exists [OF assms(1) ok] by blast
  obtain out where out: "advance_stack F rules ?s [] = Inr out" using F [rule_format, OF order_refl] unfolding deep_enough_def by blast
  have "set out = {s. expands rules ?s s}" using advance_stack_set [OF out] by simp
  then have "finite {s. expands rules ?s s}" by (metis List.finite_set)
  moreover have "{s. expands rules ?s s} \<noteq> {}" using expands_exists [OF out] by simp
  moreover have "good_stacks rules {s. expands rules ?s s}"
    using expands_ok [OF r _ ok] expands_is_ready unfolding good_stacks_def by blast
  moreover have "\<exists>next_stacks. advance_stack n rules ?s [] = Inr next_stacks \<and> set next_stacks = {s. expands rules ?s s}" if n: "F \<le> n" for n
  proof -
    obtain out where "advance_stack n rules ?s [] = Inr out" using F [rule_format, OF n] unfolding deep_enough_def by blast
    then show ?thesis using advance_stack_set [of n rules ?s "[]" out] by simp
  qed
  ultimately show ?thesis by (intro exI [of _ "{s. expands rules ?s s}"] exI [of _ F]) simp
qed

lemma reject_candidates_total:
  assumes "grammar_ok rules" "no_token_rules rules"
  shows "finite S \<Longrightarrow> good_stacks rules S \<Longrightarrow> S \<noteq> {} \<Longrightarrow> \<exists>F. \<forall>n \<ge> F. \<forall>m \<ge> Suc L. \<forall>stacks toks. set stacks = S \<longrightarrow> whole_candidates L toks \<longrightarrow>
    (\<exists>out. reject_candidates m n rules stacks toks = Inr out)"
proof (induction L arbitrary: S)
  case 0
  have "\<exists>out. reject_candidates m n rules stacks toks = Inr out" if "Suc 0 \<le> m" "set stacks = S" "whole_candidates 0 toks" for n m stacks toks
  proof -
    have "toks = []" "stacks \<noteq> []" using that(2,3) 0 by (auto simp: whole_candidates_def intro!: ccontr [of "toks = []"])
    then show ?thesis using that(1) by (cases m) simp_all
  qed
  then show ?case by blast
next
  case (Suc L)
  define P where "P s n \<longleftrightarrow> (\<forall>m \<ge> Suc L. \<forall>toks. whole_candidates (Suc L) toks \<longrightarrow>
    (\<exists>out. reject_for_stack (reject_candidates m n rules) n rules s toks = Inr out))" for s n
  have "\<exists>F. \<forall>n \<ge> F. P s n" if s: "s \<in> S" for s
  proof (cases s)
    case Nil
    then show ?thesis by (simp add: P_def reject_for_stack_def)
  next
    case (Cons pos rest)
    have good: "stack_ok rules (pos # rest)" "ready rules (pos # rest)" using Suc.prems(2) s [unfolded Cons] unfolding good_stacks_def by blast+
    obtain ok after where m: "match_char rules pos 0 = Inr (ok, after)" using match_char_total [OF ready_class [OF assms(2) good(2)]] by blast
    obtain S' F1 where S': "finite S'" "good_stacks rules S'" "S' \<noteq> {}"
      "\<forall>n \<ge> F1. \<exists>next_stacks. advance_stack n rules (push_unless_end rules after rest) [] = Inr next_stacks \<and> set next_stacks = S'"
      using after_class_stacks [OF assms(1) good(1) m] by (elim exE conjE)
    obtain F2 where F2: "\<forall>n \<ge> F2. \<forall>m \<ge> Suc L. \<forall>stacks toks. set stacks = S' \<longrightarrow> whole_candidates L toks \<longrightarrow>
        (\<exists>out. reject_candidates m n rules stacks toks = Inr out)" by (rule exE [OF Suc.IH [OF S'(1-3)]])
    have "P s n" if n: "max F1 F2 \<le> n" for n unfolding P_def
    proof (intro allI impI)
      fix m' toks assume m': "Suc L \<le> m'" and toks: "whole_candidates (Suc L) toks"
      show "\<exists>out. reject_for_stack (reject_candidates m' n rules) n rules s toks = Inr out"
      proof (rule reject_for_stack_total [OF assms(2) _ toks])
        show "ready rules s" using good(2) Cons by simp
        fix p r nxt assume "s = p # r" "match_char rules p 0 = Inr nxt"
        then have eq: "r = rest" "snd nxt = after" using Cons m by auto
        obtain next_stacks where ns: "advance_stack n rules (push_unless_end rules after rest) [] = Inr next_stacks" "set next_stacks = S'"
          using S'(4) n by auto
        then show "\<exists>next_stacks. advance_stack n rules (push_unless_end rules (snd nxt) r) [] = Inr next_stacks \<and>
            (\<forall>toks. whole_candidates L toks \<longrightarrow> (\<exists>out. reject_candidates m' n rules next_stacks toks = Inr out))"
          unfolding eq using F2 n m' by (intro exI [of _ next_stacks] conjI ns(1)) simp
      qed
    qed
    then show ?thesis by blast
  qed
  then have "\<forall>s \<in> S. \<exists>F. \<forall>n \<ge> F. P s n" by blast
  from common_depth [OF Suc.prems(1) this] obtain F where F: "\<forall>n \<ge> F. \<forall>s \<in> S. P s n" by (elim exE)
  have "\<exists>out. reject_candidates m n rules stacks toks = Inr out"
    if n: "F \<le> n" and m: "Suc (Suc L) \<le> m" and st: "set stacks = S" and toks: "whole_candidates (Suc L) toks" for n m stacks toks
  proof -
    obtain m' where m': "m = Suc m'" "Suc L \<le> m'" using m by (cases m) simp_all
    have "\<exists>out. fold_outcome (reject_for_stack (reject_candidates m' n rules) n rules) stacks toks = Inr out \<and> whole_candidates (Suc L) out"
    proof (rule fold_outcome_inv [where I = "whole_candidates (Suc L)"])
      fix s b assume s: "s \<in> set stacks" "whole_candidates (Suc L) b"
      have "P s n" using F n s(1) st by blast
      then obtain out where out: "reject_for_stack (reject_candidates m' n rules) n rules s b = Inr out" using m'(2) s(2) unfolding P_def by blast
      have "ready rules s" using Suc.prems(2) s(1) st by (simp add: good_stacks_def)
      then have "set out = {tok \<in> set b. \<not> stack_takes rules (left_over tok) s}"
        by (rule reject_for_stack_set [OF assms(2) _ s(2) reject_candidates_set [OF assms(2)] out])
      then show "\<exists>b'. reject_for_stack (reject_candidates m' n rules) n rules s b = Inr b' \<and> whole_candidates (Suc L) b'"
        using s(2) out by (auto simp: whole_candidates_def)
    qed (rule toks)
    moreover have "stacks \<noteq> []" using st Suc.prems(3) by auto
    ultimately show ?thesis by (auto simp: m'(1))
  qed
  then show ?case by blast
qed

section \<open>Accepting and rejecting agree\<close>

lemma accept_chrs_Nil: "accept_chrs n rules cs [] = Inr []"
  by (induction cs) (simp_all add: accept_chrs_def accept_stacks_def)

lemma accept_run_chrs: "accept_run n rules cs stacks = accept_chrs n rules cs stacks"
proof (induction cs arbitrary: stacks)
  case (Cons c cs)
  have "accept_chrs n rules (c # cs) stacks = bind_outcome (accept_stacks n rules c stacks) (accept_chrs n rules cs)"
    by (simp add: accept_chrs_def [abs_def])
  also have "\<dots> = bind_outcome (accept_stacks n rules c stacks) (\<lambda>stacks. if stacks = [] then Inr stacks else accept_run n rules cs stacks)"
    unfolding Cons.IH by (rule arg_cong [where f = "bind_outcome _"]) (auto simp: accept_chrs_Nil)
  finally show ?case by simp
qed (simp add: accept_chrs_def)

text \<open>A state between two tokens; the code points a token adds to it.\<close>

definition grammar_wf :: "llama_grammar \<Rightarrow> bool" where
  "grammar_wf g \<longleftrightarrow> rules_ok (gr_rules g) \<and> good_stacks (gr_rules g) (set (gr_stacks g)) \<and> gr_stacks g \<noteq> []"

definition token_chrs :: "grammar_vocab \<Rightarrow> llama_grammar \<Rightarrow> nat \<Rightarrow> nat list" where
  "token_chrs v g tok = butlast (fst (decode_utf8 (gv_piece v tok) (gr_partial_utf8 g)))"

text \<open>The text of a token ends with a whole character and holds no zero.\<close>

definition whole_text :: "grammar_vocab \<Rightarrow> llama_grammar \<Rightarrow> nat \<Rightarrow> bool" where
  "whole_text v g tok \<longleftrightarrow> (case decode_utf8 (gv_piece v tok) (gr_partial_utf8 g) of (cpts, partial) \<Rightarrow>
     cpts \<noteq> [] \<and> last cpts = 0 \<and> token_chrs v g tok \<noteq> [] \<and> 0 \<notin> set (token_chrs v g tok) \<and> pu_n_remain partial = 0)"

definition has_text :: "grammar_vocab \<Rightarrow> nat \<Rightarrow> bool" where
  "has_text v tok \<longleftrightarrow> gv_piece v tok \<noteq> [] \<and> hd (gv_piece v tok) \<noteq> 0"

definition candidate_of :: "grammar_vocab \<Rightarrow> llama_grammar \<Rightarrow> nat \<Rightarrow> nat \<Rightarrow> llama_grammar_candidate" where
  "candidate_of v g i tok = (case decode_utf8 (gv_piece v tok) (gr_partial_utf8 g) of (cpts, partial) \<Rightarrow>
     \<lparr>gc_index = i, gc_code_points = cpts, gc_at = 0, gc_partial_utf8 = partial, gc_id = tok\<rparr>)"

lemma candidate_whole: "whole_text v g tok \<Longrightarrow> whole_candidate (candidate_of v g i tok)"
  unfolding whole_text_def whole_candidate_def candidate_of_def token_chrs_def
  by (auto split: prod.splits intro!: exI [of _ "butlast (fst (decode_utf8 (gv_piece v tok) (gr_partial_utf8 g)))"]) (metis append_butlast_last_id)

lemma candidate_left_over: "left_over (candidate_of v g i tok) = token_chrs v g tok"
  by (simp add: left_over_def candidate_of_def token_chrs_def split: prod.splits)

lemma candidate_index: "gc_index (candidate_of v g i tok) = i"
  by (simp add: candidate_of_def split: prod.splits)

lemma apply_candidates_Cons:
  "apply_candidates v g allow (Suc i) toks = (b, c) \<Longrightarrow> apply_candidates v g allow i (tok # toks) =
     (if (if gv_is_eog v tok then \<not> allow else \<not> has_text v tok) then insert i b else b,
      if \<not> gv_is_eog v tok \<and> has_text v tok then candidate_of v g i tok # c else c)"
  by (cases "decode_utf8 (gv_piece v tok) (gr_partial_utf8 g)") (simp add: Let_def has_text_def candidate_of_def)

lemma indexed_Cons: "{f j | j. j < length (tok # toks) \<and> Q j} = (if Q 0 then {f 0} else {}) \<union> {f (Suc j) | j. j < length toks \<and> Q (Suc j)}"
  by (auto simp: less_Suc_eq_0_disj)

lemma apply_candidates_set:
  "fst (apply_candidates v g allow i toks) = {i + j | j. j < length toks \<and> (if gv_is_eog v (toks ! j) then \<not> allow else \<not> has_text v (toks ! j))} \<and>
   set (snd (apply_candidates v g allow i toks)) = {candidate_of v g (i + j) (toks ! j) | j. j < length toks \<and> (\<not> gv_is_eog v (toks ! j) \<and> has_text v (toks ! j))}"
proof (induction toks arbitrary: i)
  case (Cons tok toks)
  obtain b c where bc: "apply_candidates v g allow (Suc i) toks = (b, c)" by (cases "apply_candidates v g allow (Suc i) toks")
  have b: "b = {i + Suc j | j. j < length toks \<and> (if gv_is_eog v (toks ! j) then \<not> allow else \<not> has_text v (toks ! j))}"
    and c: "set c = {candidate_of v g (i + Suc j) (toks ! j) | j. j < length toks \<and> (\<not> gv_is_eog v (toks ! j) \<and> has_text v (toks ! j))}"
    using Cons.IH [of "Suc i"] unfolding bc by simp_all
  show ?case unfolding apply_candidates_Cons [OF bc] fst_conv snd_conv indexed_Cons nth_Cons_0 nth_Cons_Suc b [symmetric] c [symmetric]
    by (simp add: Un_commute)
qed simp

lemma accept_token_stack_set:
  assumes "no_token_rules rules" "ready rules stack" "chrs \<noteq> []" "accept_chrs n rules chrs [stack] = Inr out"
  shows "\<exists>b'. accept_token_stack n rules token chrs stack b = Inr b' \<and> set b' = set b \<union> {s. consumes_all rules chrs stack s}"
proof (cases stack)
  case Nil
  then show ?thesis using assms(3) by (cases chrs) (simp_all add: accept_token_stack_def)
next
  case (Cons pos rest)
  have "set out = {s. consumes_all rules chrs stack s}" using accept_chrs_set [OF _ assms(4)] assms(2) by simp
  moreover have "set (fold add_stack xs b) = set b \<union> set xs" for xs b by (induction xs arbitrary: b) auto
  ultimately show ?thesis using assms(4) no_token_at [OF assms(1), of pos] by (simp add: accept_token_stack_def Cons accept_run_chrs)
qed

lemma accept_token_exact:
  assumes "grammar_ok (gr_rules g)" "no_token_rules (gr_rules g)" "grammar_wf g" "whole_text v g tok"
  shows "\<exists>F. \<forall>n \<ge> F. (\<exists>g'. grammar_accept_token n g tok (gv_piece v tok) = Inr g') \<longleftrightarrow>
    (\<exists>s \<in> set (gr_stacks g). stack_takes (gr_rules g) (token_chrs v g tok) s)"
proof -
  let ?R = "gr_rules g" and ?cs = "token_chrs v g tok"
  have good: "good_stacks ?R (set (gr_stacks g))" using assms(3) by (simp add: grammar_wf_def)
  have ne: "?cs \<noteq> []" using assms(4) by (auto simp: whole_text_def split: prod.splits)
  have "\<exists>F. \<forall>n \<ge> F. \<exists>out. accept_chrs n ?R ?cs [s] = Inr out" if "s \<in> set (gr_stacks g)" for s
  proof -
    have "good_stacks ?R {s}" using good that by (simp add: good_stacks_def)
    then obtain F where F: "\<forall>n \<ge> F. \<forall>stacks. set stacks = {s} \<longrightarrow> (\<exists>out. accept_chrs n ?R ?cs stacks = Inr out)"
      using accept_chrs_total [OF assms(1), of "{s}" ?cs] by (elim meta_impE exE) simp_all
    have "\<forall>n \<ge> F. \<exists>out. accept_chrs n ?R ?cs [s] = Inr out" using F by simp
    then show ?thesis by (rule exI)
  qed
  then have "\<forall>s \<in> set (gr_stacks g). \<exists>F. \<forall>n \<ge> F. \<exists>out. accept_chrs n ?R ?cs [s] = Inr out" by blast
  from common_depth [OF List.finite_set this] obtain F where F: "\<forall>n \<ge> F. \<forall>s \<in> set (gr_stacks g). \<exists>out. accept_chrs n ?R ?cs [s] = Inr out"
    by (elim exE)
  have "(\<exists>g'. grammar_accept_token n g tok (gv_piece v tok) = Inr g') \<longleftrightarrow> (\<exists>s \<in> set (gr_stacks g). stack_takes ?R ?cs s)" if n: "F \<le> n" for n
  proof -
    have step: "\<exists>b'. accept_token_stack n ?R tok ?cs s b = Inr b' \<and> set b' = set b \<union> {s'. consumes_all ?R ?cs s s'}" if s: "s \<in> set (gr_stacks g)" for s b
    proof -
      obtain out where "accept_chrs n ?R ?cs [s] = Inr out" using F n s by blast
      then show ?thesis using good s by (intro accept_token_stack_set [OF assms(2) _ ne]) (simp_all add: good_stacks_def)
    qed
    obtain stacks where st: "fold_outcome (accept_token_stack n ?R tok ?cs) (gr_stacks g) [] = Inr stacks"
      using fold_outcome_total [of "gr_stacks g" "accept_token_stack n ?R tok ?cs" "[]"] step by blast
    have "set stacks = set [] \<union> (\<Union>s \<in> set (gr_stacks g). {s'. consumes_all ?R ?cs s s'})"
    proof (rule fold_outcome_union [OF _ st])
      fix s b b' assume s: "s \<in> set (gr_stacks g)" "accept_token_stack n ?R tok ?cs s b = Inr b'"
      then show "set b' = set b \<union> {s'. consumes_all ?R ?cs s s'}" using step [OF s(1), of b] by auto
    qed
    then have "stacks \<noteq> [] \<longleftrightarrow> (\<exists>s \<in> set (gr_stacks g). stack_takes ?R ?cs s)" unfolding stack_takes_def set_empty [symmetric] by auto
    moreover have "(\<exists>g'. grammar_accept_token n g tok (gv_piece v tok) = Inr g') \<longleftrightarrow> stacks \<noteq> []"
      using st by (cases "decode_utf8 (gv_piece v tok) (gr_partial_utf8 g)") (simp add: grammar_accept_token_def token_chrs_def)
    ultimately show ?thesis by blast
  qed
  then show ?thesis by blast
qed

text \<open>
  C19. Masking agrees with accepting, for grammars without token elements, tokens made of whole, non-null characters, and a
  sampler that does not wait for a trigger: with enough recursion depth \<open>apply\<close> returns, and the tokens it bans are
  those without text and those on which \<open>accept\<close> would throw or abort. So a token that survives the mask can always be
  accepted, and none with text that could be accepted is lost. (On a token that ends inside a character the two may differ: see
  \<open>partial_negated_class_banned\<close>.)
\<close>

theorem grammar_apply_exact:
  assumes "grammar_ok (gr_rules g)" "no_token_rules (gr_rules g)" "grammar_wf g" "\<not> gr_awaiting_trigger g"
    and "list_all (\<lambda>tok. \<not> gv_is_eog v tok \<and> has_text v tok \<longrightarrow> whole_text v g tok) toks"
  shows "\<exists>depth. \<forall>m \<ge> depth. \<forall>n \<ge> depth. \<exists>banned. grammar_apply m n v g toks = Inr banned \<and>
    (\<forall>i < length toks. i \<notin> banned \<longleftrightarrow>
       (gv_is_eog v (toks ! i) \<or> has_text v (toks ! i)) \<and> (\<exists>g'. grammar_accept n v g (toks ! i) = Inr g'))"
proof -
  let ?R = "gr_rules g" and ?S = "set (gr_stacks g)"
  let ?allow = "[] \<in> ?S"
  have good: "good_stacks ?R ?S" "?S \<noteq> {}" using assms(3) by (simp_all add: grammar_wf_def)
  define L where "L = Suc (Max (insert 0 (set (map (\<lambda>tok. length (token_chrs v g tok)) toks))))"
  obtain F1 where F1: "\<forall>n \<ge> F1. \<forall>m \<ge> Suc L. \<forall>stacks toks. set stacks = ?S \<longrightarrow> whole_candidates L toks \<longrightarrow>
      (\<exists>out. reject_candidates m n ?R stacks toks = Inr out)"
    by (rule exE [OF reject_candidates_total [OF assms(1,2) List.finite_set good]])
  define P where "P tok n \<longleftrightarrow> (\<not> gv_is_eog v tok \<and> has_text v tok \<longrightarrow>
      ((\<exists>g'. grammar_accept_token n g tok (gv_piece v tok) = Inr g') \<longleftrightarrow> (\<exists>s \<in> ?S. stack_takes ?R (token_chrs v g tok) s)))" for tok n
  have "\<exists>F. \<forall>n \<ge> F. P tok n" if "tok \<in> set toks" for tok
  proof (cases "\<not> gv_is_eog v tok \<and> has_text v tok")
    case True
    then have "whole_text v g tok" using assms(5) that by (simp add: list_all_iff)
    then show ?thesis using accept_token_exact [OF assms(1-3)] True unfolding P_def by simp
  qed (auto simp: P_def)
  then have "\<forall>tok \<in> set toks. \<exists>F. \<forall>n \<ge> F. P tok n" by blast
  from common_depth [OF List.finite_set this] obtain F2 where F2: "\<forall>n \<ge> F2. \<forall>tok \<in> set toks. P tok n" by (elim exE)
  obtain b c where bc: "apply_candidates v g ?allow 0 toks = (b, c)" by (cases "apply_candidates v g ?allow 0 toks")
  have b: "b = {j. j < length toks \<and> (if gv_is_eog v (toks ! j) then \<not> ?allow else \<not> has_text v (toks ! j))}"
    and c: "set c = {candidate_of v g j (toks ! j) | j. j < length toks \<and> (\<not> gv_is_eog v (toks ! j) \<and> has_text v (toks ! j))}"
    using apply_candidates_set [of v g ?allow 0 toks] unfolding bc by simp_all
  have cands: "whole_candidates L c" unfolding whole_candidates_def
  proof
    fix x assume "x \<in> set c"
    then obtain j where j: "x = candidate_of v g j (toks ! j)" "j < length toks" "\<not> gv_is_eog v (toks ! j) \<and> has_text v (toks ! j)" unfolding c by blast
    have "whole_text v g (toks ! j)" using assms(5) j(2,3) by (simp add: list_all_length)
    moreover have "length (token_chrs v g (toks ! j)) \<le> Max (insert 0 (set (map (\<lambda>tok. length (token_chrs v g tok)) toks)))"
      using j(2) by (intro Max_ge) simp_all
    ultimately show "whole_candidate x \<and> length (left_over x) < L" using candidate_whole by (simp add: j(1) candidate_left_over L_def)
  qed
  have "\<exists>banned. grammar_apply m n v g toks = Inr banned \<and> (\<forall>i < length toks. i \<notin> banned \<longleftrightarrow>
      (gv_is_eog v (toks ! i) \<or> has_text v (toks ! i)) \<and> (\<exists>g'. grammar_accept n v g (toks ! i) = Inr g'))"
    if m: "Suc L \<le> m" and n: "F1 \<le> n" "F2 \<le> n" for m n
  proof -
    obtain rejects where rej: "reject_candidates m n ?R (gr_stacks g) c = Inr rejects" using F1 m n(1) cands by blast
    have set_rej: "set rejects = {x \<in> set c. \<not> (\<exists>s \<in> ?S. stack_takes ?R (left_over x) s)}"
      by (rule reject_candidates_set [OF assms(2) good_ready [OF good(1)] cands rej])
    have run: "grammar_apply m n v g toks = Inr (b \<union> gc_index ` set rejects)" using rej bc assms(4) by (simp add: grammar_apply_def)
    have "i \<notin> b \<union> gc_index ` set rejects \<longleftrightarrow>
        (gv_is_eog v (toks ! i) \<or> has_text v (toks ! i)) \<and> (\<exists>g'. grammar_accept n v g (toks ! i) = Inr g')" if i: "i < length toks" for i
    proof -
      have P: "P (toks ! i) n" using F2 n(2) i by simp
      have index: "i \<in> gc_index ` set rejects \<longleftrightarrow> (\<not> gv_is_eog v (toks ! i) \<and> has_text v (toks ! i)) \<and> \<not> (\<exists>s \<in> ?S. stack_takes ?R (token_chrs v g (toks ! i)) s)"
        unfolding set_rej c using i by (force simp: candidate_left_over candidate_index image_iff)
      consider (eog) "gv_is_eog v (toks ! i)" | (bare) "\<not> gv_is_eog v (toks ! i)" "\<not> has_text v (toks ! i)"
        | (plain) "\<not> gv_is_eog v (toks ! i)" "has_text v (toks ! i)" by blast
      then show ?thesis
      proof cases
        case eog
        then show ?thesis using index i assms(4) by (simp add: b grammar_accept_def)
      next
        case bare
        then show ?thesis using index i by (simp add: b)
      next
        case plain
        then have "grammar_accept n v g (toks ! i) = grammar_accept_token n g (toks ! i) (gv_piece v (toks ! i))" using assms(4) by (simp add: grammar_accept_def)
        then show ?thesis using index plain P i by (simp add: b P_def)
      qed
    qed
    then show ?thesis using run by blast
  qed
  then have "\<forall>m \<ge> max (Suc L) (max F1 F2). \<forall>n \<ge> max (Suc L) (max F1 F2). \<exists>banned. grammar_apply m n v g toks = Inr banned \<and> (\<forall>i < length toks. i \<notin> banned \<longleftrightarrow>
      (gv_is_eog v (toks ! i) \<or> has_text v (toks ! i)) \<and> (\<exists>g'. grammar_accept n v g (toks ! i) = Inr g'))" by simp
  then show ?thesis by (rule exI)
qed

text \<open>A sampler for \<open>list_rules\<close> at the start, with the stacks that \<open>init\<close> finds, and three tokens: \<open>"-"\<close>, \<open>"xx"\<close> and \<open>"y"\<close>.\<close>

definition list_grammar :: llama_grammar where
  "list_grammar = \<lparr>gr_rules = list_rules, gr_stacks = [[(1, 0), (0, 1)], [(0, 1)], []], gr_partial_utf8 = \<lparr>pu_value = 0, pu_n_remain = 0\<rparr>, gr_lazy = False,
     gr_awaiting_trigger = False, gr_trigger_buffer = [], gr_trigger_buffer_positions = [], gr_trigger_tokens = [], gr_trigger_patterns = []\<rparr>"

definition list_vocab :: grammar_vocab where
  "list_vocab = \<lparr>gv_piece = (\<lambda>t. [[45], [120, 120], [121]] ! t), gv_is_eog = (\<lambda>t. False)\<rparr>"

theorem grammar_apply_exact_witness:
  "\<exists>depth. \<forall>m \<ge> depth. \<forall>n \<ge> depth. \<exists>banned. grammar_apply m n list_vocab list_grammar [0, 1, 2] = Inr banned \<and>
    (\<forall>i < length [0, 1, 2::nat]. i \<notin> banned \<longleftrightarrow>
       (gv_is_eog list_vocab ([0, 1, 2] ! i) \<or> has_text list_vocab ([0, 1, 2] ! i)) \<and>
       (\<exists>g'. grammar_accept n list_vocab list_grammar ([0, 1, 2] ! i) = Inr g'))"
proof (rule grammar_apply_exact)
  show "grammar_ok (gr_rules list_grammar)" by code_simp
  show "no_token_rules (gr_rules list_grammar)" by code_simp
  show "grammar_wf list_grammar" by code_simp
  show "\<not> gr_awaiting_trigger list_grammar" by code_simp
  show "list_all (\<lambda>tok. \<not> gv_is_eog list_vocab tok \<and> has_text list_vocab tok \<longrightarrow> whole_text list_vocab list_grammar tok) [0, 1, 2]" by code_simp
qed

end
