(* ===== verification/Grammar_Safety.thy ===== *)
theory Grammar_Safety
  imports Grammar_Sampling
begin

text \<open>
  The states that the grammar sampler of \<open>llama-grammar.cpp\<close> reaches are well-formed, so that none of its assertions
  fails; and where its mask for partial characters is coarser than the grammar.
\<close>

section \<open>Never aborting\<close>

text \<open>A result that is no failed assertion and no abort; recursion without end and the exception for an empty stack remain.\<close>

definition settles :: "('a \<Rightarrow> bool) \<Rightarrow> 'a outcome \<Rightarrow> bool" where
  "settles Q res = (case res of Inl e \<Rightarrow> e = Diverged \<or> (\<exists>msg. e = Runtime_error msg) | Inr x \<Rightarrow> Q x)"

lemma settles_simps [simp]:
  "settles Q (Inr x) \<longleftrightarrow> Q x" "settles Q (Inl Diverged)" "settles Q (Inl (Runtime_error msg))"
  "\<not> settles Q (Inl Assert_failed)" "\<not> settles Q (Inl Aborted)"
  by (simp_all add: settles_def)

lemma settles_bind: "settles P r \<Longrightarrow> (\<And>x. P x \<Longrightarrow> r = Inr x \<Longrightarrow> settles Q (f x)) \<Longrightarrow> settles Q (bind_outcome r f)"
  by (cases r) (auto simp: settles_def split: sum.splits)

lemma settles_fold: "(\<And>x b. x \<in> set xs \<Longrightarrow> I b \<Longrightarrow> settles I (f x b)) \<Longrightarrow> I b \<Longrightarrow> settles I (fold_outcome f xs b)"
proof (induction xs arbitrary: b)
  case (Cons x xs)
  have "settles I (f x b)" using Cons.prems by simp
  then show ?case unfolding fold_outcome.simps by (rule settles_bind) (rule Cons.IH, use Cons.prems(1) in simp_all)
qed simp

abbreviation good_list :: "llama_grammar_rules \<Rightarrow> llama_grammar_stack list \<Rightarrow> bool" where
  "good_list rules stacks \<equiv> good_stacks rules (set stacks)"

lemma good_empty [simp]: "good_stacks rules {}"
  by (simp add: good_stacks_def)

lemma good_list_add: "good_list rules stacks \<Longrightarrow> stack_ok rules s \<Longrightarrow> ready rules s \<Longrightarrow> good_list rules (add_stack s stacks)"
  by (simp add: good_stacks_def)

lemma advance_stack_settles:
  assumes "rules_ok rules"
  shows "stack_ok rules stack \<Longrightarrow> good_list rules new_stacks \<Longrightarrow> settles (good_list rules) (advance_stack n rules stack new_stacks)"
proof (induction n arbitrary: stack new_stacks)
  case (Suc n)
  show ?case
  proof (cases "ready rules stack")
    case True
    then show ?thesis unfolding advance_stack_ready [OF True] using Suc.prems good_list_add by simp
  next
    case False
    then obtain pos rest where stack: "stack = pos # rest" by (cases stack) (auto simp: ready_def)
    have pos: "proper rules pos" "\<not> ends_at rules pos" "stack_ok rules rest" using Suc.prems(1) by (simp_all add: stack)
    have ref: "type_at rules pos = GRETYPE_RULE_REF"
      using pos(1,2) False by (cases "type_at rules pos") (auto simp: stack proper_def is_end_of_sequence_def ready_def is_char_class_def is_token_type_def)
    have "settles (good_list rules) (fold_outcome (\<lambda>sub. advance_stack n rules (push_unless_end rules sub (push_unless_end rules (ptr_add pos 1) rest)))
        (alt_starts rules (value_at rules pos, 0)) new_stacks)"
    proof (rule settles_fold [OF Suc.IH Suc.prems(2)])
      fix sub assume "sub \<in> set (alt_starts rules (value_at rules pos, 0))"
      then have "proper rules sub" by (rule proper_alternates [OF assms proper_start [OF assms]])
      moreover have "proper rules (ptr_add pos 1)" by (rule proper_next [OF assms]) (simp add: ref)
      ultimately show "stack_ok rules (push_unless_end rules sub (push_unless_end rules (ptr_add pos 1) rest))" using pos(3) by (intro stack_ok_push)
    qed
    then show ?thesis by (simp add: stack ref)
  qed
qed simp

lemma accept_chr_settles:
  assumes "rules_ok rules" "stack_ok rules stack" "ready rules stack" "good_list rules new_stacks"
  shows "settles (good_list rules) (accept_chr n rules c stack new_stacks)"
proof (cases stack)
  case (Cons pos rest)
  show ?thesis
  proof (cases "is_token_type (type_at rules pos)")
    case False
    then have "is_char_class (type_at rules pos)" using assms(3) by (simp add: Cons ready_def)
    then obtain ok nxt where m: "match_char rules pos c = Inr (ok, nxt)" using match_char_total by blast
    have "stack_ok rules (push_unless_end rules nxt rest)" using match_char_next_proper [OF assms(1) m] assms(2) by (intro stack_ok_push) (simp_all add: Cons)
    then show ?thesis using False m assms(4) advance_stack_settles [OF assms(1)] by (simp add: accept_chr_def Cons)
  qed (use assms in \<open>simp add: accept_chr_def Cons\<close>)
qed (use assms in \<open>simp add: accept_chr_def\<close>)

lemma accept_run_settles:
  assumes "rules_ok rules"
  shows "good_list rules stacks \<Longrightarrow> settles (good_list rules) (accept_run n rules cs stacks)"
proof (induction cs arbitrary: stacks)
  case (Cons c cs)
  have "settles (good_list rules) (accept_stacks n rules c stacks)" unfolding accept_stacks_def
  proof (rule settles_fold)
    fix s b assume "s \<in> set stacks" "good_list rules b"
    then show "settles (good_list rules) (accept_chr n rules c s b)" using Cons.prems by (intro accept_chr_settles [OF assms]) (simp_all add: good_stacks_def)
  qed (simp add: good_stacks_def)
  then show ?case unfolding accept_run.simps by (rule settles_bind) (simp add: Cons.IH)
qed simp

lemma accept_token_stack_settles:
  assumes "rules_ok rules" "stack_ok rules stack" "ready rules stack" "good_list rules new_stacks"
  shows "settles (good_list rules) (accept_token_stack n rules token chrs stack new_stacks)"
proof (cases stack)
  case (Cons pos rest)
  show ?thesis
  proof (cases "is_token_type (type_at rules pos)")
    case True
    then obtain ok where m: "match_token rules pos token = Inr ok" by (auto simp: match_token_def is_token_type_def)
    have "proper rules (ptr_add pos 1)" by (rule proper_next [OF assms(1)]) (use True in \<open>auto simp: is_token_type_def\<close>)
    then have "stack_ok rules (push_unless_end rules (ptr_add pos 1) rest)" using assms(2) by (intro stack_ok_push) (simp_all add: Cons)
    then show ?thesis using True m assms(4) advance_stack_settles [OF assms(1)] by (simp add: accept_token_stack_def Cons)
  next
    case False
    have "good_list rules [stack]" using assms(2,3) by (simp add: good_stacks_def)
    then have "settles (good_list rules) (accept_run n rules chrs [stack])" by (rule accept_run_settles [OF assms(1)])
    then have "settles (good_list rules) (bind_outcome (accept_run n rules chrs [stack]) (\<lambda>surviving. Inr (fold add_stack surviving new_stacks)))"
    proof (rule settles_bind)
      have *: "set (fold add_stack xs b) = set b \<union> set xs" for xs b by (induction xs arbitrary: b) auto
      fix xs assume "good_list rules xs"
      then show "settles (good_list rules) (Inr (fold add_stack xs new_stacks))" using assms(4) by (auto simp: good_stacks_def *)
    qed
    then show ?thesis using False by (simp add: accept_token_stack_def Cons)
  qed
qed (use assms in \<open>simp add: accept_token_stack_def\<close>)

lemma grammar_accept_token_settles:
  assumes "grammar_wf g"
  shows "settles grammar_wf (grammar_accept_token n g token piece)"
proof -
  obtain cpts partial where d: "decode_utf8 piece (gr_partial_utf8 g) = (cpts, partial)" by (cases "decode_utf8 piece (gr_partial_utf8 g)")
  have wf: "rules_ok (gr_rules g)" "good_list (gr_rules g) (gr_stacks g)" using assms by (simp_all add: grammar_wf_def)
  have "settles (good_list (gr_rules g)) (fold_outcome (accept_token_stack n (gr_rules g) token (butlast cpts)) (gr_stacks g) [])"
  proof (rule settles_fold)
    fix s b assume "s \<in> set (gr_stacks g)" "good_list (gr_rules g) b"
    then show "settles (good_list (gr_rules g)) (accept_token_stack n (gr_rules g) token (butlast cpts) s b)"
      using wf by (intro accept_token_stack_settles) (simp_all add: good_stacks_def)
  qed (simp add: good_stacks_def)
  then show ?thesis unfolding grammar_accept_token_def d Let_def prod.case
    by (rule settles_bind) (use wf(1) in \<open>simp add: grammar_wf_def empty_stack_error_def\<close>)
qed

lemma replay_settles: "grammar_wf g \<Longrightarrow> settles grammar_wf (replay n start toks g)"
proof (induction n start toks g rule: replay.induct)
  case (2 n start tok tok_start tok_end toks g)
  show ?case
  proof (cases "tok_end \<le> start")
    case False
    show ?thesis unfolding replay.simps Let_def if_not_P [OF False]
      by (rule settles_bind [OF grammar_accept_token_settles [OF "2.prems"]]) (rule "2.IH"(2) [OF False refl])
  qed (use 2 in simp)
qed simp

lemma grammar_wf_update [simp]:
  "grammar_wf (g\<lparr>gr_awaiting_trigger := a\<rparr>) \<longleftrightarrow> grammar_wf g" "grammar_wf (g\<lparr>gr_trigger_buffer := b\<rparr>) \<longleftrightarrow> grammar_wf g"
  "grammar_wf (g\<lparr>gr_trigger_buffer_positions := ps\<rparr>) \<longleftrightarrow> grammar_wf g"
  by (simp_all add: grammar_wf_def)

lemma grammar_accept_settles:
  assumes "grammar_wf g" "gv_is_eog v token \<longrightarrow> gr_awaiting_trigger g \<or> [] \<in> set (gr_stacks g)"
  shows "settles grammar_wf (grammar_accept n v g token)"
proof (cases "gr_awaiting_trigger g \<and> token \<notin> set (gr_trigger_tokens g)")
  case True
  show ?thesis
  proof (cases "first_trigger (gr_trigger_patterns g) (gr_trigger_buffer g @ gv_piece v token)")
    case None
    then show ?thesis using True assms(1) by (simp add: grammar_accept_def Let_def)
  next
    case (Some start)
    let ?g = "g\<lparr>gr_trigger_buffer_positions := gr_trigger_buffer_positions g @ [(token, length (gr_trigger_buffer g), length (gr_trigger_buffer g) + length (gv_piece v token))],
      gr_trigger_buffer := gr_trigger_buffer g @ gv_piece v token, gr_awaiting_trigger := False\<rparr>"
    have "grammar_wf ?g" using assms(1) by (simp add: grammar_wf_def)
    then have "settles grammar_wf (bind_outcome (replay n start (gr_trigger_buffer_positions ?g) ?g) (\<lambda>g. Inr (g\<lparr>gr_trigger_buffer := [], gr_trigger_buffer_positions := []\<rparr>)))"
      by (intro settles_bind [OF replay_settles]) simp_all
    then show ?thesis using True Some by (simp add: grammar_accept_def Let_def)
  qed
next
  case False
  then show ?thesis using assms grammar_accept_token_settles by (auto simp: grammar_accept_def Let_def)
qed

lemma match_partial_total: "is_char_class (type_at rules pos) \<Longrightarrow> \<exists>ok. match_partial_char rules pos p = Inr ok"
  by (auto simp: match_partial_char_def Let_def is_char_class_def)

lemma reject_step_settles: "is_char_class (type_at rules pos) \<Longrightarrow> settles (\<lambda>_. True) (reject_step rules pos tok b)"
  using match_partial_total [of rules pos "gc_partial_utf8 tok"] match_char_total [of rules pos "gc_chr tok"]
  by (cases b) (auto simp: reject_step_def)

lemma reject_token_step_settles: "is_token_type (type_at rules pos) \<Longrightarrow> settles (\<lambda>_. True) (reject_token_step rules pos tok b)"
  by (auto simp: reject_token_step_def match_token_def is_token_type_def)

lemma reject_for_stack_settles:
  assumes "rules_ok rules" "stack_ok rules stack" "ready rules stack"
    and recurse: "\<And>stacks toks. good_list rules stacks \<Longrightarrow> stacks \<noteq> [] \<Longrightarrow> settles (\<lambda>_. True) (recurse stacks toks)"
  shows "settles (\<lambda>_. True) (reject_for_stack recurse n rules stack toks)"
proof (cases stack)
  case (Cons pos rest)
  show ?thesis
  proof (cases "is_token_type (type_at rules pos)")
    case True
    then show ?thesis using settles_fold [of toks "\<lambda>_. True" "reject_token_step rules pos" "[]"] reject_token_step_settles [OF True]
      by (simp add: reject_for_stack_def Cons)
  next
    case False
    then have cls: "is_char_class (type_at rules pos)" using assms(3) by (simp add: Cons ready_def)
    obtain ok after where m: "match_char rules pos 0 = Inr (ok, after)" using match_char_total [OF cls] by blast
    have ok: "stack_ok rules (push_unless_end rules after rest)" using match_char_next_proper [OF assms(1) m] assms(2) by (intro stack_ok_push) (simp_all add: Cons)
    have rec: "settles (\<lambda>_. True) (bind_outcome (advance_stack n rules (push_unless_end rules after rest) []) (\<lambda>next_stacks.
        bind_outcome (recurse next_stacks nexts) (\<lambda>next_rejects. Inr (f next_rejects))))" for nexts and f :: "llama_grammar_candidate list \<Rightarrow> llama_grammar_candidate list"
    proof (rule settles_bind [OF advance_stack_settles [OF assms(1) ok]])
      fix next_stacks assume "good_list rules next_stacks" "advance_stack n rules (push_unless_end rules after rest) [] = Inr next_stacks"
      moreover from this have "next_stacks \<noteq> []" using advance_stack_set expands_exists by fastforce
      ultimately show "settles (\<lambda>_. True) (bind_outcome (recurse next_stacks nexts) (\<lambda>next_rejects. Inr (f next_rejects)))"
        by (intro settles_bind [OF recurse]) simp_all
    qed simp
    show ?thesis unfolding reject_for_stack_def Cons list.case if_not_P [OF False]
      by (rule settles_bind [OF settles_fold]) (use reject_step_settles [OF cls] m rec in \<open>auto split: prod.splits\<close>)
  qed
qed (simp add: reject_for_stack_def)

lemma reject_candidates_settles:
  assumes "rules_ok rules"
  shows "good_list rules stacks \<Longrightarrow> stacks \<noteq> [] \<Longrightarrow> settles (\<lambda>_. True) (reject_candidates m n rules stacks toks)"
proof (induction m arbitrary: stacks toks)
  case (Suc m)
  have "settles (\<lambda>_. True) (fold_outcome (reject_for_stack (reject_candidates m n rules) n rules) stacks toks)"
  proof (rule settles_fold)
    fix s b assume "s \<in> set stacks"
    then show "settles (\<lambda>_. True) (reject_for_stack (reject_candidates m n rules) n rules s b)"
      using Suc.prems(1) by (intro reject_for_stack_settles [OF assms _ _ Suc.IH]) (simp_all add: good_stacks_def)
  qed simp
  then show ?case using Suc.prems(2) by simp
qed simp

lemma grammar_apply_settles: "grammar_wf g \<Longrightarrow> settles (\<lambda>_. True) (grammar_apply m n v g toks)"
  unfolding grammar_apply_def
  by (auto simp: grammar_wf_def split: prod.splits intro!: settles_bind [OF reject_candidates_settles])

text \<open>The states a sampler can be in: after \<open>init\<close>, and after accepting a token; the end of the generation only where \<open>apply\<close> allows it.\<close>

inductive sampler_state :: "nat \<Rightarrow> grammar_vocab \<Rightarrow> llama_grammar_rules \<Rightarrow> nat \<Rightarrow> llama_grammar \<Rightarrow> bool" for n v rules start where
  sampler_init: "grammar_init n rules start lazy trigger_tokens trigger_patterns = Inr (Some g) \<Longrightarrow> sampler_state n v rules start g"
| sampler_accept: "sampler_state n v rules start g \<Longrightarrow> gv_is_eog v tok \<longrightarrow> gr_awaiting_trigger g \<or> [] \<in> set (gr_stacks g) \<Longrightarrow>
    grammar_accept n v g tok = Inr g' \<Longrightarrow> sampler_state n v rules start g'"

lemma initial_stacks_settles:
  assumes "rules_ok rules" "start < length rules"
  shows "settles (\<lambda>stacks. good_list rules stacks \<and> stacks \<noteq> []) (initial_stacks n rules start)"
proof -
  have good: "settles (good_list rules) (initial_stacks n rules start)" unfolding initial_stacks_in_range [OF assms(2)]
  proof (rule settles_fold [OF advance_stack_settles [OF assms(1)]])
    fix sub assume "sub \<in> set (alt_starts rules (start, 0))"
    then show "stack_ok rules (push_unless_end rules sub [])" using proper_alternates [OF assms(1) proper_start [OF assms(1)]] by (intro stack_ok_push) simp_all
  qed simp_all
  have "stacks \<noteq> []" if st: "initial_stacks n rules start = Inr stacks" for stacks
  proof -
    obtain sub subs where alts: "alt_starts rules (start, 0) = sub # subs" using alt_starts_nonempty by (meson neq_Nil_conv)
    obtain out where out: "advance_stack n rules (push_unless_end rules sub []) [] = Inr out"
      using st by (auto simp: initial_stacks_in_range [OF assms(2)] alts bind_outcome_Inr_iff)
    obtain s where s: "expands rules (push_unless_end rules sub []) s" using expands_exists [OF out] by blast
    have "set stacks = set [] \<union> (\<Union>sub \<in> set (alt_starts rules (start, 0)). {s. expands rules (push_unless_end rules sub []) s})"
      by (rule fold_outcome_union [OF advance_stack_set st [unfolded initial_stacks_in_range [OF assms(2)]]])
    then have "s \<in> set stacks" using s by (simp add: alts)
    then show ?thesis by auto
  qed
  then show ?thesis using good by (cases "initial_stacks n rules start") (simp_all add: settles_def)
qed

lemma grammar_init_wf:
  assumes "rules_ok rules" "grammar_init n rules start lazy trigger_tokens trigger_patterns = Inr (Some g)"
  shows "grammar_wf g"
proof -
  obtain stacks where "initial_stacks n rules start = Inr stacks" "gr_rules g = rules" "gr_stacks g = stacks"
    using assms(2) copy_rules_ok [OF assms(1)] by (auto simp: grammar_init_def bind_outcome_Inr_iff split: if_splits)
  moreover from this have "start < length rules" by (simp add: initial_stacks_def split: if_splits)
  ultimately show ?thesis using initial_stacks_settles [OF assms(1), of start n] assms(1) by (simp add: grammar_wf_def)
qed

lemma sampler_state_wf: "sampler_state n v rules start g \<Longrightarrow> rules_ok rules \<Longrightarrow> grammar_wf g"
proof (induction rule: sampler_state.induct)
  case (sampler_init lazy trigger_tokens trigger_patterns g)
  then show ?case using grammar_init_wf by blast
next
  case (sampler_accept g tok g')
  then show ?case using grammar_accept_settles [of g v tok n] by simp
qed

text \<open>
  A sampler of well-formed rules never hits an assertion and never aborts: in every state that \<open>init\<close> and any sequence
  of accepted tokens reach, \<open>accept\<close> and \<open>apply\<close> return, throw the exception for an empty stack, or
  recurse without end; and \<open>accept\<close> returns a well-formed state again: every stack stands on a terminal, and there is a stack.
  The end of the generation must be allowed, as \<open>apply\<close> sees to.
\<close>

theorem sampler_never_aborts:
  assumes "rules_ok rules" "sampler_state n v rules start g"
    and "gv_is_eog v token \<longrightarrow> gr_awaiting_trigger g \<or> [] \<in> set (gr_stacks g)"
  shows "settles grammar_wf (grammar_accept n v g token) \<and> settles (\<lambda>_. True) (grammar_apply m n v g toks)"
  using grammar_accept_settles [OF _ assms(3)] grammar_apply_settles sampler_state_wf [OF assms(2,1)] by blast

theorem sampler_never_aborts_witness:
  "settles grammar_wf (grammar_accept 5 list_vocab list_grammar 1) \<and> settles (\<lambda>_. True) (grammar_apply 4 5 list_vocab list_grammar [0, 1, 2])"
proof (rule sampler_never_aborts)
  have ok: "rules_ok list_rules" by code_simp
  have "left_recursion_found list_rules = Inr False" by code_simp
  moreover have "initial_stacks 5 list_rules 0 = Inr [[(1, 0), (0, 1)], [(0, 1)], []]" by code_simp
  ultimately have "grammar_init 5 list_rules 0 False [] [] = Inr (Some list_grammar)"
    by (simp add: grammar_init_def copy_rules_ok [OF ok] list_grammar_def)
  then show "sampler_state 5 list_vocab list_rules 0 list_grammar" by (rule sampler_init)
  show "rules_ok list_rules" by (rule ok)
  show "gv_is_eog list_vocab 1 \<longrightarrow> gr_awaiting_trigger list_grammar \<or> [] \<in> set (gr_stacks list_grammar)" by code_simp
qed

definition negated_grammar :: llama_grammar where
  "negated_grammar = \<lparr>gr_rules = [[elem GRETYPE_CHAR_NOT 0xE9, elem GRETYPE_END 0]], gr_stacks = [[(0, 0)]],
     gr_partial_utf8 = \<lparr>pu_value = 0, pu_n_remain = 0\<rparr>, gr_lazy = False, gr_awaiting_trigger = False, gr_trigger_buffer = [],
     gr_trigger_buffer_positions = [], gr_trigger_tokens = [], gr_trigger_patterns = []\<rparr>"

definition byte_vocab :: grammar_vocab where
  "byte_vocab = \<lparr>gv_piece = (\<lambda>t. [[0xC3], [0xA8]] ! t), gv_is_eog = (\<lambda>t. False)\<rparr>"

text \<open>
  The mask can ban a token that the grammar accepts: a negated class rejects a partial character as soon as
  one of its completions is excluded. For a rule of one class, all characters but an e with acute accent (E9), the token with the byte C3 is banned, although
  \<open>accept\<close> takes it, and the byte A8 after it completes an e with grave accent, which the grammar derives.
\<close>

theorem partial_negated_class_banned:
  "grammar_init 1 (gr_rules negated_grammar) 0 False [] [] = Inr (Some negated_grammar) \<and>
   grammar_apply 2 1 byte_vocab negated_grammar [0] = Inr {0} \<and>
   (\<exists>g g'. grammar_accept 1 byte_vocab negated_grammar 0 = Inr g \<and> grammar_accept 1 byte_vocab g 1 = Inr g' \<and> gr_stacks g' = [[]])"
proof -
  let ?R = "gr_rules negated_grammar"
  have "rules_ok ?R" "left_recursion_found ?R = Inr False" "initial_stacks 1 ?R 0 = Inr [[(0, 0)]]" by code_simp+
  then have init: "grammar_init 1 ?R 0 False [] [] = Inr (Some negated_grammar)"
    by (simp add: grammar_init_def copy_rules_ok) (simp add: negated_grammar_def)
  have first: "decode_utf8 [0xC3] \<lparr>pu_value = 0, pu_n_remain = 0\<rparr> = ([0], \<lparr>pu_value = 3, pu_n_remain = 1\<rparr>)" by code_simp
  have second: "decode_utf8 [0xA8] \<lparr>pu_value = 3, pu_n_remain = 1\<rparr> = ([0xE8, 0], \<lparr>pu_value = 0xE8, pu_n_remain = 0\<rparr>)" by (simp add: decode_utf8_def add_bits_def)
  have class_: "match_char ?R (0, 0) 0 = Inr (True, (0, 1))" "\<not> is_token_type (type_at ?R (0, 0))"
    "advance_stack 1 ?R (push_unless_end ?R (0, 1) []) [] = Inr [[]]" by code_simp+
  have elems: "elem_at ?R (0, 0) = elem GRETYPE_CHAR_NOT 0xE9" "elem_at ?R (0, Suc 0) = elem GRETYPE_END 0"
    by (simp_all add: negated_grammar_def elem_at_def)
  have "match_partial_char ?R (0, 0) \<lparr>pu_value = 3, pu_n_remain = 1\<rparr> = Inr False"
    by (simp add: match_partial_char_def elems match_partial_loop.simps ptr_add_def partial_low_def partial_high_def)
  then have "reject_candidates 2 1 ?R [[(0, 0)]] [\<lparr>gc_index = 0, gc_code_points = [0], gc_at = 0, gc_partial_utf8 = \<lparr>pu_value = 3, pu_n_remain = 1\<rparr>, gc_id = 0\<rparr>] =
    Inr [\<lparr>gc_index = 0, gc_code_points = [0], gc_at = 0, gc_partial_utf8 = \<lparr>pu_value = 3, pu_n_remain = 1\<rparr>, gc_id = 0\<rparr>]"
    using class_ by (simp add: numeral_2_eq_2 reject_for_stack_def reject_step_def gc_chr_def)
  then have banned: "grammar_apply 2 1 byte_vocab negated_grammar [0] = Inr {0}"
    using first by (simp add: grammar_apply_def byte_vocab_def negated_grammar_def)
  let ?g = "negated_grammar\<lparr>gr_partial_utf8 := \<lparr>pu_value = 3, pu_n_remain = 1\<rparr>\<rparr>"
  have "fold_outcome (accept_token_stack 1 ?R 0 []) [[(0, 0)]] [] = Inr [[(0, 0)]]" by code_simp
  then have one: "grammar_accept 1 byte_vocab negated_grammar 0 = Inr ?g"
    using first by (simp add: grammar_accept_def grammar_accept_token_def byte_vocab_def negated_grammar_def)
  have "fold_outcome (accept_token_stack 1 ?R 1 [0xE8]) [[(0, 0)]] [] = Inr [[]]" by code_simp
  then have "grammar_accept 1 byte_vocab ?g 1 = Inr (?g\<lparr>gr_stacks := [[]], gr_partial_utf8 := \<lparr>pu_value = 0xE8, pu_n_remain = 0\<rparr>\<rparr>)"
    using second by (simp add: grammar_accept_def grammar_accept_token_def byte_vocab_def negated_grammar_def)
  then have "grammar_accept 1 byte_vocab ?g 1 = Inr (?g\<lparr>gr_stacks := [[]], gr_partial_utf8 := \<lparr>pu_value = 0xE8, pu_n_remain = 0\<rparr>\<rparr>) \<and>
    gr_stacks (?g\<lparr>gr_stacks := [[]], gr_partial_utf8 := \<lparr>pu_value = 0xE8, pu_n_remain = 0\<rparr>\<rparr>) = [[]]" by simp
  then show ?thesis using init banned one by blast
qed

end
