(* ===== verification/Grammar_Parser.thy ===== *)
theory Grammar_Parser
  imports Grammar_Safety "HOL-Library.AList" "HOL-Library.Sublist" "HOL-Library.Code_Target_Nat"
begin

text \<open>
  The parser of grammar texts, \<open>llama_grammar_parser\<close> (\<open>llama-grammar.cpp\<close>): it compiles the text to the rules
  that the sampler works on, with synthesized rules for groups and repetitions.

  A \<open>const char *\<close> into the text is the rest of the text; reading its end gives 0. The map of the symbols is an association
  list in the order of insertion. Exceptions keep the fixed part of their message. The loops over the text run on fuel, one
  step per character left and one more; the nesting of groups on one level per character. Identifiers are natural numbers
  below \<open>2^32\<close>, with the wrap-around written out. Memory does not run out. Tokenizing is a parameter: the
  null pointer, or the token of a text that is exactly one token.
\<close>

section \<open>Characters\<close>

definition peek :: "bytes \<Rightarrow> nat" where
  "peek pos = (case pos of [] \<Rightarrow> 0 | c # _ \<Rightarrow> c)"

lemma peek_simps [simp]: "peek [] = 0" "peek (c # cs) = c"
  by (simp_all add: peek_def)

lemma tl_shorter: "peek pos \<noteq> 0 \<Longrightarrow> length (tl pos) < length pos"
  by (cases pos) simp_all

definition throw :: "string \<Rightarrow> 'a outcome" where
  "throw msg = Inl (Runtime_error msg)"

definition is_digit_char :: "nat \<Rightarrow> bool" where
  "is_digit_char c \<longleftrightarrow> 48 \<le> c \<and> c \<le> 57"

definition is_word_char :: "nat \<Rightarrow> bool" where
  "is_word_char c \<longleftrightarrow> 97 \<le> c \<and> c \<le> 122 \<or> 65 \<le> c \<and> c \<le> 90 \<or> c = 45 \<or> is_digit_char c"

text \<open>The first overload of \<open>decode_utf8\<close>: one character, without validation.\<close>

fun cont_bytes :: "nat \<Rightarrow> bytes \<Rightarrow> nat \<Rightarrow> nat \<times> bytes" where
  "cont_bytes 0 pos val = (val, pos)"
| "cont_bytes (Suc n) pos val = (if peek pos \<noteq> 0 then cont_bytes n (tl pos) (add_bits val (peek pos)) else (val, pos))"

definition decode_char :: "bytes \<Rightarrow> nat \<times> bytes" where
  "decode_char src = (let len = [1, 1, 1, 1, 1, 1, 1, 1, 1, 1, 1, 1, 2, 2, 3, 4] ! (peek src div 16)
     in cont_bytes (len - 1) (tl src) (peek src mod 2 ^ (8 - len)))"

definition hex_digit :: "nat \<Rightarrow> nat option" where
  "hex_digit c = (if 97 \<le> c \<and> c \<le> 102 then Some (c - 97 + 10) else if 65 \<le> c \<and> c \<le> 70 then Some (c - 65 + 10)
     else if 48 \<le> c \<and> c \<le> 57 then Some (c - 48) else None)"

fun parse_hex :: "nat \<Rightarrow> bytes \<Rightarrow> nat \<Rightarrow> (nat \<times> bytes) outcome" where
  "parse_hex 0 pos val = Inr (val, pos)"
| "parse_hex (Suc n) pos val = (case hex_digit (peek pos) of
     None \<Rightarrow> throw ''expecting hex chars'' | Some d \<Rightarrow> parse_hex n (tl pos) (val * 16 mod 2 ^ 32 + d))"

fun skip_comment :: "bytes \<Rightarrow> bytes" where
  "skip_comment [] = []"
| "skip_comment (c # cs) = (if c = 0 \<or> c = 13 \<or> c = 10 then c # cs else skip_comment cs)"

lemma skip_comment_length: "length (skip_comment cs) \<le> length cs"
  by (induction cs) auto

function parse_space :: "bool \<Rightarrow> bytes \<Rightarrow> bytes" where
  "parse_space newline_ok pos =
     (if peek pos = 32 \<or> peek pos = 9 \<or> peek pos = 35 \<or> newline_ok \<and> (peek pos = 13 \<or> peek pos = 10)
      then parse_space newline_ok (if peek pos = 35 then skip_comment pos else tl pos) else pos)"
  by pat_completeness auto
termination
proof (relation "measure (\<lambda>(nl, pos). length pos)")
  fix nl pos assume *: "peek pos = 32 \<or> peek pos = 9 \<or> peek pos = 35 \<or> nl \<and> (peek pos = 13 \<or> peek pos = 10)"
  then show "((nl, if peek pos = 35 then skip_comment pos else tl pos), nl, pos) \<in> measure (\<lambda>(nl, pos). length pos)"
    using skip_comment_length [of "tl pos"] by (cases pos) auto
qed simp

declare parse_space.simps [simp del]

lemma parse_space_length: "length (parse_space nl pos) \<le> length pos"
proof (induction nl pos rule: parse_space.induct)
  case (1 nl pos)
  have "length (if peek pos = 35 then skip_comment pos else tl pos) \<le> length pos" by (simp add: skip_comment_length)
  then show ?case using 1 by (subst parse_space.simps) (auto intro: order_trans)
qed

definition parse_name :: "bytes \<Rightarrow> (bytes \<times> bytes) outcome" where
  "parse_name src = (let name = takeWhile is_word_char src in if name = [] then throw ''expecting name'' else Inr (name, dropWhile is_word_char src))"

definition parse_int :: "bytes \<Rightarrow> (bytes \<times> bytes) outcome" where
  "parse_int src = (let digits = takeWhile is_digit_char src in if digits = [] then throw ''expecting integer'' else Inr (digits, dropWhile is_digit_char src))"

text \<open>\<open>std::stoull\<close> and, on the platforms of the application, \<open>std::stoul\<close>.\<close>

definition stoull :: "bytes \<Rightarrow> nat outcome" where
  "stoull digits = (let n = foldl (\<lambda>n d. 10 * n + (d - 48)) 0 digits in if n < 2 ^ 64 then Inr n else throw ''out_of_range'')"

definition parse_char :: "bytes \<Rightarrow> (nat \<times> bytes) outcome" where
  "parse_char src =
     (if peek src = 92 then
        let c = peek (tl src); rest = tl (tl src) in
        if c = 120 then parse_hex 2 rest 0
        else if c = 117 then parse_hex 4 rest 0
        else if c = 85 then parse_hex 8 rest 0
        else if c = 116 then Inr (9, rest)
        else if c = 114 then Inr (13, rest)
        else if c = 110 then Inr (10, rest)
        else if c = 92 \<or> c = 34 \<or> c = 91 \<or> c = 93 then Inr (c, rest)
        else throw ''unknown escape''
      else if peek src \<noteq> 0 then Inr (decode_char src)
      else throw ''unexpected end of input'')"

type_synonym tokenizer = "(bytes \<Rightarrow> nat option) option"

definition parse_token :: "tokenizer \<Rightarrow> bytes \<Rightarrow> (nat \<times> bytes) outcome" where
  "parse_token vocab src =
     (if peek src \<noteq> 60 then throw ''expecting '<' ''
      else let pos = tl src in
      if peek pos = 91 then
        bind_outcome (parse_int (tl pos)) (\<lambda>(digits, pos).
        bind_outcome (stoull digits) (\<lambda>token_id.
          if peek pos \<noteq> 93 then throw ''expecting ']' ''
          else if peek (tl pos) \<noteq> 62 then throw ''expecting '>' ''
          else Inr (token_id mod 2 ^ 32, tl (tl pos))))
      else case vocab of
        None \<Rightarrow> throw ''no vocab to parse token''
      | Some tokenize \<Rightarrow>
          let txt = takeWhile (\<lambda>c. c \<noteq> 0 \<and> c \<noteq> 62) pos; pos = dropWhile (\<lambda>c. c \<noteq> 0 \<and> c \<noteq> 62) pos in
          if peek pos \<noteq> 62 then throw ''expecting '>' ''
          else case tokenize (60 # txt @ [62]) of None \<Rightarrow> throw ''invalid token'' | Some token \<Rightarrow> Inr (token, tl pos))"

subsection \<open>Success consumes characters\<close>

lemma cont_bytes_length: "cont_bytes n pos v = (c, pos') \<Longrightarrow> length pos' \<le> length pos"
  by (induction n pos v rule: cont_bytes.induct) (auto split: if_splits)

lemma parse_hex_length: "parse_hex n pos v = Inr (c, pos') \<Longrightarrow> length pos' \<le> length pos"
  by (induction n pos v rule: parse_hex.induct) (auto simp: throw_def split: option.splits)

lemma parse_char_length:
  assumes "parse_char src = Inr (c, pos)"
  shows "length pos < length src"
proof -
  obtain b bs where src: "src = b # bs" using assms by (cases src) (auto simp: parse_char_def throw_def)
  show ?thesis
  proof (cases "b = 92")
    case True
    have "length (tl bs) < length src" by (simp add: src)
    then show ?thesis using assms True by (auto simp: src parse_char_def Let_def throw_def split: if_splits dest!: parse_hex_length)
  next
    case False
    then have "decode_char src = (c, pos)" using assms by (auto simp: src parse_char_def throw_def split: if_splits)
    then have "length pos \<le> length bs" by (intro cont_bytes_length) (simp add: src decode_char_def Let_def)
    then show ?thesis by (simp add: src)
  qed
qed

lemma word_char_nonzero: "is_word_char c \<Longrightarrow> c \<noteq> 0"
  by (auto simp: is_word_char_def is_digit_char_def)

lemma parse_name_result: "parse_name src = Inr (name, pos) \<Longrightarrow> src = name @ pos \<and> name \<noteq> [] \<and> list_all is_word_char name"
  by (auto simp: parse_name_def throw_def Let_def list_all_iff split: if_splits dest: set_takeWhileD)

lemma parse_name_length: "parse_name src = Inr (name, pos) \<Longrightarrow> length pos < length src"
  using parse_name_result [of src name pos] by auto

lemma parse_int_result: "parse_int src = Inr (digits, pos) \<Longrightarrow> src = digits @ pos \<and> digits \<noteq> []"
  by (auto simp: parse_int_def throw_def Let_def split: if_splits)

lemma parse_int_length: "parse_int src = Inr (digits, pos) \<Longrightarrow> length pos < length src"
  using parse_int_result [of src digits pos] by auto

lemma parse_token_length: "parse_token vocab src = Inr (tok, pos) \<Longrightarrow> length pos < length src"
proof -
  assume t: "parse_token vocab src = Inr (tok, pos)"
  then obtain bs where src: "src = 60 # bs" by (cases src) (auto simp: parse_token_def throw_def split: if_splits)
  have "length (dropWhile (\<lambda>c. c \<noteq> 0 \<and> c \<noteq> 62) bs) \<le> length bs" by (rule length_dropWhile_le)
  then show ?thesis using t parse_int_length [of "tl bs"]
    by (auto simp: src parse_token_def throw_def Let_def bind_outcome_Inr_iff split: if_splits option.splits)
qed

section \<open>The parser\<close>

record grammar_parser =
  gp_symbol_ids :: "(bytes \<times> nat) list"
  gp_rules :: llama_grammar_rules

text \<open>Identifiers are \<open>uint32_t\<close>: the number of symbols and \<open>rule_id + 1\<close> wrap around.\<close>

definition get_symbol_id :: "bytes \<Rightarrow> grammar_parser \<Rightarrow> nat \<times> grammar_parser" where
  "get_symbol_id name p = (let next_id = length (gp_symbol_ids p) mod 2 ^ 32 in case map_of (gp_symbol_ids p) name of
     Some known_id \<Rightarrow> (known_id, p) | None \<Rightarrow> (next_id, p\<lparr>gp_symbol_ids := gp_symbol_ids p @ [(name, next_id)]\<rparr>))"

definition generated_name :: "bytes \<Rightarrow> nat \<Rightarrow> bytes" where
  "generated_name base_name k = base_name @ 95 # map of_char (to_decimal k)"

definition generate_symbol_id :: "bytes \<Rightarrow> grammar_parser \<Rightarrow> nat \<times> grammar_parser" where
  "generate_symbol_id base_name p = (let next_id = length (gp_symbol_ids p) mod 2 ^ 32 in
     (next_id, p\<lparr>gp_symbol_ids := AList.update (generated_name base_name next_id) next_id (gp_symbol_ids p)\<rparr>))"

definition add_rule :: "nat \<Rightarrow> llama_grammar_rule \<Rightarrow> grammar_parser \<Rightarrow> grammar_parser outcome" where
  "add_rule rule_id rule p =
     (let rules = (if length (gp_rules p) \<le> rule_id then vec_resize ((rule_id + 1) mod 2 ^ 32) [] (gp_rules p) else gp_rules p)
      in if rule_id < length rules then Inr (p\<lparr>gp_rules := rules[rule_id := rule]\<rparr>) else Inl Out_of_bounds)"

text \<open>The loop of \<open>handle_repetitions\<close> over the optional copies.\<close>

primrec rep_rules :: "bytes \<Rightarrow> llama_grammar_rule \<Rightarrow> bool \<Rightarrow> nat \<Rightarrow> bool \<Rightarrow> nat \<Rightarrow> grammar_parser \<Rightarrow> (nat \<times> grammar_parser) outcome" where
  "rep_rules name prev_rule no_max 0 first last_rec p = Inr (last_rec, p)"
| "rep_rules name prev_rule no_max (Suc n) first last_rec p =
     (let (rec_id, p) = generate_symbol_id name p;
          rec_rule = prev_rule @ (if \<not> first \<or> no_max then [elem GRETYPE_RULE_REF (if no_max then rec_id else last_rec)] else []) @
            [elem GRETYPE_ALT 0, elem GRETYPE_END 0]
      in bind_outcome (add_rule rec_id rec_rule p) (rep_rules name prev_rule no_max n False rec_id))"

text \<open>The state of \<open>parse_sequence\<close>: the rule so far, where its last symbol starts, the parser and the position.\<close>

record seq_state =
  sq_rule :: llama_grammar_rule
  sq_last_sym_start :: nat
  sq_parser :: grammar_parser
  sq_pos :: bytes

definition UINT64_MAX :: nat where
  "UINT64_MAX = 2 ^ 64 - 1"

definition n_optional :: "nat \<Rightarrow> nat \<Rightarrow> nat" where
  "n_optional min_times max_times = (if max_times = UINT64_MAX then 1 else (max_times + 2 ^ 64 - min_times) mod 2 ^ 64)"

definition handle_repetitions :: "bytes \<Rightarrow> nat \<Rightarrow> nat \<Rightarrow> seq_state \<Rightarrow> seq_state outcome" where
  "handle_repetitions rule_name min_times max_times s =
     (let rule = sq_rule s; last = sq_last_sym_start s in
      if last = length rule then throw ''expecting preceding item''
      else let prev_rule = drop last rule;
               rule = (if min_times = 0 then take last rule else rule @ concat (replicate (min_times - 1) prev_rule));
               n_opt = n_optional min_times max_times
           in bind_outcome (rep_rules rule_name prev_rule (max_times = UINT64_MAX) n_opt True 0 (sq_parser s)) (\<lambda>(last_rec, p).
                Inr (s\<lparr>sq_rule := rule @ (if n_opt > 0 then [elem GRETYPE_RULE_REF last_rec] else []), sq_parser := p\<rparr>)))"

definition push_items :: "llama_grammar_rule \<Rightarrow> bytes \<Rightarrow> seq_state \<Rightarrow> seq_state" where
  "push_items items pos s = s\<lparr>sq_last_sym_start := length (sq_rule s), sq_rule := sq_rule s @ items, sq_pos := pos\<rparr>"

function parse_literal :: "bytes \<Rightarrow> llama_grammar_rule \<Rightarrow> (llama_grammar_rule \<times> bytes) outcome" where
  "parse_literal pos items =
     (if peek pos = 34 then Inr (items, pos)
      else if peek pos = 0 then throw ''unexpected end of input''
      else bind_outcome (parse_char pos) (\<lambda>(c, pos). parse_literal pos (items @ [elem GRETYPE_CHAR c])))"
  by pat_completeness auto
termination by (relation "measure (\<lambda>(pos, items). length pos)") (auto dest: parse_char_length)

declare parse_literal.simps [simp del]

function parse_class :: "llama_gretype \<Rightarrow> bytes \<Rightarrow> llama_grammar_rule \<Rightarrow> (llama_grammar_rule \<times> bytes) outcome" where
  "parse_class start_type pos items =
     (if peek pos = 93 then Inr (items, pos)
      else if peek pos = 0 then throw ''unexpected end of input''
      else bind_outcome (parse_char pos) (\<lambda>(c, pos).
        let items = items @ [elem (if items \<noteq> [] then GRETYPE_CHAR_ALT else start_type) c] in
        if peek pos = 45 \<and> peek (tl pos) \<noteq> 93 then
          if peek (tl pos) = 0 then throw ''unexpected end of input''
          else bind_outcome (parse_char (tl pos)) (\<lambda>(e, pos). parse_class start_type pos (items @ [elem GRETYPE_CHAR_RNG_UPPER e]))
        else parse_class start_type pos items))"
  by pat_completeness auto
termination
proof (relation "measure (\<lambda>(t, pos, items). length pos)", goal_cases)
  case (2 start_type pos items x c pos1 items1 x' e pos2)
  then show ?case using parse_char_length [of pos c pos1] parse_char_length [of "tl pos1" e pos2] by simp
next
  case (3 start_type pos items x c pos1 items1)
  then show ?case using parse_char_length [of pos c pos1] by simp
qed simp

declare parse_class.simps [simp del]

text \<open>The counts in braces: the upper bound after a comma, and what follows the lower bound.\<close>

definition parse_max_times :: "bool \<Rightarrow> bytes \<Rightarrow> (nat \<times> bytes) outcome" where
  "parse_max_times nested pos =
     (if is_digit_char (peek pos)
      then bind_outcome (parse_int pos) (\<lambda>(digits, pos). bind_outcome (stoull digits) (\<lambda>max_times. Inr (max_times, parse_space nested pos)))
      else Inr (UINT64_MAX, pos))"

definition parse_braces_rest :: "bool \<Rightarrow> nat \<Rightarrow> bytes \<Rightarrow> (nat \<times> nat \<times> bytes) outcome" where
  "parse_braces_rest nested min_times pos =
     (if peek pos = 125 then Inr (min_times, min_times, parse_space nested (tl pos))
      else if peek pos = 44 then
        bind_outcome (parse_max_times nested (parse_space nested (tl pos)))
          (\<lambda>(max_times, pos). if peek pos \<noteq> 125 then throw ''expecting '}' '' else Inr (min_times, max_times, parse_space nested (tl pos)))
      else throw ''expecting ',' '')"

definition parse_braces :: "bool \<Rightarrow> bytes \<Rightarrow> (nat \<times> nat \<times> bytes) outcome" where
  "parse_braces nested pos =
     (let pos = parse_space nested (tl pos) in
      if \<not> is_digit_char (peek pos) then throw ''expecting an int''
      else bind_outcome (parse_int pos) (\<lambda>(digits, pos).
        bind_outcome (stoull digits) (\<lambda>min_times. parse_braces_rest nested min_times (parse_space nested pos))))"

definition MAX_REPETITION_THRESHOLD :: nat where
  "MAX_REPETITION_THRESHOLD = 2000"

definition parse_repetition :: "bytes \<Rightarrow> bool \<Rightarrow> seq_state \<Rightarrow> seq_state outcome" where
  "parse_repetition name nested s =
     bind_outcome (parse_braces nested (sq_pos s)) (\<lambda>(min_times, max_times, pos).
       if min_times > MAX_REPETITION_THRESHOLD \<or> max_times \<noteq> UINT64_MAX \<and> max_times > MAX_REPETITION_THRESHOLD
       then throw ''number of repetitions exceeds sane defaults''
       else handle_repetitions name min_times max_times (s\<lparr>sq_pos := pos\<rparr>))"

text \<open>One turn of the loop of \<open>parse_sequence\<close>, None where it breaks; \<open>recurse\<close> parses the alternates of a group.\<close>

definition parse_item :: "(nat \<Rightarrow> bytes \<Rightarrow> grammar_parser \<Rightarrow> (bytes \<times> grammar_parser) outcome) \<Rightarrow> tokenizer \<Rightarrow> bytes \<Rightarrow> bool \<Rightarrow>
    seq_state \<Rightarrow> seq_state option outcome" where
  "parse_item recurse vocab name nested s =
     (let pos = sq_pos s; c = peek pos; space = parse_space nested in
      if c = 0 then Inr None
      else if c = 34 then
        bind_outcome (parse_literal (tl pos) []) (\<lambda>(items, pos). Inr (Some (push_items items (space (tl pos)) s)))
      else if c = 91 then
        let (start_type, pos) = (if peek (tl pos) = 94 then (GRETYPE_CHAR_NOT, tl (tl pos)) else (GRETYPE_CHAR, tl pos)) in
        bind_outcome (parse_class start_type pos []) (\<lambda>(items, pos). Inr (Some (push_items items (space (tl pos)) s)))
      else if c = 60 \<or> c = 33 then
        let (type, pos) = (if c = 33 then (GRETYPE_TOKEN_NOT, tl pos) else (GRETYPE_TOKEN, pos)) in
        bind_outcome (parse_token vocab pos) (\<lambda>(token, pos). Inr (Some (push_items [elem type token] (space pos) s)))
      else if is_word_char c then
        bind_outcome (parse_name pos) (\<lambda>(ref_name, pos). let (ref_id, p) = get_symbol_id ref_name (sq_parser s) in
          Inr (Some (push_items [elem GRETYPE_RULE_REF ref_id] (space pos) (s\<lparr>sq_parser := p\<rparr>))))
      else if c = 40 then
        let (sub_id, p) = generate_symbol_id name (sq_parser s) in
        bind_outcome (recurse sub_id (parse_space True (tl pos)) p) (\<lambda>(pos, p).
          if peek pos \<noteq> 41 then throw ''expecting ')' ''
          else Inr (Some (push_items [elem GRETYPE_RULE_REF sub_id] (space (tl pos)) (s\<lparr>sq_parser := p\<rparr>))))
      else if c = 46 then Inr (Some (push_items [elem GRETYPE_CHAR_ANY 0] (space (tl pos)) s))
      else if c = 42 then bind_outcome (handle_repetitions name 0 UINT64_MAX (s\<lparr>sq_pos := space (tl pos)\<rparr>)) (\<lambda>s. Inr (Some s))
      else if c = 43 then bind_outcome (handle_repetitions name 1 UINT64_MAX (s\<lparr>sq_pos := space (tl pos)\<rparr>)) (\<lambda>s. Inr (Some s))
      else if c = 63 then bind_outcome (handle_repetitions name 0 1 (s\<lparr>sq_pos := space (tl pos)\<rparr>)) (\<lambda>s. Inr (Some s))
      else if c = 123 then bind_outcome (parse_repetition name nested s) (\<lambda>s. Inr (Some s))
      else Inr None)"

primrec loop :: "nat \<Rightarrow> ('s \<Rightarrow> 's option outcome) \<Rightarrow> 's \<Rightarrow> 's outcome" where
  "loop 0 step s = Inl Diverged"
| "loop (Suc n) step s = bind_outcome (step s) (\<lambda>res. case res of None \<Rightarrow> Inr s | Some s \<Rightarrow> loop n step s)"

definition parse_sequence :: "(nat \<Rightarrow> bytes \<Rightarrow> grammar_parser \<Rightarrow> (bytes \<times> grammar_parser) outcome) \<Rightarrow> tokenizer \<Rightarrow> bytes \<Rightarrow> bool \<Rightarrow>
    llama_grammar_rule \<Rightarrow> bytes \<Rightarrow> grammar_parser \<Rightarrow> seq_state outcome" where
  "parse_sequence recurse vocab name nested rule pos p =
     loop (Suc (length pos)) (parse_item recurse vocab name nested) \<lparr>sq_rule = rule, sq_last_sym_start = length rule, sq_parser = p, sq_pos = pos\<rparr>"

definition parse_alternative :: "(llama_grammar_rule \<Rightarrow> bytes \<Rightarrow> grammar_parser \<Rightarrow> seq_state outcome) \<Rightarrow> seq_state \<Rightarrow> seq_state option outcome" where
  "parse_alternative sequence s =
     (if peek (sq_pos s) = 124
      then bind_outcome (sequence (sq_rule s @ [elem GRETYPE_ALT 0]) (parse_space True (tl (sq_pos s))) (sq_parser s)) (\<lambda>s. Inr (Some s))
      else Inr None)"

primrec parse_alternates :: "nat \<Rightarrow> tokenizer \<Rightarrow> bytes \<Rightarrow> bool \<Rightarrow> nat \<Rightarrow> bytes \<Rightarrow> grammar_parser \<Rightarrow> (bytes \<times> grammar_parser) outcome" where
  "parse_alternates 0 vocab name nested rule_id pos p = Inl Diverged"
| "parse_alternates (Suc n) vocab name nested rule_id pos p =
     (let sequence = parse_sequence (parse_alternates n vocab name True) vocab name nested in
      bind_outcome (sequence [] pos p) (\<lambda>s.
      bind_outcome (loop (Suc (length (sq_pos s))) (parse_alternative sequence) s) (\<lambda>s.
      bind_outcome (add_rule rule_id (sq_rule s @ [elem GRETYPE_END 0]) (sq_parser s)) (\<lambda>p. Inr (sq_pos s, p)))))"

definition parse_rule :: "tokenizer \<Rightarrow> bytes \<Rightarrow> grammar_parser \<Rightarrow> (bytes \<times> grammar_parser) outcome" where
  "parse_rule vocab src p =
     bind_outcome (parse_name src) (\<lambda>(name, pos).
       let pos = parse_space False pos; (rule_id, p) = get_symbol_id name p in
       if \<not> (peek pos = 58 \<and> peek (tl pos) = 58 \<and> peek (tl (tl pos)) = 61) then throw ''expecting ::=''
       else let pos = parse_space True (tl (tl (tl pos))) in
         bind_outcome (parse_alternates (Suc (length pos)) vocab name False rule_id pos p) (\<lambda>(pos, p).
           if peek pos = 13 then Inr (parse_space True (if peek (tl pos) = 10 then tl (tl pos) else tl pos), p)
           else if peek pos = 10 then Inr (parse_space True (tl pos), p)
           else if peek pos \<noteq> 0 then throw ''expecting newline or end''
           else Inr (parse_space True pos, p)))"

definition rules_step :: "tokenizer \<Rightarrow> bytes \<times> grammar_parser \<Rightarrow> (bytes \<times> grammar_parser) option outcome" where
  "rules_step vocab s = (case s of (pos, p) \<Rightarrow> if peek pos = 0 then Inr None else bind_outcome (parse_rule vocab pos p) (\<lambda>s. Inr (Some s)))"

text \<open>The validation: an empty rule, or a named reference to no rule.\<close>

definition has_undefined_rule :: "grammar_parser \<Rightarrow> bool" where
  "has_undefined_rule p \<longleftrightarrow> list_ex (\<lambda>rule. rule = [] \<or> list_ex (\<lambda>e. ge_type e = GRETYPE_RULE_REF \<and>
     (ge_value e \<ge> length (gp_rules p) \<or> gp_rules p ! ge_value e = []) \<and> list_ex (\<lambda>kv. snd kv = ge_value e) (gp_symbol_ids p)) rule) (gp_rules p)"

text \<open>\<open>parse\<close> catches the exceptions: None is its result false.\<close>

definition parse_rules :: "tokenizer \<Rightarrow> bytes \<Rightarrow> grammar_parser outcome" where
  "parse_rules vocab src =
     (let pos = parse_space True src in
      bind_outcome (loop (Suc (length pos)) (rules_step vocab) (pos, \<lparr>gp_symbol_ids = [], gp_rules = []\<rparr>)) (\<lambda>(pos, p).
        if has_undefined_rule p then throw ''Undefined rule'' else Inr p))"

definition parse_grammar :: "tokenizer \<Rightarrow> bytes \<Rightarrow> grammar_parser option outcome" where
  "parse_grammar vocab src = (case parse_rules vocab src of
     Inl (Runtime_error msg) \<Rightarrow> Inr None | Inl e \<Rightarrow> Inl e | Inr p \<Rightarrow> Inr (Some p))"

definition grammar_init_text :: "nat \<Rightarrow> tokenizer \<Rightarrow> bytes \<Rightarrow> bytes \<Rightarrow> bool \<Rightarrow> nat list \<Rightarrow> (bytes \<Rightarrow> nat option) list \<Rightarrow> llama_grammar option outcome" where
  "grammar_init_text n vocab grammar_str grammar_root lazy trigger_tokens trigger_patterns =
     bind_outcome (parse_grammar vocab grammar_str) (\<lambda>parsed. case parsed of
       None \<Rightarrow> Inr None
     | Some p \<Rightarrow>
         if gp_rules p = [] then Inr None
         else case map_of (gp_symbol_ids p) grammar_root of
           None \<Rightarrow> Inr None
         | Some start \<Rightarrow> grammar_init n (gp_rules p) start lazy trigger_tokens trigger_patterns)"

section \<open>Names of symbols\<close>

lemma to_decimal_digits: "c \<in> set (to_decimal n) \<Longrightarrow> 48 \<le> (of_char c :: nat) \<and> of_char c \<le> (57 :: nat)"
proof (induction n rule: to_decimal.induct)
  case (1 n)
  show ?case
  proof (cases "n < 10")
    case True
    then show ?thesis using "1.prems" by (simp add: to_decimal.simps [of n] of_char_of take_bit_eq_mod)
  next
    case False
    then have "c \<in> set (to_decimal (n div 10)) \<or> c = char_of (48 + n mod 10)" using "1.prems" by (subst (asm) to_decimal.simps) auto
    then show ?thesis using "1.IH" [OF False] by (auto simp: of_char_of take_bit_eq_mod)
  qed
qed

definition undec :: "string \<Rightarrow> nat" where
  "undec cs = foldl (\<lambda>n c. 10 * n + (of_char c - 48)) 0 cs"

lemma undec_to_decimal: "undec (to_decimal n) = n"
proof (induction n rule: to_decimal.induct)
  case (1 n)
  show ?case
  proof (cases "n < 10")
    case True
    then show ?thesis by (simp add: to_decimal.simps [of n] undec_def of_char_of take_bit_eq_mod)
  next
    case False
    then have "undec (to_decimal n) = 10 * undec (to_decimal (n div 10)) + n mod 10"
      by (subst to_decimal.simps) (simp add: undec_def of_char_of take_bit_eq_mod)
    then show ?thesis using "1.IH" [OF False] by simp
  qed
qed

definition word_name :: "bytes \<Rightarrow> bool" where
  "word_name name \<longleftrightarrow> list_all is_word_char name"

lemma generated_not_word: "\<not> word_name (generated_name b k)"
  by (simp add: word_name_def generated_name_def is_word_char_def is_digit_char_def)

lemma generated_inject:
  assumes "word_name b" "word_name b'" "generated_name b i = generated_name b' j"
  shows "i = j"
proof -
  have no: "95 \<notin> set b" if "word_name b" for b using that by (auto simp: word_name_def list_all_iff is_word_char_def is_digit_char_def)
  have "dropWhile (\<lambda>c. c \<noteq> 95) (generated_name b k) = 95 # map of_char (to_decimal k)" if "word_name b" for b k
    using no [OF that] unfolding generated_name_def by (subst dropWhile_append2) auto
  then have "map of_char (to_decimal i) = (map of_char (to_decimal j) :: nat list)" using assms by (metis list.inject)
  then have "to_decimal i = to_decimal j" by (simp add: inj_def map_injective)
  then show "i = j" using undec_to_decimal by metis
qed

section \<open>Well-formed parser states\<close>

fun chain_ok :: "llama_gretype \<Rightarrow> llama_grammar_rule \<Rightarrow> bool" where
  "chain_ok t [] = True"
| "chain_ok t (e # es) \<longleftrightarrow> adjacent_ok t (ge_type e) \<and> chain_ok (ge_type e) es"

definition body_ok :: "nat \<Rightarrow> llama_grammar_rule \<Rightarrow> bool" where
  "body_ok n es \<longleftrightarrow> chain_ok GRETYPE_ALT es \<and> list_all (\<lambda>e. ge_type e \<noteq> GRETYPE_END \<and> (ge_type e = GRETYPE_RULE_REF \<longrightarrow> ge_value e < n)) es"

lemma chain_ok_any: "chain_ok GRETYPE_ALT es \<Longrightarrow> chain_ok t es"
  by (cases es) (auto simp: adjacent_ok_def)

lemma chain_ok_append: "chain_ok t xs \<Longrightarrow> chain_ok GRETYPE_ALT ys \<Longrightarrow> chain_ok t (xs @ ys)"
  by (induction t xs rule: chain_ok.induct) (auto intro: chain_ok_any)

lemma body_ok_Nil [simp]: "body_ok n []"
  by (simp add: body_ok_def)

lemma body_ok_append [intro]: "body_ok n xs \<Longrightarrow> body_ok n ys \<Longrightarrow> body_ok n (xs @ ys)"
  by (simp add: body_ok_def chain_ok_append)

lemma body_ok_concat: "body_ok n xs \<Longrightarrow> body_ok n (concat (replicate k xs))"
  by (induction k) auto

lemma body_ok_mono: "body_ok n es \<Longrightarrow> n \<le> m \<Longrightarrow> body_ok m es"
  by (auto simp: body_ok_def list_all_iff)

lemma body_ok_single: "t \<notin> {GRETYPE_END, GRETYPE_CHAR_ALT, GRETYPE_CHAR_RNG_UPPER} \<Longrightarrow> (t = GRETYPE_RULE_REF \<longrightarrow> v < n) \<Longrightarrow> body_ok n [elem t v]"
  by (simp add: body_ok_def adjacent_ok_def)

text \<open>One symbol of a sequence, which a repetition copies: no alternates in it.\<close>

definition symbol_ok :: "nat \<Rightarrow> llama_grammar_rule \<Rightarrow> bool" where
  "symbol_ok n es \<longleftrightarrow> body_ok n es \<and> list_all (\<lambda>e. \<not> is_end_of_sequence e) es"

lemma symbol_ok_body: "symbol_ok n es \<Longrightarrow> body_ok n es"
  by (simp add: symbol_ok_def)

lemma symbol_ok_Nil [simp]: "symbol_ok n []"
  by (simp add: symbol_ok_def)

lemma symbol_ok_append: "symbol_ok n xs \<Longrightarrow> symbol_ok n ys \<Longrightarrow> symbol_ok n (xs @ ys)"
  by (simp add: symbol_ok_def body_ok_append)

lemma symbol_ok_concat: "symbol_ok n xs \<Longrightarrow> symbol_ok n (concat (replicate k xs))"
  by (induction k) (auto intro: symbol_ok_append)

lemma symbol_ok_mono: "symbol_ok n es \<Longrightarrow> n \<le> m \<Longrightarrow> symbol_ok m es"
  using body_ok_mono by (auto simp: symbol_ok_def)

lemma symbol_ok_single: "t \<notin> {GRETYPE_END, GRETYPE_ALT, GRETYPE_CHAR_ALT, GRETYPE_CHAR_RNG_UPPER} \<Longrightarrow> (t = GRETYPE_RULE_REF \<longrightarrow> v < n) \<Longrightarrow> symbol_ok n [elem t v]"
  using body_ok_single by (cases t) (simp_all add: symbol_ok_def is_end_of_sequence_def)

definition full_rule :: "nat \<Rightarrow> llama_grammar_rule \<Rightarrow> bool" where
  "full_rule n rule \<longleftrightarrow> rule = [] \<or> (\<exists>body. rule = body @ [elem GRETYPE_END 0] \<and> body_ok n body)"

abbreviation n_symbols :: "grammar_parser \<Rightarrow> nat" where
  "n_symbols p \<equiv> length (gp_symbol_ids p)"

definition ids_ok :: "(bytes \<times> nat) list \<Rightarrow> bool" where
  "ids_ok ids \<longleftrightarrow> map snd ids = [0..<length ids] \<and> (\<forall>(name, k) \<in> set ids. word_name name \<or> (\<exists>b. word_name b \<and> name = generated_name b k))"

definition parser_ok :: "grammar_parser \<Rightarrow> bool" where
  "parser_ok p \<longleftrightarrow> ids_ok (gp_symbol_ids p) \<and> n_symbols p < 2 ^ 32 \<and> length (gp_rules p) \<le> n_symbols p \<and> (\<forall>rule \<in> set (gp_rules p). full_rule (n_symbols p) rule)"

lemma full_rule_mono: "full_rule n rule \<Longrightarrow> n \<le> m \<Longrightarrow> full_rule m rule"
  using body_ok_mono by (auto simp: full_rule_def)

lemma ids_ok_bound:
  assumes "ids_ok ids" "(name, k) \<in> set ids"
  shows "k < length ids"
proof -
  have "k \<in> set (map snd ids)" using assms(2) by force
  then show ?thesis using assms(1) unfolding ids_ok_def by simp
qed

lemma get_symbol_id_ok:
  assumes "parser_ok p" "word_name name" "get_symbol_id name p = (k, p')" "Suc (n_symbols p) < 2 ^ 32"
  shows "parser_ok p' \<and> k < n_symbols p' \<and> n_symbols p \<le> n_symbols p' \<and> n_symbols p' \<le> Suc (n_symbols p) \<and> gp_rules p' = gp_rules p"
proof (cases "map_of (gp_symbol_ids p) name")
  case None
  then have p': "k = n_symbols p" "p' = p\<lparr>gp_symbol_ids := gp_symbol_ids p @ [(name, n_symbols p)]\<rparr>" using assms(3,4) by (auto simp: get_symbol_id_def Let_def)
  have "ids_ok (gp_symbol_ids p @ [(name, n_symbols p)])" using assms(1,2) by (simp add: parser_ok_def ids_ok_def)
  then show ?thesis using assms(1,4) full_rule_mono [of "n_symbols p" _ "Suc (n_symbols p)"] by (simp add: p' parser_ok_def)
next
  case (Some i)
  then have "k < n_symbols p" using assms(1,3) ids_ok_bound [OF _ map_of_SomeD] by (simp add: get_symbol_id_def parser_ok_def)
  then show ?thesis using Some assms(1,3) by (simp add: get_symbol_id_def)
qed

lemma update_fresh: "k \<notin> fst ` set al \<Longrightarrow> AList.update k v al = al @ [(k, v)]"
  by (induction al) auto

lemma generate_symbol_id_ok:
  assumes "parser_ok p" "word_name name" "generate_symbol_id name p = (k, p')"
  shows "k = n_symbols p \<and> n_symbols p' = Suc (n_symbols p) \<and> gp_rules p' = gp_rules p \<and> (Suc (n_symbols p) < 2 ^ 32 \<longrightarrow> parser_ok p' \<and> k < n_symbols p')"
proof -
  let ?n = "n_symbols p"
  have ids: "ids_ok (gp_symbol_ids p)" "?n < 2 ^ 32" using assms(1) by (simp_all add: parser_ok_def)
  have "generated_name name ?n \<notin> fst ` set (gp_symbol_ids p)"
  proof
    assume "generated_name name ?n \<in> fst ` set (gp_symbol_ids p)"
    then obtain i where i: "(generated_name name ?n, i) \<in> set (gp_symbol_ids p)" by auto
    then obtain b where "word_name b" "generated_name name ?n = generated_name b i"
      using ids generated_not_word unfolding ids_ok_def by blast
    then have "i = ?n" using generated_inject [OF assms(2)] by metis
    then show False using ids_ok_bound [OF ids(1) i] by simp
  qed
  then have p': "k = ?n" "p' = p\<lparr>gp_symbol_ids := gp_symbol_ids p @ [(generated_name name ?n, ?n)]\<rparr>"
    using assms(3) ids(2) by (auto simp: generate_symbol_id_def update_fresh Let_def)
  have "ids_ok (gp_symbol_ids p @ [(generated_name name ?n, ?n)])" using ids assms(2) by (auto simp: ids_ok_def)
  then show ?thesis using assms(1) full_rule_mono [of ?n _ "Suc ?n"] by (simp add: p' parser_ok_def)
qed

lemma add_rule_ok:
  assumes "parser_ok p" "body_ok (n_symbols p) body" "k < n_symbols p"
  obtains p' where "add_rule k (body @ [elem GRETYPE_END 0]) p = Inr p'" "parser_ok p'" "gp_symbol_ids p' = gp_symbol_ids p"
proof -
  let ?rule = "body @ [elem GRETYPE_END 0]"
  define rules where "rules = (if length (gp_rules p) \<le> k then vec_resize (k + 1) [] (gp_rules p) else gp_rules p)"
  have small: "k + 1 < 2 ^ 32" using assms(1,3) by (simp add: parser_ok_def)
  have len: "k < length rules" "length rules \<le> n_symbols p" using assms(1,3) by (simp_all add: rules_def parser_ok_def)
  have add: "add_rule k ?rule p = Inr (p\<lparr>gp_rules := rules[k := ?rule]\<rparr>)" using small len(1) by (simp add: add_rule_def rules_def Let_def)
  have new: "full_rule (n_symbols p) ?rule" "full_rule (n_symbols p) []" using assms(2) by (auto simp: full_rule_def)
  have "set rules \<subseteq> insert [] (set (gp_rules p))" by (auto simp: rules_def vec_resize_def dest: in_set_takeD)
  then have "set (rules[k := ?rule]) \<subseteq> insert ?rule (insert [] (set (gp_rules p)))" using set_update_subset_insert [of rules k ?rule] by blast
  then have "\<forall>rule \<in> set (rules[k := ?rule]). full_rule (n_symbols p) rule" using assms(1) new by (auto simp: parser_ok_def)
  then have "parser_ok (p\<lparr>gp_rules := rules[k := ?rule]\<rparr>)" using assms(1) len(2) by (simp add: parser_ok_def)
  then show thesis using that add by simp
qed

text \<open>The last identifier: \<open>rule_id + 1\<close> wraps around, and the rule is written beyond the end of an empty vector.\<close>

lemma add_last_rule: "length (gp_rules p) < 2 ^ 32 \<Longrightarrow> add_rule (2 ^ 32 - 1) rule p = Inl Out_of_bounds"
  by (simp add: add_rule_def Let_def)

lemma rep_rules_run:
  "parser_ok p \<Longrightarrow> word_name name \<Longrightarrow> body_ok (n_symbols p) prev \<Longrightarrow> first \<or> lst < n_symbols p \<Longrightarrow>
   (if n_symbols p + n < 2 ^ 32
    then \<exists>k p'. rep_rules name prev no_max n first lst p = Inr (k, p') \<and> parser_ok p' \<and> n_symbols p' = n_symbols p + n \<and> (n > 0 \<or> \<not> first \<longrightarrow> k < n_symbols p')
    else rep_rules name prev no_max n first lst p = Inl Out_of_bounds)"
proof (induction n arbitrary: first lst p)
  case 0
  then show ?case by (auto simp: parser_ok_def)
next
  case (Suc n)
  let ?N = "n_symbols p"
  obtain k0 p1 where g0: "generate_symbol_id name p = (k0, p1)" by (cases "generate_symbol_id name p")
  note ok = generate_symbol_id_ok [OF Suc.prems(1,2) g0]
  then have g: "generate_symbol_id name p = (?N, p1)" using g0 by simp
  let ?body = "prev @ (if \<not> first \<or> no_max then [elem GRETYPE_RULE_REF (if no_max then ?N else lst)] else []) @ [elem GRETYPE_ALT 0]"
  have run: "rep_rules name prev no_max (Suc n) first lst p =
      bind_outcome (add_rule ?N (?body @ [elem GRETYPE_END 0]) p1) (rep_rules name prev no_max n False ?N)" by (simp add: g)
  show ?case
  proof (cases "Suc ?N < 2 ^ 32")
    case False
    then have N: "?N = 2 ^ 32 - 1" using Suc.prems(1) by (simp add: parser_ok_def)
    have "length (gp_rules p1) < 2 ^ 32" using ok Suc.prems(1) by (simp add: parser_ok_def)
    then have "rep_rules name prev no_max (Suc n) first lst p = Inl Out_of_bounds" unfolding run N by (simp only: add_last_rule bind_outcome_simps)
    then show ?thesis using False by simp
  next
    case True
    then have p1: "parser_ok p1" "?N < n_symbols p1" "n_symbols p1 = Suc ?N" using ok by simp_all
    have "body_ok (n_symbols p1) ?body"
      using p1 Suc.prems(3,4) body_ok_mono by (intro body_ok_append) (auto intro!: body_ok_single)
    then obtain p2 where p2: "add_rule ?N (?body @ [elem GRETYPE_END 0]) p1 = Inr p2" "parser_ok p2" "gp_symbol_ids p2 = gp_symbol_ids p1"
      using add_rule_ok [OF p1(1) _ p1(2)] by blast
    have n2: "n_symbols p2 = Suc ?N" using p2(3) p1(3) by simp
    have "body_ok (n_symbols p2) prev" using Suc.prems(3) n2 by (simp add: body_ok_mono)
    from Suc.IH [OF p2(2) Suc.prems(2) this, of False ?N] show ?thesis
      unfolding run p2(1) bind_outcome_simps n2 by (simp split: if_splits)
  qed
qed

lemma rep_rules_ok:
  assumes "parser_ok p" "word_name name" "body_ok (n_symbols p) prev" "first \<or> lst < n_symbols p" "rep_rules name prev no_max n first lst p = Inr (k, p')"
  shows "parser_ok p' \<and> n_symbols p' = n_symbols p + n \<and> (n > 0 \<or> \<not> first \<longrightarrow> k < n_symbols p')"
proof (cases "n_symbols p + n < 2 ^ 32")
  case True
  then show ?thesis using rep_rules_run [OF assms(1-4), where no_max = no_max and n = n] unfolding if_P [OF True] assms(5) by blast
next
  case False
  then show ?thesis using rep_rules_run [OF assms(1-4), where no_max = no_max and n = n] unfolding if_not_P [OF False] assms(5) by simp
qed

subsection \<open>What is left is a rest of the text\<close>

lemma suffix_tl_trans: "suffix xs ys \<Longrightarrow> suffix (tl xs) ys"
  by (meson suffix_order.trans suffix_tl)

lemma cont_bytes_suffix: "cont_bytes n pos v = (c, pos') \<Longrightarrow> suffix pos' pos"
  by (induction n pos v rule: cont_bytes.induct) (auto split: if_splits intro: suffix_order.trans [OF _ suffix_tl])

lemma parse_hex_suffix: "parse_hex n pos v = Inr (c, pos') \<Longrightarrow> suffix pos' pos"
  by (induction n pos v rule: parse_hex.induct) (auto simp: throw_def split: option.splits intro: suffix_order.trans [OF _ suffix_tl])

lemma skip_comment_suffix: "suffix (skip_comment pos) pos"
  by (induction pos) (auto intro: suffix_ConsI)

lemma parse_space_suffix: "suffix (parse_space nl pos) pos"
proof (induction nl pos rule: parse_space.induct)
  case (1 nl pos)
  let ?next = "if peek pos = 35 then skip_comment pos else tl pos"
  have next_suffix: "suffix ?next pos" by (simp add: skip_comment_suffix)
  show ?case
  proof (cases "peek pos = 32 \<or> peek pos = 9 \<or> peek pos = 35 \<or> nl \<and> (peek pos = 13 \<or> peek pos = 10)")
    case True
    then have "suffix (parse_space nl ?next) pos" using suffix_order.trans [OF "1.IH" next_suffix] by blast
    then show ?thesis by (simp only: parse_space.simps [of nl pos] if_P [OF True])
  next
    case False
    then show ?thesis by (simp only: parse_space.simps [of nl pos] if_False suffix_order.refl)
  qed
qed

lemma parse_space_suffix_tl: "suffix pos src \<Longrightarrow> suffix (parse_space nl pos) src" "suffix pos src \<Longrightarrow> suffix (parse_space nl (tl pos)) src"
  by (meson parse_space_suffix suffix_tl_trans suffix_order.trans)+

lemma parse_char_suffix: "parse_char src = Inr (c, pos) \<Longrightarrow> suffix pos src"
proof -
  assume c: "parse_char src = Inr (c, pos)"
  have rest: "suffix (tl (tl src)) src" by (simp add: suffix_tl_trans)
  show ?thesis
  proof (cases "peek src = 92")
    case True
    then show ?thesis using c rest suffix_order.trans [OF parse_hex_suffix rest]
      by (auto simp: parse_char_def Let_def throw_def split: if_splits)
  next
    case False
    then have "decode_char src = (c, pos)" using c by (auto simp: parse_char_def throw_def split: if_splits)
    then have "suffix pos (tl src)" unfolding decode_char_def Let_def by (rule cont_bytes_suffix)
    then show ?thesis by (meson suffix_order.trans suffix_tl)
  qed
qed

lemma parse_name_suffix: "parse_name src = Inr (name, pos) \<Longrightarrow> suffix pos src"
  using parse_name_result [of src name pos] by (auto simp: suffix_def)

lemma parse_int_suffix: "parse_int src = Inr (digits, pos) \<Longrightarrow> suffix pos src"
  using parse_int_result [of src digits pos] by (auto simp: suffix_def)

lemma parse_token_suffix:
  assumes "parse_token vocab src = Inr (tok, pos)"
  shows "suffix pos src"
proof -
  have int_: "suffix (tl (tl q)) src" if "parse_int (tl (tl src)) = Inr (digits, q)" for digits q
    using parse_int_suffix [OF that] by (meson suffix_tl suffix_order.trans)
  have word: "suffix (tl (dropWhile P (tl src))) src" for P
    by (meson suffix_tl suffix_dropWhile suffix_order.trans)
  show ?thesis using assms int_ word
    by (auto simp: parse_token_def throw_def Let_def bind_outcome_Inr_iff split: if_splits option.splits)
qed

lemma parse_literal_suffix: "parse_literal pos items = Inr (items', pos') \<Longrightarrow> suffix pos' pos"
proof (induction pos items rule: parse_literal.induct)
  case (1 pos items)
  show ?case
  proof (cases "peek pos = 34 \<or> peek pos = 0")
    case True
    then show ?thesis using "1.prems" by (auto simp: parse_literal.simps [of pos items] throw_def)
  next
    case False
    then obtain c q where "parse_char pos = Inr (c, q)" "parse_literal q (items @ [elem GRETYPE_CHAR c]) = Inr (items', pos')"
      using "1.prems" by (auto simp: parse_literal.simps [of pos items] bind_outcome_Inr_iff)
    then show ?thesis using "1.IH" [of "(c, q)" c q] False suffix_order.trans [OF _ parse_char_suffix] by simp
  qed
qed

lemma parse_class_suffix: "parse_class st pos items = Inr (items', pos') \<Longrightarrow> suffix pos' pos"
proof (induction st pos items rule: parse_class.induct)
  case (1 st pos items)
  show ?case
  proof (cases "peek pos = 93 \<or> peek pos = 0")
    case True
    then show ?thesis using "1.prems" by (auto simp: parse_class.simps [of st pos items] throw_def)
  next
    case False
    let ?items = "\<lambda>c. items @ [elem (if items \<noteq> [] then GRETYPE_CHAR_ALT else st) c]"
    obtain c q where c: "parse_char pos = Inr (c, q)"
      and rest: "(if peek q = 45 \<and> peek (tl q) \<noteq> 93 then
          if peek (tl q) = 0 then throw ''unexpected end of input''
          else bind_outcome (parse_char (tl q)) (\<lambda>(e, pos). parse_class st pos (?items c @ [elem GRETYPE_CHAR_RNG_UPPER e]))
        else parse_class st q (?items c)) = Inr (items', pos')"
      using "1.prems" False unfolding parse_class.simps [of st pos items] Let_def by (auto simp: bind_outcome_Inr_iff)
    note q = parse_char_suffix [OF c]
    show ?thesis
    proof (cases "peek q = 45 \<and> peek (tl q) \<noteq> 93")
      case True
      then obtain e r where e: "peek (tl q) \<noteq> 0" "parse_char (tl q) = Inr (e, r)" "parse_class st r (?items c @ [elem GRETYPE_CHAR_RNG_UPPER e]) = Inr (items', pos')"
        using rest by (auto simp: throw_def bind_outcome_Inr_iff split: if_splits)
      have "suffix pos' r" using "1.IH"(1) [OF _ _ c refl refl True e(1,2) refl e(3)] False by blast
      then show ?thesis using parse_char_suffix [OF e(2)] q by (meson suffix_tl suffix_order.trans)
    next
      case other: False
      have "parse_class st q (?items c) = Inr (items', pos')" using rest unfolding if_not_P [OF other] .
      then have "suffix pos' q" using "1.IH"(2) [OF _ _ c refl refl other] False by blast
      then show ?thesis using q by (meson suffix_order.trans)
    qed
  qed
qed

lemma parse_max_times_suffix: "parse_max_times nested pos = Inr (m, pos') \<Longrightarrow> suffix pos' pos"
  using parse_int_suffix parse_space_suffix suffix_order.trans by (auto simp: parse_max_times_def bind_outcome_Inr_iff split: if_splits) blast

lemma parse_braces_rest_suffix:
  assumes "parse_braces_rest nested m pos = Inr (a, b, pos')"
  shows "suffix pos' pos"
proof -
  have t: "suffix (parse_space nested (tl q)) pos" if "suffix q pos" for q using parse_space_suffix_tl(2) [OF that] .
  show ?thesis using assms t t [OF suffix_order.trans [OF parse_max_times_suffix t]]
    by (auto simp: parse_braces_rest_def throw_def bind_outcome_Inr_iff split: if_splits)
qed

lemma parse_braces_suffix:
  assumes "parse_braces nested pos = Inr (a, b, pos')"
  shows "suffix pos' pos"
proof -
  let ?pos = "parse_space nested (tl pos)"
  obtain digits q m where q: "parse_int ?pos = Inr (digits, q)" "parse_braces_rest nested m (parse_space nested q) = Inr (a, b, pos')"
    using assms by (auto simp: parse_braces_def Let_def throw_def bind_outcome_Inr_iff split: if_splits)
  have "suffix pos' q" using parse_braces_rest_suffix [OF q(2)] parse_space_suffix by (meson suffix_order.trans)
  then show ?thesis using parse_int_suffix [OF q(1)] parse_space_suffix_tl(2) [OF suffix_order.refl, of nested pos] by (meson suffix_order.trans)
qed

section \<open>What a step of the parser returns\<close>

text \<open>
  A result with a property, or an exception. The other fault that is possible is \<open>Out_of_bounds\<close>, from a wrapped identifier, and only
  if \<open>wild\<close> holds.
\<close>

definition ends :: "bool \<Rightarrow> ('a \<Rightarrow> bool) \<Rightarrow> 'a outcome \<Rightarrow> bool" where
  "ends wild Q res = (case res of Inl e \<Rightarrow> (\<exists>msg. e = Runtime_error msg) \<or> wild \<and> e = Out_of_bounds | Inr x \<Rightarrow> Q x)"

abbreviation returns :: "('a \<Rightarrow> bool) \<Rightarrow> 'a outcome \<Rightarrow> bool" where
  "returns \<equiv> ends False"

lemma ends_simps [simp]: "ends wild Q (Inr x) \<longleftrightarrow> Q x" "ends wild Q (throw msg)" "\<not> ends wild Q (Inl Diverged)" "ends True Q (Inl Out_of_bounds)"
  by (simp_all add: ends_def throw_def)

lemma ends_bind: "ends wild P r \<Longrightarrow> (\<And>x. P x \<Longrightarrow> r = Inr x \<Longrightarrow> ends wild Q (f x)) \<Longrightarrow> ends wild Q (bind_outcome r f)"
  by (cases r) (auto simp: ends_def)

lemma returns_bind: "returns P r \<Longrightarrow> (\<And>x. P x \<Longrightarrow> r = Inr x \<Longrightarrow> ends wild Q (f x)) \<Longrightarrow> ends wild Q (bind_outcome r f)"
  by (cases r) (auto simp: ends_def)

lemma ends_mono: "ends wild P r \<Longrightarrow> (\<And>x. P x \<Longrightarrow> Q x) \<Longrightarrow> ends wild Q r"
  by (auto simp: ends_def split: sum.splits)

lemmas returns_mono = ends_mono [where wild = False]

lemma returns_ends: "returns P r \<Longrightarrow> (\<And>x. P x \<Longrightarrow> Q x) \<Longrightarrow> ends wild Q r"
  by (auto simp: ends_def split: sum.splits)

text \<open>The interface of the loops over the text: every turn throws, ends the loop, or keeps the invariant and uses up text.\<close>

locale text_loop =
  fixes step :: "'s \<Rightarrow> 's option outcome" and left :: "'s \<Rightarrow> nat" and inv :: "'s \<Rightarrow> bool" and wild :: bool
  assumes turn: "inv s \<Longrightarrow> ends wild (\<lambda>res. case res of None \<Rightarrow> True | Some s' \<Rightarrow> inv s' \<and> left s' < left s) (step s)"
begin

lemma loop_ends: "inv s \<Longrightarrow> left s < n \<Longrightarrow> ends wild (\<lambda>s'. inv s' \<and> left s' \<le> left s) (loop n step s)"
proof (induction n arbitrary: s)
  case (Suc n)
  show ?case unfolding loop.simps
  proof (rule ends_bind [OF turn [OF Suc.prems(1)]])
    fix res assume res: "case res of None \<Rightarrow> True | Some s' \<Rightarrow> inv s' \<and> left s' < left s"
    show "ends wild (\<lambda>s'. inv s' \<and> left s' \<le> left s) (case res of None \<Rightarrow> Inr s | Some s \<Rightarrow> loop n step s)"
    proof (cases res)
      case (Some s1)
      have "ends wild (\<lambda>s'. inv s' \<and> left s' \<le> left s1) (loop n step s1)" using res Some Suc.prems(2) by (intro Suc.IH) simp_all
      then have "ends wild (\<lambda>s'. inv s' \<and> left s' \<le> left s) (loop n step s1)" using res Some by (elim ends_mono) auto
      then show ?thesis using Some by simp
    qed (use Suc.prems in simp)
  qed
qed simp

end

lemma returnsI: "returns (\<lambda>_. True) r \<Longrightarrow> (\<And>x. r = Inr x \<Longrightarrow> Q x) \<Longrightarrow> returns Q r"
  by (auto simp: ends_def split: sum.splits)

lemma parse_hex_throws: "returns (\<lambda>_. True) (parse_hex n pos v)"
  by (induction n pos v rule: parse_hex.induct) (auto split: option.splits)

lemma parse_char_returns: "returns (\<lambda>(c, pos'). length pos' < length pos) (parse_char pos)"
proof (rule returnsI)
  show "returns (\<lambda>_. True) (parse_char pos)" by (simp add: parse_char_def Let_def parse_hex_throws)
qed (use parse_char_length in auto)

lemma parse_name_returns: "returns (\<lambda>(name, pos'). word_name name \<and> length pos' < length pos) (parse_name pos)"
proof (rule returnsI)
  show "returns (\<lambda>_. True) (parse_name pos)" by (simp add: parse_name_def Let_def)
qed (use parse_name_length parse_name_result in \<open>auto simp: word_name_def\<close>)

lemma parse_int_returns: "returns (\<lambda>(digits, pos'). length pos' < length pos) (parse_int pos)"
proof (rule returnsI)
  show "returns (\<lambda>_. True) (parse_int pos)" by (simp add: parse_int_def Let_def)
qed (use parse_int_length in auto)

lemma stoull_returns: "returns (\<lambda>_. True) (stoull digits)"
  by (simp add: stoull_def Let_def)

lemma parse_token_returns: "returns (\<lambda>(tok, pos'). length pos' < length pos) (parse_token vocab pos)"
proof (rule returnsI)
  have "returns (\<lambda>_. True) (bind_outcome (parse_int src) (\<lambda>(digits, pos). bind_outcome (stoull digits) (\<lambda>token_id.
      if peek pos \<noteq> 93 then throw ''expecting ']' '' else if peek (tl pos) \<noteq> 62 then throw ''expecting '>' '' else Inr (token_id mod 2 ^ 32, tl (tl pos)))))" for src
    by (rule returns_bind [OF parse_int_returns]) (simp split: prod.split, intro allI impI returns_bind [OF stoull_returns], simp)
  then show "returns (\<lambda>_. True) (parse_token vocab pos)" unfolding parse_token_def Let_def by (simp split: option.split)
qed (use parse_token_length in auto)

lemma parse_literal_returns: "symbol_ok n items \<Longrightarrow> returns (\<lambda>(items', pos'). symbol_ok n items' \<and> length pos' \<le> length pos) (parse_literal pos items)"
proof (induction pos items rule: parse_literal.induct)
  case (1 pos items)
  show ?case
  proof (cases "peek pos = 34 \<or> peek pos = 0")
    case False
    have "returns (\<lambda>(items', pos'). symbol_ok n items' \<and> length pos' \<le> length pos) (parse_literal pos1 (items @ [elem GRETYPE_CHAR c]))"
      if "length pos1 < length pos" "parse_char pos = Inr (c, pos1)" for c pos1
    proof -
      have "symbol_ok n (items @ [elem GRETYPE_CHAR c])" using "1.prems" by (intro symbol_ok_append symbol_ok_single) simp_all
      then have "returns (\<lambda>(items', pos'). symbol_ok n items' \<and> length pos' \<le> length pos1) (parse_literal pos1 (items @ [elem GRETYPE_CHAR c]))"
        using "1.IH" False that(2) by blast
      then show ?thesis using that(1) by (elim returns_mono) auto
    qed
    then have "returns (\<lambda>(items', pos'). symbol_ok n items' \<and> length pos' \<le> length pos)
        (bind_outcome (parse_char pos) (\<lambda>(c, pos). parse_literal pos (items @ [elem GRETYPE_CHAR c])))"
      by (intro returns_bind [OF parse_char_returns]) auto
    then show ?thesis using False by (subst parse_literal.simps) simp
  qed (use "1.prems" in \<open>auto simp: parse_literal.simps [of pos items]\<close>)
qed

definition class_items :: "nat \<Rightarrow> llama_grammar_rule \<Rightarrow> bool" where
  "class_items n items \<longleftrightarrow> symbol_ok n items \<and>
     (items \<noteq> [] \<longrightarrow> ge_type (last items) \<in> {GRETYPE_CHAR, GRETYPE_CHAR_NOT, GRETYPE_CHAR_ALT, GRETYPE_CHAR_RNG_UPPER})"

lemma chain_ok_snoc: "chain_ok t (xs @ [e]) \<longleftrightarrow> chain_ok t xs \<and> adjacent_ok (if xs = [] then t else ge_type (last xs)) (ge_type e)"
  by (induction t xs rule: chain_ok.induct) auto

lemma class_items_char:
  "class_items n items \<Longrightarrow> st \<in> {GRETYPE_CHAR, GRETYPE_CHAR_NOT} \<Longrightarrow>
   class_items n (items @ [elem (if items \<noteq> [] then GRETYPE_CHAR_ALT else st) c])"
  by (auto simp: class_items_def symbol_ok_def body_ok_def is_end_of_sequence_def chain_ok_snoc adjacent_ok_def)

lemma class_items_upper:
  "class_items n xs \<Longrightarrow> xs \<noteq> [] \<Longrightarrow> ge_type (last xs) \<in> {GRETYPE_CHAR, GRETYPE_CHAR_NOT, GRETYPE_CHAR_ALT} \<Longrightarrow>
   class_items n (xs @ [elem GRETYPE_CHAR_RNG_UPPER e])"
  by (auto simp: class_items_def symbol_ok_def body_ok_def is_end_of_sequence_def chain_ok_snoc adjacent_ok_def)

lemma parse_class_returns:
  "class_items n items \<Longrightarrow> st \<in> {GRETYPE_CHAR, GRETYPE_CHAR_NOT} \<Longrightarrow>
   returns (\<lambda>(items', pos'). class_items n items' \<and> length pos' \<le> length pos) (parse_class st pos items)"
proof (induction st pos items rule: parse_class.induct)
  case (1 st pos items)
  let ?Q = "\<lambda>(items', pos'). class_items n items' \<and> length pos' \<le> length pos"
  show ?case
  proof (cases "peek pos = 93 \<or> peek pos = 0")
    case False
    have "returns ?Q (let items = items @ [elem (if items \<noteq> [] then GRETYPE_CHAR_ALT else st) c] in
        if peek pos1 = 45 \<and> peek (tl pos1) \<noteq> 93 then
          if peek (tl pos1) = 0 then throw ''unexpected end of input''
          else bind_outcome (parse_char (tl pos1)) (\<lambda>(e, pos). parse_class st pos (items @ [elem GRETYPE_CHAR_RNG_UPPER e]))
        else parse_class st pos1 items)"
      if c: "length pos1 < length pos" "parse_char pos = Inr (c, pos1)" for c pos1
    proof -
      let ?t = "if items \<noteq> [] then GRETYPE_CHAR_ALT else st"
      let ?items = "items @ [elem ?t c]"
      have items: "class_items n ?items" by (rule class_items_char [OF "1.prems"])
      show ?thesis
      proof (cases "peek pos1 = 45 \<and> peek (tl pos1) \<noteq> 93")
        case True
        have "returns ?Q (parse_class st pos2 (?items @ [elem GRETYPE_CHAR_RNG_UPPER e]))"
          if e: "length pos2 < length (tl pos1)" "parse_char (tl pos1) = Inr (e, pos2)" "peek (tl pos1) \<noteq> 0" for e pos2
        proof -
          have "class_items n (?items @ [elem GRETYPE_CHAR_RNG_UPPER e])" using class_items_upper [OF items] "1.prems"(2) by auto
          then have "returns (\<lambda>(items', pos'). class_items n items' \<and> length pos' \<le> length pos2) (parse_class st pos2 (?items @ [elem GRETYPE_CHAR_RNG_UPPER e]))"
            using "1.IH"(1) [OF _ _ c(2) refl refl True e(3) e(2)] False "1.prems"(2) by simp
          moreover have "length pos2 \<le> length pos" using e(1) c(1) by simp
          ultimately show ?thesis by (elim returns_mono) auto
        qed
        then have "returns ?Q (bind_outcome (parse_char (tl pos1)) (\<lambda>(e, pos). parse_class st pos (?items @ [elem GRETYPE_CHAR_RNG_UPPER e])))"
          if "peek (tl pos1) \<noteq> 0" using that by (intro returns_bind [OF parse_char_returns]) auto
        then show ?thesis using True unfolding Let_def by simp
      next
        case other: False
        have "returns (\<lambda>(items', pos'). class_items n items' \<and> length pos' \<le> length pos1) (parse_class st pos1 ?items)"
          using "1.IH"(2) [OF _ _ c(2) refl refl other items "1.prems"(2)] False by simp
        then have "returns ?Q (parse_class st pos1 ?items)" using c(1) by (elim returns_mono) auto
        then show ?thesis unfolding Let_def if_not_P [OF other] .
      qed
    qed
    then have "returns ?Q (bind_outcome (parse_char pos) (\<lambda>(c, pos).
        let items = items @ [elem (if items \<noteq> [] then GRETYPE_CHAR_ALT else st) c] in
        if peek pos = 45 \<and> peek (tl pos) \<noteq> 93 then
          if peek (tl pos) = 0 then throw ''unexpected end of input''
          else bind_outcome (parse_char (tl pos)) (\<lambda>(e, pos). parse_class st pos (items @ [elem GRETYPE_CHAR_RNG_UPPER e]))
        else parse_class st pos items))"
      by (intro returns_bind [OF parse_char_returns]) auto
    then show ?thesis using False unfolding parse_class.simps [of st pos items] by simp
  qed (use "1.prems" in \<open>auto simp: parse_class.simps [of st pos items]\<close>)
qed

lemma space_tl_length: "peek pos \<noteq> 0 \<Longrightarrow> length (parse_space nested (tl pos)) < length pos"
  using parse_space_length [of nested "tl pos"] tl_shorter [of pos] by linarith

lemma parse_max_times_returns: "returns (\<lambda>(max_times, pos'). length pos' \<le> length pos) (parse_max_times nested pos)"
proof (cases "is_digit_char (peek pos)")
  case True
  have "returns (\<lambda>(max_times, pos'). length pos' \<le> length pos)
      (bind_outcome (stoull digits) (\<lambda>max_times. Inr (max_times, parse_space nested pos1)))" if "length pos1 < length pos" for digits pos1
    using that parse_space_length [of nested pos1] by (intro returns_bind [OF stoull_returns]) simp
  then have "returns (\<lambda>(max_times, pos'). length pos' \<le> length pos)
      (bind_outcome (parse_int pos) (\<lambda>(digits, pos). bind_outcome (stoull digits) (\<lambda>max_times. Inr (max_times, parse_space nested pos))))"
    by (intro returns_bind [OF parse_int_returns]) auto
  then show ?thesis using True by (simp add: parse_max_times_def)
qed (simp add: parse_max_times_def)

lemma parse_braces_rest_returns:
  "returns (\<lambda>(min_times, max_times, pos'). length pos' \<le> length pos) (parse_braces_rest nested min_times pos)"
proof -
  have close: "length (parse_space nested (tl q)) \<le> length pos" if "peek q = c" "c \<noteq> 0" "length q \<le> length pos" for q c
    using space_tl_length [of q nested] that by simp
  have "returns (\<lambda>(min_times, max_times, pos'). length pos' \<le> length pos) (bind_outcome (parse_max_times nested q)
      (\<lambda>(max_times, pos). if peek pos \<noteq> 125 then throw ''expecting '}' '' else Inr (min_times, max_times, parse_space nested (tl pos))))"
    if "length q \<le> length pos" for q
    by (rule returns_bind [OF parse_max_times_returns]) (use that close [of _ 125] in \<open>auto split: if_splits\<close>)
  then show ?thesis using close [of pos 44] close [of pos 125] by (simp add: parse_braces_rest_def)
qed

lemma parse_braces_returns:
  assumes "peek pos \<noteq> 0"
  shows "returns (\<lambda>(min_times, max_times, pos'). length pos' < length pos) (parse_braces nested pos)"
proof -
  let ?Q = "\<lambda>(min_times, max_times, pos'). length pos' < length pos"
  let ?pos = "parse_space nested (tl pos)"
  have "returns ?Q (parse_braces_rest nested min_times (parse_space nested pos1))" if "length pos1 < length ?pos" for min_times pos1
  proof -
    have "length (parse_space nested pos1) < length pos"
      using that parse_space_length [of nested pos1] space_tl_length [OF assms, of nested] by linarith
    then show ?thesis using parse_braces_rest_returns [of "parse_space nested pos1" nested min_times] by (elim returns_mono) auto
  qed
  then have "returns ?Q (bind_outcome (stoull digits) (\<lambda>min_times. parse_braces_rest nested min_times (parse_space nested pos1)))"
    if "length pos1 < length ?pos" for digits pos1 using that by (intro returns_bind [OF stoull_returns]) simp
  then have "returns ?Q (bind_outcome (parse_int ?pos) (\<lambda>(digits, pos).
      bind_outcome (stoull digits) (\<lambda>min_times. parse_braces_rest nested min_times (parse_space nested pos))))"
    by (intro returns_bind [OF parse_int_returns]) auto
  then show ?thesis by (simp add: parse_braces_def Let_def)
qed

section \<open>Sequences and alternates\<close>

definition seq_ok :: "seq_state \<Rightarrow> bool" where
  "seq_ok s \<longleftrightarrow> parser_ok (sq_parser s) \<and> sq_last_sym_start s \<le> length (sq_rule s) \<and>
     body_ok (n_symbols (sq_parser s)) (take (sq_last_sym_start s) (sq_rule s)) \<and>
     symbol_ok (n_symbols (sq_parser s)) (drop (sq_last_sym_start s) (sq_rule s))"

lemma seq_ok_rule: "seq_ok s \<Longrightarrow> body_ok (n_symbols (sq_parser s)) (sq_rule s)"
  unfolding seq_ok_def by (metis append_take_drop_id body_ok_append symbol_ok_body)

lemma push_items_ok:
  "parser_ok p \<Longrightarrow> body_ok (n_symbols p) (sq_rule s) \<Longrightarrow> symbol_ok (n_symbols p) items \<Longrightarrow> seq_ok (push_items items pos (s\<lparr>sq_parser := p\<rparr>))"
  by (simp add: seq_ok_def push_items_def)

lemma push_items_sel [simp]: "sq_pos (push_items items pos s) = pos" "sq_parser (push_items items pos s) = sq_parser s"
  by (simp_all add: push_items_def)

text \<open>No character makes more than 2000 symbols, but for reversed bounds of a repetition; so this number never grows.\<close>

definition room :: "grammar_parser \<Rightarrow> bytes \<Rightarrow> nat" where
  "room p pos = n_symbols p + 2000 * length pos"

definition reversed_at :: "bool \<Rightarrow> bytes \<Rightarrow> bool" where
  "reversed_at nested pos \<longleftrightarrow> peek pos = 123 \<and> (case parse_braces nested pos of Inl _ \<Rightarrow> False | Inr (min_times, max_times, _) \<Rightarrow> max_times < min_times)"

definition reversed_bounds :: "bytes \<Rightarrow> bool" where
  "reversed_bounds src \<longleftrightarrow> list_ex (\<lambda>pos. reversed_at False pos \<or> reversed_at True pos) (suffixes src)"

lemma reversed_boundsI: "suffix pos src \<Longrightarrow> reversed_at nested pos \<Longrightarrow> reversed_bounds src"
  unfolding reversed_bounds_def list_ex_iff in_set_suffixes by (cases nested) auto

text \<open>The result of a turn: further along, with at least the symbols there were.\<close>

definition seq_after :: "seq_state \<Rightarrow> seq_state \<Rightarrow> bool" where
  "seq_after s s' \<longleftrightarrow> seq_ok s' \<and> n_symbols (sq_parser s) \<le> n_symbols (sq_parser s') \<and> length (sq_pos s') < length (sq_pos s) \<and>
     room (sq_parser s') (sq_pos s') \<le> room (sq_parser s) (sq_pos s) \<and> suffix (sq_pos s') (sq_pos s)"

lemma room_step: "n_symbols p' \<le> n_symbols p + 2000 \<Longrightarrow> length pos' < length pos \<Longrightarrow> room p' pos' \<le> room p pos"
  by (simp add: room_def)

lemma handle_repetitions_ok:
  assumes "seq_ok s" "word_name name" "n_symbols (sq_parser s) + n_optional min_times max_times < 2 ^ 32"
  shows "returns (\<lambda>s'. seq_ok s' \<and> n_symbols (sq_parser s) \<le> n_symbols (sq_parser s') \<and>
    n_symbols (sq_parser s') \<le> n_symbols (sq_parser s) + n_optional min_times max_times \<and> sq_pos s' = sq_pos s) (handle_repetitions name min_times max_times s)"
proof (cases "sq_last_sym_start s = length (sq_rule s)")
  case True
  then show ?thesis by (simp add: handle_repetitions_def Let_def)
next
  case False
  let ?l = "sq_last_sym_start s" and ?n = "n_optional min_times max_times"
  let ?prev = "drop ?l (sq_rule s)"
  define more where "more = (if min_times = 0 then [] else ?prev @ concat (replicate (min_times - 1) ?prev))"
  have ok: "parser_ok (sq_parser s)" "?l \<le> length (sq_rule s)" "body_ok (n_symbols (sq_parser s)) (take ?l (sq_rule s))"
    "symbol_ok (n_symbols (sq_parser s)) ?prev" using assms(1) by (simp_all add: seq_ok_def)
  have rule: "(if min_times = 0 then take ?l (sq_rule s) else sq_rule s @ concat (replicate (min_times - 1) ?prev)) = take ?l (sq_rule s) @ more"
    unfolding more_def by (simp flip: append_assoc)
  have more: "symbol_ok (n_symbols (sq_parser s)) more" using ok(4) symbol_ok_concat by (simp add: more_def symbol_ok_append)
  obtain k p where rep: "rep_rules name ?prev (max_times = UINT64_MAX) ?n True 0 (sq_parser s) = Inr (k, p)"
    and p: "parser_ok p" "n_symbols p = n_symbols (sq_parser s) + ?n" "?n > 0 \<longrightarrow> k < n_symbols p"
    using rep_rules_run [OF ok(1) assms(2) symbol_ok_body [OF ok(4)], of True 0 ?n "max_times = UINT64_MAX"] unfolding if_P [OF assms(3)] by blast
  define tail where "tail = (if ?n > 0 then [elem GRETYPE_RULE_REF k] else [])"
  have "symbol_ok (n_symbols p) (more @ tail)" using more p(2,3) symbol_ok_mono by (intro symbol_ok_append) (auto simp: tail_def intro!: symbol_ok_single)
  then have "seq_ok (s\<lparr>sq_rule := (take ?l (sq_rule s) @ more) @ tail, sq_parser := p\<rparr>)"
    using p(1,2) ok(2,3) body_ok_mono by (auto simp: seq_ok_def)
  then show ?thesis using False rep p(2) unfolding handle_repetitions_def Let_def rule tail_def by simp
qed

text \<open>Too many optional copies: the identifiers reach their end, and the rule with the last one is written out of bounds.\<close>

lemma handle_repetitions_wraps:
  assumes "seq_ok s" "word_name name" "2 ^ 32 \<le> n_symbols (sq_parser s) + n_optional min_times max_times" "sq_last_sym_start s \<noteq> length (sq_rule s)"
  shows "handle_repetitions name min_times max_times s = Inl Out_of_bounds"
proof -
  let ?prev = "drop (sq_last_sym_start s) (sq_rule s)" and ?n = "n_optional min_times max_times"
  have ok: "parser_ok (sq_parser s)" "body_ok (n_symbols (sq_parser s)) ?prev" using assms(1) symbol_ok_body by (simp_all add: seq_ok_def)
  have many: "\<not> n_symbols (sq_parser s) + ?n < 2 ^ 32" using assms(3) by simp
  have "rep_rules name ?prev (max_times = UINT64_MAX) ?n True 0 (sq_parser s) = Inl Out_of_bounds"
    using rep_rules_run [OF ok(1) assms(2) ok(2), of True 0 ?n "max_times = UINT64_MAX"] unfolding if_not_P [OF many] by blast
  then show ?thesis using assms(4) unfolding handle_repetitions_def Let_def by simp
qed

abbreviation few_more :: "seq_state \<Rightarrow> seq_state \<Rightarrow> bool" where
  "few_more s s' \<equiv> seq_ok s' \<and> n_symbols (sq_parser s) \<le> n_symbols (sq_parser s') \<and> n_symbols (sq_parser s') \<le> n_symbols (sq_parser s) + 2000 \<and> sq_pos s' = sq_pos s"

lemma handle_repetitions_few:
  assumes "seq_ok s" "word_name name" "n_symbols (sq_parser s) + 2000 < 2 ^ 32" "n_optional min_times max_times \<le> 2000"
  shows "returns (few_more s) (handle_repetitions name min_times max_times s)"
proof -
  have "n_symbols (sq_parser s) + n_optional min_times max_times < 2 ^ 32" using assms(3,4) by simp
  from handle_repetitions_ok [OF assms(1,2) this] show ?thesis by (rule returns_mono) (use assms(4) in auto)
qed

lemma handle_repetitions_many:
  assumes "seq_ok s" "word_name name" "2 ^ 32 \<le> n_optional min_times max_times"
  shows "ends True Q (handle_repetitions name min_times max_times s)"
proof (cases "sq_last_sym_start s = length (sq_rule s)")
  case False
  then show ?thesis using handle_repetitions_wraps [OF assms(1,2) _ False] assms(3) by simp
qed (simp add: handle_repetitions_def Let_def)

lemma n_optional_reversed: "n < m \<Longrightarrow> m \<le> 2000 \<Longrightarrow> n_optional m n = 2 ^ 64 - (m - n)"
  by (simp add: n_optional_def UINT64_MAX_def)

lemma n_optional_few: "m \<le> n \<Longrightarrow> n = UINT64_MAX \<or> n \<le> 2000 \<Longrightarrow> n_optional m n \<le> 2000"
proof (cases "n = UINT64_MAX")
  case False
  assume "m \<le> n" "n = UINT64_MAX \<or> n \<le> 2000"
  then have n: "m \<le> n" "n \<le> 2000" using False by simp_all
  then have "(n + 2 ^ 64 - m) mod 2 ^ 64 = (n - m) mod 2 ^ 64" by (metis Nat.add_diff_assoc2 mod_add_self2)
  then show ?thesis using n False by (simp add: n_optional_def)
qed (simp add: n_optional_def)

lemma returns_if: "(b \<Longrightarrow> ends wild Q x) \<Longrightarrow> (\<not> b \<Longrightarrow> ends wild Q y) \<Longrightarrow> ends wild Q (if b then x else y)"
  by simp

abbreviation turn_ok :: "seq_state \<Rightarrow> seq_state option \<Rightarrow> bool" where
  "turn_ok s res \<equiv> (case res of None \<Rightarrow> True | Some s' \<Rightarrow> seq_after s s')"

abbreviation group_after :: "bytes \<Rightarrow> grammar_parser \<Rightarrow> bytes \<times> grammar_parser \<Rightarrow> bool" where
  "group_after pos p res \<equiv> (case res of (pos', p') \<Rightarrow> length pos' \<le> length pos \<and> parser_ok p' \<and> n_symbols p \<le> n_symbols p' \<and>
     room p' pos' \<le> room p pos \<and> suffix pos' pos)"

definition group_ok :: "bool \<Rightarrow> bytes \<Rightarrow> (nat \<Rightarrow> bytes \<Rightarrow> grammar_parser \<Rightarrow> (bytes \<times> grammar_parser) outcome) \<Rightarrow> nat \<Rightarrow> bool" where
  "group_ok wild src recurse n \<longleftrightarrow> (\<forall>k pos p. parser_ok p \<longrightarrow> k < n_symbols p \<longrightarrow> length pos < n \<longrightarrow> room p pos < 2 ^ 32 \<longrightarrow> suffix pos src \<longrightarrow>
     ends wild (group_after pos p) (recurse k pos p))"

lemma push_turn:
  assumes "seq_ok s" "parser_ok p" "n_symbols (sq_parser s) \<le> n_symbols p" "symbol_ok (n_symbols p) items" "length pos < length (sq_pos s)"
    and "room p pos \<le> room (sq_parser s) (sq_pos s)" "suffix pos (sq_pos s)"
  shows "turn_ok s (Some (push_items items pos (s\<lparr>sq_parser := p\<rparr>)))"
  using push_items_ok [OF assms(2) body_ok_mono [OF seq_ok_rule [OF assms(1)] assms(3)] assms(4)] assms(3,5-) by (simp add: seq_after_def)

lemma push_turn_same:
  assumes "seq_ok s" "symbol_ok (n_symbols (sq_parser s)) items" "length pos < length (sq_pos s)" "suffix pos (sq_pos s)"
  shows "turn_ok s (Some (push_items items pos s))"
  using push_turn [OF assms(1) _ _ assms(2,3) room_step assms(4)] assms(1,3) by (simp add: seq_ok_def)

lemma repetition_turn:
  assumes "seq_ok s" "word_name name" "n_symbols (sq_parser s) + 2000 < 2 ^ 32" "length pos < length (sq_pos s)" "suffix pos (sq_pos s)"
    and "n_optional min_times max_times \<le> 2000"
  shows "returns (seq_after s) (handle_repetitions name min_times max_times (s\<lparr>sq_pos := pos\<rparr>))"
proof -
  have "seq_ok (s\<lparr>sq_pos := pos\<rparr>)" using assms(1) by (simp add: seq_ok_def)
  then have "returns (few_more (s\<lparr>sq_pos := pos\<rparr>)) (handle_repetitions name min_times max_times (s\<lparr>sq_pos := pos\<rparr>))"
    using assms(3) by (intro handle_repetitions_few assms(2,6)) simp_all
  then show ?thesis by (rule returns_mono) (use assms(4,5) in \<open>simp add: seq_after_def room_def\<close>)
qed

lemma some_turn: "ends wild (seq_after s) r \<Longrightarrow> ends wild (turn_ok s) (bind_outcome r (\<lambda>s. Inr (Some s)))"
  by (rule ends_bind) simp_all

lemma parse_repetition_turn:
  assumes "seq_ok s" "word_name name" "n_symbols (sq_parser s) + 2000 < 2 ^ 32" "peek (sq_pos s) = 123" "reversed_at nested (sq_pos s) \<longrightarrow> wild"
  shows "ends wild (seq_after s) (parse_repetition name nested s)"
  unfolding parse_repetition_def
proof (rule returns_bind [OF parse_braces_returns], simp add: assms(4), clarify)
  fix a b :: nat and pos :: bytes assume len: "length pos < length (sq_pos s)" and braces: "parse_braces nested (sq_pos s) = Inr (a, b, pos)"
  have "ends wild (seq_after s) (handle_repetitions name a b (s\<lparr>sq_pos := pos\<rparr>))" if small: "a \<le> 2000" "b = UINT64_MAX \<or> b \<le> 2000"
  proof (cases "b < a")
    case True
    then have "reversed_at nested (sq_pos s)" using assms(4) braces by (simp add: reversed_at_def)
    moreover have "2 ^ 32 \<le> n_optional a b" using n_optional_reversed [OF True small(1)] small(1) by simp
    moreover have "seq_ok (s\<lparr>sq_pos := pos\<rparr>)" using assms(1) by (simp add: seq_ok_def)
    ultimately show ?thesis using handle_repetitions_many [OF _ assms(2)] assms(5) by (cases wild) auto
  next
    case False
    then have "n_optional a b \<le> 2000" using small(2) by (intro n_optional_few) auto
    from repetition_turn [OF assms(1-3) len parse_braces_suffix [OF braces] this] show ?thesis by (rule returns_ends)
  qed
  then show "ends wild (seq_after s) (if a > MAX_REPETITION_THRESHOLD \<or> b \<noteq> UINT64_MAX \<and> b > MAX_REPETITION_THRESHOLD
      then throw ''number of repetitions exceeds sane defaults'' else handle_repetitions name a b (s\<lparr>sq_pos := pos\<rparr>))"
    by (auto simp: MAX_REPETITION_THRESHOLD_def not_less)
qed

lemma literal_turn:
  assumes "seq_ok s" "peek (sq_pos s) \<noteq> 0"
  shows "returns (turn_ok s) (bind_outcome (parse_literal (tl (sq_pos s)) []) (\<lambda>(items, pos). Inr (Some (push_items items (parse_space nested (tl pos)) s))))"
proof (rule returns_bind [OF parse_literal_returns [where n = "n_symbols (sq_parser s)"]], simp, clarify)
  fix items and pos :: bytes
  assume *: "symbol_ok (n_symbols (sq_parser s)) items" "length pos \<le> length (tl (sq_pos s))" "parse_literal (tl (sq_pos s)) [] = Inr (items, pos)"
  have "length (parse_space nested (tl pos)) \<le> length pos" using parse_space_length [of nested "tl pos"] by (cases pos) auto
  moreover have "suffix (parse_space nested (tl pos)) (sq_pos s)"
    using parse_literal_suffix [OF *(3)] suffix_tl_trans [OF suffix_order.refl] suffix_order.trans parse_space_suffix_tl(2) by blast
  ultimately show "returns (turn_ok s) (Inr (Some (push_items items (parse_space nested (tl pos)) s)))"
    using *(1,2) tl_shorter [OF assms(2)] push_turn_same [OF assms(1)] by simp
qed

lemma class_turn:
  assumes "seq_ok s" "peek (sq_pos s) \<noteq> 0" "st \<in> {GRETYPE_CHAR, GRETYPE_CHAR_NOT}" "length pos \<le> length (tl (sq_pos s))" "suffix pos (sq_pos s)"
  shows "returns (turn_ok s) (bind_outcome (parse_class st pos []) (\<lambda>(items, pos). Inr (Some (push_items items (parse_space nested (tl pos)) s))))"
proof (rule returns_bind [OF parse_class_returns [where n = "n_symbols (sq_parser s)", OF _ assms(3)]], simp add: class_items_def, clarify)
  fix items and pos' :: bytes
  assume *: "class_items (n_symbols (sq_parser s)) items" "length pos' \<le> length pos" "parse_class st pos [] = Inr (items, pos')"
  have "length (parse_space nested (tl pos')) \<le> length pos'" using parse_space_length [of nested "tl pos'"] by (cases pos') auto
  moreover have "suffix (parse_space nested (tl pos')) (sq_pos s)"
    using parse_class_suffix [OF *(3)] assms(5) suffix_order.trans parse_space_suffix_tl(2) by blast
  ultimately show "returns (turn_ok s) (Inr (Some (push_items items (parse_space nested (tl pos')) s)))"
    using *(1,2) tl_shorter [OF assms(2)] assms(4) push_turn_same [OF assms(1)] by (simp add: class_items_def)
qed

lemma token_turn:
  assumes "seq_ok s" "t \<in> {GRETYPE_TOKEN, GRETYPE_TOKEN_NOT}" "length pos \<le> length (sq_pos s)" "suffix pos (sq_pos s)"
  shows "returns (turn_ok s) (bind_outcome (parse_token vocab pos) (\<lambda>(token, pos). Inr (Some (push_items [elem t token] (parse_space nested pos) s))))"
proof (rule returns_bind [OF parse_token_returns], clarify)
  fix tok and pos' :: bytes assume *: "length pos' < length pos" "parse_token vocab pos = Inr (tok, pos')"
  have "symbol_ok (n_symbols (sq_parser s)) [elem t tok]" using assms(2) by (intro symbol_ok_single) auto
  moreover have "suffix (parse_space nested pos') (sq_pos s)"
    using parse_token_suffix [OF *(2)] assms(4) suffix_order.trans parse_space_suffix_tl(1) by blast
  ultimately show "returns (turn_ok s) (Inr (Some (push_items [elem t tok] (parse_space nested pos') s)))"
    using *(1) parse_space_length [of nested pos'] assms(3) push_turn_same [OF assms(1)] by simp
qed

lemma reference_turn:
  assumes "seq_ok s" "n_symbols (sq_parser s) + 2000 < 2 ^ 32"
  shows "returns (turn_ok s) (bind_outcome (parse_name (sq_pos s)) (\<lambda>(ref_name, pos). let (ref_id, p) = get_symbol_id ref_name (sq_parser s) in
    Inr (Some (push_items [elem GRETYPE_RULE_REF ref_id] (parse_space nested pos) (s\<lparr>sq_parser := p\<rparr>)))))"
proof (rule returns_bind [OF parse_name_returns], clarify)
  fix nm and pos :: bytes assume nm: "word_name nm" "length pos < length (sq_pos s)" "parse_name (sq_pos s) = Inr (nm, pos)"
  obtain k p where g: "get_symbol_id nm (sq_parser s) = (k, p)" by (cases "get_symbol_id nm (sq_parser s)")
  have ok: "parser_ok p" "k < n_symbols p" "n_symbols (sq_parser s) \<le> n_symbols p" "n_symbols p \<le> Suc (n_symbols (sq_parser s))"
    using get_symbol_id_ok [OF _ nm(1) g] assms by (auto simp: seq_ok_def)
  have "length (parse_space nested pos) < length (sq_pos s)" "suffix (parse_space nested pos) (sq_pos s)"
    using nm(2) parse_space_length [of nested pos] parse_space_suffix_tl(1) [OF parse_name_suffix [OF nm(3)]] by simp_all
  then have "turn_ok s (Some (push_items [elem GRETYPE_RULE_REF k] (parse_space nested pos) (s\<lparr>sq_parser := p\<rparr>)))"
    using ok by (intro push_turn [OF assms(1)] symbol_ok_single room_step) auto
  then show "returns (turn_ok s) (let (ref_id, p) = get_symbol_id nm (sq_parser s) in
      Inr (Some (push_items [elem GRETYPE_RULE_REF ref_id] (parse_space nested pos) (s\<lparr>sq_parser := p\<rparr>))))" by (simp add: g)
qed

lemma room_char:
  assumes "room p pos < 2 ^ 32" "peek pos \<noteq> 0"
  shows "n_symbols p + 2000 < 2 ^ 32"
proof (cases pos)
  case (Cons c cs)
  then show ?thesis using assms(1) by (simp add: room_def)
qed (use assms(2) in simp)

lemma group_turn:
  assumes "seq_ok s" "word_name name" "peek (sq_pos s) \<noteq> 0" "group_ok wild src recurse (length (sq_pos s))"
    and "room (sq_parser s) (sq_pos s) < 2 ^ 32" "suffix (sq_pos s) src"
  shows "ends wild (turn_ok s) (let (sub_id, p) = generate_symbol_id name (sq_parser s) in
    bind_outcome (recurse sub_id (parse_space True (tl (sq_pos s))) p) (\<lambda>(pos, p).
      if peek pos \<noteq> 41 then throw ''expecting ')' ''
      else Inr (Some (push_items [elem GRETYPE_RULE_REF sub_id] (parse_space nested (tl pos)) (s\<lparr>sq_parser := p\<rparr>)))))"
proof -
  let ?pos = "parse_space True (tl (sq_pos s))"
  obtain k p where g: "generate_symbol_id name (sq_parser s) = (k, p)" by (cases "generate_symbol_id name (sq_parser s)")
  have ok: "parser_ok p" "k < n_symbols p" "n_symbols p = Suc (n_symbols (sq_parser s))"
    using generate_symbol_id_ok [OF _ assms(2) g] assms(1) room_char [OF assms(5,3)] by (auto simp: seq_ok_def)
  have len: "length ?pos < length (sq_pos s)" by (rule space_tl_length [OF assms(3)])
  have room: "room p ?pos \<le> room (sq_parser s) (sq_pos s)" using ok(3) len by (intro room_step) simp_all
  have suf: "suffix ?pos (sq_pos s)" by (rule parse_space_suffix_tl(2)) simp
  have "ends wild (turn_ok s) (bind_outcome (recurse k ?pos p) (\<lambda>(pos, p). if peek pos \<noteq> 41 then throw ''expecting ')' ''
      else Inr (Some (push_items [elem GRETYPE_RULE_REF k] (parse_space nested (tl pos)) (s\<lparr>sq_parser := p\<rparr>)))))"
  proof (rule ends_bind, rule assms(4) [unfolded group_ok_def, rule_format, OF ok(1,2) len])
    show "room p ?pos < 2 ^ 32" using room assms(5) by linarith
    show "suffix ?pos src" using suf assms(6) by (rule suffix_order.trans)
  next
    fix x assume "group_after ?pos p x"
    moreover obtain pos' p' where x: "x = (pos', p')" by (cases x)
    ultimately have p': "length pos' \<le> length ?pos" "parser_ok p'" "n_symbols p \<le> n_symbols p'" "room p' pos' \<le> room p ?pos" "suffix pos' ?pos" by simp_all
    let ?next = "parse_space nested (tl pos')"
    have next_len: "length ?next \<le> length pos'" using parse_space_length [of nested "tl pos'"] by (cases pos') auto
    then have "room p' ?next \<le> room (sq_parser s) (sq_pos s)" using p'(4) room by (simp add: room_def)
    moreover have "suffix ?next (sq_pos s)" using parse_space_suffix_tl(2) [OF suffix_order.trans [OF p'(5) suf]] .
    ultimately have "turn_ok s (Some (push_items [elem GRETYPE_RULE_REF k] ?next (s\<lparr>sq_parser := p'\<rparr>)))"
      using ok p'(1-3) len next_len by (intro push_turn [OF assms(1)] symbol_ok_single) auto
    then show "ends wild (turn_ok s) (case x of (pos', p') \<Rightarrow> if peek pos' \<noteq> 41 then throw ''expecting ')' ''
        else Inr (Some (push_items [elem GRETYPE_RULE_REF k] (parse_space nested (tl pos')) (s\<lparr>sq_parser := p'\<rparr>))))" by (simp add: x)
  qed
  then show ?thesis by (simp add: g)
qed

text \<open>A state of the loops in the text \<open>src\<close>; \<open>wild\<close> covers its reversed bounds.\<close>

definition in_text :: "bytes \<Rightarrow> seq_state \<Rightarrow> bool" where
  "in_text src s \<longleftrightarrow> seq_ok s \<and> room (sq_parser s) (sq_pos s) < 2 ^ 32 \<and> suffix (sq_pos s) src"

lemma parse_item_turn:
  assumes "in_text src s" "word_name name" "group_ok wild src recurse (length (sq_pos s))" "reversed_bounds src \<longrightarrow> wild"
  shows "ends wild (turn_ok s) (parse_item recurse vocab name nested s)"
proof (cases "peek (sq_pos s) = 0")
  case True
  then show ?thesis by (simp add: parse_item_def)
next
  case False
  have s: "seq_ok s" "room (sq_parser s) (sq_pos s) < 2 ^ 32" "suffix (sq_pos s) src" using assms(1) by (simp_all add: in_text_def)
  note few = room_char [OF s(2) False]
  have tl: "suffix (tl (sq_pos s)) (sq_pos s)" "suffix (tl (tl (sq_pos s))) (sq_pos s)" by (simp_all add: suffix_tl_trans)
  have rep: "ends wild (turn_ok s) (bind_outcome (handle_repetitions name a b (s\<lparr>sq_pos := parse_space nested (tl (sq_pos s))\<rparr>)) (\<lambda>s. Inr (Some s)))"
    if "n_optional a b \<le> 2000" for a b
    by (rule some_turn, rule returns_ends, rule repetition_turn [OF s(1) assms(2) few space_tl_length [OF False] _ that]) (simp_all add: parse_space_suffix_tl)
  have marks: "n_optional 0 UINT64_MAX \<le> 2000" "n_optional 1 UINT64_MAX \<le> 2000" "n_optional 0 1 \<le> 2000" by (simp_all add: n_optional_def UINT64_MAX_def)
  have braces: "ends wild (turn_ok s) (bind_outcome (parse_repetition name nested s) (\<lambda>s. Inr (Some s)))" if "peek (sq_pos s) = 123"
    using reversed_boundsI [OF s(3)] assms(4) by (intro some_turn parse_repetition_turn [OF s(1) assms(2) few that]) auto
  have dot: "turn_ok s (Some (push_items [elem GRETYPE_CHAR_ANY 0] (parse_space nested (tl (sq_pos s))) s))"
    by (intro push_turn_same [OF s(1)] symbol_ok_single space_tl_length [OF False] parse_space_suffix_tl(2)) auto
  have cls: "ends wild (turn_ok s) (let (start_type, pos) = (if peek (tl (sq_pos s)) = 94 then (GRETYPE_CHAR_NOT, tl (tl (sq_pos s))) else (GRETYPE_CHAR, tl (sq_pos s))) in
      bind_outcome (parse_class start_type pos []) (\<lambda>(items, pos). Inr (Some (push_items items (parse_space nested (tl pos)) s))))"
    using returns_ends [OF class_turn [OF s(1) False]] tl by simp
  have tok: "ends wild (turn_ok s) (let (type, pos) = (if peek (sq_pos s) = 33 then (GRETYPE_TOKEN_NOT, tl (sq_pos s)) else (GRETYPE_TOKEN, sq_pos s)) in
      bind_outcome (parse_token vocab pos) (\<lambda>(token, pos). Inr (Some (push_items [elem type token] (parse_space nested pos) s))))"
    using returns_ends [OF token_turn [OF s(1)]] tl by simp
  show ?thesis unfolding parse_item_def Let_def
    by (intro returns_if; use False dot rep [OF marks(1)] rep [OF marks(2)] rep [OF marks(3)] cls tok returns_ends [OF literal_turn [OF s(1) False]]
        returns_ends [OF reference_turn [OF s(1) few]] group_turn [OF s(1) assms(2) False assms(3) s(2,3)] braces in \<open>simp add: Let_def\<close>)
qed

lemma group_ok_mono: "group_ok wild src recurse n \<Longrightarrow> m \<le> n \<Longrightarrow> group_ok wild src recurse m"
  by (simp add: group_ok_def)

text \<open>The states of the loops of a rule that started with \<open>n\<close> symbols at \<open>pos\<close>.\<close>

definition within :: "nat \<Rightarrow> nat \<Rightarrow> bytes \<Rightarrow> seq_state \<Rightarrow> bool" where
  "within n r pos s \<longleftrightarrow> seq_ok s \<and> n \<le> n_symbols (sq_parser s) \<and> length (sq_pos s) \<le> length pos \<and> room (sq_parser s) (sq_pos s) \<le> r \<and> suffix (sq_pos s) pos"

lemma within_in_text: "within n r pos s \<Longrightarrow> r < 2 ^ 32 \<Longrightarrow> suffix pos src \<Longrightarrow> in_text src s"
  using suffix_order.trans by (auto simp: within_def in_text_def)

lemma within_after: "within n r pos s \<Longrightarrow> seq_after s s' \<Longrightarrow> within n r pos s' \<and> length (sq_pos s') < length (sq_pos s)"
  using suffix_order.trans by (auto simp: within_def seq_after_def)

lemma item_loop:
  assumes "word_name name" "group_ok wild src recurse (length pos)" "reversed_bounds src \<longrightarrow> wild" "r < 2 ^ 32" "suffix pos src"
  shows "text_loop (parse_item recurse vocab name nested) (\<lambda>s. length (sq_pos s)) (within n r pos) wild"
proof
  fix s assume s: "within n r pos s"
  have "group_ok wild src recurse (length (sq_pos s))" using group_ok_mono [OF assms(2)] s by (simp add: within_def)
  from parse_item_turn [OF within_in_text [OF s assms(4,5)] assms(1) this assms(3)]
  show "ends wild (\<lambda>res. case res of None \<Rightarrow> True | Some s' \<Rightarrow> within n r pos s' \<and> length (sq_pos s') < length (sq_pos s)) (parse_item recurse vocab name nested s)"
    by (rule ends_mono) (use within_after [OF s] in \<open>auto split: option.splits\<close>)
qed

lemma parse_sequence_returns:
  assumes "word_name name" "group_ok wild src recurse (length pos)" "reversed_bounds src \<longrightarrow> wild" "room p pos < 2 ^ 32" "suffix pos src"
    and "parser_ok p" "body_ok (n_symbols p) rule"
  shows "ends wild (within (n_symbols p) (room p pos) pos) (parse_sequence recurse vocab name nested rule pos p)"
proof -
  let ?s = "\<lparr>sq_rule = rule, sq_last_sym_start = length rule, sq_parser = p, sq_pos = pos\<rparr>"
  have "within (n_symbols p) (room p pos) pos ?s" using assms(6,7) by (simp add: within_def seq_ok_def)
  from text_loop.loop_ends [OF item_loop [OF assms(1-5)] this, of "Suc (length pos)" vocab nested]
  show ?thesis unfolding parse_sequence_def by (elim meta_impE ends_mono) simp_all
qed

lemma alternative_loop:
  assumes "word_name name" "group_ok wild src recurse (length pos)" "reversed_bounds src \<longrightarrow> wild" "r < 2 ^ 32" "suffix pos src"
  shows "text_loop (parse_alternative (parse_sequence recurse vocab name nested)) (\<lambda>s. length (sq_pos s)) (within n r pos) wild"
proof
  fix s assume s: "within n r pos s"
  let ?Q = "\<lambda>res. case res of None \<Rightarrow> True | Some s' \<Rightarrow> within n r pos s' \<and> length (sq_pos s') < length (sq_pos s)"
  show "ends wild ?Q (parse_alternative (parse_sequence recurse vocab name nested) s)"
  proof (cases "peek (sq_pos s) = 124")
    case True
    let ?pos = "parse_space True (tl (sq_pos s))" and ?rule = "sq_rule s @ [elem GRETYPE_ALT 0]" and ?p = "sq_parser s"
    have len: "length ?pos < length (sq_pos s)" using space_tl_length [of "sq_pos s" True] True by simp
    have suf: "suffix ?pos pos" using s parse_space_suffix_tl(2) by (simp add: within_def)
    have room: "room ?p ?pos \<le> r" using s len by (simp add: within_def room_def)
    have "body_ok (n_symbols ?p) ?rule" using s by (intro body_ok_append seq_ok_rule body_ok_single) (simp_all add: within_def)
    moreover have "group_ok wild src recurse (length ?pos)" using s len by (intro group_ok_mono [OF assms(2)]) (simp add: within_def)
    moreover have "suffix ?pos src" using suf assms(5) by (rule suffix_order.trans)
    ultimately have "ends wild (within (n_symbols ?p) (room ?p ?pos) ?pos) (parse_sequence recurse vocab name nested ?rule ?pos ?p)"
      using s room assms(1,3,4) by (intro parse_sequence_returns) (simp_all add: within_def seq_ok_def)
    then have "ends wild ?Q (bind_outcome (parse_sequence recurse vocab name nested ?rule ?pos ?p) (\<lambda>s. Inr (Some s)))"
      by (rule ends_bind) (use s len room suf suffix_order.trans in \<open>fastforce simp: within_def\<close>)
    then show ?thesis using True by (simp add: parse_alternative_def)
  qed (simp add: parse_alternative_def)
qed

lemma parse_alternates_returns:
  "word_name name \<Longrightarrow> parser_ok p \<Longrightarrow> k < n_symbols p \<Longrightarrow> length pos < n \<Longrightarrow> room p pos < 2 ^ 32 \<Longrightarrow> suffix pos src \<Longrightarrow> (reversed_bounds src \<longrightarrow> wild) \<Longrightarrow>
   ends wild (group_after pos p) (parse_alternates n vocab name nested k pos p)"
proof (induction n arbitrary: nested k pos p)
  case (Suc n)
  let ?rec = "parse_alternates n vocab name True"
  let ?seq = "parse_sequence ?rec vocab name nested"
  let ?within = "within (n_symbols p) (room p pos) pos"
  have group: "group_ok wild src ?rec n" unfolding group_ok_def using Suc.IH Suc.prems(1,7) by blast
  have group': "group_ok wild src ?rec (length pos)" using group_ok_mono [OF group] Suc.prems(4) by simp
  have start: "ends wild ?within (?seq [] pos p)"
    by (rule parse_sequence_returns [OF Suc.prems(1) group' Suc.prems(7,5,6,2)]) simp
  have "ends wild (group_after pos p) (bind_outcome (?seq [] pos p) (\<lambda>s. bind_outcome (loop (Suc (length (sq_pos s))) (parse_alternative ?seq) s) (\<lambda>s.
        bind_outcome (add_rule k (sq_rule s @ [elem GRETYPE_END 0]) (sq_parser s)) (\<lambda>p. Inr (sq_pos s, p)))))"
  proof (rule ends_bind [OF start])
    fix s assume s: "?within s"
    from text_loop.loop_ends [OF alternative_loop [OF Suc.prems(1) group' Suc.prems(7,5,6)] s, of "Suc (length (sq_pos s))" vocab nested]
    have "ends wild ?within (loop (Suc (length (sq_pos s))) (parse_alternative ?seq) s)" by (elim meta_impE ends_mono) simp_all
    then show "ends wild (group_after pos p) (bind_outcome (loop (Suc (length (sq_pos s))) (parse_alternative ?seq) s) (\<lambda>s.
          bind_outcome (add_rule k (sq_rule s @ [elem GRETYPE_END 0]) (sq_parser s)) (\<lambda>p. Inr (sq_pos s, p))))"
    proof (rule ends_bind)
      fix s' assume s': "?within s'"
      have ok: "parser_ok (sq_parser s')" "body_ok (n_symbols (sq_parser s')) (sq_rule s')" "k < n_symbols (sq_parser s')"
        using s' seq_ok_rule Suc.prems(3) by (simp_all add: within_def seq_ok_def)
      obtain p' where "add_rule k (sq_rule s' @ [elem GRETYPE_END 0]) (sq_parser s') = Inr p'" "parser_ok p'" "gp_symbol_ids p' = gp_symbol_ids (sq_parser s')"
        using add_rule_ok [OF ok] by blast
      then show "ends wild (group_after pos p) (bind_outcome (add_rule k (sq_rule s' @ [elem GRETYPE_END 0]) (sq_parser s')) (\<lambda>p. Inr (sq_pos s', p)))"
        using s' by (simp add: within_def room_def)
    qed
  qed
  then show ?case by (simp add: Let_def)
qed simp

lemma parse_rule_returns:
  assumes "parser_ok p" "room p pos < 2 ^ 32" "suffix pos src" "reversed_bounds src \<longrightarrow> wild" "peek pos \<noteq> 0"
  shows "ends wild (\<lambda>(pos', p'). length pos' < length pos \<and> parser_ok p' \<and> room p' pos' < 2 ^ 32 \<and> suffix pos' src) (parse_rule vocab pos p)"
  unfolding parse_rule_def
proof (rule returns_bind [OF parse_name_returns], clarify)
  fix nm and pos1 :: bytes assume nm: "word_name nm" "length pos1 < length pos" "parse_name pos = Inr (nm, pos1)"
  let ?Q = "\<lambda>(pos', p'). length pos' < length pos \<and> parser_ok p' \<and> room p' pos' < 2 ^ 32 \<and> suffix pos' src"
  obtain k p1 where g: "get_symbol_id nm p = (k, p1)" by (cases "get_symbol_id nm p")
  have ok: "parser_ok p1" "k < n_symbols p1" "n_symbols p1 \<le> Suc (n_symbols p)"
    using get_symbol_id_ok [OF assms(1) nm(1) g] room_char [OF assms(2,5)] by simp_all
  let ?pos2 = "parse_space False pos1"
  let ?pos3 = "parse_space True (tl (tl (tl ?pos2)))"
  have len: "length ?pos3 < length pos"
    using nm(2) parse_space_length [of False pos1] parse_space_length [of True "tl (tl (tl ?pos2))"] by (simp add: less_le_trans)
  have suf: "suffix ?pos3 src"
    using parse_space_suffix_tl(1) [OF suffix_order.trans [OF parse_name_suffix [OF nm(3)] assms(3)]] by (simp add: parse_space_suffix_tl(2) suffix_tl_trans)
  have room: "room p1 ?pos3 < 2 ^ 32" using room_step [of p1 p ?pos3 pos] ok(3) len assms(2) by simp
  have "ends wild ?Q (bind_outcome (parse_alternates (Suc (length ?pos3)) vocab nm False k ?pos3 p1) (\<lambda>(pos, p).
      if peek pos = 13 then Inr (parse_space True (if peek (tl pos) = 10 then tl (tl pos) else tl pos), p)
      else if peek pos = 10 then Inr (parse_space True (tl pos), p)
      else if peek pos \<noteq> 0 then throw ''expecting newline or end''
      else Inr (parse_space True pos, p)))"
  proof (rule ends_bind [OF parse_alternates_returns [OF nm(1) ok(1,2) _ room suf assms(4)]], simp, clarify)
    fix q :: bytes and p2 assume q: "length q \<le> length ?pos3" "parser_ok p2" "room p2 q \<le> room p1 ?pos3" "suffix q ?pos3"
    have rest: "length (parse_space True r) < length pos \<and> room p2 (parse_space True r) < 2 ^ 32 \<and> suffix (parse_space True r) src" if "suffix r q" for r
    proof -
      have "length (parse_space True r) \<le> length q" using suffix_length_le [OF that] parse_space_length [of True r] by linarith
      moreover from this have "room p2 (parse_space True r) \<le> room p2 q" by (simp add: room_def)
      moreover have "suffix (parse_space True r) src" using that q(4) suf parse_space_suffix_tl(1) suffix_order.trans by blast
      ultimately show ?thesis using q(1,3) len room by linarith
    qed
    then show "ends wild ?Q
        (if peek q = 13 then Inr (parse_space True (if peek (tl q) = 10 then tl (tl q) else tl q), p2)
         else if peek q = 10 then Inr (parse_space True (tl q), p2)
         else if peek q \<noteq> 0 then throw ''expecting newline or end'' else Inr (parse_space True q, p2))"
      using q(2) rest [of "tl q"] rest [of "tl (tl q)"] rest [of q] by (simp add: suffix_tl_trans)
  qed
  note main = this
  show "ends wild ?Q
      (let pos = parse_space False pos1; (rule_id, p) = get_symbol_id nm p in
       if \<not> (peek pos = 58 \<and> peek (tl pos) = 58 \<and> peek (tl (tl pos)) = 61) then throw ''expecting ::=''
       else let pos = parse_space True (tl (tl (tl pos))) in
         bind_outcome (parse_alternates (Suc (length pos)) vocab nm False rule_id pos p) (\<lambda>(pos, p).
           if peek pos = 13 then Inr (parse_space True (if peek (tl pos) = 10 then tl (tl pos) else tl pos), p)
           else if peek pos = 10 then Inr (parse_space True (tl pos), p)
           else if peek pos \<noteq> 0 then throw ''expecting newline or end''
           else Inr (parse_space True pos, p)))"
    unfolding Let_def g prod.case by (rule returns_if, simp) (rule main)
qed

interpretation rules_loop: text_loop "rules_step vocab" "\<lambda>(pos, p). length pos" "\<lambda>(pos, p). parser_ok p \<and> room p pos < 2 ^ 32 \<and> suffix pos src" "reversed_bounds src" for vocab src
proof
  fix s :: "bytes \<times> grammar_parser" assume s: "case s of (pos, p) \<Rightarrow> parser_ok p \<and> room p pos < 2 ^ 32 \<and> suffix pos src"
  obtain pos p where sp: "s = (pos, p)" by (cases s)
  let ?Q = "\<lambda>res. case res of None \<Rightarrow> True | Some s' \<Rightarrow> (case s' of (pos, p) \<Rightarrow> parser_ok p \<and> room p pos < 2 ^ 32 \<and> suffix pos src) \<and>
      (case s' of (pos, p) \<Rightarrow> length pos) < (case s of (pos, p) \<Rightarrow> length pos)"
  have "ends (reversed_bounds src) ?Q (bind_outcome (parse_rule vocab pos p) (\<lambda>s. Inr (Some s)))" if "peek pos \<noteq> 0"
    using s that by (intro ends_bind [OF parse_rule_returns]) (auto simp: sp)
  then show "ends (reversed_bounds src) ?Q (rules_step vocab s)" unfolding rules_step_def sp prod.case by simp
qed

section \<open>The rules that the parser builds\<close>

lemma chain_ok_nth: "chain_ok t es \<Longrightarrow> i < length es \<Longrightarrow> adjacent_ok (if i = 0 then t else ge_type (es ! (i - 1))) (ge_type (es ! i))"
proof (induction t es arbitrary: i rule: chain_ok.induct)
  case (2 t e es)
  show ?case
  proof (cases i)
    case (Suc j)
    then show ?thesis using "2.IH" [of j] "2.prems" by (cases j) auto
  qed (use "2.prems" in simp)
qed simp

lemma parsed_rules_ok:
  assumes "parser_ok p" "\<not> has_undefined_rule p"
  shows "rules_ok (gp_rules p)"
  unfolding rules_ok_def list_all_iff
proof
  fix rule assume rule: "rule \<in> set (gp_rules p)"
  have no: "rule \<noteq> []" "\<And>e. e \<in> set rule \<Longrightarrow> ge_type e = GRETYPE_RULE_REF \<Longrightarrow> \<exists>kv \<in> set (gp_symbol_ids p). snd kv = ge_value e \<Longrightarrow> ge_value e < length (gp_rules p)"
    using assms(2) rule unfolding has_undefined_rule_def list_ex_iff by (auto simp: not_le)
  obtain body where body: "rule = body @ [elem GRETYPE_END 0]" "body_ok (n_symbols p) body"
    using assms(1) rule no(1) by (auto simp: parser_ok_def full_rule_def)
  have named: "\<exists>kv \<in> set (gp_symbol_ids p). snd kv = v" if "v < n_symbols p" for v
  proof -
    have "v \<in> set (map snd (gp_symbol_ids p))" using assms(1) that by (simp add: parser_ok_def ids_ok_def)
    then show ?thesis by auto
  qed
  have "ge_value e < length (gp_rules p)" if e: "e \<in> set rule" "ge_type e = GRETYPE_RULE_REF" for e
  proof -
    have "ge_value e < n_symbols p" using body e by (auto simp: body_ok_def list_all_iff)
    then show ?thesis using no(2) [OF e] named by blast
  qed
  moreover have "chain_ok GRETYPE_ALT rule" using body by (simp add: body_ok_def chain_ok_append adjacent_ok_def)
  then have "\<forall>i < length rule. adjacent_ok (if i = 0 then GRETYPE_ALT else ge_type (rule ! (i - 1))) (ge_type (rule ! i))" using chain_ok_nth by blast
  ultimately show "rule_ok (length (gp_rules p)) rule" unfolding rule_ok_def using body by (auto simp: body_ok_def list_all_iff)
qed

text \<open>The length of the text keeps the identifiers below \<open>2^32\<close>.\<close>

lemma parse_rules_returns:
  assumes "2000 * length src < 2 ^ 32"
  shows "ends (reversed_bounds src) (\<lambda>p. parser_ok p \<and> rules_ok (gp_rules p)) (parse_rules vocab src)"
proof -
  let ?pos = "parse_space True src" and ?p = "\<lparr>gp_symbol_ids = [], gp_rules = []\<rparr>"
  have "room ?p ?pos < 2 ^ 32" using assms parse_space_length [of True src] by (simp add: room_def)
  moreover have "parser_ok ?p" by (simp add: parser_ok_def ids_ok_def)
  ultimately have "ends (reversed_bounds src) (\<lambda>(pos, p). parser_ok p) (loop (Suc (length ?pos)) (rules_step vocab) (?pos, ?p))"
    using rules_loop.loop_ends [of src "(?pos, ?p)" "Suc (length ?pos)" vocab] parse_space_suffix by (elim meta_impE ends_mono) auto
  then show ?thesis unfolding parse_rules_def Let_def by (rule ends_bind) (use parsed_rules_ok in \<open>auto split: prod.splits\<close>)
qed

lemma accepted_rules_ok: "parse_grammar vocab src = Inr (Some p) \<Longrightarrow> 2000 * length src < 2 ^ 32 \<Longrightarrow> rules_ok (gp_rules p)"
  using parse_rules_returns [of src vocab] by (cases "parse_rules vocab src") (auto simp: parse_grammar_def split: fault.splits)

text \<open>
  C22. The parser returns on every text of fewer than \<open>2^32 / 2000\<close> bytes: \<open>parse\<close> gives false or rules, and the rules are
  well-formed. Every rule ends with its only end element, every reference goes to a rule, and every range bound and every further
  alternative of a character class follows a character. The one exception is a text that somewhere has
  a repetition \<open>{m,n}\<close> with \<open>n < m\<close>: there the identifiers of the rules may wrap around, and a rule is written out of bounds.
\<close>

theorem parse_grammar_well_formed:
  assumes "2000 * length src < 2 ^ 32"
  shows "(\<exists>parsed. parse_grammar vocab src = Inr parsed \<and> (case parsed of None \<Rightarrow> True | Some p \<Rightarrow> rules_ok (gp_rules p))) \<or>
    parse_grammar vocab src = Inl Out_of_bounds \<and> reversed_bounds src"
  using parse_rules_returns [OF assms, of vocab]
  by (cases "parse_rules vocab src") (auto simp: parse_grammar_def ends_def)

text \<open>\<open>root ::= "-"? x*\<close> and \<open>x ::= [^a-c]\<close>.\<close>

definition demo_text :: bytes where
  "demo_text = [114, 111, 111, 116, 32, 58, 58, 61, 32, 34, 45, 34, 63, 32, 120, 42, 10, 120, 32, 58, 58, 61, 32, 91, 94, 97, 45, 99, 93]"

theorem parse_grammar_well_formed_witness:
  "\<not> reversed_bounds demo_text \<and> (\<exists>parsed. parse_grammar None demo_text = Inr parsed \<and> (case parsed of None \<Rightarrow> True | Some p \<Rightarrow> rules_ok (gp_rules p)))"
proof -
  have "\<not> reversed_bounds demo_text" by code_simp
  moreover have "2000 * length demo_text < 2 ^ 32" by (simp add: demo_text_def)
  ultimately show ?thesis using parse_grammar_well_formed [of demo_text None] by blast
qed

end
