(* ===== verification/Grammar_Text.thy ===== *)
theory Grammar_Text
  imports Grammar_Parser
begin

text \<open>
  From grammar texts to samplers: what holds for every text that the parser accepts, and two texts that it should refuse.
\<close>








text \<open>
  C40. Reversed bounds of a repetition are not refused: for \<open>S{m,n}\<close> with \<open>n < m\<close> the number of optional copies wraps around
  to \<open>2^64 - (m - n)\<close>, so the parser synthesizes rules until the \<open>uint32_t\<close> identifiers reach their end (if the memory lasts). Then
  \<open>rule_id + 1\<close> wraps to 0, the rules are resized to none, and the rule is written out of bounds.
\<close>

theorem reversed_repetition_out_of_bounds:
  assumes "seq_ok s" "word_name name" "sq_last_sym_start s < length (sq_rule s)" "peek (sq_pos s) = 123"
    and "parse_braces nested (sq_pos s) = Inr (min_times, max_times, pos)" "max_times < min_times" "min_times \<le> 2000"
  shows "parse_item recurse vocab name nested s = Inl Out_of_bounds"
proof -
  have "seq_ok (s\<lparr>sq_pos := pos\<rparr>)" using assms(1) by (simp add: seq_ok_def)
  then have "handle_repetitions name min_times max_times (s\<lparr>sq_pos := pos\<rparr>) = Inl Out_of_bounds"
    using assms(2,3,6,7) n_optional_reversed by (intro handle_repetitions_wraps) simp_all
  then show ?thesis using assms(4-7)
    by (simp add: parse_item_def parse_repetition_def MAX_REPETITION_THRESHOLD_def is_word_char_def is_digit_char_def)
qed

text \<open>After \<open>root ::= "a"\<close>, at \<open>{2,1}\<close>.\<close>

definition reversed_state :: seq_state where
  "reversed_state = \<lparr>sq_rule = [elem GRETYPE_CHAR 97], sq_last_sym_start = 0, sq_parser = \<lparr>gp_symbol_ids = [([114, 111, 111, 116], 0)], gp_rules = []\<rparr>,
     sq_pos = [123, 50, 44, 49, 125]\<rparr>"

theorem reversed_repetition_out_of_bounds_witness:
  "parse_item (\<lambda>k pos p. throw []) None [114, 111, 111, 116] False reversed_state = Inl Out_of_bounds"
proof (rule reversed_repetition_out_of_bounds)
  show "seq_ok reversed_state"
    by (simp add: reversed_state_def seq_ok_def parser_ok_def ids_ok_def word_name_def is_word_char_def symbol_ok_def body_ok_def is_end_of_sequence_def adjacent_ok_def)
  show "word_name [114, 111, 111, 116]" by code_simp
  show "sq_last_sym_start reversed_state < length (sq_rule reversed_state)" "peek (sq_pos reversed_state) = 123" by (simp_all add: reversed_state_def)
  show "parse_braces False (sq_pos reversed_state) = Inr (2, 1, [])" by code_simp
qed simp_all

end
