(* ===== verification/Grammar_Repeat.thy ===== *)
theory Grammar_Repeat
  imports Grammar_Text
begin

text \<open>
  What the synthesized rules of repetitions mean. \<open>list_lang\<close> is the language of a list of elements over a set of rules, and agrees
  with \<open>seq_lang\<close> of a position (\<open>seq_lang_list\<close>); the languages of an optional copy, of a chain of them, and of a rule
  that refers to itself give the meaning of \<open>handle_repetitions\<close>.
\<close>

section \<open>The language of a list of elements\<close>

text \<open>
  What a list of elements derives, as the rest of an alternate: the meaning \<open>seq_lang\<close> of a position depends only on the
  elements that follow it. Beyond the end of a list stands an end element.
\<close>

definition hd_elem :: "llama_grammar_rule \<Rightarrow> llama_grammar_element" where
  "hd_elem es = (case es of [] \<Rightarrow> elem GRETYPE_END 0 | e # _ \<Rightarrow> e)"

abbreviation hd_type :: "llama_grammar_rule \<Rightarrow> llama_gretype" where
  "hd_type es \<equiv> ge_type (hd_elem es)"

lemma hd_elem_simps [simp]: "hd_elem [] = elem GRETYPE_END 0" "hd_elem (e # es) = e"
  by (simp_all add: hd_elem_def)

function list_match :: "nat \<Rightarrow> bool \<Rightarrow> llama_grammar_rule \<Rightarrow> bool \<times> llama_grammar_rule" where
  "list_match chr found es =
     (let (found, next) =
        (if hd_type (tl es) = GRETYPE_CHAR_RNG_UPPER
         then (found \<or> ge_value (hd_elem es) \<le> chr \<and> chr \<le> ge_value (hd_elem (tl es)), tl (tl es))
         else if hd_type es = GRETYPE_CHAR_ANY then (True, tl es)
         else (found \<or> ge_value (hd_elem es) = chr, tl es))
      in if hd_type next = GRETYPE_CHAR_ALT then list_match chr found next else (found, next))"
  by pat_completeness auto
termination
proof (relation "measure (\<lambda>(chr, found, es). length es)", goal_cases)
  case (2 chr found es x found' nxt)
  have "nxt = tl (tl es) \<or> nxt = tl es" "nxt \<noteq> []" using 2 by (auto split: if_splits)
  then show ?case by (cases es) auto
qed simp

declare list_match.simps [simp del]

definition list_match_char :: "llama_grammar_rule \<Rightarrow> nat \<Rightarrow> (bool \<times> llama_grammar_rule) outcome" where
  "list_match_char es chr = (let t = hd_type es; is_positive_char = (t = GRETYPE_CHAR \<or> t = GRETYPE_CHAR_ANY)
     in bind_outcome (guard (is_positive_char \<or> t = GRETYPE_CHAR_NOT)) (\<lambda>_.
        let (found, next) = list_match chr False es in Inr (found = is_positive_char, next)))"

inductive list_lang :: "llama_grammar_rules \<Rightarrow> llama_grammar_rule \<Rightarrow> nat list \<Rightarrow> bool" for rules where
  list_end: "is_end_of_sequence (hd_elem es) \<Longrightarrow> list_lang rules es []"
| list_ref: "hd_type es = GRETYPE_RULE_REF \<Longrightarrow> rule_lang rules (ge_value (hd_elem es)) u \<Longrightarrow> list_lang rules (tl es) v \<Longrightarrow> list_lang rules es (u @ v)"
| list_chr: "list_match_char es c = Inr (True, next) \<Longrightarrow> list_lang rules next w \<Longrightarrow> list_lang rules es (c # w)"

definition tail_of :: "llama_grammar_rules \<Rightarrow> element_ptr \<Rightarrow> llama_grammar_rule" where
  "tail_of rules pos = drop (snd pos) (rules ! fst pos)"

lemma hd_tail: "fst pos < length rules \<Longrightarrow> hd_elem (tail_of rules pos) = elem_at rules pos"
  unfolding tail_of_def
  by (cases pos) (simp add: hd_elem_def elem_at_def drop_Suc split: list.split, metis Cons_nth_drop_Suc drop_eq_Nil2 list.inject list.simps(3) not_less)

lemma tail_next: "tail_of rules (ptr_add pos 1) = tl (tail_of rules pos)" "tail_of rules (ptr_add pos (Suc 0)) = tl (tail_of rules pos)"
  "tail_of rules (ptr_add pos 2) = tl (tl (tail_of rules pos))"
  by (simp_all add: tail_of_def ptr_add_def tl_drop drop_Suc numeral_2_eq_2)

lemma fst_ptr_add [simp]: "fst (ptr_add pos k) = fst pos"
  by (simp add: ptr_add_def)

lemma match_char_loop_list:
  "fst pos < length rules \<Longrightarrow> match_char_loop rules c found pos = (f, pos') \<Longrightarrow> list_match c found (tail_of rules pos) = (f, tail_of rules pos') \<and> fst pos' = fst pos"
proof (induction rules c found pos rule: match_char_loop.induct)
  case (1 rules c found pos)
  let ?es = "tail_of rules pos"
  have e: "elem_at rules pos = hd_elem ?es" "elem_at rules (ptr_add pos 1) = hd_elem (tl ?es)"
    using hd_tail [of pos rules] hd_tail [of "ptr_add pos 1" rules] "1.prems"(1) tail_next by simp_all
  obtain f1 next1 where step: "(if type_at rules (ptr_add pos 1) = GRETYPE_CHAR_RNG_UPPER
         then (found \<or> value_at rules pos \<le> c \<and> c \<le> value_at rules (ptr_add pos 1), ptr_add pos 2)
         else if type_at rules pos = GRETYPE_CHAR_ANY then (True, ptr_add pos 1)
         else (found \<or> value_at rules pos = c, ptr_add pos 1)) = (f1, next1)" by (meson surj_pair)
  have next1: "fst next1 = fst pos" using step by (auto split: if_splits)
  have lstep: "(if hd_type (tl ?es) = GRETYPE_CHAR_RNG_UPPER
         then (found \<or> ge_value (hd_elem ?es) \<le> c \<and> c \<le> ge_value (hd_elem (tl ?es)), tl (tl ?es))
         else if hd_type ?es = GRETYPE_CHAR_ANY then (True, tl ?es)
         else (found \<or> ge_value (hd_elem ?es) = c, tl ?es)) = (f1, tail_of rules next1)"
    using step [unfolded e] by (simp add: tail_next split: if_splits) (auto simp: tail_next)
  have hd1: "hd_type (tail_of rules next1) = type_at rules next1" using hd_tail [of next1 rules] "1.prems"(1) next1 by simp
  have unfold1: "match_char_loop rules c found pos = (if type_at rules next1 = GRETYPE_CHAR_ALT then match_char_loop rules c f1 next1 else (f1, next1))"
    by (subst match_char_loop.simps) (simp only: step Let_def prod.case)
  have unfold2: "list_match c found ?es = (if hd_type (tail_of rules next1) = GRETYPE_CHAR_ALT then list_match c f1 (tail_of rules next1) else (f1, tail_of rules next1))"
    by (subst list_match.simps) (simp only: lstep Let_def prod.case)
  show ?case
  proof (cases "type_at rules next1 = GRETYPE_CHAR_ALT")
    case True
    then have "match_char_loop rules c f1 next1 = (f, pos')" using "1.prems"(2) unfold1 by simp
    then show ?thesis using "1.IH" [OF step [symmetric] refl True] "1.prems"(1) next1 unfold2 hd1 True by simp
  next
    case False
    then show ?thesis using "1.prems"(2) unfold1 unfold2 hd1 next1 by simp
  qed
qed

lemma match_char_list:
  assumes "fst pos < length rules"
  shows "match_char rules pos c = Inr (ok, pos') \<Longrightarrow> list_match_char (tail_of rules pos) c = Inr (ok, tail_of rules pos') \<and> fst pos' = fst pos"
    and "list_match_char (tail_of rules pos) c = Inr (ok, es) \<Longrightarrow> \<exists>pos'. match_char rules pos c = Inr (ok, pos') \<and> es = tail_of rules pos' \<and> fst pos' = fst pos"
proof -
  obtain f p where m: "match_char_loop rules c False pos = (f, p)" by (meson surj_pair)
  note l = match_char_loop_list [OF assms m]
  note defs = match_char_def list_match_char_def hd_tail [OF assms] Let_def m
  show "match_char rules pos c = Inr (ok, pos') \<Longrightarrow> list_match_char (tail_of rules pos) c = Inr (ok, tail_of rules pos') \<and> fst pos' = fst pos"
    using l by (auto simp: defs bind_outcome_Inr_iff)
  show "list_match_char (tail_of rules pos) c = Inr (ok, es) \<Longrightarrow> \<exists>pos'. match_char rules pos c = Inr (ok, pos') \<and> es = tail_of rules pos' \<and> fst pos' = fst pos"
    using l by (auto simp: defs bind_outcome_Inr_iff)
qed

lemma seq_lang_list:
  assumes "fst pos < length rules"
  shows "seq_lang rules pos w \<longleftrightarrow> list_lang rules (tail_of rules pos) w"
proof
  assume "seq_lang rules pos w"
  then show "list_lang rules (tail_of rules pos) w" using assms
  proof (induction rule: seq_lang.induct)
    case (seq_end pos)
    then show ?case by (intro list_end) (simp add: hd_tail)
  next
    case (seq_ref pos sub u v)
    have "rule_lang rules (ge_value (hd_elem (tail_of rules pos))) u"
      unfolding rule_lang_def hd_tail [OF seq_ref.prems] using seq_ref.hyps(2,3) by blast
    then show ?case using seq_ref.hyps(1) seq_ref.IH(2) seq_ref.prems by (intro list_ref) (simp_all add: hd_tail tail_next)
  next
    case (seq_chr pos c nxt w)
    then show ?case using match_char_list(1) [OF seq_chr.prems seq_chr.hyps(1)] list_chr by simp
  qed
next
  assume "list_lang rules (tail_of rules pos) w"
  then show "seq_lang rules pos w" using assms
  proof (induction "tail_of rules pos" w arbitrary: pos rule: list_lang.induct)
    case list_end
    then show ?case by (intro seq_end) (simp add: hd_tail)
  next
    case (list_ref u v)
    have "seq_lang rules (ptr_add pos 1) v" using list_ref.hyps(4) [of "ptr_add pos 1"] list_ref.prems by (simp add: tail_next)
    then show ?case using list_ref.hyps(1,2) list_ref.prems seq_ref [of rules pos] unfolding rule_lang_def by (auto simp: hd_tail)
  next
    case (list_chr c nxt w)
    then obtain pos' where "match_char rules pos c = Inr (True, pos')" "nxt = tail_of rules pos'" "fst pos' = fst pos"
      using match_char_list(2) [OF list_chr.prems list_chr.hyps(1)] by blast
    then show ?case using list_chr.hyps(3) [of pos'] list_chr.prems seq_chr by simp
  qed
qed

text \<open>Concatenation, when no class runs from one list into the other.\<close>

definition no_ends :: "llama_grammar_rule \<Rightarrow> bool" where
  "no_ends es \<longleftrightarrow> list_all (\<lambda>e. \<not> is_end_of_sequence e) es"

definition proper_head :: "llama_grammar_rule \<Rightarrow> bool" where
  "proper_head es \<longleftrightarrow> hd_type es \<notin> {GRETYPE_CHAR_ALT, GRETYPE_CHAR_RNG_UPPER}"

lemma list_match_append:
  "xs \<noteq> [] \<Longrightarrow> proper_head ys \<Longrightarrow> list_match c found xs = (f, nxt) \<Longrightarrow>
   list_match c found (xs @ ys) = (f, nxt @ ys) \<and> (\<exists>k > 0. nxt = drop k xs)"
proof (induction c found xs rule: list_match.induct)
  case (1 c found xs)
  have hd_: "hd_elem (xs @ ys) = hd_elem xs" "tl (xs @ ys) = tl xs @ ys" using "1.prems"(1) by (cases xs; simp)+
  have hd2: "hd_type (tl xs @ ys) = GRETYPE_CHAR_RNG_UPPER \<longleftrightarrow> hd_type (tl xs) = GRETYPE_CHAR_RNG_UPPER"
    "hd_type (tl xs) = GRETYPE_CHAR_RNG_UPPER \<Longrightarrow> hd_elem (tl xs @ ys) = hd_elem (tl xs) \<and> tl (tl xs @ ys) = tl (tl xs) @ ys"
    using "1.prems"(2) by (cases "tl xs"; simp add: proper_head_def)+
  obtain f1 next1 where step: "(if hd_type (tl xs) = GRETYPE_CHAR_RNG_UPPER
         then (found \<or> ge_value (hd_elem xs) \<le> c \<and> c \<le> ge_value (hd_elem (tl xs)), tl (tl xs))
         else if hd_type xs = GRETYPE_CHAR_ANY then (True, tl xs)
         else (found \<or> ge_value (hd_elem xs) = c, tl xs)) = (f1, next1)" by (meson surj_pair)
  have astep: "(if hd_type (tl (xs @ ys)) = GRETYPE_CHAR_RNG_UPPER
         then (found \<or> ge_value (hd_elem (xs @ ys)) \<le> c \<and> c \<le> ge_value (hd_elem (tl (xs @ ys))), tl (tl (xs @ ys)))
         else if hd_type (xs @ ys) = GRETYPE_CHAR_ANY then (True, tl (xs @ ys))
         else (found \<or> ge_value (hd_elem (xs @ ys)) = c, tl (xs @ ys))) = (f1, next1 @ ys)"
    using step hd2 unfolding hd_ by (auto split: if_splits)
  have drop1: "\<exists>k > 0. next1 = drop k xs" using step by (intro exI [of _ "if hd_type (tl xs) = GRETYPE_CHAR_RNG_UPPER then 2 else 1"])
      (auto simp: drop_Suc numeral_2_eq_2 split: if_splits)
  have same: "hd_type (next1 @ ys) = GRETYPE_CHAR_ALT \<longleftrightarrow> hd_type next1 = GRETYPE_CHAR_ALT" using "1.prems"(2) by (cases next1) (auto simp: proper_head_def)
  have unfold1: "list_match c found xs = (if hd_type next1 = GRETYPE_CHAR_ALT then list_match c f1 next1 else (f1, next1))"
    by (subst list_match.simps) (simp only: step Let_def prod.case)
  have unfold2: "list_match c found (xs @ ys) = (if hd_type (next1 @ ys) = GRETYPE_CHAR_ALT then list_match c f1 (next1 @ ys) else (f1, next1 @ ys))"
    by (subst list_match.simps) (simp only: astep Let_def prod.case)
  show ?case
  proof (cases "hd_type next1 = GRETYPE_CHAR_ALT")
    case True
    then have "next1 \<noteq> []" by auto
    moreover have "list_match c f1 next1 = (f, nxt)" using "1.prems"(3) unfold1 True by simp
    ultimately have ih: "list_match c f1 (next1 @ ys) = (f, nxt @ ys) \<and> (\<exists>k > 0. nxt = drop k next1)"
      using "1.IH" [OF step [symmetric] refl True _ "1.prems"(2)] by simp
    then obtain k j where "k > 0" "nxt = drop k next1" "next1 = drop j xs" using drop1 by blast
    then have "nxt = drop (k + j) xs" "k + j > 0" by simp_all
    then show ?thesis using ih unfold2 same True by auto
  next
    case False
    then show ?thesis using "1.prems"(3) unfold1 unfold2 same drop1 by simp
  qed
qed

lemma list_lang_end: "is_end_of_sequence (hd_elem es) \<Longrightarrow> list_lang rules es w \<longleftrightarrow> w = []"
  by (subst list_lang.simps) (auto simp: list_match_char_def is_end_of_sequence_def guard_def Let_def split: if_splits)

lemma list_lang_Nil [simp]: "list_lang rules [] w \<longleftrightarrow> w = []"
  by (rule list_lang_end) (simp add: is_end_of_sequence_def)

lemma list_lang_ref: "hd_type es = GRETYPE_RULE_REF \<Longrightarrow>
    list_lang rules es w \<longleftrightarrow> (\<exists>u v. w = u @ v \<and> rule_lang rules (ge_value (hd_elem es)) u \<and> list_lang rules (tl es) v)"
  by (subst list_lang.simps) (auto simp: list_match_char_def is_end_of_sequence_def guard_def Let_def split: if_splits)

lemma list_lang_class: "hd_type es \<noteq> GRETYPE_RULE_REF \<Longrightarrow> \<not> is_end_of_sequence (hd_elem es) \<Longrightarrow>
    list_lang rules es w \<longleftrightarrow> (\<exists>c nxt v. w = c # v \<and> list_match_char es c = Inr (True, nxt) \<and> list_lang rules nxt v)"
  by (subst list_lang.simps) auto

lemma list_match_char_append:
  assumes "xs \<noteq> []" "proper_head ys"
  shows "list_match_char (xs @ ys) c = Inr (True, nxt) \<longleftrightarrow> (\<exists>n. list_match_char xs c = Inr (True, n) \<and> nxt = n @ ys)"
    and "list_match_char xs c = Inr (ok, n) \<Longrightarrow> \<exists>k > 0. n = drop k xs"
proof -
  obtain f n where m: "list_match c False xs = (f, n)" by (meson surj_pair)
  have hd_: "hd_elem (xs @ ys) = hd_elem xs" using assms(1) by (cases xs) simp_all
  note app = list_match_append [OF assms m]
  show "list_match_char (xs @ ys) c = Inr (True, nxt) \<longleftrightarrow> (\<exists>n. list_match_char xs c = Inr (True, n) \<and> nxt = n @ ys)"
    using app m by (auto simp: list_match_char_def hd_ Let_def bind_outcome_Inr_iff)
  show "list_match_char xs c = Inr (ok, n) \<Longrightarrow> \<exists>k > 0. n = drop k xs" for ok n
    using app m by (auto simp: list_match_char_def Let_def bind_outcome_Inr_iff)
qed

lemma list_lang_append:
  "no_ends xs \<Longrightarrow> proper_head ys \<Longrightarrow> list_lang rules (xs @ ys) w \<longleftrightarrow> (\<exists>u v. w = u @ v \<and> list_lang rules xs u \<and> list_lang rules ys v)"
proof (induction "length xs" arbitrary: xs w rule: less_induct)
  case less
  show ?case
  proof (cases "xs = []")
    case False
    then have hd_: "hd_elem (xs @ ys) = hd_elem xs" "tl (xs @ ys) = tl xs @ ys" "\<not> is_end_of_sequence (hd_elem xs)"
      using less.prems(1) by (cases xs; simp add: no_ends_def)+
    show ?thesis
    proof (cases "hd_type xs = GRETYPE_RULE_REF")
      case True
      have "length (tl xs) < length xs" "no_ends (tl xs)" using False less.prems(1) by (cases xs; simp add: no_ends_def)+
      note ih = less.hyps [OF this less.prems(2)]
      have "list_lang rules (xs @ ys) w \<longleftrightarrow> (\<exists>u v. w = u @ v \<and> rule_lang rules (ge_value (hd_elem xs)) u \<and> (\<exists>a b. v = a @ b \<and> list_lang rules (tl xs) a \<and> list_lang rules ys b))"
        using list_lang_ref [of "xs @ ys" rules w] True by (simp add: hd_ ih)
      also have "\<dots> \<longleftrightarrow> (\<exists>u v. w = u @ v \<and> list_lang rules xs u \<and> list_lang rules ys v)"
        unfolding list_lang_ref [OF True] by (metis append_assoc)
      finally show ?thesis .
    next
      case no_ref: False
      have cls: "list_lang rules (xs @ ys) w \<longleftrightarrow> (\<exists>c nxt v. w = c # v \<and> (\<exists>n. list_match_char xs c = Inr (True, n) \<and> nxt = n @ ys) \<and> list_lang rules nxt v)"
        using list_lang_class [of "xs @ ys"] no_ref hd_(3) unfolding hd_ list_match_char_append(1) [OF False less.prems(2)] by simp
      have ih: "list_lang rules (n @ ys) v \<longleftrightarrow> (\<exists>a b. v = a @ b \<and> list_lang rules n a \<and> list_lang rules ys b)" if m: "list_match_char xs c = Inr (True, n)" for c n v
      proof (rule less.hyps [OF _ _ less.prems(2)])
        obtain k where k: "k > 0" "n = drop k xs" using list_match_char_append(2) [OF False less.prems(2) m] by blast
        then show "length n < length xs" using False by (cases xs) simp_all
        show "no_ends n" using less.prems(1) k(2) by (auto simp: no_ends_def list_all_iff dest: in_set_dropD)
      qed
      have "list_lang rules (xs @ ys) w \<longleftrightarrow> (\<exists>c n a b. w = c # a @ b \<and> list_match_char xs c = Inr (True, n) \<and> list_lang rules n a \<and> list_lang rules ys b)"
        unfolding cls using ih by blast
      also have "\<dots> \<longleftrightarrow> (\<exists>u v. w = u @ v \<and> list_lang rules xs u \<and> list_lang rules ys v)"
        unfolding list_lang_class [OF no_ref hd_(3)] by (metis append_Cons)
      finally show ?thesis .
    qed
  qed simp
qed

section \<open>Repetitions\<close>

text \<open>The rule of the optional copies, with \<open>tail\<close> nothing or a reference.\<close>

lemma hd_append: "hd_elem (xs @ ys) = (if xs = [] then hd_elem ys else hd_elem xs)"
  by (cases xs) simp_all

lemma optional_alternates:
  assumes "r < length rules" "rules ! r = body @ [elem GRETYPE_ALT 0, elem GRETYPE_END 0]" "no_ends body"
  shows "alt_starts rules (r, 0) = [(r, 0), (r, Suc (length body))]"
proof -
  have at: "elem_at rules (r, length body) = elem GRETYPE_ALT 0" "elem_at rules (r, Suc (length body)) = elem GRETYPE_END 0"
    using assms(1,2) by (simp_all add: elem_at_def nth_append)
  have inside: "\<not> ends_at rules (r, i)" if "i < length body" for i
    using assms that by (simp add: elem_at_def nth_append no_ends_def list_all_length)
  have scan: "scan_end rules (r, i) = (r, length body)" if "i \<le> length body" for i
    using that
  proof (induction "length body - i" arbitrary: i)
    case 0
    then have i: "i = length body" by simp
    show ?case unfolding i by (subst scan_end.simps) (simp add: at is_end_of_sequence_def)
  next
    case (Suc k)
    then show ?case using inside [of i] by (subst scan_end.simps) (simp add: ptr_add_def)
  qed
  have "scan_end rules (r, Suc (length body)) = (r, Suc (length body))" by (subst scan_end.simps) (simp add: at is_end_of_sequence_def)
  then have "alt_starts rules (r, Suc (length body)) = [(r, Suc (length body))]" by (subst alt_starts.simps) (simp add: at)
  then show ?thesis using scan [of 0] by (subst alt_starts.simps) (simp add: at ptr_add_def)
qed

lemma optional_rule:
  assumes "r < length rules" "rules ! r = (S @ tail) @ [elem GRETYPE_ALT 0, elem GRETYPE_END 0]" "no_ends (S @ tail)" "proper_head (tail @ [elem GRETYPE_ALT 0])"
  shows "rule_lang rules r w \<longleftrightarrow> w = [] \<or> (\<exists>u v. w = u @ v \<and> list_lang rules S u \<and> list_lang rules tail v)"
proof -
  let ?fin = "[elem GRETYPE_ALT 0, elem GRETYPE_END 0]"
  have fin: "is_end_of_sequence (hd_elem ?fin)" "proper_head ?fin" by (simp_all add: is_end_of_sequence_def proper_head_def)
  have "seq_lang rules (r, Suc (length (S @ tail))) w \<longleftrightarrow> w = []"
    by (rule seq_lang_end) (use assms(1,2) in \<open>simp add: elem_at_def nth_append is_end_of_sequence_def\<close>)
  moreover have "seq_lang rules (r, 0) w \<longleftrightarrow> list_lang rules (S @ tail @ ?fin) w"
    using seq_lang_list [of "(r, 0)" rules w] assms(1,2) by (simp add: tail_of_def)
  moreover have "list_lang rules (S @ tail @ ?fin) w \<longleftrightarrow> (\<exists>u v. w = u @ v \<and> list_lang rules S u \<and> list_lang rules (tail @ ?fin) v)"
    by (rule list_lang_append) (use assms(3,4) in \<open>simp_all add: no_ends_def proper_head_def hd_append split: if_splits\<close>)
  moreover have "list_lang rules (tail @ ?fin) v \<longleftrightarrow> list_lang rules tail v" for v
    using list_lang_append [of tail ?fin rules v] assms(3) fin(2) list_lang_end [OF fin(1)] by (simp add: no_ends_def)
  ultimately show ?thesis unfolding rule_lang_def optional_alternates [OF assms(1-3)] by auto
qed

fun lang_power :: "(nat list \<Rightarrow> bool) \<Rightarrow> nat \<Rightarrow> nat list \<Rightarrow> bool" where
  "lang_power L 0 w \<longleftrightarrow> w = []"
| "lang_power L (Suc k) w \<longleftrightarrow> (\<exists>u v. w = u @ v \<and> L u \<and> lang_power L k v)"

lemma list_lang_reference: "list_lang rules [elem GRETYPE_RULE_REF q] w \<longleftrightarrow> rule_lang rules q w"
  by (subst list_lang_ref) simp_all

text \<open>Without an upper bound: the rule refers to itself.\<close>

lemma star_step:
  assumes "r < length rules" "rules ! r = (S @ [elem GRETYPE_RULE_REF r]) @ [elem GRETYPE_ALT 0, elem GRETYPE_END 0]" "no_ends S"
  shows "rule_lang rules r w \<longleftrightarrow> w = [] \<or> (\<exists>u v. w = u @ v \<and> list_lang rules S u \<and> rule_lang rules r v)"
proof -
  have "no_ends (S @ [elem GRETYPE_RULE_REF r])" using assms(3) by (simp add: no_ends_def is_end_of_sequence_def)
  moreover have "proper_head ([elem GRETYPE_RULE_REF r] @ [elem GRETYPE_ALT 0])" by (simp add: proper_head_def)
  ultimately have "rule_lang rules r w \<longleftrightarrow> w = [] \<or> (\<exists>u v. w = u @ v \<and> list_lang rules S u \<and> list_lang rules [elem GRETYPE_RULE_REF r] v)"
    by (rule optional_rule [OF assms(1,2)])
  then show ?thesis by (simp only: list_lang_reference)
qed

lemma star_covers:
  assumes "r < length rules" "rules ! r = (S @ [elem GRETYPE_RULE_REF r]) @ [elem GRETYPE_ALT 0, elem GRETYPE_END 0]" "no_ends S"
  shows "lang_power (list_lang rules S) k w \<Longrightarrow> rule_lang rules r w"
proof (induction k arbitrary: w)
  case 0
  then show ?case by (intro iffD2 [OF star_step [OF assms]]) simp
next
  case (Suc k)
  then show ?case by (intro iffD2 [OF star_step [OF assms]]) auto
qed

lemma star_only_list:
  assumes "r < length rules" "rules ! r = (S @ [elem GRETYPE_RULE_REF r]) @ [elem GRETYPE_ALT 0, elem GRETYPE_END 0]" "no_ends S"
  shows "seq_lang rules pos w \<Longrightarrow> fst pos = r \<Longrightarrow> snd pos \<le> length S \<Longrightarrow>
    \<exists>u v k. w = u @ v \<and> list_lang rules (drop (snd pos) S) u \<and> lang_power (list_lang rules S) k v"
proof (induction rule: seq_lang.induct)
  case (seq_end pos)
  have "\<not> is_end_of_sequence (hd_elem (tail_of rules pos))"
  proof (cases "drop (snd pos) S")
    case Nil
    then show ?thesis using assms(2) seq_end.prems by (simp add: tail_of_def is_end_of_sequence_def)
  next
    case (Cons a as)
    then have "a \<in> set S" by (metis in_set_dropD list.set_intros(1))
    then show ?thesis using assms(2,3) seq_end.prems Cons by (simp add: tail_of_def no_ends_def list_all_iff)
  qed
  then show ?case using seq_end.hyps hd_tail [of pos rules] seq_end.prems assms(1) by simp
next
  case (seq_ref pos sub a b)
  have tail: "tail_of rules pos = drop (snd pos) S @ [elem GRETYPE_RULE_REF r, elem GRETYPE_ALT 0, elem GRETYPE_END 0]"
    using assms(2) seq_ref.prems by (simp add: tail_of_def)
  have hd_: "elem_at rules pos = hd_elem (tail_of rules pos)" using hd_tail [of pos rules] seq_ref.prems(1) assms(1) by simp
  show ?case
  proof (cases "snd pos = length S")
    case True
    then have "value_at rules pos = r" by (simp add: hd_ tail)
    then have sub: "sub = (r, 0) \<or> sub = (r, Suc (length (S @ [elem GRETYPE_RULE_REF r])))"
      using seq_ref.hyps(2) optional_alternates [OF assms(1,2)] assms(3) by (simp add: no_ends_def is_end_of_sequence_def)
    have "ends_at rules (ptr_add pos 1)" using True seq_ref.prems(1) assms(1,2) by (cases pos) (simp add: ptr_add_def elem_at_def nth_append is_end_of_sequence_def)
    then have "b = []" using seq_ref.hyps(4) seq_lang_end by blast
    have "\<exists>k. lang_power (list_lang rules S) k a"
    proof (cases "sub = (r, 0)")
      case True
      then obtain u v k where "a = u @ v" "list_lang rules S u" "lang_power (list_lang rules S) k v" using seq_ref.IH(1) by auto
      then show ?thesis by (intro exI [of _ "Suc k"]) auto
    next
      case False
      then have "sub = (r, Suc (Suc (length S)))" using sub by simp
      then have "ends_at rules sub" using assms(1,2) by (simp add: elem_at_def nth_append is_end_of_sequence_def)
      then have "a = []" using seq_ref.hyps(3) seq_lang_end by blast
      then show ?thesis by (intro exI [of _ 0]) simp
    qed
    then show ?thesis using True \<open>b = []\<close> by auto
  next
    case False
    then have lt: "snd pos < length S" using seq_ref.prems(2) by simp
    then have e: "drop (snd pos) S = elem_at rules pos # drop (Suc (snd pos)) S" by (simp add: hd_ tail flip: Cons_nth_drop_Suc)
    obtain u v k where u: "b = u @ v" "list_lang rules (drop (Suc (snd pos)) S) u" "lang_power (list_lang rules S) k v"
      using seq_ref.IH(2) seq_ref.prems(1) lt by (auto simp: ptr_add_def)
    have "rule_lang rules (value_at rules pos) a" using seq_ref.hyps(2,3) unfolding rule_lang_def by blast
    then have "list_lang rules (drop (snd pos) S) (a @ u)" unfolding e using u(2) seq_ref.hyps(1) by (intro list_ref) simp_all
    then show ?thesis using u(1,3) by (intro exI [of _ "a @ u"] exI [of _ v] exI [of _ k]) simp
  qed
next
  case (seq_chr pos c nxt w)
  have r: "fst pos < length rules" using seq_chr.prems(1) assms(1) by simp
  let ?fin = "[elem GRETYPE_RULE_REF r, elem GRETYPE_ALT 0, elem GRETYPE_END 0]"
  have tail: "tail_of rules pos = drop (snd pos) S @ ?fin" using assms(2) seq_chr.prems by (simp add: tail_of_def)
  have ne: "drop (snd pos) S \<noteq> []"
  proof
    assume "drop (snd pos) S = []"
    then have "hd_elem (tail_of rules pos) = elem GRETYPE_RULE_REF r" unfolding tail by simp
    then have "type_at rules pos = GRETYPE_RULE_REF" unfolding hd_tail [OF r] by simp
    then show False using match_char_class [OF seq_chr.hyps(1)] by (simp add: is_char_class_def)
  qed
  have fin: "proper_head ?fin" by (simp add: proper_head_def)
  have m: "list_match_char (drop (snd pos) S @ ?fin) c = Inr (True, tail_of rules nxt)" "fst nxt = fst pos"
    using match_char_list(1) [OF r seq_chr.hyps(1)] unfolding tail by blast+
  then obtain n where n: "list_match_char (drop (snd pos) S) c = Inr (True, n)" "tail_of rules nxt = n @ ?fin"
    unfolding list_match_char_append(1) [OF ne fin] by blast
  obtain j where j: "n = drop j (drop (snd pos) S)" using list_match_char_append(2) [OF ne fin n(1)] by blast
  have len: "length (tail_of rules nxt) = length (rules ! r) - snd nxt" using m(2) seq_chr.prems(1) by (simp add: tail_of_def)
  have "length n + 3 = length S + 3 - snd nxt" using len n(2) assms(2) by simp
  moreover have "length n \<le> length S" using j by simp
  ultimately have snd: "snd nxt \<le> length S" "length n = length S - snd nxt" by linarith+
  have "n = drop (snd nxt) S"
    using n(2) m(2) seq_chr.prems(1) assms(2) snd(1) by (simp add: tail_of_def)
  then obtain u v k where "w = u @ v" "list_lang rules n u" "lang_power (list_lang rules S) k v"
    using seq_chr.IH m(2) seq_chr.prems(1) snd(1) by auto
  then show ?case using list_chr [OF n(1)] by (intro exI [of _ "c # u"] exI [of _ v] exI [of _ k]) simp
qed

lemma star_rule:
  assumes "r < length rules" "rules ! r = (S @ [elem GRETYPE_RULE_REF r]) @ [elem GRETYPE_ALT 0, elem GRETYPE_END 0]" "no_ends S"
  shows "rule_lang rules r w \<longleftrightarrow> (\<exists>k. lang_power (list_lang rules S) k w)"
proof
  assume "rule_lang rules r w"
  then consider "w = []" | u v where "w = u @ v" "list_lang rules S u" "rule_lang rules r v" using star_step [OF assms] by blast
  then show "\<exists>k. lang_power (list_lang rules S) k w"
  proof cases
    case 1
    then show ?thesis by (intro exI [of _ 0]) simp
  next
    case 2
    then have "list_lang rules (S @ [elem GRETYPE_RULE_REF r, elem GRETYPE_ALT 0, elem GRETYPE_END 0]) w"
      using list_lang_append [OF assms(3), of "[elem GRETYPE_RULE_REF r, elem GRETYPE_ALT 0, elem GRETYPE_END 0]" rules w]
        list_lang_ref [of "[elem GRETYPE_RULE_REF r, elem GRETYPE_ALT 0, elem GRETYPE_END 0]" rules v]
      by (auto simp: proper_head_def list_lang_end is_end_of_sequence_def)
    then have "seq_lang rules (r, 0) w" using seq_lang_list [of "(r, 0)" rules w] assms(1,2) by (simp add: tail_of_def)
    from star_only_list [OF assms this] obtain u v k where "w = u @ v" "list_lang rules S u" "lang_power (list_lang rules S) k v" by auto
    then show ?thesis by (intro exI [of _ "Suc k"]) auto
  qed
qed (use star_covers [OF assms] in blast)

text \<open>With an upper bound: a chain of rules, each for one copy more.\<close>

lemma chain_rule:
  assumes "no_ends S" "proper_head S"
    and "\<And>i. i < n \<Longrightarrow> N + i < length rules \<and> rules ! (N + i) = (S @ (if i = 0 then [] else [elem GRETYPE_RULE_REF (N + i - 1)])) @ [elem GRETYPE_ALT 0, elem GRETYPE_END 0]"
  shows "i < n \<Longrightarrow> rule_lang rules (N + i) w \<longleftrightarrow> (\<exists>k \<le> Suc i. lang_power (list_lang rules S) k w)"
proof (induction i arbitrary: w)
  case 0
  have "rule_lang rules N w \<longleftrightarrow> w = [] \<or> (\<exists>u v. w = u @ v \<and> list_lang rules S u \<and> list_lang rules [] v)"
    by (rule optional_rule [where tail = "[]"]) (use assms(1) assms(3) [of 0] 0 in \<open>simp_all add: proper_head_def\<close>)
  also have "\<dots> \<longleftrightarrow> lang_power (list_lang rules S) 0 w \<or> lang_power (list_lang rules S) (Suc 0) w" by simp
  also have "\<dots> \<longleftrightarrow> (\<exists>k \<le> Suc 0. lang_power (list_lang rules S) k w)" by (metis le_Suc_eq le_zero_eq)
  finally show ?case by simp
next
  case (Suc i)
  have "rule_lang rules (N + Suc i) w \<longleftrightarrow> w = [] \<or> (\<exists>u v. w = u @ v \<and> list_lang rules S u \<and> list_lang rules [elem GRETYPE_RULE_REF (N + i)] v)"
    by (rule optional_rule) (use assms(1) assms(3) [of "Suc i"] Suc.prems in \<open>simp_all add: proper_head_def no_ends_def is_end_of_sequence_def\<close>)
  also have "\<dots> \<longleftrightarrow> w = [] \<or> (\<exists>u v. w = u @ v \<and> list_lang rules S u \<and> (\<exists>k \<le> Suc i. lang_power (list_lang rules S) k v))"
    using Suc.IH Suc.prems by (simp add: list_lang_reference)
  also have "\<dots> \<longleftrightarrow> (\<exists>k \<le> Suc (Suc i). lang_power (list_lang rules S) k w)"
  proof
    assume "w = [] \<or> (\<exists>u v. w = u @ v \<and> list_lang rules S u \<and> (\<exists>k \<le> Suc i. lang_power (list_lang rules S) k v))"
    then show "\<exists>k \<le> Suc (Suc i). lang_power (list_lang rules S) k w"
    proof (elim disjE exE conjE)
      show "w = [] \<Longrightarrow> ?thesis" by (intro exI [of _ 0]) simp
      fix u v k assume "w = u @ v" "list_lang rules S u" "k \<le> Suc i" "lang_power (list_lang rules S) k v"
      then show ?thesis by (intro exI [of _ "Suc k"]) auto
    qed
  next
    assume "\<exists>k \<le> Suc (Suc i). lang_power (list_lang rules S) k w"
    then obtain k where "k \<le> Suc (Suc i)" "lang_power (list_lang rules S) k w" by blast
    then show "w = [] \<or> (\<exists>u v. w = u @ v \<and> list_lang rules S u \<and> (\<exists>k \<le> Suc i. lang_power (list_lang rules S) k v))"
      by (cases k) auto
  qed
  finally show ?case .
qed

lemma lang_power_add: "lang_power L (m + k) w \<longleftrightarrow> (\<exists>u v. w = u @ v \<and> lang_power L m u \<and> lang_power L k v)"
proof (induction m arbitrary: w)
  case (Suc m)
  have "lang_power L (Suc m + k) w \<longleftrightarrow> (\<exists>a b c. w = a @ b @ c \<and> L a \<and> lang_power L m b \<and> lang_power L k c)" using Suc.IH by auto
  also have "\<dots> \<longleftrightarrow> (\<exists>u v. w = u @ v \<and> lang_power L (Suc m) u \<and> lang_power L k v)" by (simp, metis append_assoc)
  finally show ?case .
qed simp

lemma copies_lang:
  assumes "no_ends S" "proper_head S" "S \<noteq> []" "proper_head ys"
  shows "list_lang rules (concat (replicate m S) @ ys) w \<longleftrightarrow> (\<exists>u v. w = u @ v \<and> lang_power (list_lang rules S) m u \<and> list_lang rules ys v)"
proof (induction m arbitrary: w)
  case (Suc m)
  have "proper_head (concat (replicate m S) @ ys)" using assms(2-4) by (cases m) (auto simp: proper_head_def hd_append)
  then have "list_lang rules (S @ concat (replicate m S) @ ys) w \<longleftrightarrow> (\<exists>a b. w = a @ b \<and> list_lang rules S a \<and> list_lang rules (concat (replicate m S) @ ys) b)"
    by (rule list_lang_append [OF assms(1)])
  also have "\<dots> \<longleftrightarrow> (\<exists>a b c. w = a @ b @ c \<and> list_lang rules S a \<and> lang_power (list_lang rules S) m b \<and> list_lang rules ys c)" using Suc.IH by auto
  also have "\<dots> \<longleftrightarrow> (\<exists>u v. w = u @ v \<and> lang_power (list_lang rules S) (Suc m) u \<and> list_lang rules ys v)" by (simp, metis append_assoc)
  finally show ?case by simp
qed simp

text \<open>What \<open>rep_rules\<close> leaves in the rules.\<close>

definition rep_rule :: "llama_grammar_rule \<Rightarrow> bool \<Rightarrow> bool \<Rightarrow> nat \<Rightarrow> nat \<Rightarrow> llama_grammar_rule" where
  "rep_rule prev no_max first own before = (prev @ (if \<not> first \<or> no_max then [elem GRETYPE_RULE_REF (if no_max then own else before)] else [])) @
     [elem GRETYPE_ALT 0, elem GRETYPE_END 0]"

lemma add_rule_nth:
  assumes "add_rule k rule p = Inr p'" "Suc k < 2 ^ 32"
  shows "k < length (gp_rules p') \<and> gp_rules p' ! k = rule \<and>
    (\<forall>j < length (gp_rules p). j < length (gp_rules p') \<and> (j \<noteq> k \<longrightarrow> gp_rules p' ! j = gp_rules p ! j))"
proof -
  have k: "(k + 1) mod 2 ^ 32 = k + 1" using assms(2) by simp
  show ?thesis using assms(1) unfolding add_rule_def Let_def k by (auto simp: vec_resize_def nth_append split: if_splits)
qed

lemma rep_rules_content:
  "parser_ok p \<Longrightarrow> word_name name \<Longrightarrow> body_ok (n_symbols p) prev \<Longrightarrow> first \<or> lst < n_symbols p \<Longrightarrow> rep_rules name prev no_max n first lst p = Inr (k, p') \<Longrightarrow>
   (n > 0 \<longrightarrow> k = n_symbols p + n - 1) \<and>
   (\<forall>j < length (gp_rules p). j < n_symbols p \<longrightarrow> j < length (gp_rules p') \<and> gp_rules p' ! j = gp_rules p ! j) \<and>
   (\<forall>i < n. n_symbols p + i < length (gp_rules p') \<and>
      gp_rules p' ! (n_symbols p + i) = rep_rule prev no_max (first \<and> i = 0) (n_symbols p + i) (if i = 0 then lst else n_symbols p + i - 1))"
proof (induction n arbitrary: first lst p)
  case (Suc n)
  let ?N = "n_symbols p"
  obtain rec_id p1 where g: "generate_symbol_id name p = (rec_id, p1)" by (cases "generate_symbol_id name p")
  have more: "Suc ?N < 2 ^ 32" using rep_rules_ok [OF Suc.prems] by (auto simp: parser_ok_def)
  then have ok: "rec_id = ?N" "n_symbols p1 = Suc ?N" "gp_rules p1 = gp_rules p" "parser_ok p1" "rec_id < n_symbols p1"
    using generate_symbol_id_ok [OF Suc.prems(1,2) g] by simp_all
  note rec_id = ok(1)
  define body where "body = prev @ (if \<not> first \<or> no_max then [elem GRETYPE_RULE_REF (if no_max then rec_id else lst)] else []) @ [elem GRETYPE_ALT 0]"
  let ?rule = "body @ [elem GRETYPE_END 0]"
  have "body_ok (n_symbols p1) body"
    unfolding body_def using Suc.prems(3,4) ok by (intro body_ok_append) (auto intro: body_ok_mono body_ok_single)
  then obtain p2 where add: "add_rule rec_id ?rule p1 = Inr p2" and p2: "parser_ok p2" "n_symbols p2 = Suc ?N"
    using add_rule_ok [OF ok(4) _ ok(5)] ok(2) by metis
  have rest: "rep_rules name prev no_max n False rec_id p2 = Inr (k, p')"
    using Suc.prems(5) add by (simp add: g Let_def body_def)
  have len: "?N < length (gp_rules p2)" "gp_rules p2 ! ?N = rep_rule prev no_max first ?N lst"
    "\<And>j. j < length (gp_rules p) \<Longrightarrow> j < ?N \<Longrightarrow> j < length (gp_rules p2) \<and> gp_rules p2 ! j = gp_rules p ! j"
    using add_rule_nth [OF add] ok(3) more by (simp_all add: rec_id rep_rule_def body_def)
  have "body_ok (n_symbols p2) prev" using Suc.prems(3) p2(2) by (simp add: body_ok_mono)
  from Suc.IH [OF p2(1) Suc.prems(2) this _ rest] rec_id p2(2)
  have ih: "n > 0 \<longrightarrow> k = Suc ?N + n - 1"
    "\<forall>j < length (gp_rules p2). j < Suc ?N \<longrightarrow> j < length (gp_rules p') \<and> gp_rules p' ! j = gp_rules p2 ! j"
    "\<forall>i < n. Suc ?N + i < length (gp_rules p') \<and>
      gp_rules p' ! (Suc ?N + i) = rep_rule prev no_max False (Suc ?N + i) (if i = 0 then ?N else Suc ?N + i - 1)" by simp_all
  have "k = ?N + Suc n - 1" using ih(1) rest rec_id by (cases n) simp_all
  moreover have "j < length (gp_rules p') \<and> gp_rules p' ! j = gp_rules p ! j" if "j < length (gp_rules p)" "j < ?N" for j
    using ih(2) len(3) [OF that] that(2) by simp
  moreover have "?N + i < length (gp_rules p') \<and>
      gp_rules p' ! (?N + i) = rep_rule prev no_max (first \<and> i = 0) (?N + i) (if i = 0 then lst else ?N + i - 1)" if "i < Suc n" for i
  proof (cases i)
    case 0
    then show ?thesis using ih(2) len(1,2) by simp
  next
    case (Suc j)
    then show ?thesis using ih(3) that by (cases j) auto
  qed
  ultimately show ?case by blast
qed simp

lemma body_proper_head: "body_ok n es \<Longrightarrow> proper_head es"
  by (cases es) (auto simp: body_ok_def adjacent_ok_def proper_head_def)

text \<open>What \<open>handle_repetitions\<close> leaves after the start of the last symbol: copies, and a reference to the optional ones.\<close>

lemma handle_repetitions_tail:
  assumes "seq_ok s" "word_name name" "S = drop (sq_last_sym_start s) (sq_rule s)" "handle_repetitions name mn mx s = Inr s'"
  shows "S \<noteq> [] \<and> (\<exists>k. rep_rules name S (mx = UINT64_MAX) (n_optional mn mx) True 0 (sq_parser s) = Inr (k, sq_parser s') \<and>
    drop (sq_last_sym_start s) (sq_rule s') = concat (replicate mn S) @ (if n_optional mn mx > 0 then [elem GRETYPE_RULE_REF k] else []))"
proof -
  let ?l = "sq_last_sym_start s"
  have l: "?l \<le> length (sq_rule s)" using assms(1) by (simp add: seq_ok_def)
  have ne: "?l \<noteq> length (sq_rule s)" using assms(4) by (auto simp: handle_repetitions_def Let_def throw_def)
  obtain k p where rep: "rep_rules name S (mx = UINT64_MAX) (n_optional mn mx) True 0 (sq_parser s) = Inr (k, p)"
    using assms(4) ne by (auto simp: handle_repetitions_def Let_def assms(3) bind_outcome_Inr_iff)
  let ?tail = "if n_optional mn mx > 0 then [elem GRETYPE_RULE_REF k] else []"
  have s': "s' = s\<lparr>sq_rule := (if mn = 0 then take ?l (sq_rule s) else sq_rule s @ concat (replicate (mn - 1) S)) @ ?tail, sq_parser := p\<rparr>"
    using assms(4) ne rep unfolding handle_repetitions_def Let_def assms(3) [symmetric] by simp
  have "drop ?l (sq_rule s') = concat (replicate mn S) @ ?tail"
    using l by (cases mn) (simp_all add: s' assms(3))
  then show ?thesis using rep l ne assms(3) by (auto simp: s')
qed

text \<open>
  C23. What a repetition means: after \<open>handle_repetitions\<close> for \<open>S{m,n}\<close> (\<open>S*\<close>, \<open>S+\<close> and \<open>S?\<close> among them, without an upper bound
  for \<open>UINT64_MAX\<close>), the elements that stand in for the symbol derive, over all rules that have its new rules, just the
  concatenations of \<open>k\<close> texts of \<open>S\<close> with \<open>m \<le> k \<le> n\<close>.
\<close>

theorem repetition_meaning:
  assumes "seq_ok s" "word_name name" "S = drop (sq_last_sym_start s) (sq_rule s)"
    and "handle_repetitions name mn mx s = Inr s'" "mn \<le> mx" "mx \<le> UINT64_MAX"
    and "\<forall>i. n_symbols (sq_parser s) \<le> i \<and> i < n_symbols (sq_parser s') \<longrightarrow> i < length rules \<and> rules ! i = gp_rules (sq_parser s') ! i"
  shows "list_lang rules (drop (sq_last_sym_start s) (sq_rule s')) w \<longleftrightarrow>
    (\<exists>k \<ge> mn. (mx = UINT64_MAX \<or> k \<le> mx) \<and> lang_power (list_lang rules S) k w)"
proof -
  let ?N = "n_symbols (sq_parser s)" and ?n = "n_optional mn mx" and ?L = "list_lang rules S"
  obtain k where S: "S \<noteq> []" and rep: "rep_rules name S (mx = UINT64_MAX) ?n True 0 (sq_parser s) = Inr (k, sq_parser s')"
    and rule: "drop (sq_last_sym_start s) (sq_rule s') = concat (replicate mn S) @ (if ?n > 0 then [elem GRETYPE_RULE_REF k] else [])"
    using handle_repetitions_tail [OF assms(1-4)] by blast
  have p: "parser_ok (sq_parser s)" "body_ok ?N S" "no_ends S" using assms(1,3) by (simp_all add: seq_ok_def symbol_ok_def no_ends_def)
  have N': "n_symbols (sq_parser s') = ?N + ?n" using rep_rules_ok [OF p(1) assms(2) p(2) _ rep] by simp
  note content = rep_rules_content [OF p(1) assms(2) p(2) _ rep, simplified]
  have rules: "?N + i < length rules \<and> rules ! (?N + i) = rep_rule S (mx = UINT64_MAX) (i = 0) (?N + i) (if i = 0 then 0 else ?N + i - 1)" if "i < ?n" for i
    using assms(7) N' content that by simp
  note copies = copies_lang [OF p(3) body_proper_head [OF p(2)] S]
  consider "mx = UINT64_MAX" | "mx < UINT64_MAX" "mn = mx" | "mx < UINT64_MAX" "mn < mx" using assms(5,6) by linarith
  then show ?thesis
  proof cases
    case 1
    then have n: "?n = 1" by (simp add: n_optional_def)
    then have k: "k = ?N" using content by simp
    have star: "rule_lang rules ?N v \<longleftrightarrow> (\<exists>j. lang_power ?L j v)" for v
      by (rule star_rule [OF _ _ p(3)]) (use rules [of 0] n 1 in \<open>simp_all add: rep_rule_def\<close>)
    have "list_lang rules (drop (sq_last_sym_start s) (sq_rule s')) w \<longleftrightarrow> (\<exists>j u v. w = u @ v \<and> lang_power ?L mn u \<and> lang_power ?L j v)"
      using copies [of "[elem GRETYPE_RULE_REF k]" rules mn w] n by (auto simp: rule list_lang_reference k star proper_head_def)
    also have "\<dots> \<longleftrightarrow> (\<exists>j. lang_power ?L (mn + j) w)" by (simp add: lang_power_add)
    also have "\<dots> \<longleftrightarrow> (\<exists>k \<ge> mn. lang_power ?L k w)" by (metis le_add1 le_Suc_ex)
    finally show ?thesis using 1 by simp
  next
    case 2
    then have "?n = 0" by (simp add: n_optional_def)
    then have "list_lang rules (drop (sq_last_sym_start s) (sq_rule s')) w \<longleftrightarrow> lang_power ?L mn w"
      using copies [of "[]" rules mn w] by (simp add: rule proper_head_def)
    then show ?thesis using 2 by (auto simp: le_antisym)
  next
    case 3
    then have "mx + 2 ^ 64 - mn = mx - mn + 2 ^ 64" "mx - mn < 2 ^ 64" by (simp_all add: UINT64_MAX_def)
    then have "(mx + 2 ^ 64 - mn) mod 2 ^ 64 = mx - mn" by (simp only: mod_add_self2 mod_less)
    then have n: "?n = mx - mn" "?n > 0" using 3 by (simp_all add: n_optional_def del: power_numeral)
    then have k: "k = ?N + (?n - 1)" using content by simp
    have chain: "rule_lang rules k v \<longleftrightarrow> (\<exists>j \<le> ?n. lang_power ?L j v)" for v
      using chain_rule [OF p(3) body_proper_head [OF p(2)], of ?n ?N rules "?n - 1" v] rules n(2) 3 unfolding k
      by (simp add: rep_rule_def)
    have "list_lang rules (drop (sq_last_sym_start s) (sq_rule s')) w \<longleftrightarrow> (\<exists>j \<le> ?n. \<exists>u v. w = u @ v \<and> lang_power ?L mn u \<and> lang_power ?L j v)"
      using copies [of "[elem GRETYPE_RULE_REF k]" rules mn w] n by (auto simp: rule list_lang_reference chain proper_head_def)
    also have "\<dots> \<longleftrightarrow> (\<exists>j \<le> ?n. lang_power ?L (mn + j) w)" by (simp add: lang_power_add)
    also have "\<dots> \<longleftrightarrow> (\<exists>k \<ge> mn. k \<le> mx \<and> lang_power ?L k w)"
    proof
      assume "\<exists>j \<le> ?n. lang_power ?L (mn + j) w"
      then obtain j where "j \<le> ?n" "lang_power ?L (mn + j) w" by blast
      then show "\<exists>k \<ge> mn. k \<le> mx \<and> lang_power ?L k w" using 3 by (intro exI [of _ "mn + j"]) (simp add: n(1))
    next
      assume "\<exists>k \<ge> mn. k \<le> mx \<and> lang_power ?L k w"
      then obtain k where "mn \<le> k" "k \<le> mx" "lang_power ?L k w" by blast
      then show "\<exists>j \<le> ?n. lang_power ?L (mn + j) w" by (intro exI [of _ "k - mn"]) (simp add: n(1))
    qed
    finally show ?thesis using 3 by simp
  qed
qed

text \<open>After \<open>root ::= x\<close>, with \<open>x ::= "a"\<close>, the bounds \<open>{1,3}\<close>.\<close>

definition repeated_state :: seq_state where
  "repeated_state = \<lparr>sq_rule = [elem GRETYPE_RULE_REF 1], sq_last_sym_start = 0,
     sq_parser = \<lparr>gp_symbol_ids = [([114, 111, 111, 116], 0), ([120], 1)], gp_rules = [[], [elem GRETYPE_CHAR 97, elem GRETYPE_END 0]]\<rparr>, sq_pos = []\<rparr>"

definition repeated_rules :: llama_grammar_rules where
  "repeated_rules = [[], [elem GRETYPE_CHAR 97, elem GRETYPE_END 0],
     [elem GRETYPE_RULE_REF 1, elem GRETYPE_ALT 0, elem GRETYPE_END 0], [elem GRETYPE_RULE_REF 1, elem GRETYPE_RULE_REF 2, elem GRETYPE_ALT 0, elem GRETYPE_END 0]]"

theorem repetition_meaning_witness:
  "\<forall>w. list_lang repeated_rules [elem GRETYPE_RULE_REF 1, elem GRETYPE_RULE_REF 3] w \<longleftrightarrow>
    (\<exists>k \<ge> 1. (3 = UINT64_MAX \<or> k \<le> 3) \<and> lang_power (list_lang repeated_rules [elem GRETYPE_RULE_REF 1]) k w)"
proof -
  let ?s' = "repeated_state\<lparr>sq_rule := [elem GRETYPE_RULE_REF 1, elem GRETYPE_RULE_REF 3],
    sq_parser := \<lparr>gp_symbol_ids = [([114, 111, 111, 116], 0), ([120], 1), (generated_name [114, 111, 111, 116] 2, 2), (generated_name [114, 111, 111, 116] 3, 3)], gp_rules = repeated_rules\<rparr>\<rparr>"
  have "list_lang repeated_rules (drop (sq_last_sym_start repeated_state) (sq_rule ?s')) w \<longleftrightarrow>
    (\<exists>k \<ge> 1. (3 = UINT64_MAX \<or> k \<le> 3) \<and> lang_power (list_lang repeated_rules [elem GRETYPE_RULE_REF 1]) k w)" for w
  proof (rule repetition_meaning)
    show "seq_ok repeated_state" "word_name [114, 111, 111, 116]"
      by (simp_all add: repeated_state_def seq_ok_def parser_ok_def ids_ok_def word_name_def is_word_char_def is_digit_char_def symbol_ok_def body_ok_def is_end_of_sequence_def adjacent_ok_def full_rule_def
        upt_rec exI [of _ "[elem GRETYPE_CHAR 97]"])
    show "[elem GRETYPE_RULE_REF 1] = drop (sq_last_sym_start repeated_state) (sq_rule repeated_state)" by code_simp
    show "handle_repetitions [114, 111, 111, 116] 1 3 repeated_state = Inr ?s'" by code_simp
    show "3 \<le> UINT64_MAX" by code_simp
  qed (auto simp: repeated_rules_def)
  then show ?thesis by (simp add: repeated_state_def)
qed

end
