(* ===== verification/Spec2Isabelle.thy ===== *)
theory Spec2Isabelle
  imports Direct_Bridge Kq_Mask Grammar_Repeat
begin

text \<open>
  The local language-model engine of the application, from the Android bridge down to the cells
  of the attention cache. The application (Kotlin and Swift, not modelled) asks a model that runs
  on the phone; the C++ code between the two is \<open>ai_chat.cpp\<close> (under
  \<open>src/llama.cpp/examples/llama.android/lib/src/main/cpp/\<close>), which drives the library in
  \<open>src/iosApp/llama.cpp/\<close>. Paths below are relative to that library unless they name the bridge.

  How the parts interact. The bridge formats and tokenizes a prompt, fills a batch, and calls
  \<open>llama_decode\<close>. The context has its batch allocator check and complete the batch, has the
  cache split it into micro-batches and find cells for all of them (\<open>init_batch\<close>,
  \<open>prepare\<close>), then runs the graph once per micro-batch after placing its tokens
  (\<open>apply_ubatch\<close>) and writing the attention mask; if a run fails, the micro-batch is removed from
  the cache. The rows of logits are looked up through an output table that is
  sorted lazily. The sampler turns the last row into a token, and the bridge collects the bytes of the
  tokens until they are valid UTF-8, or until they contain a complete JSON object.

  Theories, in the order of their imports:

  \<^item> \<open>Prelude\<close>: names of the machine types, the faults (a failed \<open>GGML_ASSERT\<close>, a null or
    dangling pointer, an endless loop, an exception), sequencing of steps that may fault,
    facts about vectors and the loops that sweep over them.
  \<^item> \<open>Pos_Map\<close>: the \<open>std::map\<close> that counts positions in \<open>llama-kv-cells.h\<close>, as a locale of
    ordered counters and its instance.
  \<^item> \<open>Kv_Cells\<close>: \<open>llama_kv_cells\<close> (\<open>src/llama-kv-cells.h\<close>), every member function, as operations
    on a record of the same members. The invariant says that the used set and the position maps
    are exactly what the cells hold; every operation keeps it, and a step relation closes the
    operations under composition.
  \<^item> \<open>Batch\<close>: \<open>llama_batch\<close> and \<open>llama_batch_allocr\<close> (\<open>src/llama-batch.cpp\<close>),
    \<open>common_batch_add\<close> (\<open>common/common.cpp\<close>): what \<open>init\<close> accepts and fills in, and the three ways of
    splitting. The locale \<open>sequence_memory\<close> is the interface through which the allocator sees a memory.
  \<^item> \<open>Kv_Cache\<close>: \<open>llama_kv_cache\<close> (\<open>src/llama-kv-cache.cpp\<close>): sequence editing, slot search,
    \<open>apply_ubatch\<close>, \<open>prepare\<close>, \<open>init_batch\<close>, \<open>update\<close>. The loops that change cell after cell are
    instances of the locale \<open>cell_sweep\<close>; the specifications speak of the abstract contents of the cache, the set
    \<open>kv_positions k s\<close> of the positions of a sequence.
  \<^item> \<open>Kv_Slots\<close>: exactness of the slot search, that \<open>prepare\<close> takes back what it tried, and that the
    decode of an accepted batch adds exactly its positions (the refinement of the cache by
    sets of positions). It interprets \<open>sequence_memory\<close> on the cache.
  \<^item> \<open>Kq_Mask\<close>: \<open>set_input_kq_mask\<close> computes the reference mask although it copies the row
    of an earlier token and patches it.
  \<^item> \<open>Outputs\<close>: the output ids, the recorded swaps and the lazy reordering of the rows
    (\<open>src/llama-context.cpp\<close>).
  \<^item> \<open>Decode\<close>: \<open>llama_context::decode\<close> with the memory update, the retry, the loop over the
    micro-batches and the rollback. The compute graph is the parameter \<open>engine\<close>; the hypothesis
    \<open>computes_rows\<close> says that it returns one row per output.
  \<^item> \<open>Utf8\<close>: the encoder, the decoders and the byte alphabet of \<open>src/unicode.cpp\<close>, the
    incremental decoder of \<open>src/llama-grammar.cpp\<close> and \<open>is_valid_utf8\<close> of the bridge.
  \<^item> \<open>Json_Scan\<close>: \<open>try_extract_complete_json_object\<close> of the bridge against a printer of JSON values.
  \<^item> \<open>Chat_State\<close>: the globals of \<open>ai_chat.cpp\<close> as one record, a heap of the objects they point to, and
    the entry points that load and free. Freeing or reading an address that holds nothing is a fault,
    so a double free and a use after free are visible. What the bridge calls outside this development is the
    record \<open>native\<close> of functions on an abstract world.
  \<^item> \<open>Ai_Chat\<close>: prompts, shifting, decoding and sampling in the bridge, and the lemmas on one step
    of a session, in which the cache holds exactly the positions below the current one.
  \<^item> \<open>Conversation\<close>: what \<open>processSystemPrompt\<close>, \<open>processUserPrompt\<close> and repeated calls of
    \<open>generateNextToken\<close> achieve.
  \<^item> \<open>Direct_Bridge\<close>: \<open>nativeInfer\<close> with its time limit and cancel flag, and the states that any sequence of
    calls of the direct bridge reaches.

  \<^item> \<open>Grammar\<close>: grammar-constrained sampling (\<open>src/llama-grammar.cpp\<close>): the rules as lists of elements, the
    pushdown stacks as lists of pointers (rule and index), matching, expanding, accepting and rejecting,
    the check for left recursion, \<open>init\<close>, \<open>accept\<close> with its lazy trigger and \<open>apply\<close>; the meaning of a grammar without
    stacks (\<open>rule_lang\<close>), and that stepping through a text follows it.
  \<^item> \<open>Grammar_Check\<close>: the check for left recursion is exact on its own terms, when it is enough for the expansion
    of stacks to end, and a grammar where it is not.
  \<^item> \<open>Grammar_Sampling\<close>: the stacks accept exactly the language, and the mask of \<open>apply\<close> bans exactly what
    \<open>accept\<close> would refuse.
  \<^item> \<open>Grammar_Safety\<close>: no assertion of the sampler fails in a reachable state; the mask for partial characters.
  \<^item> \<open>Grammar_Parser\<close>: \<open>llama_grammar_parser\<close>: the compilation of grammar texts to rules, exceptions included. The
    loops over the text are instances of the locale \<open>text_loop\<close>; the invariant of the parser gives well-formed rules.
  \<^item> \<open>Grammar_Text\<close>: from texts to samplers, and two texts that should be refused.
  \<^item> \<open>Grammar_Repeat\<close>: the languages of lists of elements, and the meaning of the rules synthesized for repetitions.

  Termination and fuel. Loops over vectors are structural or have a measure. Some loops run on fuel.
  The slot search (\<open>find_cells\<close>) gets \<open>2 * size + 2\<close> steps: the search wraps around at most once, so the fuel
  never runs out, which \<open>find_cells_exact\<close> shows. The splitting loop (\<open>collect_ubatches\<close>) gets one step per
  token and one more: every micro-batch takes a token. The recursion of the grammar sampler (\<open>advance_stack\<close>,
  \<open>reject_candidates\<close>) takes its depth as an argument; the theorems state that some depth is enough, and name a grammar for
  which none is. The check for left recursion gets one level more than there are rules. The loops of the grammar parser get
  one step per character left and one more, its groups one level per character: every turn uses up text. Running out would be the fault \<open>Diverged\<close>, and the
  theorems that a call returns exclude it.

  Integers. Positions and tokens are \<open>int\<close>: signed overflow is undefined in C++, so the theorems
  that add positions have a bound by \<open>LLAMA_POS_MAX\<close>, or the range of \<open>int32_t\<close> (\<open>shift_fits\<close>), as a hypothesis. Bytes and code points are words,
  natural numbers below the bound in the grammar parser. Its counts of repetitions are 64-bit numbers and its identifiers of rules
  32-bit numbers, both with the wrap-around written out; memory does not run out. A text of fewer than \<open>2^32 / 2000\<close> bytes never
  has so many symbols that the identifiers wrap around, unless the bounds of a repetition are reversed, which the source fails to refuse.
  Division of the bridge truncates towards zero. The values of logits are abstract; times are integers.

  Contracts of code outside: \<open>computes_rows\<close> (the graph), \<open>native_ok\<close> (the tokenizer and the sampler return
  tokens of the vocabulary), \<open>contexts_ok\<close> (a new context is well-formed, its cache has one stream and no sliding window, its
  vocabulary has at least these tokens, and its batch has the size asked for or that of the context, as \<open>std::min\<close> in the constructor of
  \<open>llama_context\<close> makes it). Their witnesses instantiate them with \<open>demo_native\<close> and \<open>graph\<close>.

  Simplifications. \<open>llama_batch_init\<close> is the one for tokens (\<open>embd = 0\<close>). When \<open>accept\<close> of the grammar sampler throws for an empty
  stack, the state it leaves behind is not part of the result.

  Not modelled: the tensors of the cache and their graphs, saved states, the recurrent, hybrid and
  sliding-window memories, model files and architectures, the tokenizers, the samplers, the
  regular expressions that trigger a lazy grammar (functions from the buffer to a position), chat templates and the tensor library (numeric, third-party or I/O code that the modelled part reaches
  through the parameters above); \<open>whisper.cpp\<close>; the benchmark, the system information and the logging of the bridge; the Kotlin and
  Swift code.
\<close>

end
